(* ===== verification/Prelude.thy ===== *)
theory Prelude
  imports "HOL-Library.Word" "HOL-Library.Monad_Syntax"
begin

text \<open>
  Shared vocabulary of the kernel development.

  A kernel routine that can stop the machine (a failed KASSERT, a call of panic)
  returns an \<^typ>\<open>'a option\<close>, with None for the stopped machine; a
  routine that can fail with an error number returns \<^typ>\<open>'e + 'a\<close>, with
  Inl for the error.  Both occur together as an option of a sum.  The option
  monad of the library then reads like the statement sequence of the source.
\<close>

unbundle bit_operations_syntax

section \<open>Error numbers (kern/include/kern/errno.h)\<close>

datatype errno =
    ENOSYS | EUNIMP | ENOMEM | EAGAIN | EINTR | EFAULT | ENAMETOOLONG | EINVAL | EPERM
  | EACCES | EMPROC | ENPROC | ENOEXEC | E2BIG | ESRCH | ECHILD | ENOTDIR | EISDIR | ENOENT
  | ELOOP | ENOTEMPTY | EEXIST | EMLINK | EXDEV | ENODEV | ENXIO | EBUSY | EMFILE | ENFILE
  | EBADF | EIOCTL | EIO | ESPIPE | EPIPE | EROFS | ENOSPC | EDQUOT | EFBIG

section \<open>Assertions\<close>

definition KASSERT :: "bool \<Rightarrow> unit option" where
  "KASSERT b = (if b then Some () else None)"

lemma KASSERT_simps [simp]:
  "KASSERT True = Some ()"
  "KASSERT False = None"
  "(KASSERT b = Some u) = b"
  "(KASSERT b = None) = (\<not> b)"
  by (simp_all add: KASSERT_def)

lemma KASSERT_bind [simp]:
  "(KASSERT b \<bind> f) = (if b then f () else None)"
  by (simp add: KASSERT_def)

section \<open>Integer division as the kernel headers write it\<close>

definition DIVROUNDUP :: "nat \<Rightarrow> nat \<Rightarrow> nat" where
  "DIVROUNDUP a b = ((a + b - 1) mod 2 ^ 32) div b"

lemma DIVROUNDUP_less:
  assumes "a + b - 1 < 2 ^ 32" "0 < b" "i < a"
  shows "i div b < DIVROUNDUP a b"
proof -
  have "i + b \<le> a + b - 1"
    using assms by simp
  then have "(i + b) div b \<le> (a + b - 1) div b"
    by (rule div_le_mono)
  moreover have "(i + b) div b = Suc (i div b)"
    using assms(2) div_add_self2 [of b i] by simp
  ultimately show ?thesis
    using assms(1) by (simp add: DIVROUNDUP_def)
qed

lemma split_index:
  assumes "0 < (b :: nat)"
  obtains q r where "i = q * b + r" "r < b"
  using assms by (metis div_mult_mod_eq mod_less_divisor)

section \<open>Lists\<close>

lemma find_upt_Some:
  "find P [0..<n] = Some i \<longleftrightarrow> i < n \<and> P i \<and> (\<forall>j < i. \<not> P j)"
  by (auto simp: find_Some_iff)

lemma find_upt_None:
  "find P [0..<n] = None \<longleftrightarrow> (\<forall>j < n. \<not> P j)"
  by (auto simp: find_None_iff)

lemma find_upt_first:
  assumes "\<exists>i < n. P i"
  obtains i where "find P [0..<n] = Some i" "i < n" "P i" "\<forall>j < i. \<not> P j"
  using assms find_upt_None [of P n] find_upt_Some [of P n] by (metis option.exhaust)

section \<open>Single bits of a machine word\<close>

lemma word_all_bits:
  fixes w :: "'a :: len word"
  shows "w = - 1 \<longleftrightarrow> (\<forall>n < LENGTH('a). bit w n)"
  by (auto simp: bit_eq_iff bit_simps dest: bit_imp_le_length)

section \<open>32-bit words as integers\<close>

lemma unat_less32: "unat (w :: 32 word) < 4294967296"
  using unsigned_less [of w] by simp

lemma uint_less32: "uint (w :: 32 word) < 4294967296"
  using unsigned_less [of w, where ?'a = int] by simp

lemma uint_nonneg32: "0 \<le> uint (w :: 32 word)"
  by simp

lemma sint32:
  "sint (w :: 32 word) = (if uint w < 2147483648 then uint w else uint w - 4294967296)"
proof -
  have s: "sint w = signed_take_bit 31 (uint w)"
    using sint_uint [of w] by simp
  show ?thesis
  proof (cases "uint w < 2147483648")
    case True
    then show ?thesis
      by (simp add: s signed_take_bit_eq_take_bit_shift take_bit_eq_mod)
  next
    case False
    then have "(uint w + 2147483648) mod 4294967296 = uint w - 2147483648"
      using uint_less32 [of w] mod_pos_geq [of 4294967296 "uint w + 2147483648"] by simp
    then show ?thesis
      using False by (simp add: s signed_take_bit_eq_take_bit_shift take_bit_eq_mod)
  qed
qed

lemma uint_plus32:
  "uint ((a :: 32 word) + b) =
    (if uint a + uint b < 4294967296 then uint a + uint b else uint a + uint b - 4294967296)"
proof -
  have "(uint a + uint b) mod 4294967296 = uint a + uint b - 4294967296"
    if "4294967296 \<le> uint a + uint b"
  proof -
    have "(uint a + uint b - 4294967296) mod 4294967296 = uint a + uint b - 4294967296"
      using that uint_less32 [of a] uint_less32 [of b] by (intro mod_pos_pos_trivial) linarith+
    then show ?thesis
      using that mod_pos_geq [of 4294967296 "uint a + uint b"] by linarith
  qed
  then show ?thesis
    by (auto simp: uint_word_ariths)
qed

lemmas word32_arith = word_le_def word_less_def word_sless_alt word_sle_eq sint32 uint_plus32

end
