(* ===== verification/Bitmap.thy ===== *)
theory Bitmap
  imports Prelude
begin

text \<open>
  The fixed-size bit array of kern/lib/bitmap.c, used for storage management: the
  swap file allocates page slots from one, the file system allocates disk blocks
  from one.  The model keeps the array of bytes of the source, with the leftover
  bits of the last byte permanently marked.  The locale \<open>index_allocator\<close> is
  the contract its clients rely on; the interpretation \<open>bm\<close> shows that the byte
  array implements it.
\<close>

section \<open>Model\<close>

record bitmap =
  nbits :: nat
  bm_v :: "8 word list"

definition bitmap_mask :: "nat \<Rightarrow> 8 word" where
  "bitmap_mask offset = push_bit offset 1"

text \<open>The two arguments of type bool are the outcomes of the two calls of kmalloc;
  the outer option is None on a failed assertion, the inner one on NULL.\<close>

definition bitmap_create :: "bool \<Rightarrow> bool \<Rightarrow> nat \<Rightarrow> bitmap option option" where
  "bitmap_create mem_b mem_v n =
    (let words = DIVROUNDUP n 8 in
     if \<not> mem_b then Some None
     else if \<not> mem_v then Some None
     else
       let v = replicate words 0 in
       if words > n div 8 then
         let ix = words - 1; overbits = n - ix * 8 in
         do {
           KASSERT (n div 8 = words - 1);
           KASSERT (overbits > 0 \<and> overbits < 8);
           Some (Some \<lparr>nbits = n,
             bm_v = v[ix := fold (\<lambda>j w. w OR bitmap_mask j) [overbits..<8] (v ! ix)]\<rparr>)
         }
       else Some (Some \<lparr>nbits = n, bm_v = v\<rparr>))"

definition bitmap_getdata :: "bitmap \<Rightarrow> 8 word list" where
  "bitmap_getdata b = bm_v b"

definition bitmap_alloc :: "bitmap \<Rightarrow> (errno + nat \<times> bitmap) option" where
  "bitmap_alloc b =
    (let maxix = DIVROUNDUP (nbits b) 8 in
     case find (\<lambda>ix. bm_v b ! ix \<noteq> 0xff) [0..<maxix] of
       None \<Rightarrow> Some (Inl ENOSPC)
     | Some ix \<Rightarrow>
         (case find (\<lambda>offset. bm_v b ! ix AND bitmap_mask offset = 0) [0..<8] of
            None \<Rightarrow> None
          | Some offset \<Rightarrow>
              let index = ix * 8 + offset in
              do {
                KASSERT (index < nbits b);
                Some (Inr (index,
                  b\<lparr>bm_v := (bm_v b)[ix := bm_v b ! ix OR bitmap_mask offset]\<rparr>))
              }))"

definition bitmap_translate :: "nat \<Rightarrow> nat \<times> 8 word" where
  "bitmap_translate bitno = (bitno div 8, bitmap_mask (bitno mod 8))"

definition bitmap_mark :: "bitmap \<Rightarrow> nat \<Rightarrow> bitmap option" where
  "bitmap_mark b index =
    do {
      KASSERT (index < nbits b);
      let (ix, mask) = bitmap_translate index;
      KASSERT (bm_v b ! ix AND mask = 0);
      Some (b\<lparr>bm_v := (bm_v b)[ix := bm_v b ! ix OR mask]\<rparr>)
    }"

definition bitmap_unmark :: "bitmap \<Rightarrow> nat \<Rightarrow> bitmap option" where
  "bitmap_unmark b index =
    do {
      KASSERT (index < nbits b);
      let (ix, mask) = bitmap_translate index;
      KASSERT (bm_v b ! ix AND mask \<noteq> 0);
      Some (b\<lparr>bm_v := (bm_v b)[ix := bm_v b ! ix AND NOT mask]\<rparr>)
    }"

definition bitmap_isset :: "bitmap \<Rightarrow> nat \<Rightarrow> bool" where
  "bitmap_isset b index =
    (let (ix, mask) = bitmap_translate index in bm_v b ! ix AND mask \<noteq> 0)"

section \<open>Invariant and abstraction\<close>

definition bm_bit :: "8 word list \<Rightarrow> nat \<Rightarrow> bool" where
  "bm_bit v i = bit (v ! (i div 8)) (i mod 8)"

definition bitmap_inv :: "bitmap \<Rightarrow> bool" where
  "bitmap_inv b \<longleftrightarrow>
     nbits b + 7 < 2 ^ 32 \<and> length (bm_v b) = (nbits b + 7) div 8 \<and>
     (\<forall>i \<in> {nbits b..<8 * length (bm_v b)}. bm_bit (bm_v b) i)"

definition bitmap_used :: "bitmap \<Rightarrow> nat set" where
  "bitmap_used b = {i. i < nbits b \<and> bm_bit (bm_v b) i}"

lemma bit_bitmap_mask [simp]:
  "bit (bitmap_mask n) m \<longleftrightarrow> m = n \<and> n < 8"
  by (auto simp: bitmap_mask_def bit_simps)

lemma bit_or_mask [simp]:
  "bit (w OR bitmap_mask n) m \<longleftrightarrow> bit w m \<or> m = n \<and> n < 8"
  by (simp add: bit_or_iff)

lemma bit_and_not_mask [simp]:
  "bit (w AND NOT (bitmap_mask n)) m \<longleftrightarrow> bit w m \<and> m \<noteq> n"
  by (auto simp: bit_and_iff bit_not_iff dest: bit_imp_le_length)

lemma and_mask_zero [simp]:
  "n < 8 \<Longrightarrow> w AND bitmap_mask n = 0 \<longleftrightarrow> \<not> bit w n"
  by (auto simp: bit_eq_iff [where ?'a = "8 word"] bit_and_iff)

lemma bm_bit_or:
  assumes "j < 8 * length v"
  shows "bm_bit (v[j div 8 := v ! (j div 8) OR bitmap_mask (j mod 8)]) i \<longleftrightarrow>
    bm_bit v i \<or> i = j"
proof -
  have "j div 8 < length v" using assms by simp
  moreover have "i div 8 = j div 8 \<and> i mod 8 = j mod 8 \<longleftrightarrow> i = j"
    by (metis div_mult_mod_eq)
  ultimately show ?thesis
    by (cases "i div 8 = j div 8") (auto simp: bm_bit_def)
qed

lemma bm_bit_and_not:
  assumes "j < 8 * length v"
  shows "bm_bit (v[j div 8 := v ! (j div 8) AND NOT (bitmap_mask (j mod 8))]) i \<longleftrightarrow>
    bm_bit v i \<and> i \<noteq> j"
proof -
  have "j div 8 < length v" using assms by simp
  moreover have "i div 8 = j div 8 \<and> i mod 8 = j mod 8 \<longleftrightarrow> i = j"
    by (metis div_mult_mod_eq)
  ultimately show ?thesis
    by (cases "i div 8 = j div 8") (auto simp: bm_bit_def)
qed

lemma byte_full:
  "(w :: 8 word) \<noteq> 0xff \<longleftrightarrow> (\<exists>n < 8. \<not> bit w n)"
proof -
  have "(0xff :: 8 word) = - 1" by simp
  then have "w \<noteq> 0xff \<longleftrightarrow> w \<noteq> - 1"
    by (simp only:)
  then show ?thesis
    using word_all_bits [of w] by simp
qed

lemma bitmap_inv_DIVROUNDUP:
  "bitmap_inv b \<Longrightarrow> DIVROUNDUP (nbits b) 8 = length (bm_v b)"
  by (simp add: bitmap_inv_def DIVROUNDUP_def)

lemma bitmap_inv_length:
  "bitmap_inv b \<Longrightarrow> nbits b \<le> 8 * length (bm_v b)"
  by (simp add: bitmap_inv_def)

lemma bitmap_inv_bit:
  "bitmap_inv b \<Longrightarrow> i < 8 * length (bm_v b) \<Longrightarrow> \<not> bm_bit (bm_v b) i \<Longrightarrow>
    i < nbits b \<and> i \<notin> bitmap_used b"
  by (force simp: bitmap_inv_def bitmap_used_def)

lemma bitmap_inv_update:
  assumes "bitmap_inv b" "length v = length (bm_v b)"
    "\<And>i. nbits b \<le> i \<Longrightarrow> bm_bit (bm_v b) i \<Longrightarrow> bm_bit v i"
  shows "bitmap_inv (b\<lparr>bm_v := v\<rparr>)"
  using assms by (auto simp: bitmap_inv_def)

lemma bm_bit_split:
  "offset < 8 \<Longrightarrow> bm_bit v (ix * 8 + offset) \<longleftrightarrow> bit (v ! ix) offset"
  by (simp add: bm_bit_def)

section \<open>The contract of an index allocator\<close>

locale index_allocator =
  fixes inv :: "'b \<Rightarrow> bool"
    and capacity :: "'b \<Rightarrow> nat"
    and used :: "'b \<Rightarrow> nat set"
    and alloc :: "'b \<Rightarrow> (errno + nat \<times> 'b) option"
    and mark :: "'b \<Rightarrow> nat \<Rightarrow> 'b option"
    and unmark :: "'b \<Rightarrow> nat \<Rightarrow> 'b option"
  assumes used_bound: "inv b \<Longrightarrow> used b \<subseteq> {..<capacity b}"
    and alloc_full: "inv b \<Longrightarrow> used b = {..<capacity b} \<Longrightarrow> alloc b = Some (Inl ENOSPC)"
    and alloc_free: "inv b \<Longrightarrow> used b \<noteq> {..<capacity b} \<Longrightarrow>
      \<exists>i b'. alloc b = Some (Inr (i, b')) \<and> i < capacity b \<and> i \<notin> used b \<and>
        {..<i} \<subseteq> used b \<and> inv b' \<and> capacity b' = capacity b \<and> used b' = insert i (used b)"
    and mark_ok: "inv b \<Longrightarrow> i < capacity b \<Longrightarrow> i \<notin> used b \<Longrightarrow>
      \<exists>b'. mark b i = Some b' \<and> inv b' \<and> capacity b' = capacity b \<and> used b' = insert i (used b)"
    and unmark_ok: "inv b \<Longrightarrow> i \<in> used b \<Longrightarrow>
      \<exists>b'. unmark b i = Some b' \<and> inv b' \<and> capacity b' = capacity b \<and> used b' = used b - {i}"
    and unmark_bad: "inv b \<Longrightarrow> i \<notin> used b \<Longrightarrow> unmark b i = None"
    and mark_bad: "inv b \<Longrightarrow> i \<in> used b \<or> capacity b \<le> i \<Longrightarrow> mark b i = None"
begin

lemma alloc_total:
  "inv b \<Longrightarrow> alloc b \<noteq> None"
  using alloc_full alloc_free by fastforce

lemma alloc_SomeD:
  assumes "inv b" "alloc b = Some (Inr (i, b'))"
  shows "i < capacity b" "i \<notin> used b" "{..<i} \<subseteq> used b" "inv b'"
    "capacity b' = capacity b" "used b' = insert i (used b)"
  using assms alloc_full [of b] alloc_free [of b] by fastforce+

lemma alloc_ErrD:
  assumes "inv b" "alloc b = Some (Inl e)"
  shows "e = ENOSPC" "used b = {..<capacity b}"
  using assms alloc_full [of b] alloc_free [of b] by fastforce+

lemma mark_SomeD:
  assumes "inv b" "mark b i = Some b'"
  shows "i < capacity b" "i \<notin> used b" "inv b'" "capacity b' = capacity b"
    "used b' = insert i (used b)"
proof -
  show *: "i < capacity b" "i \<notin> used b"
    using assms mark_bad [of b i] not_less by (metis option.distinct(1))+
  show "inv b'" "capacity b' = capacity b" "used b' = insert i (used b)"
    using mark_ok [OF assms(1) *] assms(2) by auto
qed

lemma unmark_SomeD:
  assumes "inv b" "unmark b i = Some b'"
  shows "i \<in> used b" "inv b'" "capacity b' = capacity b" "used b' = used b - {i}"
proof -
  show *: "i \<in> used b"
    using assms unmark_bad [of b i] by auto
  show "inv b'" "capacity b' = capacity b" "used b' = used b - {i}"
    using unmark_ok [OF assms(1) *] assms(2) by auto
qed

lemma finite_used: "inv b \<Longrightarrow> finite (used b)"
  using used_bound finite_subset by blast

lemma card_used: "inv b \<Longrightarrow> card (used b) \<le> capacity b"
  using used_bound [of b] card_mono [of "{..<capacity b}" "used b"] by simp

lemma alloc_unmark:
  assumes "inv b" "alloc b = Some (Inr (i, b'))"
  shows "\<exists>b''. unmark b' i = Some b'' \<and> inv b'' \<and> capacity b'' = capacity b \<and> used b'' = used b"
  using unmark_ok [of b' i] alloc_SomeD [OF assms] by auto

lemma alloc_fails_iff:
  assumes "inv b"
  shows "alloc b = Some (Inl ENOSPC) \<longleftrightarrow> card (used b) = capacity b"
proof
  assume "alloc b = Some (Inl ENOSPC)"
  then show "card (used b) = capacity b"
    using alloc_ErrD(2) [OF assms] by simp
next
  assume "card (used b) = capacity b"
  then have "used b = {..<capacity b}"
    using used_bound [OF assms] by (simp add: card_subset_eq)
  then show "alloc b = Some (Inl ENOSPC)"
    using alloc_full [OF assms] by simp
qed

end

section \<open>The byte array implements the contract\<close>

lemma bitmap_used_bound: "bitmap_used b \<subseteq> {..<nbits b}"
  by (auto simp: bitmap_used_def)

lemma bitmap_full_bytes:
  assumes "bitmap_inv b"
  shows "bitmap_used b = {..<nbits b} \<longleftrightarrow> (\<forall>ix < length (bm_v b). bm_v b ! ix = 0xff)"
    (is "?full \<longleftrightarrow> ?bytes")
proof
  assume full: ?full
  show ?bytes
  proof (intro allI impI)
    fix ix assume "ix < length (bm_v b)"
    then have "bit (bm_v b ! ix) n" if "n < 8" for n
      using bitmap_inv_bit [OF assms, of "ix * 8 + n"] that full
      by (auto simp: bm_bit_split)
    then show "bm_v b ! ix = 0xff"
      using byte_full by blast
  qed
next
  assume bytes: ?bytes
  have "bm_bit (bm_v b) i" if "i < nbits b" for i
  proof -
    have "i div 8 < length (bm_v b)"
      using that bitmap_inv_length [OF assms] by simp
    then show ?thesis
      using bytes byte_full [of "bm_v b ! (i div 8)"] by (auto simp: bm_bit_def)
  qed
  then show ?full
    by (auto simp: bitmap_used_def)
qed

lemma bitmap_alloc_full:
  assumes "bitmap_inv b" "bitmap_used b = {..<nbits b}"
  shows "bitmap_alloc b = Some (Inl ENOSPC)"
proof -
  have "find (\<lambda>ix. bm_v b ! ix \<noteq> 0xff) [0..<length (bm_v b)] = None"
    using assms bitmap_full_bytes [of b] by (simp add: find_upt_None)
  then show ?thesis
    using assms(1) by (simp add: bitmap_alloc_def bitmap_inv_DIVROUNDUP)
qed

lemma bitmap_set_bit:
  assumes "bitmap_inv b" "i < nbits b"
  defines "b' \<equiv> b\<lparr>bm_v := (bm_v b)[i div 8 := bm_v b ! (i div 8) OR bitmap_mask (i mod 8)]\<rparr>"
  shows "bitmap_inv b' \<and> nbits b' = nbits b \<and> bitmap_used b' = insert i (bitmap_used b)"
proof -
  have "i < 8 * length (bm_v b)"
    using assms bitmap_inv_length [of b] by simp
  note bits = bm_bit_or [OF this]
  have "bitmap_inv b'"
    unfolding b'_def by (rule bitmap_inv_update [OF assms(1)]) (simp_all add: bits)
  moreover have "bitmap_used b' = insert i (bitmap_used b)"
    using assms(2) by (auto simp: b'_def bitmap_used_def bits)
  ultimately show ?thesis
    by (simp add: b'_def)
qed

lemma bitmap_alloc_free:
  assumes inv: "bitmap_inv b" and free: "bitmap_used b \<noteq> {..<nbits b}"
  shows "\<exists>i b'. bitmap_alloc b = Some (Inr (i, b')) \<and> i < nbits b \<and> i \<notin> bitmap_used b \<and>
    {..<i} \<subseteq> bitmap_used b \<and> bitmap_inv b' \<and> nbits b' = nbits b \<and>
    bitmap_used b' = insert i (bitmap_used b)"
proof -
  let ?v = "bm_v b"
  have "\<exists>ix < length ?v. ?v ! ix \<noteq> 0xff"
    using free bitmap_full_bytes [OF inv] by blast
  then obtain ix where ix: "find (\<lambda>ix. ?v ! ix \<noteq> 0xff) [0..<length ?v] = Some ix"
    and ix_lt: "ix < length ?v" and ix_free: "?v ! ix \<noteq> 0xff"
    and ix_min: "\<forall>j < ix. \<not> ?v ! j \<noteq> 0xff"
    by (rule find_upt_first)
  have "\<exists>off < 8. ?v ! ix AND bitmap_mask off = 0"
    using ix_free byte_full [of "?v ! ix"] and_mask_zero by blast
  then obtain off where off: "find (\<lambda>off. ?v ! ix AND bitmap_mask off = 0) [0..<8] = Some off"
    and off_lt: "off < 8" and "?v ! ix AND bitmap_mask off = 0"
    and "\<forall>j < off. \<not> ?v ! ix AND bitmap_mask j = 0"
    by (rule find_upt_first)
  then have off_free: "\<not> bit (?v ! ix) off" and off_min: "\<forall>j < off. bit (?v ! ix) j"
    by auto
  let ?i = "ix * 8 + off"
  have i: "?i < nbits b" "?i \<notin> bitmap_used b"
    using bitmap_inv_bit [OF inv, of ?i] ix_lt off_lt off_free by (auto simp: bm_bit_split)
  have below: "{..<?i} \<subseteq> bitmap_used b"
  proof
    fix j assume j: "j \<in> {..<?i}"
    obtain p s where ps: "j = p * 8 + s" "s < 8"
      by (rule split_index [of 8]) simp_all
    with j off_lt have "p < ix \<or> p = ix \<and> s < off"
      by auto
    then have "bm_bit ?v j"
      using ix_min off_min byte_full [of "?v ! p"] ps by (auto simp: bm_bit_split)
    then show "j \<in> bitmap_used b"
      using j i by (simp add: bitmap_used_def)
  qed
  have "?i div 8 = ix" "?i mod 8 = off"
    using off_lt by auto
  then show ?thesis
    using bitmap_set_bit [OF inv i(1)] i below ix off inv
    by (simp add: bitmap_alloc_def bitmap_inv_DIVROUNDUP)
qed

lemma bitmap_test_bit:
  "bm_v b ! (i div 8) AND bitmap_mask (i mod 8) = 0 \<longleftrightarrow> \<not> bm_bit (bm_v b) i"
  by (simp add: bm_bit_def)

lemma bitmap_mark_ok:
  assumes "bitmap_inv b" "i < nbits b" "i \<notin> bitmap_used b"
  shows "\<exists>b'. bitmap_mark b i = Some b' \<and> bitmap_inv b' \<and> nbits b' = nbits b \<and>
    bitmap_used b' = insert i (bitmap_used b)"
  using bitmap_set_bit [OF assms(1,2)] assms(2,3)
  by (simp add: bitmap_mark_def bitmap_translate_def bitmap_test_bit bitmap_used_def)

lemma bitmap_mark_bad:
  "i \<in> bitmap_used b \<or> nbits b \<le> i \<Longrightarrow> bitmap_mark b i = None"
  by (auto simp: bitmap_mark_def bitmap_translate_def bitmap_test_bit bitmap_used_def)

lemma bitmap_unmark_bad:
  "i \<notin> bitmap_used b \<Longrightarrow> bitmap_unmark b i = None"
  by (auto simp: bitmap_unmark_def bitmap_translate_def bitmap_test_bit bitmap_used_def)

lemma bitmap_unmark_ok:
  assumes "bitmap_inv b" "i \<in> bitmap_used b"
  shows "\<exists>b'. bitmap_unmark b i = Some b' \<and> bitmap_inv b' \<and> nbits b' = nbits b \<and>
    bitmap_used b' = bitmap_used b - {i}"
proof -
  let ?b' = "b\<lparr>bm_v := (bm_v b)[i div 8 := bm_v b ! (i div 8) AND NOT (bitmap_mask (i mod 8))]\<rparr>"
  have i: "i < nbits b" "bm_bit (bm_v b) i"
    using assms(2) by (auto simp: bitmap_used_def)
  then have "i < 8 * length (bm_v b)"
    using bitmap_inv_length [OF assms(1)] by simp
  note bits = bm_bit_and_not [OF this]
  have "bitmap_inv ?b'"
    by (rule bitmap_inv_update [OF assms(1)]) (use i in \<open>simp_all add: bits\<close>)
  moreover have "bitmap_used ?b' = bitmap_used b - {i}"
    by (auto simp: bitmap_used_def bits)
  moreover have "bitmap_unmark b i = Some ?b'"
    using i by (simp add: bitmap_unmark_def bitmap_translate_def bitmap_test_bit)
  ultimately show ?thesis by simp
qed

interpretation bm: index_allocator bitmap_inv nbits bitmap_used bitmap_alloc bitmap_mark bitmap_unmark
  by unfold_locales
    (rule bitmap_used_bound bitmap_alloc_full bitmap_alloc_free bitmap_mark_ok bitmap_mark_bad
       bitmap_unmark_ok bitmap_unmark_bad; assumption)+

lemma bitmap_isset_iff:
  "bitmap_inv b \<Longrightarrow> i < nbits b \<Longrightarrow> bitmap_isset b i \<longleftrightarrow> i \<in> bitmap_used b"
  by (simp add: bitmap_isset_def bitmap_translate_def bitmap_test_bit bitmap_used_def)

section \<open>Creation\<close>

lemma bit_fold_mask:
  "n \<le> 8 \<Longrightarrow> bit (fold (\<lambda>j w. w OR bitmap_mask j) [m..<n] w) k \<longleftrightarrow> bit w k \<or> m \<le> k \<and> k < n"
  by (induction n) (auto simp: le_Suc_eq)

lemma bitmap_words:
  assumes "q * 8 + r + 7 < 2 ^ 32" "r < 8"
  shows "DIVROUNDUP (q * 8 + r) 8 = (if r = 0 then q else Suc q)"
proof -
  have "(q * 8 + r + 7) div 8 = (if r = 0 then q else Suc q)"
    by (rule div_nat_eqI) (use assms(2) in auto)
  then show ?thesis
    using assms(1) by (simp add: DIVROUNDUP_def)
qed

lemma bm_bit_create:
  assumes "r < 8" "i < 8 * Suc q"
  shows "bm_bit ((replicate (Suc q) 0)[q := fold (\<lambda>j w. w OR bitmap_mask j) [r..<8] 0]) i
    \<longleftrightarrow> q * 8 + r \<le> i"
proof -
  obtain p s where i: "i = p * 8 + s" and s: "s < 8"
    by (rule split_index [of 8]) simp_all
  show ?thesis
  proof (cases "p = q")
    case True
    then show ?thesis
      unfolding i using s by (subst bm_bit_split) (auto simp: nth_list_update bit_fold_mask simp del: replicate_Suc)
  next
    case False
    then have "p < q" using assms(2) i by simp
    then show ?thesis
      unfolding i using s by (subst bm_bit_split) (auto simp: nth_list_update simp del: replicate_Suc)
  qed
qed

lemma bitmap_create_ok:
  assumes "n + 7 < 2 ^ 32"
  shows "\<exists>b. bitmap_create True True n = Some (Some b) \<and> bitmap_inv b \<and> nbits b = n \<and>
    bitmap_used b = {}"
proof -
  obtain q r where n: "n = q * 8 + r" and r: "r < 8"
    by (rule split_index [of 8]) simp_all
  note words = bitmap_words [OF assms [unfolded n] r]
  show ?thesis
  proof (cases "r = 0")
    case True
    then show ?thesis
      using words assms
      by (auto simp: bitmap_create_def n bitmap_inv_def bitmap_used_def bm_bit_def)
  next
    case False
    let ?b = "\<lparr>nbits = n, bm_v = (replicate (Suc q) 0)
      [q := fold (\<lambda>j w. w OR bitmap_mask j) [r..<8] 0]\<rparr>"
    have "bitmap_create True True n = Some (Some ?b)"
      using words False r by (simp add: bitmap_create_def n Let_def nth_append del: replicate_Suc)
    moreover have "bitmap_inv ?b"
      using bm_bit_create [OF r] assms r False by (simp add: bitmap_inv_def n del: replicate_Suc)
    moreover have "bitmap_used ?b = {}"
      using bm_bit_create [OF r] r by (auto simp: bitmap_used_def n simp del: replicate_Suc)
    ultimately show ?thesis by auto
  qed
qed

text \<open>Creating a bitmap with enough memory succeeds without a failed assertion and gives a
  well-formed bitmap of the requested size in which no index is in use.\<close>

theorem bitmap_create_spec:
  assumes "n + 7 < 2 ^ 32"
  shows "\<exists>b. bitmap_create True True n = Some (Some b) \<and> bitmap_inv b \<and> nbits b = n \<and>
    bitmap_used b = {}"
  using assms by (rule bitmap_create_ok)

theorem bitmap_create_spec_witness:
  "(1200 :: nat) + 7 < 2 ^ 32 \<and> (\<exists>b. bitmap_create True True 1200 = Some (Some b) \<and>
    bitmap_inv b \<and> nbits b = 1200 \<and> bitmap_used b = {})"
  using bitmap_create_spec [of 1200] by simp

text \<open>C23. Allocation from a well-formed bitmap never stops the machine: it fails with ENOSPC exactly
  when every index is in use, and otherwise returns the lowest unused index, marks it and nothing
  else, and unmarking that index gives back the same set of used indices.\<close>

theorem bitmap_alloc_lowest:
  assumes "bitmap_inv b"
  shows "(bitmap_used b = {..<nbits b} \<and> bitmap_alloc b = Some (Inl ENOSPC)) \<or>
    (\<exists>i b' b''. bitmap_alloc b = Some (Inr (i, b')) \<and> i < nbits b \<and> i \<notin> bitmap_used b \<and> {..<i} \<subseteq> bitmap_used b \<and>
      bitmap_inv b' \<and> nbits b' = nbits b \<and> bitmap_used b' = insert i (bitmap_used b) \<and>
      bitmap_unmark b' i = Some b'' \<and> bitmap_inv b'' \<and> bitmap_used b'' = bitmap_used b)"
proof (cases "bitmap_alloc b")
  case None
  then show ?thesis using bm.alloc_total [OF assms] by simp
next
  case (Some r)
  show ?thesis
  proof (cases r)
    case (Inl e)
    then show ?thesis using bm.alloc_ErrD [OF assms] Some by blast
  next
    case (Inr x)
    then obtain i b' where a: "bitmap_alloc b = Some (Inr (i, b'))" using Some by (cases x) simp
    show ?thesis using a bm.alloc_SomeD [OF assms a] bm.alloc_unmark [OF assms a] by blast
  qed
qed

theorem bitmap_alloc_lowest_witness:
  "\<exists>b' b''. bitmap_alloc \<lparr>nbits = 16, bm_v = [0xff, 0x03]\<rparr> = Some (Inr (10, b')) \<and> bitmap_unmark b' 10 = Some b''"
proof -
  let ?b = "\<lparr>nbits = 16, bm_v = [0xff, 0x03]\<rparr>"
  have a: "bitmap_alloc ?b = Some (Inr (10, \<lparr>nbits = 16, bm_v = [0xff, 0x07]\<rparr>))"
    by (simp add: bitmap_alloc_def DIVROUNDUP_def bitmap_mask_def upt_conv_Cons push_bit_eq_mult Let_def)
  have "bitmap_inv ?b" by (simp add: bitmap_inv_def)
  from bitmap_alloc_lowest [OF this] show ?thesis using a by auto
qed

end
