(* ===== verification/Addrspace.thy ===== *)
theory Addrspace
  imports Prelude
begin

text \<open>
  Address spaces and two-level page tables: kern/include/addrspace.h, the part of
  kern/vm/addrspace.c that works on one address space alone, and the heap system
  call of kern/syscall/sbrk.c.

  A page directory is a function from the 1024 primary indices to optional second
  level tables, each a function from the 1024 secondary indices to entries; a
  pointer to an entry is read by \<open>get_pt_entry\<close> and written through
  \<open>put_pt_entry\<close>.  Virtual addresses are 32-bit words.  The array of regions is the
  list of its elements; kmalloc and array_add outcomes are arguments.
\<close>

type_synonym vaddr = "32 word"

abbreviation (input) PAGE_SIZE :: nat where "PAGE_SIZE \<equiv> 4096"

section \<open>Page table entries\<close>

record pt_ent =
  page_paddr_base :: int
  permissions :: int
  present :: bool
  exists :: bool

text \<open>The two int fields are bit fields of 20 and 10 bits: what is stored is the value
  truncated to that width, read back with its sign.\<close>

definition pte_get_location :: "pt_ent \<Rightarrow> int" where
  "pte_get_location pte = page_paddr_base pte"

definition pte_set_location :: "pt_ent \<Rightarrow> int \<Rightarrow> pt_ent" where
  "pte_set_location pte location = pte\<lparr>page_paddr_base := signed_take_bit 19 location\<rparr>"

definition pte_get_permissions :: "pt_ent \<Rightarrow> int" where
  "pte_get_permissions pte = permissions pte"

definition pte_set_permissions :: "pt_ent \<Rightarrow> int \<Rightarrow> pt_ent" where
  "pte_set_permissions pte p = pte\<lparr>permissions := signed_take_bit 9 p\<rparr>"

definition pte_get_present :: "pt_ent \<Rightarrow> bool" where
  "pte_get_present pte = present pte"

definition pte_set_present :: "pt_ent \<Rightarrow> bool \<Rightarrow> pt_ent" where
  "pte_set_present pte b = pte\<lparr>present := b\<rparr>"

definition pte_get_exists :: "pt_ent \<Rightarrow> bool" where
  "pte_get_exists pte = exists pte"

definition pte_set_exists :: "pt_ent \<Rightarrow> bool \<Rightarrow> pt_ent" where
  "pte_set_exists pte b = pte\<lparr>exists := b\<rparr>"

lemmas pte_defs = pte_get_location_def pte_set_location_def pte_get_permissions_def
  pte_set_permissions_def pte_get_present_def pte_set_present_def pte_get_exists_def
  pte_set_exists_def

section \<open>Address spaces\<close>

record region =
  region_base :: vaddr
  region_sz :: "32 word"
  readable :: bool
  writeable :: bool
  executable :: bool

text \<open>\<open>pt_root\<close> and \<open>pt_kva\<close> are the kernel addresses of the page directory and of the second-level
  tables, each one page from kmalloc.\<close>

record addrspace =
  page_table :: "nat \<Rightarrow> (nat \<Rightarrow> pt_ent) option"
  pt_root :: nat
  pt_kva :: "nat \<Rightarrow> nat"
  heap_start :: vaddr
  heap_end :: vaddr
  regions :: "region list"
  is_loading :: bool

definition PT_PRIMARY_INDEX :: "vaddr \<Rightarrow> nat" where
  "PT_PRIMARY_INDEX va = unat (drop_bit 22 va)"

definition PT_SECONDARY_INDEX :: "vaddr \<Rightarrow> nat" where
  "PT_SECONDARY_INDEX va = unat (drop_bit 12 va AND 0x3FF)"

definition PT_TO_VADDR :: "nat \<Rightarrow> nat \<Rightarrow> vaddr" where
  "PT_TO_VADDR i j = push_bit 22 (word_of_nat i) + push_bit 12 (word_of_nat j)"

definition ADDRESS_OFFSET :: "vaddr \<Rightarrow> nat" where
  "ADDRESS_OFFSET addr = unat (addr AND 0xFFF)"

definition get_pt_entry :: "addrspace \<Rightarrow> vaddr \<Rightarrow> pt_ent option" where
  "get_pt_entry as va =
    (case page_table as (PT_PRIMARY_INDEX va) of
       Some pt_dir \<Rightarrow> Some (pt_dir (PT_SECONDARY_INDEX va))
     | None \<Rightarrow> None)"

text \<open>Assignment through a pointer returned by \<^const>\<open>get_pt_entry\<close>.\<close>

definition put_pt_entry :: "addrspace \<Rightarrow> vaddr \<Rightarrow> pt_ent \<Rightarrow> addrspace" where
  "put_pt_entry as va pte =
    (case page_table as (PT_PRIMARY_INDEX va) of
       Some pt_dir \<Rightarrow> as\<lparr>page_table := (page_table as)
         (PT_PRIMARY_INDEX va := Some (pt_dir (PT_SECONDARY_INDEX va := pte)))\<rparr>
     | None \<Rightarrow> as)"

text \<open>A location shifted to a physical address, as the 32-bit unsigned value it becomes.\<close>

definition loc_to_paddr :: "int \<Rightarrow> nat" where
  "loc_to_paddr l = nat ((l * 4096) mod 2 ^ 32)"

definition va_to_pa :: "addrspace \<Rightarrow> vaddr \<Rightarrow> nat" where
  "va_to_pa as va =
    (case get_pt_entry as va of
       None \<Rightarrow> 0
     | Some pte \<Rightarrow>
         if \<not> pte_get_present pte \<or> \<not> pte_get_exists pte then 0
         else loc_to_paddr (pte_get_location pte) + ADDRESS_OFFSET va)"

definition pt_remove :: "addrspace \<Rightarrow> vaddr \<Rightarrow> int \<times> addrspace" where
  "pt_remove as va =
    (case get_pt_entry as va of
       None \<Rightarrow> (- 1, as)
     | Some pte \<Rightarrow> (0, put_pt_entry as va (pte_set_exists pte False)))"

definition pt_update :: "addrspace \<Rightarrow> vaddr \<Rightarrow> int \<Rightarrow> int \<Rightarrow> bool \<Rightarrow> int \<times> addrspace" where
  "pt_update as va ppn perm is_present =
    (case get_pt_entry as va of
       None \<Rightarrow> (- 1, as)
     | Some pte \<Rightarrow>
         (0, put_pt_entry as va
            (pte_set_permissions (pte_set_exists (pte_set_present
              (pte_set_location pte ppn) is_present) True) perm)))"

definition pt_create :: "nat option \<Rightarrow> (nat \<times> (nat \<Rightarrow> (nat \<Rightarrow> pt_ent) option)) option" where
  "pt_create mem = (case mem of None \<Rightarrow> None | Some kva \<Rightarrow> Some (kva, \<lambda>i. None))"

text \<open>The arguments are the outcomes of kmalloc, lock_create, pt_create's kmalloc (the address) and
  array_create.\<close>

definition as_create :: "bool \<Rightarrow> bool \<Rightarrow> nat option \<Rightarrow> bool \<Rightarrow> addrspace option" where
  "as_create mem_as mem_lock mem_pt mem_regions =
    (if \<not> mem_as \<or> \<not> mem_lock then None
     else case pt_create mem_pt of
       None \<Rightarrow> None
     | Some (kva, pt) \<Rightarrow>
         if \<not> mem_regions then None
         else Some \<lparr>page_table = pt, pt_root = kva, pt_kva = (\<lambda>i. 0), heap_start = 0, heap_end = 0, regions = [],
                    is_loading = False\<rparr>)"

definition PAGE_FRAME :: "32 word" where
  "PAGE_FRAME = 0xfffff000"

definition as_define_region ::
  "bool \<Rightarrow> errno option \<Rightarrow> addrspace \<Rightarrow> vaddr \<Rightarrow> 32 word \<Rightarrow> bool \<Rightarrow> bool \<Rightarrow> bool
    \<Rightarrow> errno option \<times> addrspace" where
  "as_define_region mem add_err as vaddr sz r w x =
    (let sz = sz + (vaddr AND NOT PAGE_FRAME);
         vaddr = vaddr AND PAGE_FRAME;
         sz = (sz + 4096 - 1) AND PAGE_FRAME;
         as = (if heap_start as < vaddr + sz
               then as\<lparr>heap_start := vaddr + sz, heap_end := vaddr + sz\<rparr> else as)
     in if \<not> mem then (Some ENOMEM, as)
        else case add_err of
          Some e \<Rightarrow> (Some e, as)
        | None \<Rightarrow> (None, as\<lparr>regions := regions as @
            [\<lparr>region_base = vaddr, region_sz = sz, readable = r, writeable = w,
              executable = x\<rparr>]\<rparr>))"

definition as_prepare_load :: "addrspace \<Rightarrow> addrspace" where
  "as_prepare_load as = as\<lparr>is_loading := True\<rparr>"

definition as_complete_load :: "addrspace \<Rightarrow> addrspace" where
  "as_complete_load as = as\<lparr>is_loading := False\<rparr>"

definition USERSTACK :: vaddr where
  "USERSTACK = 0x80000000"

definition as_define_stack :: "addrspace \<Rightarrow> vaddr" where
  "as_define_stack as = USERSTACK"

fun region_permissions :: "region \<Rightarrow> int" where
  "region_permissions r =
    (if readable r then 1 else 0) + (if writeable r then 2 else 0) + (if executable r then 4 else 0)"

definition as_get_permissions :: "addrspace \<Rightarrow> vaddr \<Rightarrow> int" where
  "as_get_permissions as va =
    (case find (\<lambda>r. region_base r \<le> va \<and> va < region_base r + region_sz r) (regions as) of
       Some r \<Rightarrow> region_permissions r
     | None \<Rightarrow> - 1)"

section \<open>The heap system call\<close>

definition HEAP_MAX :: "32 word" where
  "HEAP_MAX = 0x40000000"

definition STACK_PAGES :: "32 word" where
  "STACK_PAGES = 20"

definition sys_sbrk :: "addrspace \<Rightarrow> 32 word \<Rightarrow> (errno + vaddr) \<times> addrspace" where
  "sys_sbrk as amount =
    (if amount = 0 then (Inr (heap_end as), as)
     else if amount <s 0 then
       (if heap_start as \<le>s heap_end as + amount
        then (Inr (heap_end as + amount), as\<lparr>heap_end := heap_end as + amount\<rparr>)
        else (Inl EINVAL, as))
     else if heap_end as + amount < USERSTACK - STACK_PAGES * 4096 \<and>
             heap_end as + amount < heap_start as + HEAP_MAX
     then (Inr (heap_end as), as\<lparr>heap_end := heap_end as + amount\<rparr>)
     else (Inl ENOMEM, as))"

section \<open>Pages\<close>

text \<open>The virtual page number of an address, and the first address of a page.\<close>

definition vpn :: "vaddr \<Rightarrow> nat" where
  "vpn va = unat (drop_bit 12 va)"

definition vpn_addr :: "nat \<Rightarrow> vaddr" where
  "vpn_addr n = push_bit 12 (word_of_nat n)"

lemma vpn_div: "vpn va = unat va div 4096"
  by (simp only: vpn_def unat_drop_bit_eq drop_bit_eq_div) (simp add: unat_div)

lemma vpn_less [simp]: "vpn va < 1048576"
  using unat_less32 [of va] by (simp add: vpn_div less_mult_imp_div_less)

lemma primary_vpn: "PT_PRIMARY_INDEX va = vpn va div 1024"
  by (simp only: PT_PRIMARY_INDEX_def vpn_div unat_drop_bit_eq drop_bit_eq_div)
    (simp add: unat_div div_mult2_eq [symmetric])

lemma secondary_vpn: "PT_SECONDARY_INDEX va = vpn va mod 1024"
proof -
  have "(0x3FF :: 32 word) = mask 10" by (simp add: mask_eq_exp_minus_1)
  then have "PT_SECONDARY_INDEX va = unat (take_bit 10 (drop_bit 12 va))"
    by (simp only: PT_SECONDARY_INDEX_def take_bit_eq_mask)
  then show ?thesis
    by (simp only: vpn_def unsigned_take_bit_eq) (simp add: take_bit_eq_mod)
qed

lemma index_eq_iff:
  "PT_PRIMARY_INDEX va = PT_PRIMARY_INDEX vb \<and> PT_SECONDARY_INDEX va = PT_SECONDARY_INDEX vb
    \<longleftrightarrow> vpn va = vpn vb"
  unfolding primary_vpn secondary_vpn by (metis div_mult_mod_eq)

lemma vpn_vpn_addr [simp]:
  assumes "n < 1048576"
  shows "vpn (vpn_addr n) = n"
proof -
  have "unat (vpn_addr n) = n * 4096"
    using assms
    by (simp only: vpn_addr_def unsigned_push_bit_eq)
      (simp add: push_bit_eq_mult take_bit_eq_mod unsigned_of_nat)
  then show ?thesis by (simp add: vpn_div)
qed

lemma signed_take_bit_small [simp]:
  "0 \<le> l \<Longrightarrow> l < 2 ^ n \<Longrightarrow> signed_take_bit n l = (l :: int)"
  by (simp add: signed_take_bit_int_eq_self)


section \<open>Page table lemmas\<close>

lemma get_pt_entry_cong:
  "vpn va = vpn vb \<Longrightarrow> get_pt_entry as va = get_pt_entry as vb"
  by (simp add: get_pt_entry_def primary_vpn secondary_vpn split: option.splits)

lemma get_put_pt_entry:
  assumes "get_pt_entry as va \<noteq> None"
  shows "get_pt_entry (put_pt_entry as va pte) vb =
    (if vpn va = vpn vb then Some pte else get_pt_entry as vb)"
proof -
  obtain d where d: "page_table as (PT_PRIMARY_INDEX va) = Some d"
    using assms by (auto simp: get_pt_entry_def split: option.splits)
  show ?thesis
  proof (cases "PT_PRIMARY_INDEX va = PT_PRIMARY_INDEX vb")
    case True
    then have "vpn va = vpn vb \<longleftrightarrow> PT_SECONDARY_INDEX va = PT_SECONDARY_INDEX vb"
      using index_eq_iff by blast
    then show ?thesis
      using d True by (simp add: get_pt_entry_def put_pt_entry_def)
  next
    case False
    then have "vpn va \<noteq> vpn vb"
      using index_eq_iff by blast
    then show ?thesis
      using d False by (simp add: get_pt_entry_def put_pt_entry_def)
  qed
qed

lemma put_pt_entry_fields [simp]:
  "heap_start (put_pt_entry as va pte) = heap_start as"
  "heap_end (put_pt_entry as va pte) = heap_end as"
  "regions (put_pt_entry as va pte) = regions as"
  "is_loading (put_pt_entry as va pte) = is_loading as"
  "pt_root (put_pt_entry as va pte) = pt_root as"
  "pt_kva (put_pt_entry as va pte) = pt_kva as"
  by (simp_all add: put_pt_entry_def split: option.splits)

lemma loc_to_paddr_nat:
  "n < 1048576 \<Longrightarrow> loc_to_paddr (int n) = n * 4096"
  by (simp add: loc_to_paddr_def nat_mod_distrib nat_mult_distrib)



section \<open>The layout of an address space\<close>

text \<open>Regions are page aligned, do not wrap and end at or below the heap; the heap ends below
  the stack.\<close>

definition region_wf :: "vaddr \<Rightarrow> region \<Rightarrow> bool" where
  "region_wf lim r \<longleftrightarrow> uint (region_base r) mod 4096 = 0 \<and> uint (region_sz r) mod 4096 = 0 \<and>
     uint (region_base r) + uint (region_sz r) \<le> uint lim"

definition as_wf :: "addrspace \<Rightarrow> bool" where
  "as_wf as \<longleftrightarrow> heap_start as \<le> heap_end as \<and> uint (heap_start as) mod 4096 = 0 \<and>
     uint (heap_end as) \<le> 0x7FFEC000 \<and> list_all (region_wf (heap_start as)) (regions as)"

lemma stack_limit: "USERSTACK - STACK_PAGES * 4096 = 0x7FFEC000"
  by (simp add: USERSTACK_def STACK_PAGES_def)

text \<open>The break as the manual page describes it: a request moves it by the signed amount.  The
  request is rejected with EINVAL when it would end below the heap, with ENOMEM when it would
  reach the stack or exceed the heap limit.\<close>

definition sbrk_spec :: "addrspace \<Rightarrow> int \<Rightarrow> errno + int" where
  "sbrk_spec as amount =
    (let new = uint (heap_end as) + amount in
     if amount < 0 \<and> new < uint (heap_start as) then Inl EINVAL
     else if 0 < amount \<and> (new \<ge> 0x7FFEC000 \<or> new \<ge> uint (heap_start as) + 0x40000000)
     then Inl ENOMEM
     else Inr new)"

lemma as_wf_bounds:
  "as_wf as \<Longrightarrow> uint (heap_start as) \<le> uint (heap_end as) \<and> uint (heap_end as) \<le> 0x7FFEC000"
  by (simp add: as_wf_def word_le_def)

lemma sys_sbrk_shrink:
  assumes "as_wf as" "amount <s 0"
  shows "heap_start as \<le>s heap_end as + amount \<longleftrightarrow>
      uint (heap_start as) \<le> uint (heap_end as) + sint amount"
    and "heap_start as \<le>s heap_end as + amount \<Longrightarrow>
      uint (heap_end as + amount) = uint (heap_end as) + sint amount"
  using as_wf_bounds [OF assms(1)] assms(2) uint_less32 [of amount]
  by (auto simp: word32_arith split: if_splits)
    (insert uint_nonneg32 [of "heap_start as"] uint_nonneg32 [of "heap_end as"], linarith+)

lemma sys_sbrk_grow:
  assumes "as_wf as" "\<not> amount <s 0"
  shows "uint (heap_end as + amount) = uint (heap_end as) + sint amount"
    and "uint (heap_start as + HEAP_MAX) = uint (heap_start as) + 0x40000000"
  using as_wf_bounds [OF assms(1)] assms(2) uint_less32 [of amount]
  by (auto simp: word32_arith HEAP_MAX_def split: if_splits)

text \<open>C26. sbrk on a well-formed address space: the new break is the old one moved by the
  requested amount, computed without wrap-around, or the documented error with the address
  space unchanged; page table and regions are never touched and the layout stays well-formed.\<close>

theorem sys_sbrk_moves_break:
  fixes amount :: "32 word"
  assumes "as_wf as"
  defines "as' \<equiv> snd (sys_sbrk as amount)"
  shows "as_wf as' \<and> page_table as' = page_table as \<and> regions as' = regions as \<and>
    heap_start as' = heap_start as \<and>
    (case sbrk_spec as (sint amount) of
       Inl e \<Rightarrow> fst (sys_sbrk as amount) = Inl e \<and> as' = as
     | Inr new \<Rightarrow> (\<exists>r. fst (sys_sbrk as amount) = Inr r) \<and> uint (heap_end as') = new)"
proof -
  note b = as_wf_bounds [OF assms(1)]
  have "as_wf as'"
    using assms(1) sys_sbrk_shrink [OF assms(1), of amount] sys_sbrk_grow [OF assms(1), of amount] b
    by (auto simp: as'_def sys_sbrk_def as_wf_def word_le_def word_less_def stack_limit
        word_sless_alt)
  moreover have "page_table as' = page_table as \<and> regions as' = regions as \<and>
      heap_start as' = heap_start as"
    by (simp add: as'_def sys_sbrk_def)
  moreover have zero: "sint amount = 0 \<longleftrightarrow> amount = 0"
    by (metis signed_0 signed_word_eqI)
  moreover have "case sbrk_spec as (sint amount) of
      Inl e \<Rightarrow> fst (sys_sbrk as amount) = Inl e \<and> as' = as
    | Inr new \<Rightarrow> (\<exists>r. fst (sys_sbrk as amount) = Inr r) \<and> uint (heap_end as') = new"
  proof (cases "amount <s 0")
    case True
    then have "sint amount < 0" by (simp add: word_sless_alt)
    then show ?thesis
      using True sys_sbrk_shrink [OF assms(1) True]
      by (auto simp: as'_def sys_sbrk_def sbrk_spec_def Let_def)
  next
    case False
    then have "0 \<le> sint amount" by (simp add: word_sless_alt)
    then show ?thesis
      using False sys_sbrk_grow [OF assms(1) False] b zero
      by (auto simp: as'_def sys_sbrk_def sbrk_spec_def Let_def stack_limit word_less_def)
  qed
  ultimately show ?thesis by blast
qed

theorem sys_sbrk_moves_break_witness:
  "let as = \<lparr>page_table = (\<lambda>i. None), pt_root = 0, pt_kva = (\<lambda>i. 0), heap_start = 0x400000, heap_end = 0x402000, regions = [],
      is_loading = False\<rparr>
   in as_wf as \<and> as_wf (snd (sys_sbrk as 0x1000)) \<and>
      (\<exists>r. fst (sys_sbrk as 0x1000) = Inr r) \<and> uint (heap_end (snd (sys_sbrk as 0x1000))) = 0x403000"
proof -
  let ?as = "\<lparr>page_table = (\<lambda>i. None), pt_root = 0, pt_kva = (\<lambda>i. 0), heap_start = 0x400000, heap_end = 0x402000, regions = [],
      is_loading = False\<rparr>"
  have wf: "as_wf ?as" by (simp add: as_wf_def)
  have "sbrk_spec ?as (sint (0x1000 :: 32 word)) = Inr 0x403000"
    by (simp add: sbrk_spec_def sint32)
  then show ?thesis
    using sys_sbrk_moves_break [OF wf, of "0x1000"] wf by (simp add: Let_def)
qed

text \<open>The value sbrk returns: growing or querying returns the previous break, as documented,
  but shrinking returns the new break, which lies strictly below the previous one.\<close>

theorem sys_sbrk_return_value:
  assumes "as_wf as" "sys_sbrk as amount = (Inr r, as')"
  shows "r = (if amount <s 0 then heap_end as' else heap_end as) \<and>
    (amount <s 0 \<longrightarrow> r < heap_end as)"
proof -
  have "uint (heap_end as + amount) < uint (heap_end as)"
    if "amount <s 0" "heap_start as \<le>s heap_end as + amount"
    using sys_sbrk_shrink(2) [OF assms(1) that] that(1) by (simp add: word_sless_alt)
  then show ?thesis
    using assms(2) by (auto simp: sys_sbrk_def word_less_def split: if_splits)
qed

theorem sys_sbrk_return_value_witness:
  "let as = \<lparr>page_table = (\<lambda>i. None), pt_root = 0, pt_kva = (\<lambda>i. 0), heap_start = 0x400000, heap_end = 0x402000, regions = [],
      is_loading = False\<rparr>
   in as_wf as \<and> sys_sbrk as (- 0x1000) = (Inr 0x401000, as\<lparr>heap_end := 0x401000\<rparr>) \<and>
     (0x401000 :: 32 word) < heap_end as"
proof -
  let ?as = "\<lparr>page_table = (\<lambda>i. None), pt_root = 0, pt_kva = (\<lambda>i. 0), heap_start = 0x400000, heap_end = 0x402000, regions = [],
      is_loading = False\<rparr>"
  have wf: "as_wf ?as" by (simp add: as_wf_def)
  have "sys_sbrk ?as (- 0x1000) = (Inr 0x401000, ?as\<lparr>heap_end := 0x401000\<rparr>)"
    by (simp add: sys_sbrk_def word_sless_alt word_sle_eq sint32)
  then show ?thesis
    using sys_sbrk_return_value [OF wf, of "- 0x1000"] wf
    by (simp add: Let_def word_sless_alt sint32)
qed

section \<open>Regions\<close>

lemma uint_take_bit12: "uint (take_bit 12 (w :: 32 word)) = uint w mod 4096"
  by (simp only: unsigned_take_bit_eq) (simp add: take_bit_eq_mod)

lemma and_PAGE_FRAME: "uint (w AND PAGE_FRAME) = uint w - uint w mod 4096"
proof -
  have "PAGE_FRAME = NOT (mask 12)"
    by (simp add: PAGE_FRAME_def mask_eq_exp_minus_1)
  then have "w AND PAGE_FRAME = w AND NOT (take_bit 12 w)"
    by (auto simp: bit_eq_iff [where ?'a = "32 word"] bit_simps)
  also have "\<dots> = w - take_bit 12 w"
    by (rule disjunctive_diff [symmetric]) (simp add: bit_take_bit_iff)
  finally have eq: "w AND PAGE_FRAME = w - take_bit 12 w" .
  have "uint w mod 4096 \<le> uint w"
    by (rule zmod_le_nonneg_dividend) simp
  then show ?thesis
    unfolding eq by (simp add: uint_sub_if' uint_take_bit12)
qed

lemma and_not_PAGE_FRAME: "uint (w AND NOT PAGE_FRAME) = uint w mod 4096"
proof -
  have "NOT PAGE_FRAME = mask 12"
    by (simp add: PAGE_FRAME_def mask_eq_exp_minus_1)
  then have "w AND NOT PAGE_FRAME = take_bit 12 w"
    by (simp only: take_bit_eq_mask)
  then show ?thesis by (simp add: uint_take_bit12)
qed

lemma page_round:
  fixes u z lim :: int
  assumes "0 \<le> u" "0 \<le> z" "u + z \<le> 4096 * lim"
  defines "b \<equiv> u - u mod 4096"
    and "s \<equiv> z + u mod 4096 + 4095 - (z + u mod 4096 + 4095) mod 4096"
  shows "0 \<le> b" "b \<le> u" "0 \<le> s" "u + z \<le> b + s" "b + s \<le> 4096 * lim"
    "b mod 4096 = 0" "s mod 4096 = 0"
proof -
  define k m where "k = u div 4096" and "m = (z + u mod 4096 + 4095) div 4096"
  have b: "b = 4096 * k" and s: "s = 4096 * m"
    by (simp_all add: b_def k_def s_def m_def minus_mod_eq_mult_div)
  have u: "0 \<le> u mod 4096" "u mod 4096 < 4096"
    "0 \<le> (z + u mod 4096 + 4095) mod 4096" "(z + u mod 4096 + 4095) mod 4096 < 4096"
    by simp_all
  show "0 \<le> b" using assms(1) by (simp add: b k_def pos_imp_zdiv_nonneg_iff)
  show "b \<le> u" using u by (simp add: b_def)
  show "0 \<le> s" using u assms(1,2) by (simp add: s m_def pos_imp_zdiv_nonneg_iff)
  show "u + z \<le> b + s" using u by (simp add: b_def s_def)
  have "b + s < u + z + 4096" using u by (simp add: b_def s_def)
  then have "4096 * (k + m) < 4096 * (lim + 1)"
    using assms(3) b s by (simp add: algebra_simps)
  then have "k + m < lim + 1"
    by (simp only: mult_less_cancel_left_pos zero_less_numeral)
  then show "b + s \<le> 4096 * lim" by (simp add: b s)
  show "b mod 4096 = 0" "s mod 4096 = 0" by (simp_all add: b s)
qed

lemma find_append:
  "find P (xs @ ys) = (case find P xs of None \<Rightarrow> find P ys | Some x \<Rightarrow> Some x)"
  by (induction xs) auto

lemma region_permissions_nonneg: "0 \<le> region_permissions r"
  by simp

lemma as_get_permissions_append:
  "as_get_permissions (as\<lparr>regions := rs @ [r]\<rparr>) va =
    (if 0 \<le> as_get_permissions (as\<lparr>regions := rs\<rparr>) va then as_get_permissions (as\<lparr>regions := rs\<rparr>) va
     else if region_base r \<le> va \<and> va < region_base r + region_sz r then region_permissions r
     else - 1)"
  by (auto simp: as_get_permissions_def find_append region_permissions_nonneg
      simp del: region_permissions.simps split: option.splits)

lemma region_wf_mono:
  "region_wf l r \<Longrightarrow> uint l \<le> uint l' \<Longrightarrow> region_wf l' r"
  by (auto simp: region_wf_def)

text \<open>C27. Defining a segment below the stack while the heap is still empty: the layout stays
  well-formed, the heap still starts empty and above every segment, every address of the segment
  gets the permissions of a defined region, and addresses that had permissions keep them.\<close>

theorem as_define_region_covers:
  assumes wf: "as_wf as" and empty: "heap_end as = heap_start as"
    and fits: "uint va + uint sz \<le> 0x7FFEC000"
    and def: "as_define_region True None as va sz r w x = (e, as')"
  shows "e = None \<and> as_wf as' \<and> heap_end as' = heap_start as' \<and>
    (\<forall>a. va \<le> a \<and> uint a < uint va + uint sz \<longrightarrow> 0 \<le> as_get_permissions as' a) \<and>
    (\<forall>a. 0 \<le> as_get_permissions as a \<longrightarrow> as_get_permissions as' a = as_get_permissions as a)"
proof -
  let ?s1 = "sz + (va AND NOT PAGE_FRAME)"
  define B S where "B = va AND PAGE_FRAME" and "S = (?s1 + 4096 - 1) AND PAGE_FRAME"
  let ?reg = "\<lparr>region_base = B, region_sz = S, readable = r, writeable = w, executable = x\<rparr>"
  have fits': "uint va + uint sz \<le> 4096 * 0x7FFEC"
    using fits by simp
  note round = page_round [OF uint_nonneg32 uint_nonneg32 fits']
  have low: "0 \<le> uint va mod 4096" "uint va mod 4096 < 4096" by simp_all
  have s1: "uint ?s1 = uint sz + uint va mod 4096"
    using fits low uint_nonneg32 [of va] by (simp only: uint_plus32 and_not_PAGE_FRAME split: if_splits) linarith
  have "uint (?s1 + 4096 - 1) = uint (?s1 + 4095)"
    by (simp add: algebra_simps)
  also have "\<dots> = uint ?s1 + 4095"
  proof -
    have "uint sz + uint va mod 4096 + 4095 < 4294967296"
      using fits low uint_nonneg32 [of va] by linarith
    then show ?thesis
      by (simp only: uint_plus32 [of ?s1] s1) simp
  qed
  finally have s: "uint S = uint sz + uint va mod 4096 + 4095 - (uint sz + uint va mod 4096 + 4095) mod 4096"
    by (simp only: S_def and_PAGE_FRAME s1)
  have b: "uint B = uint va - uint va mod 4096"
    unfolding B_def by (rule and_PAGE_FRAME)
  have sum: "uint (B + S) = uint B + uint S"
    using round by (simp only: uint_plus32 b s) simp
  have aligned: "uint (B + S) mod 4096 = 0 \<and> uint (B + S) \<le> 0x7FFEC000"
    using round(5-7) by (simp only: sum b s mod_eq_0_iff_dvd dvd_add) simp
  let ?as = "if heap_start as < B + S then as\<lparr>heap_start := B + S, heap_end := B + S\<rparr> else as"
  have as': "as' = ?as\<lparr>regions := regions as @ [?reg]\<rparr>" and e: "e = None"
    using def by (simp_all add: as_define_region_def Let_def B_def S_def split: if_splits)
  have hs: "uint (B + S) \<le> uint (heap_start as') \<and> uint (heap_start as) \<le> uint (heap_start as') \<and>
      uint (heap_start as') mod 4096 = 0 \<and> uint (heap_end as') \<le> 0x7FFEC000 \<and> heap_end as' = heap_start as'"
    using wf empty aligned by (auto simp: as' as_wf_def word_less_def)
  have "region_wf (heap_start as') ?reg"
    using hs round(6,7) [folded b s] by (simp add: region_wf_def sum)
  moreover have "list_all (region_wf (heap_start as')) (regions as)"
  proof -
    have "region_wf (heap_start as') r" if "region_wf (heap_start as) r" for r
      by (rule region_wf_mono [OF that]) (use hs in simp)
    then show ?thesis
      using wf by (simp add: as_wf_def list_all_iff)
  qed
  moreover have "regions as' = regions as @ [?reg]"
    by (simp add: as')
  ultimately have "as_wf as'"
    using hs by (auto simp: as_wf_def)
  moreover have perm: "as_get_permissions as' a =
      (if 0 \<le> as_get_permissions as a then as_get_permissions as a
       else if B \<le> a \<and> a < B + S then region_permissions ?reg else - 1)" for a
    using as_get_permissions_append [of "regions as" ?reg as a]
    by (simp add: as' as_get_permissions_def del: region_permissions.simps)
  moreover have "0 \<le> as_get_permissions as' a" if "va \<le> a" "uint a < uint va + uint sz" for a
  proof -
    have "B \<le> a \<and> a < B + S"
      using that round(2,4) [folded b s] by (simp add: word_le_def word_less_def sum)
    then show ?thesis
      using perm [of a] region_permissions_nonneg [of ?reg] by presburger
  qed
  ultimately show ?thesis
    using e hs by auto
qed

theorem as_define_region_covers_witness:
  "let as = \<lparr>page_table = (\<lambda>i. None), pt_root = 0, pt_kva = (\<lambda>i. 0), heap_start = 0, heap_end = 0, regions = [],
      is_loading = True\<rparr>;
     as' = snd (as_define_region True None as 0x400010 0x1234 True False True)
   in as_wf as' \<and> 0 \<le> as_get_permissions as' 0x401243 \<and> heap_end as' = heap_start as'"
proof -
  let ?as = "\<lparr>page_table = (\<lambda>i. None), pt_root = 0, pt_kva = (\<lambda>i. 0), heap_start = 0, heap_end = 0, regions = [],
      is_loading = True\<rparr>"
  let ?r = "as_define_region True None ?as 0x400010 0x1234 True False True"
  have "as_wf ?as" by (simp add: as_wf_def)
  then have "as_wf (snd ?r) \<and> heap_end (snd ?r) = heap_start (snd ?r) \<and>
      ((0x400010 :: vaddr) \<le> 0x401243 \<and> uint (0x401243 :: vaddr) < uint (0x400010 :: vaddr) + uint (0x1234 :: 32 word)
        \<longrightarrow> 0 \<le> as_get_permissions (snd ?r) 0x401243)"
    using as_define_region_covers [of ?as "0x400010" "0x1234" True False True "fst ?r" "snd ?r"] by simp
  then show ?thesis
    by (simp add: Let_def)
qed

end
