(* ===== verification/Tlb.thy ===== *)
theory Tlb
  imports Prelude
begin

text \<open>
  The translation lookaside buffer of the MIPS processor as the kernel drives it:
  the field layout of kern/arch/mips/include/tlb.h and the routines of
  kern/arch/mips/vm/tlb-mips1.S.  The slot the processor picks for tlb_random is an
  argument.
\<close>

type_synonym tlb_entry = "32 word \<times> 32 word"
type_synonym tlb = "tlb_entry list"

definition TLBHI_VPAGE :: "32 word" where "TLBHI_VPAGE = 0xfffff000"
definition TLBLO_PPAGE :: "32 word" where "TLBLO_PPAGE = 0xfffff000"
definition TLBLO_DIRTY :: "32 word" where "TLBLO_DIRTY = 0x00000400"
definition TLBLO_VALID :: "32 word" where "TLBLO_VALID = 0x00000200"

definition NUM_TLB :: nat where "NUM_TLB = 64"

definition TLBHI_INVALID :: "nat \<Rightarrow> 32 word" where
  "TLBHI_INVALID entryno = push_bit 12 (0x80000 + word_of_nat entryno)"

definition TLBLO_INVALID :: "32 word" where "TLBLO_INVALID = 0"

text \<open>The index register holds six bits of the index passed.\<close>

definition tlb_write :: "tlb \<Rightarrow> 32 word \<Rightarrow> 32 word \<Rightarrow> int \<Rightarrow> tlb" where
  "tlb_write t entryhi entrylo index = t[nat (index mod 64) := (entryhi, entrylo)]"

definition tlb_random :: "nat \<Rightarrow> tlb \<Rightarrow> 32 word \<Rightarrow> 32 word \<Rightarrow> tlb" where
  "tlb_random slot t entryhi entrylo = t[slot := (entryhi, entrylo)]"

text \<open>An entry matches on the virtual page alone: the address space identifiers are never used
  and stay zero.\<close>

definition tlb_match :: "32 word \<Rightarrow> tlb_entry \<Rightarrow> bool" where
  "tlb_match entryhi e \<longleftrightarrow> fst e AND TLBHI_VPAGE = entryhi AND TLBHI_VPAGE"

definition tlb_probe :: "tlb \<Rightarrow> 32 word \<Rightarrow> int" where
  "tlb_probe t entryhi =
    (case find (\<lambda>i. tlb_match entryhi (t ! i)) [0..<length t] of
       Some i \<Rightarrow> int i
     | None \<Rightarrow> - 1)"

definition vm_tlbshootdown_all :: "tlb \<Rightarrow> tlb" where
  "vm_tlbshootdown_all t =
    fold (\<lambda>i t. tlb_write t (TLBHI_INVALID i) TLBLO_INVALID (int i)) [0..<NUM_TLB] t"

section \<open>Lemmas\<close>

lemma tlb_probe_ge:
  "0 \<le> tlb_probe t hi \<Longrightarrow> nat (tlb_probe t hi) < length t \<and> tlb_match hi (t ! nat (tlb_probe t hi))"
proof (cases "find (\<lambda>i. tlb_match hi (t ! i)) [0..<length t]")
  case (Some i)
  then have "tlb_probe t hi = int i" by (simp add: tlb_probe_def)
  then show ?thesis using Some by (simp add: find_upt_Some)
qed (simp add: tlb_probe_def)

lemma tlb_probe_none:
  "tlb_probe t hi < 0 \<longleftrightarrow> (\<forall>e \<in> set t. \<not> tlb_match hi e)"
proof (cases "find (\<lambda>i. tlb_match hi (t ! i)) [0..<length t]")
  case None
  then have "tlb_probe t hi < 0" by (simp add: tlb_probe_def)
  then show ?thesis
    using None unfolding find_upt_None by (simp add: all_set_conv_all_nth)
next
  case (Some i)
  then have "\<not> tlb_probe t hi < 0" by (simp add: tlb_probe_def)
  then show ?thesis
    using Some unfolding find_upt_Some by (auto simp: all_set_conv_all_nth)
qed

lemma tlb_probe_min: "- 1 \<le> tlb_probe t hi"
  by (simp add: tlb_probe_def split: option.splits)

lemma length_tlb_write [simp]: "length (tlb_write t hi lo i) = length t"
  by (simp add: tlb_write_def)

lemma shootdown_prefix:
  "n \<le> 64 \<Longrightarrow> length t = 64 \<Longrightarrow>
    fold (\<lambda>i t. tlb_write t (TLBHI_INVALID i) TLBLO_INVALID (int i)) [0..<n] t =
    map (\<lambda>i. (TLBHI_INVALID i, TLBLO_INVALID)) [0..<n] @ drop n t"
proof (induction n)
  case (Suc n)
  then have "int n mod 64 = int n" by simp
  then show ?case
    using Suc by (simp add: tlb_write_def list_update_append Cons_nth_drop_Suc [symmetric])
qed simp

lemma vm_tlbshootdown_all_eq:
  "length t = 64 \<Longrightarrow>
    vm_tlbshootdown_all t = map (\<lambda>i. (TLBHI_INVALID i, TLBLO_INVALID)) [0..<64]"
  using shootdown_prefix [of 64 t] by (simp add: vm_tlbshootdown_all_def NUM_TLB_def)

end
