(* ===== verification/Coremap.thy ===== *)
theory Coremap
  imports Bitmap Addrspace Tlb
begin

text \<open>
  Physical memory: the core map of kern/arch/mips/vm/coremap.c with its page
  selection (free page search and clock), allocation, eviction to and return from
  the swap file.

  The state \<open>vm\<close> holds the file-scope variables of coremap.c, the address spaces by
  pointer value, the contents of the managed physical pages by core map index and of
  the swap file by slot, the page table locks the running thread holds, and the TLB of
  its processor.  The outcome of each transfer to and from the swap device is an
  argument \<open>io\<close>, taking the direction (True for a write) and the slot.  Operations are
  the steps of one thread; shooting down the TLBs of other processors is not modelled.
\<close>

section \<open>State\<close>

datatype cme_state = CME_FREE | CME_FIXED | CME_CLEAN | CME_DIRTY

record cm_entry =
  cme_as :: "nat option"
  disk_offset :: int
  vaddr_base :: nat
  cme_state :: cme_state
  busy_bit :: bool
  use_bit :: bool

type_synonym page = "8 word list"
type_synonym swap_io = "bool \<Rightarrow> nat \<Rightarrow> errno option"

record vm =
  coremap :: "cm_entry list"
  base :: nat
  clock_hand :: nat
  num_cm_entries :: nat
  num_cm_free :: int
  num_cm_kernel :: int
  num_cm_user :: int
  disk_map :: bitmap
  spaces :: "nat \<Rightarrow> addrspace option"
  pmem :: "nat \<Rightarrow> page"
  swapfile :: "nat \<Rightarrow> page"
  pt_held :: "nat set"
  vm_tlb :: tlb

definition MIN_USER_CM_PAGES :: int where
  "MIN_USER_CM_PAGES = 10"

definition COREMAP_TO_PADDR :: "vm \<Rightarrow> nat \<Rightarrow> nat" where
  "COREMAP_TO_PADDR s i = 4096 * (i + base s)"

definition PADDR_TO_COREMAP :: "vm \<Rightarrow> nat \<Rightarrow> nat" where
  "PADDR_TO_COREMAP s pa = pa div 4096 - base s"

definition PADDR_IS_VALID :: "vm \<Rightarrow> nat \<Rightarrow> bool" where
  "PADDR_IS_VALID s pa \<longleftrightarrow> base s * 4096 \<le> pa \<and> pa mod 4096 = 0"

section \<open>Entries\<close>

definition cme_upd :: "vm \<Rightarrow> nat \<Rightarrow> (cm_entry \<Rightarrow> cm_entry) \<Rightarrow> vm" where
  "cme_upd s ix f = s\<lparr>coremap := (coremap s)[ix := f (coremap s ! ix)]\<rparr>"

definition cm_get_index :: "vm \<Rightarrow> nat \<Rightarrow> nat" where
  "cm_get_index s pa = PADDR_TO_COREMAP s pa"

definition cme_get_vaddr :: "vm \<Rightarrow> nat \<Rightarrow> vaddr" where
  "cme_get_vaddr s ix = push_bit 12 (word_of_nat (vaddr_base (coremap s ! ix)))"

definition cme_set_vaddr :: "vm \<Rightarrow> nat \<Rightarrow> vaddr \<Rightarrow> vm" where
  "cme_set_vaddr s ix va = cme_upd s ix (\<lambda>e. e\<lparr>vaddr_base := unat (drop_bit 12 va)\<rparr>)"

definition cme_get_offset :: "vm \<Rightarrow> nat \<Rightarrow> int" where
  "cme_get_offset s ix = disk_offset (coremap s ! ix)"

definition cme_set_offset :: "vm \<Rightarrow> nat \<Rightarrow> int \<Rightarrow> vm" where
  "cme_set_offset s ix off = cme_upd s ix (\<lambda>e. e\<lparr>disk_offset := off\<rparr>)"

definition cme_get_state :: "vm \<Rightarrow> nat \<Rightarrow> cme_state" where
  "cme_get_state s ix = cme_state (coremap s ! ix)"

definition cme_set_state :: "vm \<Rightarrow> nat \<Rightarrow> cme_state \<Rightarrow> vm" where
  "cme_set_state s ix st = cme_upd s ix (\<lambda>e. e\<lparr>cme_state := st\<rparr>)"

definition cme_get_busy :: "vm \<Rightarrow> nat \<Rightarrow> bool" where
  "cme_get_busy s ix = busy_bit (coremap s ! ix)"

definition cme_set_busy :: "vm \<Rightarrow> nat \<Rightarrow> bool \<Rightarrow> vm" where
  "cme_set_busy s ix b = cme_upd s ix (\<lambda>e. e\<lparr>busy_bit := b\<rparr>)"

definition cme_try_pin :: "vm \<Rightarrow> nat \<Rightarrow> bool \<times> vm" where
  "cme_try_pin s ix =
    (if cme_get_busy s ix then (False, s) else (True, cme_set_busy s ix True))"

definition cme_get_use :: "vm \<Rightarrow> nat \<Rightarrow> bool" where
  "cme_get_use s ix = use_bit (coremap s ! ix)"

definition cme_set_use :: "vm \<Rightarrow> nat \<Rightarrow> bool \<Rightarrow> vm" where
  "cme_set_use s ix b = cme_upd s ix (\<lambda>e. e\<lparr>use_bit := b\<rparr>)"

section \<open>Page selection\<close>

definition reached_kpage_limit :: "vm \<Rightarrow> bool" where
  "reached_kpage_limit s \<longleftrightarrow> num_cm_kernel s + 1 \<ge> int (num_cm_entries s) - MIN_USER_CM_PAGES"

fun find_free_page_from :: "vm \<Rightarrow> nat list \<Rightarrow> nat option \<times> vm" where
  "find_free_page_from s [] = (None, s)"
| "find_free_page_from s (i # is) =
    (if cme_get_state s i = CME_FREE then
       (let (pinned, s') = cme_try_pin s i in
        if pinned then
          (if cme_get_state s' i = CME_FREE then (Some i, s')
           else find_free_page_from (cme_set_busy s' i False) is)
        else find_free_page_from s' is)
     else find_free_page_from s is)"

definition find_free_page :: "vm \<Rightarrow> nat option \<times> vm" where
  "find_free_page s = find_free_page_from s [0..<num_cm_entries s]"

definition advance_clock :: "vm \<Rightarrow> vm" where
  "advance_clock s = s\<lparr>clock_hand := (clock_hand s + 1) mod num_cm_entries s\<rparr>"

text \<open>The clock; None when no page can ever be chosen and the loop does not end.\<close>

partial_function (option) choose_evict_page :: "vm \<Rightarrow> (nat \<times> vm) option" where
  "choose_evict_page s =
    (let hand = clock_hand s in
     if cme_get_state s hand \<noteq> CME_FIXED then
       (case cme_try_pin s hand of
          (pinned, s') \<Rightarrow>
            if pinned then
              (if cme_get_use s' hand
               then choose_evict_page (advance_clock (cme_set_busy (cme_set_use s' hand False) hand False))
               else Some (hand, advance_clock s'))
            else choose_evict_page (advance_clock s'))
     else choose_evict_page (advance_clock s))"

section \<open>Swap file\<close>

definition swapfile_reserve_index :: "vm \<Rightarrow> (nat \<times> vm) option" where
  "swapfile_reserve_index s =
    (case bitmap_alloc (disk_map s) of
       Some (Inr (index, b)) \<Rightarrow> Some (index, s\<lparr>disk_map := b\<rparr>)
     | _ \<Rightarrow> None)"

definition swapfile_free_index :: "vm \<Rightarrow> nat \<Rightarrow> vm option" where
  "swapfile_free_index s index =
    do {
      KASSERT (bitmap_isset (disk_map s) index);
      b \<leftarrow> bitmap_unmark (disk_map s) index;
      Some (s\<lparr>disk_map := b\<rparr>)
    }"

definition write_page :: "swap_io \<Rightarrow> vm \<Rightarrow> page \<Rightarrow> nat \<Rightarrow> errno option \<times> vm" where
  "write_page io s pg offset =
    (case io True offset of
       Some e \<Rightarrow> (Some e, s)
     | None \<Rightarrow> (None, s\<lparr>swapfile := (swapfile s)(offset := pg)\<rparr>))"

definition read_page :: "swap_io \<Rightarrow> vm \<Rightarrow> nat \<Rightarrow> errno + page" where
  "read_page io s offset =
    (case io False offset of
       Some e \<Rightarrow> Inl e
     | None \<Rightarrow> Inr (swapfile s offset))"

definition swapout :: "swap_io \<Rightarrow> vm \<Rightarrow> nat \<Rightarrow> (errno option \<times> vm) option" where
  "swapout io s ppn =
    do {
      KASSERT (PADDR_IS_VALID s ppn);
      let i = PADDR_TO_COREMAP s ppn;
      KASSERT (disk_offset (coremap s ! i) \<noteq> - 1);
      KASSERT (cme_state (coremap s ! i) = CME_DIRTY);
      let (ret, s) = write_page io s (pmem s i) (nat (disk_offset (coremap s ! i)));
      Some (ret, if ret = None then cme_set_state s i CME_CLEAN else s)
    }"

text \<open>Reading an address space through its pointer; None is the kernel crash on a bad pointer.\<close>

definition get_as :: "vm \<Rightarrow> nat option \<Rightarrow> (nat \<times> addrspace) option" where
  "get_as s p =
    (case p of None \<Rightarrow> None
     | Some a \<Rightarrow> (case spaces s a of None \<Rightarrow> None | Some A \<Rightarrow> Some (a, A)))"

definition put_as :: "vm \<Rightarrow> nat \<Rightarrow> addrspace \<Rightarrow> vm" where
  "put_as s a A = s\<lparr>spaces := (spaces s)(a := Some A)\<rparr>"

definition evict_page :: "vm \<Rightarrow> nat \<Rightarrow> vm option" where
  "evict_page s ppn =
    do {
      KASSERT (PADDR_IS_VALID s ppn);
      let i = PADDR_TO_COREMAP s ppn;
      KASSERT (cme_state (coremap s ! i) = CME_CLEAN);
      KASSERT (disk_offset (coremap s ! i) \<noteq> - 1);
      KASSERT (cme_as (coremap s ! i) \<noteq> None);
      (a, A) \<leftarrow> get_as s (cme_as (coremap s ! i));
      let va = push_bit 12 (word_of_nat (vaddr_base (coremap s ! i)));
      pte \<leftarrow> get_pt_entry A va;
      let pte = pte_set_location (pte_set_present pte False) (disk_offset (coremap s ! i));
      Some (cme_set_state (put_as s a (put_pt_entry A va pte)) i CME_FREE)
    }"

definition swapin :: "swap_io \<Rightarrow> vm \<Rightarrow> nat \<Rightarrow> vaddr \<Rightarrow> nat \<Rightarrow> (errno option \<times> vm) option" where
  "swapin io s a va dest =
    do {
      KASSERT (a \<in> pt_held s);
      KASSERT (PADDR_IS_VALID s dest);
      A \<leftarrow> spaces s a;
      pte \<leftarrow> get_pt_entry A va;
      KASSERT (pte_get_exists pte);
      KASSERT (\<not> pte_get_present pte);
      let offset = pte_get_location pte;
      let idx = PADDR_TO_COREMAP s dest;
      (case read_page io s (nat offset) of
         Inl e \<Rightarrow> Some (Some e, s)
       | Inr pg \<Rightarrow>
           let s = s\<lparr>pmem := (pmem s)(idx := pg)\<rparr>;
               s = cme_upd s idx (\<lambda>e. e\<lparr>disk_offset := offset, vaddr_base := unat (drop_bit 12 va),
                     cme_as := Some a, cme_state := CME_CLEAN\<rparr>);
               pte = pte_set_location (pte_set_present pte True) (int (dest div 4096))
           in Some (None, put_as s a (put_pt_entry A va pte)))
    }"

section \<open>Allocation and release\<close>

definition mark_allocated :: "vm \<Rightarrow> nat \<Rightarrow> bool \<Rightarrow> vm option" where
  "mark_allocated s ix iskern =
    do {
      KASSERT (cme_state (coremap s ! ix) = CME_FREE);
      KASSERT (busy_bit (coremap s ! ix));
      let s = cme_upd s ix (\<lambda>e. e\<lparr>cme_as := None, disk_offset := - 1, vaddr_base := 0, use_bit := False\<rparr>);
      let s = s\<lparr>num_cm_free := num_cm_free s - 1\<rparr>;
      let s = (if iskern
               then (cme_set_state s ix CME_FIXED)\<lparr>num_cm_kernel := num_cm_kernel s + 1\<rparr>
               else (cme_set_state s ix CME_DIRTY)\<lparr>num_cm_user := num_cm_user s + 1\<rparr>);
      KASSERT (num_cm_free s + num_cm_user s + num_cm_kernel s = int (num_cm_entries s));
      Some s
    }"

text \<open>The page table lock of an address space, from the view of the running thread.\<close>

definition pt_lock_acquire :: "vm \<Rightarrow> nat \<Rightarrow> vm option" where
  "pt_lock_acquire s a = do { KASSERT (a \<notin> pt_held s); Some (s\<lparr>pt_held := insert a (pt_held s)\<rparr>) }"

definition pt_lock_release :: "vm \<Rightarrow> nat \<Rightarrow> vm option" where
  "pt_lock_release s a = do { KASSERT (a \<in> pt_held s); Some (s\<lparr>pt_held := pt_held s - {a}\<rparr>) }"

definition vm_tlbshootdown :: "vm \<Rightarrow> nat \<Rightarrow> vm" where
  "vm_tlbshootdown s ppn =
    (let ix = PADDR_TO_COREMAP s ppn in
     if cme_get_state s ix = CME_FREE then s
     else
       let vp = cme_get_vaddr s ix AND TLBHI_VPAGE; ret = tlb_probe (vm_tlb s) vp in
       if ret \<ge> 0
       then s\<lparr>vm_tlb := tlb_write (vm_tlb s) (TLBHI_INVALID (nat ret)) TLBLO_INVALID ret\<rparr>
       else s)"

text \<open>Taking the lock of the victim's address space; a user caller holds its own.\<close>

definition alloc_lock_victim :: "vm \<Rightarrow> nat option \<Rightarrow> nat \<Rightarrow> vm option" where
  "alloc_lock_victim s as victim =
    (case as of
       Some a \<Rightarrow>
         if victim < a then
           do { s \<leftarrow> pt_lock_release s a; s \<leftarrow> pt_lock_acquire s victim; pt_lock_acquire s a }
         else if victim > a then pt_lock_acquire s victim
         else Some s
     | None \<Rightarrow> if victim \<notin> pt_held s then pt_lock_acquire s victim else Some s)"

definition alloc_writeback :: "swap_io \<Rightarrow> vm \<Rightarrow> nat \<Rightarrow> vm option" where
  "alloc_writeback io s ix =
    (if cme_get_state s ix = CME_DIRTY then map_option snd (swapout io s (COREMAP_TO_PADDR s ix))
     else Some s)"

definition alloc_unlock_victim :: "vm \<Rightarrow> bool \<Rightarrow> nat \<Rightarrow> vm option" where
  "alloc_unlock_victim s held_lock ix =
    (if \<not> held_lock then
       (case cme_as (coremap s ! ix) of
          None \<Rightarrow> None
        | Some victim \<Rightarrow> pt_lock_release s victim)
     else Some s)"

definition alloc_evict :: "swap_io \<Rightarrow> vm \<Rightarrow> nat option \<Rightarrow> nat \<Rightarrow> vm option" where
  "alloc_evict io s as ix =
    do {
      victim \<leftarrow> cme_as (coremap s ! ix);
      let held_lock = (victim \<in> pt_held s);
      s \<leftarrow> alloc_lock_victim s as victim;
      let s = vm_tlbshootdown s (COREMAP_TO_PADDR s ix);
      s \<leftarrow> alloc_writeback io s ix;
      s \<leftarrow> evict_page s (COREMAP_TO_PADDR s ix);
      alloc_unlock_victim s held_lock ix
    }"

definition alloc_select :: "swap_io \<Rightarrow> vm \<Rightarrow> nat option \<Rightarrow> (nat \<times> vm) option" where
  "alloc_select io s as =
    (case (if num_cm_free s > 0 then find_free_page s else (None, s)) of
       (Some ix, s) \<Rightarrow> Some (ix, s)
     | (None, s) \<Rightarrow>
         do {
           (ix, s) \<leftarrow> choose_evict_page s;
           if cme_get_state s ix \<noteq> CME_FREE
           then do { s \<leftarrow> alloc_evict io s as ix; Some (ix, s) }
           else Some (ix, s)
         })"

definition alloc_one_page :: "swap_io \<Rightarrow> vm \<Rightarrow> nat option \<Rightarrow> vaddr \<Rightarrow> (nat \<times> vm) option" where
  "alloc_one_page io s as va =
    do {
      KASSERT (num_cm_entries s \<noteq> 0);
      let iskern = (as = None);
      if iskern \<and> reached_kpage_limit s then Some (0, s)
      else do {
        (ix, s) \<leftarrow> alloc_select io s as;
        KASSERT (cme_state (coremap s ! ix) = CME_FREE);
        KASSERT (busy_bit (coremap s ! ix));
        s \<leftarrow> mark_allocated s ix iskern;
        s \<leftarrow> (if \<not> iskern then
               do {
                 KASSERT (va \<noteq> 0);
                 Some (cme_upd s ix (\<lambda>e. e\<lparr>cme_as := as, vaddr_base := unat (drop_bit 12 va)\<rparr>))
               }
             else Some s);
        Some (COREMAP_TO_PADDR s ix, s)
      }
    }"

definition alloc_kpages :: "swap_io \<Rightarrow> vm \<Rightarrow> nat \<Rightarrow> (nat option \<times> vm) option" where
  "alloc_kpages io s npages =
    (if npages > 1 then Some (None, s)
     else do {
       (pa, s) \<leftarrow> alloc_one_page io s None 0;
       if pa = 0 then Some (None, s)
       else Some (Some (pa + 0x80000000), cme_set_busy s (PADDR_TO_COREMAP s pa) False)
     })"

definition zero_page :: page where
  "zero_page = replicate 4096 0"

text \<open>An address below the managed memory makes the index negative: the access outside the array
  is a crash.\<close>

definition free_coremap_page :: "vm \<Rightarrow> nat \<Rightarrow> bool \<Rightarrow> vm option" where
  "free_coremap_page s pa iskern =
    (let ix = PADDR_TO_COREMAP s pa in
     do {
       KASSERT (ix < num_cm_entries s);
       KASSERT (base s \<le> pa div 4096);
       KASSERT (cme_state (coremap s ! ix) \<noteq> CME_FREE);
       KASSERT (iskern \<or> cme_get_busy s ix);
       s \<leftarrow> (if iskern then
              do {
                KASSERT (cme_as (coremap s ! ix) = None);
                KASSERT (disk_offset (coremap s ! ix) = - 1);
                KASSERT (vaddr_base (coremap s ! ix) = 0);
                KASSERT (cme_state (coremap s ! ix) = CME_FIXED);
                KASSERT (\<not> use_bit (coremap s ! ix));
                Some (s\<lparr>num_cm_kernel := num_cm_kernel s - 1\<rparr>)
              }
            else
              do {
                KASSERT (cme_as (coremap s ! ix) \<noteq> None);
                KASSERT (disk_offset (coremap s ! ix) \<noteq> - 1);
                KASSERT (vaddr_base (coremap s ! ix) \<noteq> 0);
                s \<leftarrow> swapfile_free_index s (nat (disk_offset (coremap s ! ix)));
                let s = cme_upd s ix (\<lambda>e. e\<lparr>cme_as := None, disk_offset := - 1, vaddr_base := 0,
                  use_bit := False\<rparr>);
                Some (s\<lparr>num_cm_user := num_cm_user s - 1\<rparr>)
              });
       let s = s\<lparr>pmem := (pmem s)(ix := zero_page)\<rparr>;
       let s = cme_set_state s ix CME_FREE;
       let s = s\<lparr>num_cm_free := num_cm_free s + 1\<rparr>;
       Some (cme_set_busy s ix False)
     })"

definition free_kpages :: "vm \<Rightarrow> nat \<Rightarrow> vm option" where
  "free_kpages s va = free_coremap_page s (va - 0x80000000) True"

text \<open>Pinning every page of an address space busy-waits on a page that is already pinned: for the
  running thread alone, None is waiting for ever.\<close>

fun pin_all_pages_from :: "vm \<Rightarrow> nat \<Rightarrow> nat list \<Rightarrow> vm option" where
  "pin_all_pages_from s a [] = Some s"
| "pin_all_pages_from s a (i # is) =
    (if cme_as (coremap s ! i) = Some a then
       (case cme_try_pin s i of
          (True, s') \<Rightarrow> pin_all_pages_from s' a is
        | (False, s') \<Rightarrow> None)
     else pin_all_pages_from s a is)"

definition pin_all_pages :: "vm \<Rightarrow> nat \<Rightarrow> vm option" where
  "pin_all_pages s a = pin_all_pages_from s a [0..<num_cm_entries s]"

text \<open>Initialisation: \<open>entry_size\<close> is the size of a core map entry, \<open>lo\<close> and \<open>hi\<close> what
  ram_getsize reports.\<close>

definition coremap_bootstrap :: "nat \<Rightarrow> nat \<Rightarrow> nat \<Rightarrow> vm \<Rightarrow> vm option" where
  "coremap_bootstrap entry_size lo hi s =
    do {
      KASSERT (lo mod 4096 = 0);
      KASSERT (hi mod 4096 = 0);
      let npages = (hi - lo) div 4096;
      let size = npages * entry_size;
      let size = (size + 4095) div 4096 * 4096;
      let lo = lo + size;
      let b = lo div 4096;
      let n = hi div 4096 - b;
      Some (s\<lparr>base := b, num_cm_entries := n, num_cm_free := int n, num_cm_kernel := 0,
        num_cm_user := 0, clock_hand := 0,
        coremap := replicate n \<lparr>cme_as = None, disk_offset = - 1, vaddr_base = 0,
          cme_state = CME_FREE, busy_bit = False, use_bit = False\<rparr>\<rparr>)
    }"

text \<open>The outcome of opening the raw disk and of creating the bitmap and its lock are arguments.\<close>

definition swapfile_init :: "bool \<Rightarrow> bool \<Rightarrow> bool \<Rightarrow> bool \<Rightarrow> vm \<Rightarrow> vm option" where
  "swapfile_init opened mem_b mem_v mem_lock s =
    do {
      KASSERT opened;
      r \<leftarrow> bitmap_create mem_b mem_v 1200;
      b \<leftarrow> r;
      KASSERT mem_lock;
      Some (s\<lparr>disk_map := b\<rparr>)
    }"

end
