(* ===== verification/Paging.thy ===== *)
theory Paging
  imports Coremap
begin

text \<open>
  The global invariant of the virtual memory system and the proof that allocation,
  eviction, return from swap and release keep it, and keep the contents every address
  space sees.  \<open>vm_inv T s\<close> relates core map, page tables and swap map; \<open>T\<close> holds the
  frames a thread has taken for a user page but not yet entered in a page table.
\<close>

section \<open>Pages of an address space\<close>

definition pte_of :: "(nat \<Rightarrow> addrspace option) \<Rightarrow> nat \<Rightarrow> nat \<Rightarrow> pt_ent option" where
  "pte_of sp a n =
    (if n < 1048576 then
       (case sp a of None \<Rightarrow> None
        | Some A \<Rightarrow> (case get_pt_entry A (vpn_addr n) of None \<Rightarrow> None
            | Some p \<Rightarrow> if exists p then Some p else None))
     else None)"

lemma pte_of_vpn:
  assumes "sp a = Some A" "get_pt_entry A va = Some p"
  shows "pte_of sp a (vpn va) = (if exists p then Some p else None)"
proof -
  have "get_pt_entry A (vpn_addr (vpn va)) = get_pt_entry A va"
    by (rule get_pt_entry_cong) simp
  then show ?thesis
    using assms by (simp add: pte_of_def)
qed

lemma pte_of_put:
  assumes "sp a = Some A" "get_pt_entry A va \<noteq> None"
  shows "pte_of (sp(a := Some (put_pt_entry A va p))) b m =
    (if b = a \<and> m = vpn va then (if exists p then Some p else None) else pte_of sp b m)"
proof (cases "b = a")
  case True
  show ?thesis
  proof (cases "m < 1048576")
    case m: True
    have "get_pt_entry (put_pt_entry A va p) (vpn_addr m) =
        (if vpn va = m then Some p else get_pt_entry A (vpn_addr m))"
      using get_put_pt_entry [OF assms(2), of p "vpn_addr m"] m by simp
    then show ?thesis
      using True m assms(1) by (auto simp: pte_of_def)
  next
    case False
    moreover have "m \<noteq> vpn va" using False vpn_less [of va] by linarith
    ultimately show ?thesis by (simp add: pte_of_def)
  qed
qed (simp add: pte_of_def)

definition frame_of :: "vm \<Rightarrow> pt_ent \<Rightarrow> nat" where
  "frame_of s p = nat (page_paddr_base p) - base s"

definition slot_of :: "vm \<Rightarrow> nat \<Rightarrow> nat \<Rightarrow> nat option" where
  "slot_of s a n =
    (case pte_of (spaces s) a n of None \<Rightarrow> None
     | Some p \<Rightarrow> Some (if present p then nat (disk_offset (coremap s ! frame_of s p))
                      else nat (page_paddr_base p)))"

text \<open>What a process finds in its page \<open>n\<close>, in memory or in the swap file: the permissions and
  the contents.\<close>

definition page_content :: "vm \<Rightarrow> nat \<Rightarrow> nat \<Rightarrow> (int \<times> page) option" where
  "page_content s a n =
    (case pte_of (spaces s) a n of None \<Rightarrow> None
     | Some p \<Rightarrow> Some (permissions p, if present p then pmem s (frame_of s p)
                      else swapfile s (nat (page_paddr_base p))))"

text \<open>Address spaces that differ only in entries of existing second-level tables.\<close>

definition space_rel :: "addrspace \<Rightarrow> addrspace \<Rightarrow> bool" where
  "space_rel A A' \<longleftrightarrow> (\<forall>i. page_table A i = None \<longleftrightarrow> page_table A' i = None) \<and>
     heap_start A' = heap_start A \<and> heap_end A' = heap_end A \<and> regions A' = regions A \<and>
     is_loading A' = is_loading A \<and> pt_root A' = pt_root A \<and> pt_kva A' = pt_kva A"

definition spaces_rel :: "vm \<Rightarrow> vm \<Rightarrow> bool" where
  "spaces_rel s s' \<longleftrightarrow> (\<forall>a. rel_option space_rel (spaces s a) (spaces s' a))"

lemma space_rel_refl [simp]: "space_rel A A"
  by (simp add: space_rel_def)

lemma space_rel_trans: "space_rel A B \<Longrightarrow> space_rel B C \<Longrightarrow> space_rel A C"
  by (simp add: space_rel_def)

lemma space_rel_put [simp]: "space_rel A (put_pt_entry A va p)"
  by (auto simp: space_rel_def put_pt_entry_def split: option.splits)

lemma spaces_rel_eq: "spaces s' = spaces s \<Longrightarrow> spaces_rel s s'"
  by (simp add: spaces_rel_def option.rel_refl)

lemma spaces_rel_trans:
  assumes "spaces_rel s s'" "spaces_rel s' s''"
  shows "spaces_rel s s''"
  unfolding spaces_rel_def
proof
  fix a
  show "rel_option space_rel (spaces s a) (spaces s'' a)"
    using assms [unfolded spaces_rel_def, THEN spec, of a]
    by (auto elim!: option.rel_cases intro: space_rel_trans)
qed

lemma spaces_relD:
  assumes "spaces_rel s s'"
  shows "spaces s a = Some A \<Longrightarrow> \<exists>A'. spaces s' a = Some A' \<and> space_rel A A'"
    "spaces s a = None \<Longrightarrow> spaces s' a = None"
  using assms [unfolded spaces_rel_def, THEN spec, of a] by (auto simp: option.rel_sel elim: option.rel_cases)

section \<open>The invariant\<close>

definition user_state :: "cme_state \<Rightarrow> bool" where
  "user_state st \<longleftrightarrow> st = CME_CLEAN \<or> st = CME_DIRTY"

lemma user_state_simps [simp]:
  "user_state CME_CLEAN" "user_state CME_DIRTY" "\<not> user_state CME_FREE" "\<not> user_state CME_FIXED"
  by (simp_all add: user_state_def)

definition n_fixed :: "cm_entry list \<Rightarrow> nat" where
  "n_fixed cm = length (filter (\<lambda>e. cme_state e = CME_FIXED) cm)"

definition inv_shape :: "vm \<Rightarrow> bool" where
  "inv_shape s \<longleftrightarrow>
     num_cm_entries s = length (coremap s) \<and> 0 < num_cm_entries s \<and> 0 < base s \<and>
     base s + num_cm_entries s \<le> 524288 \<and> clock_hand s < num_cm_entries s \<and>
     num_cm_free s + num_cm_user s + num_cm_kernel s = int (num_cm_entries s) \<and>
     num_cm_kernel s = int (n_fixed (coremap s)) \<and>
     bitmap_inv (disk_map s) \<and> nbits (disk_map s) \<le> 524288"

definition entry_ok :: "vm \<Rightarrow> nat set \<Rightarrow> nat \<Rightarrow> bool" where
  "entry_ok s T i \<longleftrightarrow> (let e = coremap s ! i in
     (i \<in> T \<longrightarrow> cme_state e = CME_DIRTY \<and> busy_bit e) \<and>
     (cme_state e = CME_FIXED \<longrightarrow>
        cme_as e = None \<and> disk_offset e = - 1 \<and> vaddr_base e = 0 \<and> \<not> use_bit e) \<and>
     (user_state (cme_state e) \<and> i \<notin> T \<longrightarrow>
        0 < vaddr_base e \<and>
        (\<exists>a p. cme_as e = Some a \<and> pte_of (spaces s) a (vaddr_base e) = Some p \<and> present p \<and>
           page_paddr_base p = int (base s + i))))"

definition page_ok :: "vm \<Rightarrow> nat set \<Rightarrow> nat \<Rightarrow> nat \<Rightarrow> pt_ent \<Rightarrow> bool" where
  "page_ok s T a n p \<longleftrightarrow>
     (if present p then
        (\<exists>i < num_cm_entries s. i \<notin> T \<and> page_paddr_base p = int (base s + i) \<and>
           user_state (cme_state (coremap s ! i)) \<and> cme_as (coremap s ! i) = Some a \<and>
           vaddr_base (coremap s ! i) = n \<and> 0 \<le> disk_offset (coremap s ! i) \<and>
           (cme_state (coremap s ! i) = CME_CLEAN \<longrightarrow>
              pmem s i = swapfile s (nat (disk_offset (coremap s ! i)))))
      else 0 \<le> page_paddr_base p)"

definition vm_inv :: "nat set \<Rightarrow> vm \<Rightarrow> bool" where
  "vm_inv T s \<longleftrightarrow>
     inv_shape s \<and> T \<subseteq> {..<num_cm_entries s} \<and>
     (\<forall>i < num_cm_entries s. entry_ok s T i) \<and>
     (\<forall>a n p. pte_of (spaces s) a n = Some p \<longrightarrow> page_ok s T a n p) \<and>
     (\<forall>a n b m. slot_of s a n \<noteq> None \<longrightarrow> slot_of s a n = slot_of s b m \<longrightarrow> a = b \<and> n = m) \<and>
     bitmap_used (disk_map s) = {k. \<exists>a n. slot_of s a n = Some k}"

lemma vm_invD:
  assumes "vm_inv T s"
  shows vm_inv_shape: "inv_shape s" and vm_inv_T: "T \<subseteq> {..<num_cm_entries s}"
    and vm_inv_entry: "i < num_cm_entries s \<Longrightarrow> entry_ok s T i"
    and vm_inv_page: "pte_of (spaces s) a n = Some p \<Longrightarrow> page_ok s T a n p"
    and vm_inv_slot: "slot_of s a n = Some k \<Longrightarrow> slot_of s b m = Some k \<Longrightarrow> a = b \<and> n = m"
    and vm_inv_used: "bitmap_used (disk_map s) = {k. \<exists>a n. slot_of s a n = Some k}"
  using assms unfolding vm_inv_def by (blast, blast, blast, blast, metis option.distinct(1), blast)

lemma page_ok_frame:
  assumes "page_ok s T a n p" "present p"
  shows "frame_of s p < num_cm_entries s" "frame_of s p \<notin> T"
    "page_paddr_base p = int (base s + frame_of s p)"
    "user_state (cme_state (coremap s ! frame_of s p))"
    "cme_as (coremap s ! frame_of s p) = Some a" "vaddr_base (coremap s ! frame_of s p) = n"
    "0 \<le> disk_offset (coremap s ! frame_of s p)"
    "cme_state (coremap s ! frame_of s p) = CME_CLEAN \<Longrightarrow>
       pmem s (frame_of s p) = swapfile s (nat (disk_offset (coremap s ! frame_of s p)))"
  using assms by (auto simp: page_ok_def frame_of_def nat_add_distrib)

lemma slot_used:
  assumes "vm_inv T s" "slot_of s a n = Some k"
  shows "k \<in> bitmap_used (disk_map s)" "k < 524288"
proof -
  show u: "k \<in> bitmap_used (disk_map s)"
    using vm_inv_used [OF assms(1)] assms(2) by blast
  then show "k < 524288"
    using bitmap_used_bound [of "disk_map s"] vm_inv_shape [OF assms(1)]
    by (auto simp: inv_shape_def)
qed

text \<open>The owner of a resident frame.\<close>

lemma user_frame:
  assumes "vm_inv T s" "i < num_cm_entries s" "i \<notin> T" "user_state (cme_state (coremap s ! i))"
  obtains a p where "cme_as (coremap s ! i) = Some a" "0 < vaddr_base (coremap s ! i)"
    "pte_of (spaces s) a (vaddr_base (coremap s ! i)) = Some p" "present p" "frame_of s p = i"
    "page_paddr_base p = int (base s + i)" "0 \<le> disk_offset (coremap s ! i)"
    "slot_of s a (vaddr_base (coremap s ! i)) = Some (nat (disk_offset (coremap s ! i)))"
proof -
  obtain a p where *: "cme_as (coremap s ! i) = Some a" "0 < vaddr_base (coremap s ! i)"
    "pte_of (spaces s) a (vaddr_base (coremap s ! i)) = Some p" "present p"
    "page_paddr_base p = int (base s + i)"
    using vm_inv_entry [OF assms(1,2)] assms(3,4) by (auto simp: entry_ok_def Let_def)
  then have f: "frame_of s p = i" by (simp add: frame_of_def)
  have off: "0 \<le> disk_offset (coremap s ! i)"
    using page_ok_frame(7) [OF vm_inv_page [OF assms(1) *(3)] *(4)] by (simp only: f)
  have "slot_of s a (vaddr_base (coremap s ! i)) = Some (nat (disk_offset (coremap s ! i)))"
    unfolding slot_of_def *(3) by (simp add: *(4) f)
  with * f off show thesis
    by (intro that)
qed

lemma pte_of_exists: "pte_of sp a n = Some p \<Longrightarrow> exists p"
  by (auto simp: pte_of_def split: if_splits option.splits)

lemma pte_of_lookup:
  assumes "pte_of sp a n = Some p"
  shows "n < 1048576" "\<exists>A. sp a = Some A \<and> get_pt_entry A (vpn_addr n) = Some p"
  using assms by (auto simp: pte_of_def split: if_splits option.splits)

lemma entry_ok_transfer:
  assumes "entry_ok s T j" "j \<in> T' \<longleftrightarrow> j \<in> T" "coremap s' ! j = coremap s ! j" "base s' = base s"
    and "\<And>b q. pte_of (spaces s) b (vaddr_base (coremap s ! j)) = Some q \<Longrightarrow> present q \<Longrightarrow>
      page_paddr_base q = int (base s + j) \<Longrightarrow> pte_of (spaces s') b (vaddr_base (coremap s ! j)) = Some q"
  shows "entry_ok s' T' j"
proof -
  have "\<exists>a p. cme_as (coremap s ! j) = Some a \<and>
      pte_of (spaces s') a (vaddr_base (coremap s ! j)) = Some p \<and> present p \<and>
      page_paddr_base p = int (base s + j)"
    if "user_state (cme_state (coremap s ! j))" "j \<notin> T"
    using assms(1) assms(5) that unfolding entry_ok_def Let_def by blast
  then show ?thesis
    using assms(1-4) by (simp add: entry_ok_def Let_def)
qed

section \<open>Updates of the core map that the invariant does not see\<close>

text \<open>Pinning, unpinning and the reference bit of a page that is not in transit.\<close>

lemma n_fixed_update:
  "i < length cm \<Longrightarrow> n_fixed (cm[i := e]) + of_bool (cme_state (cm ! i) = CME_FIXED) =
    n_fixed cm + of_bool (cme_state e = CME_FIXED)"
proof (induction cm arbitrary: i)
  case (Cons x cm)
  then show ?case
    by (cases i) (auto simp: n_fixed_def)
qed simp

lemma vm_inv_cong:
  assumes "vm_inv T s" "inv_shape s'"
    and "num_cm_entries s' = num_cm_entries s" "base s' = base s" "spaces s' = spaces s"
    and "pmem s' = pmem s" "swapfile s' = swapfile s" "disk_map s' = disk_map s"
    and "\<And>i. i < num_cm_entries s \<Longrightarrow>
      cme_as (coremap s' ! i) = cme_as (coremap s ! i) \<and>
      disk_offset (coremap s' ! i) = disk_offset (coremap s ! i) \<and>
      vaddr_base (coremap s' ! i) = vaddr_base (coremap s ! i) \<and>
      cme_state (coremap s' ! i) = cme_state (coremap s ! i) \<and>
      (i \<in> T \<longrightarrow> busy_bit (coremap s' ! i)) \<and>
      (cme_state (coremap s ! i) = CME_FIXED \<longrightarrow> \<not> use_bit (coremap s' ! i))"
  shows "vm_inv T s' \<and> (\<forall>a n. page_content s' a n = page_content s a n)"
proof -
  have frame: "frame_of s' p = frame_of s p" for p
    by (simp add: frame_of_def assms)
  have page: "page_ok s' T a n p" if "pte_of (spaces s) a n = Some p" for a n p
    using vm_inv_page [OF assms(1) that] assms(3-) by (auto simp: page_ok_def)
  have slot: "slot_of s' a n = slot_of s a n" for a n
  proof (cases "pte_of (spaces s) a n")
    case (Some p)
    then show ?thesis
      using page_ok_frame(1) [OF vm_inv_page [OF assms(1) Some]] assms(9) [of "frame_of s p"]
      by (simp add: slot_of_def assms(5) frame)
  qed (simp add: slot_of_def assms(5))
  have entry: "entry_ok s' T i" if "i < num_cm_entries s" for i
    using vm_inv_entry [OF assms(1) that] assms(9) [OF that]
    by (simp add: entry_ok_def Let_def assms(4,5))
  have "vm_inv T s'"
    using assms(1,2) page entry unfolding vm_inv_def slot assms(3,5,8) by blast
  moreover have "page_content s' a n = page_content s a n" for a n
    by (simp add: page_content_def assms frame split: option.split)
  ultimately show ?thesis by blast
qed

section \<open>Page selection\<close>

lemmas cme_defs = cme_upd_def cme_get_state_def cme_set_state_def cme_get_busy_def cme_set_busy_def
  cme_get_use_def cme_set_use_def cme_get_offset_def cme_set_offset_def cme_try_pin_def
  cme_get_vaddr_def cm_get_index_def

text \<open>A free page that can be pinned is found if there is one, and only it is pinned.\<close>

lemma find_free_page_from_spec:
  "find_free_page_from s is =
    (case find (\<lambda>i. cme_state (coremap s ! i) = CME_FREE \<and> \<not> busy_bit (coremap s ! i)) is of
       Some i \<Rightarrow> (Some i, if i < length (coremap s) then cme_set_busy s i True else s)
     | None \<Rightarrow> (None, s))"
proof (induction "is")
  case (Cons i "is")
  then show ?case
    by (cases "i < length (coremap s)") (auto simp: cme_defs list_update_beyond split: option.splits)
qed simp

text \<open>States that differ only in the clock hand and in reference bits of pages that are not fixed.\<close>

definition clock_rel :: "vm \<Rightarrow> vm \<Rightarrow> bool" where
  "clock_rel s s' \<longleftrightarrow>
     (\<exists>cm. s' = s\<lparr>coremap := cm, clock_hand := clock_hand s'\<rparr> \<and> length cm = length (coremap s) \<and>
       clock_hand s' < num_cm_entries s \<and>
       (\<forall>i < length (coremap s). cm ! i = coremap s ! i \<or>
          cme_state (coremap s ! i) \<noteq> CME_FIXED \<and> cm ! i = (coremap s ! i)\<lparr>use_bit := False\<rparr>))"

lemma clock_rel_refl: "clock_hand s < num_cm_entries s \<Longrightarrow> clock_rel s s"
  unfolding clock_rel_def by (rule exI [of _ "coremap s"]) simp

lemma clock_rel_trans:
  assumes "clock_rel s s'" "clock_rel s' s''"
  shows "clock_rel s s''"
proof -
  obtain cm where cm: "s' = s\<lparr>coremap := cm, clock_hand := clock_hand s'\<rparr>" "length cm = length (coremap s)"
    "\<And>i. i < length (coremap s) \<Longrightarrow> cm ! i = coremap s ! i \<or>
       cme_state (coremap s ! i) \<noteq> CME_FIXED \<and> cm ! i = (coremap s ! i)\<lparr>use_bit := False\<rparr>"
    using assms(1) unfolding clock_rel_def by blast
  obtain cm' where cm': "s'' = s'\<lparr>coremap := cm', clock_hand := clock_hand s''\<rparr>" "length cm' = length (coremap s')"
    "clock_hand s'' < num_cm_entries s'"
    "\<And>i. i < length (coremap s') \<Longrightarrow> cm' ! i = coremap s' ! i \<or>
       cme_state (coremap s' ! i) \<noteq> CME_FIXED \<and> cm' ! i = (coremap s' ! i)\<lparr>use_bit := False\<rparr>"
    using assms(2) unfolding clock_rel_def by blast
  have c: "coremap s' = cm" "num_cm_entries s' = num_cm_entries s"
    by (subst cm(1), simp)+
  have "s'' = s\<lparr>coremap := cm', clock_hand := clock_hand s''\<rparr>"
    by (subst cm'(1), subst cm(1)) simp
  moreover have "cm' ! i = coremap s ! i \<or>
       cme_state (coremap s ! i) \<noteq> CME_FIXED \<and> cm' ! i = (coremap s ! i)\<lparr>use_bit := False\<rparr>"
    if "i < length (coremap s)" for i
    using cm(3) [OF that] cm'(4) [of i] that c cm(2) by auto
  ultimately show ?thesis
    using cm'(2,3) c cm(2) unfolding clock_rel_def by auto
qed

text \<open>One turn of the clock either stops at the hand or moves on.\<close>

definition evictable :: "vm \<Rightarrow> nat \<Rightarrow> bool" where
  "evictable s i \<longleftrightarrow> cme_state (coremap s ! i) \<noteq> CME_FIXED \<and> \<not> busy_bit (coremap s ! i)"

definition clock_skip :: "vm \<Rightarrow> vm" where
  "clock_skip s = advance_clock (if evictable s (clock_hand s)
     then cme_upd s (clock_hand s) (\<lambda>e. e\<lparr>use_bit := False\<rparr>) else s)"

lemma unbusy: "\<not> busy_bit e \<Longrightarrow> e\<lparr>use_bit := u, busy_bit := False\<rparr> = e\<lparr>use_bit := u\<rparr>" for e :: cm_entry
  by (cases e) simp

lemma choose_evict_page_step:
  assumes "clock_hand s < length (coremap s)"
  shows "choose_evict_page s =
    (if evictable s (clock_hand s) \<and> \<not> use_bit (coremap s ! clock_hand s)
     then Some (clock_hand s, advance_clock (cme_set_busy s (clock_hand s) True))
     else choose_evict_page (clock_skip s))"
  using assms
  by (subst choose_evict_page.simps)
    (auto simp: cme_defs evictable_def clock_skip_def Let_def unbusy)

lemma clock_skip_rel:
  assumes "inv_shape s"
  shows "clock_rel s (clock_skip s)"
  using assms
  by (auto simp: clock_rel_def clock_skip_def advance_clock_def cme_upd_def evictable_def
      inv_shape_def nth_list_update intro!: exI [of _ "coremap (clock_skip s)"] split: if_splits)

lemma n_fixed_cong:
  assumes "length cm = length cm'" "\<And>i. i < length cm \<Longrightarrow> cme_state (cm ! i) = cme_state (cm' ! i)"
  shows "n_fixed cm = n_fixed cm'"
proof -
  have "map cme_state cm = map cme_state cm'"
    using assms by (intro nth_equalityI) auto
  moreover have "n_fixed c = length (filter ((=) CME_FIXED) (map cme_state c))" for c
    by (auto simp: n_fixed_def filter_map o_def intro!: arg_cong [of _ _ length] filter_cong)
  ultimately show ?thesis by metis
qed

lemma clock_relD:
  assumes "clock_rel s s'"
  shows "length (coremap s') = length (coremap s)" "clock_hand s' < num_cm_entries s"
    "i < length (coremap s) \<Longrightarrow> coremap s' ! i = coremap s ! i \<or>
       cme_state (coremap s ! i) \<noteq> CME_FIXED \<and> coremap s' ! i = (coremap s ! i)\<lparr>use_bit := False\<rparr>"
    "s' = s\<lparr>coremap := coremap s', clock_hand := clock_hand s'\<rparr>"
proof -
  obtain cm where cm: "s' = s\<lparr>coremap := cm, clock_hand := clock_hand s'\<rparr>" "length cm = length (coremap s)"
    "clock_hand s' < num_cm_entries s"
    "\<And>i. i < length (coremap s) \<Longrightarrow> cm ! i = coremap s ! i \<or>
       cme_state (coremap s ! i) \<noteq> CME_FIXED \<and> cm ! i = (coremap s ! i)\<lparr>use_bit := False\<rparr>"
    using assms unfolding clock_rel_def by blast
  have c: "coremap s' = cm" by (subst cm(1)) simp
  show "length (coremap s') = length (coremap s)" "clock_hand s' < num_cm_entries s"
    "i < length (coremap s) \<Longrightarrow> coremap s' ! i = coremap s ! i \<or>
       cme_state (coremap s ! i) \<noteq> CME_FIXED \<and> coremap s' ! i = (coremap s ! i)\<lparr>use_bit := False\<rparr>"
    "s' = s\<lparr>coremap := coremap s', clock_hand := clock_hand s'\<rparr>"
    using cm c by simp_all
qed

lemma clock_rel_fields:
  assumes "clock_rel s s'"
  shows "num_cm_entries s' = num_cm_entries s" "base s' = base s" "spaces s' = spaces s"
    "pmem s' = pmem s" "swapfile s' = swapfile s" "disk_map s' = disk_map s" "pt_held s' = pt_held s"
    "vm_tlb s' = vm_tlb s" "num_cm_free s' = num_cm_free s" "num_cm_user s' = num_cm_user s"
    "num_cm_kernel s' = num_cm_kernel s"
  by (subst clock_relD(4) [OF assms], simp)+

lemma clock_rel_entry:
  assumes "clock_rel s s'" "i < length (coremap s)"
  shows "cme_state (coremap s' ! i) = cme_state (coremap s ! i)"
    "busy_bit (coremap s' ! i) = busy_bit (coremap s ! i)"
    "use_bit (coremap s' ! i) \<Longrightarrow> use_bit (coremap s ! i)"
  using clock_relD(3) [OF assms] by auto

lemma clock_rel_shape:
  assumes "clock_rel s s'" "inv_shape s"
  shows "inv_shape s'"
proof -
  have "n_fixed (coremap s') = n_fixed (coremap s)"
    using clock_relD(1) [OF assms(1)] clock_rel_entry(1) [OF assms(1)] by (intro n_fixed_cong) auto
  then show ?thesis
    using assms(2) clock_relD(1,2) [OF assms(1)]
    by (auto simp: inv_shape_def clock_rel_fields [OF assms(1)])
qed

lemma clock_rel_evictable:
  "clock_rel s s' \<Longrightarrow> inv_shape s \<Longrightarrow> i < num_cm_entries s \<Longrightarrow> evictable s' i = evictable s i"
  by (simp add: evictable_def clock_rel_entry inv_shape_def)

text \<open>What the clock returns: a state reached by turning the hand, whose hand points at a page that
  is not fixed, not pinned and not recently used; that page is pinned and the hand moves on.\<close>

definition clock_result :: "vm \<Rightarrow> nat \<Rightarrow> vm \<Rightarrow> bool" where
  "clock_result s ix s' \<longleftrightarrow>
     (\<exists>s1. clock_rel s s1 \<and> ix = clock_hand s1 \<and> evictable s1 ix \<and> \<not> use_bit (coremap s1 ! ix) \<and>
       s' = advance_clock (cme_set_busy s1 ix True))"

lemma clock_distance:
  fixes h i n :: nat
  assumes "h \<noteq> i" "h < n" "i < n"
  shows "(i + n - (h + 1) mod n) mod n < (i + n - h) mod n"
proof (cases "h + 1 = n")
  case True
  then have "(i + n - h) mod n = i + 1"
    using assms by simp
  then show ?thesis
    using True assms(3) by simp
next
  case False
  then have h: "(h + 1) mod n = h + 1"
    using assms(2) by simp
  show ?thesis
  proof (cases "h < i")
    case True
    then have "(i + n - h) mod n = i - h" "(i + n - (h + 1)) mod n = i - (h + 1)"
      using assms False by (simp_all add: mod_if)
    then show ?thesis using h True by simp
  next
    case False
    then have "(i + n - h) mod n = i + n - h" "(i + n - (h + 1)) mod n = i + n - (h + 1)"
      using assms by simp_all
    then show ?thesis using h False assms by simp
  qed
qed

lemma choose_evict_page_total:
  assumes "inv_shape s" "i < num_cm_entries s" "evictable s i"
  shows "\<exists>ix s'. choose_evict_page s = Some (ix, s') \<and> clock_result s ix s'"
proof -
  let ?used = "\<lambda>s. {j. j < length (coremap s) \<and> use_bit (coremap s ! j)}"
  let ?m = "\<lambda>s. (card (?used s), (i + num_cm_entries s - clock_hand s) mod num_cm_entries s)"
  show ?thesis
    using assms
  proof (induction "?m s" arbitrary: s rule: wf_induct_rule [OF wf_lex_prod [OF wf_less_than wf_less_than]])
    case (1 s)
    let ?h = "clock_hand s" and ?n = "num_cm_entries s"
    have h: "?h < length (coremap s)" and n: "?n = length (coremap s)"
      using 1(2) by (simp_all add: inv_shape_def)
    note rel = clock_skip_rel [OF 1(2)]
    show ?case
    proof (cases "evictable s ?h \<and> \<not> use_bit (coremap s ! ?h)")
      case True
      then show ?thesis
        using choose_evict_page_step [OF h] clock_rel_refl [of s] h n
        by (auto simp: clock_result_def)
    next
      case False
      then have step: "choose_evict_page s = choose_evict_page (clock_skip s)"
        using choose_evict_page_step [OF h] by auto
      have "(?m (clock_skip s), ?m s) \<in> less_than <*lex*> less_than"
      proof (cases "evictable s ?h")
        case True
        with False have "?used (clock_skip s) \<subset> ?used s"
          using h by (auto simp: clock_skip_def advance_clock_def cme_upd_def nth_list_update split: if_splits)
        then have "card (?used (clock_skip s)) < card (?used s)"
          by (intro psubset_card_mono) auto
        then show ?thesis by simp
      next
        case hand: False
        then have "?h \<noteq> i" using 1(4) by auto
        have skip: "clock_skip s = s\<lparr>clock_hand := (?h + 1) mod ?n\<rparr>"
          using hand by (simp add: clock_skip_def advance_clock_def)
        have "(i + ?n - (?h + 1) mod ?n) mod ?n < (i + ?n - ?h) mod ?n"
          using \<open>?h \<noteq> i\<close> h 1(3) by (intro clock_distance) (simp_all add: n)
        then show ?thesis by (simp add: skip)
      qed
      moreover have "inv_shape (clock_skip s)" "i < num_cm_entries (clock_skip s)" "evictable (clock_skip s) i"
        using clock_rel_shape [OF rel 1(2)] clock_rel_fields(1) [OF rel] clock_rel_evictable [OF rel 1(2) 1(3)] 1(3,4)
        by auto
      ultimately have "\<exists>ix s'. choose_evict_page (clock_skip s) = Some (ix, s') \<and> clock_result (clock_skip s) ix s'"
        by (rule 1(1))
      then show ?thesis
        unfolding step clock_result_def using clock_rel_trans [OF rel] by blast
    qed
  qed
qed

lemma choose_evict_page_evictable:
  assumes "choose_evict_page s = Some r" "inv_shape s"
  shows "\<exists>i < num_cm_entries s. evictable s i"
proof -
  have "inv_shape s \<longrightarrow> (\<exists>i < num_cm_entries s. evictable s i)"
  proof (rule choose_evict_page.raw_induct [OF _ assms(1)])
    fix f :: "vm \<Rightarrow> (nat \<times> vm) option" and s :: vm and r
    assume ih: "\<And>s r. f s = Some r \<Longrightarrow> inv_shape s \<longrightarrow> (\<exists>i < num_cm_entries s. evictable s i)"
    let ?h = "clock_hand s"
    assume run: "(let hand = ?h in
       if cme_get_state s hand \<noteq> CME_FIXED then
         (case cme_try_pin s hand of
            (pinned, s') \<Rightarrow>
              if pinned then
                (if cme_get_use s' hand
                 then f (advance_clock (cme_set_busy (cme_set_use s' hand False) hand False))
                 else Some (hand, advance_clock s'))
              else f (advance_clock s'))
       else f (advance_clock s)) = Some r"
    show "inv_shape s \<longrightarrow> (\<exists>i < num_cm_entries s. evictable s i)"
    proof (intro impI, cases "evictable s ?h")
      assume shape: "inv_shape s"
      case True
      then show "\<exists>i < num_cm_entries s. evictable s i"
        using shape by (auto simp: inv_shape_def)
    next
      assume shape: "inv_shape s"
      case False
      then have "f (clock_skip s) = Some r" 
        using run by (auto simp: clock_skip_def evictable_def cme_defs Let_def split: if_splits)
      then show "\<exists>i < num_cm_entries s. evictable s i"
        using ih [of "clock_skip s" r] clock_skip_rel [OF shape] shape
          clock_rel_shape [of s "clock_skip s"] clock_rel_fields(1) [of s "clock_skip s"]
          clock_rel_evictable [of s "clock_skip s"]
        by auto
    qed
  qed
  then show ?thesis using assms(2) by blast
qed

lemma choose_evict_page_result:
  assumes "choose_evict_page s = Some (ix, s')" "inv_shape s"
  shows "clock_result s ix s'"
  using choose_evict_page_evictable [OF assms] choose_evict_page_total [OF assms(2)] assms(1)
  by fastforce

text \<open>Frames in transit keep their entry, the reference bit apart, and no page is written.\<close>

definition transit_kept :: "nat set \<Rightarrow> vm \<Rightarrow> vm \<Rightarrow> bool" where
  "transit_kept T s s' \<longleftrightarrow> pmem s' = pmem s \<and>
     (\<forall>j \<in> T. (coremap s' ! j)\<lparr>use_bit := False\<rparr> = (coremap s ! j)\<lparr>use_bit := False\<rparr>)"

lemma nth_update_notin: "i \<notin> T \<Longrightarrow> j \<in> T \<Longrightarrow> xs[i := e] ! j = xs ! j"
  by (metis nth_list_update_neq)

lemma transit_kept_trans: "transit_kept T s s' \<Longrightarrow> transit_kept T s' s'' \<Longrightarrow> transit_kept T s s''"
  by (simp add: transit_kept_def)

lemma transit_kept_refl [simp]: "transit_kept T s s"
  by (simp add: transit_kept_def)

text \<open>A selected page: pinned, not in transit, and nothing the invariant sees has changed.\<close>

definition selected :: "nat set \<Rightarrow> vm \<Rightarrow> nat \<Rightarrow> vm \<Rightarrow> bool" where
  "selected T s ix s' \<longleftrightarrow>
     vm_inv T s' \<and> (\<forall>a n. page_content s' a n = page_content s a n) \<and>
     ix < num_cm_entries s' \<and> ix \<notin> T \<and> busy_bit (coremap s' ! ix) \<and>
     cme_state (coremap s' ! ix) \<noteq> CME_FIXED \<and>
     spaces s' = spaces s \<and> pt_held s' = pt_held s \<and> vm_tlb s' = vm_tlb s \<and>
     num_cm_entries s' = num_cm_entries s \<and> base s' = base s \<and> disk_map s' = disk_map s \<and>
     num_cm_kernel s' = num_cm_kernel s \<and> transit_kept T s s' \<and>
     (\<forall>j < num_cm_entries s. j \<noteq> ix \<longrightarrow> evictable s' j = evictable s j)"

lemma not_busy_not_transit:
  assumes "vm_inv T s" "i < num_cm_entries s" "\<not> busy_bit (coremap s ! i)"
  shows "i \<notin> T"
  using vm_inv_entry [OF assms(1,2)] assms(3) by (auto simp: entry_ok_def Let_def)

lemma n_fixed_same:
  "cme_state e = cme_state (cm ! i) \<Longrightarrow> n_fixed (cm[i := e]) = n_fixed cm"
  by (cases "i < length cm") (auto simp: nth_list_update list_update_beyond intro!: n_fixed_cong)

lemma selected_pin:
  assumes inv: "vm_inv T s" and rel: "clock_rel s s1"
    and ix: "ix < num_cm_entries s" "\<not> busy_bit (coremap s1 ! ix)" "cme_state (coremap s1 ! ix) \<noteq> CME_FIXED"
    and c: "c < num_cm_entries s"
  shows "selected T s ix ((cme_set_busy s1 ix True)\<lparr>clock_hand := c\<rparr>)" (is "selected T s ix ?s'")
proof -
  note shape = vm_inv_shape [OF inv] and shape1 = clock_rel_shape [OF rel vm_inv_shape [OF inv]]
  have len: "num_cm_entries s = length (coremap s)" "length (coremap s1) = length (coremap s)"
    using shape clock_relD(1) [OF rel] by (simp_all add: inv_shape_def)
  have "inv_shape ?s'"
    using shape1 c clock_rel_fields(1) [OF rel]
    by (auto simp: inv_shape_def cme_defs n_fixed_same)
  then have "vm_inv T ?s' \<and> (\<forall>a n. page_content ?s' a n = page_content s a n)"
  proof (rule vm_inv_cong [OF inv], goal_cases)
    case (7 i)
    then have "i \<in> T \<longrightarrow> busy_bit (coremap s ! i)"
      "cme_state (coremap s ! i) = CME_FIXED \<longrightarrow> \<not> use_bit (coremap s ! i)"
      using vm_inv_entry [OF inv] by (simp_all add: entry_ok_def Let_def)
    then show ?case
      using clock_relD(3) [OF rel, of i] 7 len
      by (cases "i = ix") (auto simp: cme_defs)
  qed (simp_all add: cme_defs clock_rel_fields [OF rel])
  moreover have T: "ix \<notin> T"
    using not_busy_not_transit [OF inv ix(1)] clock_rel_entry(2) [OF rel, of ix] ix len by simp
  moreover have "transit_kept T s ?s'"
  proof -
    have "(coremap s1 ! j)\<lparr>use_bit := False\<rparr> = (coremap s ! j)\<lparr>use_bit := False\<rparr>" if "j \<in> T" for j
    proof -
      have "j < length (coremap s)"
        using that vm_inv_T [OF inv] len by auto
      then show ?thesis
        using clock_relD(3) [OF rel, of j] by auto
    qed
    then show ?thesis
      by (simp add: transit_kept_def cme_defs clock_rel_fields [OF rel] nth_update_notin [OF T])
  qed
  moreover have "evictable ?s' j = evictable s j" if "j < num_cm_entries s" "j \<noteq> ix" for j
    using that clock_rel_evictable [OF rel shape that(1)] by (simp add: evictable_def cme_defs)
  ultimately show ?thesis
    using ix len by (simp add: selected_def cme_defs clock_rel_fields [OF rel])
qed

lemma choose_evict_page_selected:
  assumes "vm_inv T s" "choose_evict_page s = Some (ix, s')"
  shows "selected T s ix s'"
proof -
  note shape = vm_inv_shape [OF assms(1)]
  obtain s1 where s1: "clock_rel s s1" "ix = clock_hand s1" "evictable s1 ix"
    "s' = advance_clock (cme_set_busy s1 ix True)"
    using choose_evict_page_result [OF assms(2) shape] by (auto simp: clock_result_def)
  have "(clock_hand s1 + 1) mod num_cm_entries s1 < num_cm_entries s"
    using shape clock_rel_fields(1) [OF s1(1)] mod_less_divisor by (auto simp: inv_shape_def)
  then show ?thesis
    using selected_pin [OF assms(1) s1(1), of ix] s1(2-4) clock_relD(2) [OF s1(1)]
    by (simp add: evictable_def advance_clock_def cme_defs)
qed

lemma find_free_page_selected:
  assumes "vm_inv T s" "find_free_page s = (Some ix, s')"
  shows "selected T s ix s'" "cme_state (coremap s' ! ix) = CME_FREE"
proof -
  note shape = vm_inv_shape [OF assms(1)]
  have ix: "ix < num_cm_entries s" "cme_state (coremap s ! ix) = CME_FREE" "\<not> busy_bit (coremap s ! ix)"
    "s' = cme_set_busy s ix True"
    using assms(2) shape
    by (auto simp: find_free_page_def find_free_page_from_spec find_upt_Some inv_shape_def split: option.splits)
  have c: "clock_hand s < num_cm_entries s"
    using shape by (simp add: inv_shape_def)
  show "selected T s ix s'"
    using selected_pin [OF assms(1) clock_rel_refl [OF c] ix(1) ix(3) _ c] ix(2,4)
    by (simp add: cme_defs)
  show "cme_state (coremap s' ! ix) = CME_FREE"
    using ix shape by (simp add: cme_defs inv_shape_def)
qed

section \<open>Eviction\<close>

lemma PADDR_COREMAP [simp]:
  "base s' = base s \<Longrightarrow> PADDR_TO_COREMAP s' (COREMAP_TO_PADDR s i) = i"
  "base s' = base s \<Longrightarrow> PADDR_IS_VALID s' (COREMAP_TO_PADDR s i)"
  by (simp_all add: PADDR_TO_COREMAP_def COREMAP_TO_PADDR_def PADDR_IS_VALID_def)

text \<open>Writing a resident page to its slot and marking its table entry absent.\<close>

lemma evict_core:
  assumes inv: "vm_inv T s" and i: "i < num_cm_entries s" "i \<notin> T"
    and user: "user_state (cme_state (coremap s ! i))"
    and a: "cme_as (coremap s ! i) = Some a" and n: "vaddr_base (coremap s ! i) = n"
    and p: "pte_of (spaces s) a n = Some p" "present p" "frame_of s p = i"
    and k: "slot_of s a n = Some k" "disk_offset (coremap s ! i) = int k"
    and s': "inv_shape s'" "num_cm_entries s' = num_cm_entries s" "base s' = base s" "pmem s' = pmem s"
      "disk_map s' = disk_map s" "swapfile s' = (swapfile s)(k := pmem s i)"
      "coremap s' = (coremap s)[i := (coremap s ! i)\<lparr>cme_state := CME_FREE\<rparr>]"
    and pte: "\<And>b m. pte_of (spaces s') b m =
      (if b = a \<and> m = n then Some (p\<lparr>present := False, page_paddr_base := int k\<rparr>) else pte_of (spaces s) b m)"
  shows "vm_inv T s' \<and> (\<forall>b m. page_content s' b m = page_content s b m)"
proof -
  have len: "length (coremap s) = num_cm_entries s"
    using vm_inv_shape [OF inv] by (simp add: inv_shape_def)
  have frame: "frame_of s' q = frame_of s q" for q
    by (simp add: frame_of_def s')
  have other_frame: "frame_of s q < num_cm_entries s \<and> frame_of s q \<noteq> i"
    if "pte_of (spaces s) b m = Some q" "present q" "\<not> (b = a \<and> m = n)" for b m q
    using page_ok_frame [OF vm_inv_page [OF inv that(1)] that(2)] that(3) a n by auto
  have slot: "slot_of s' b m = slot_of s b m" for b m
  proof (cases "b = a \<and> m = n")
    case False
    then show ?thesis
      using other_frame [of b m] by (auto simp: slot_of_def pte frame s'(7) split: option.split)
  qed (simp add: slot_of_def pte k [unfolded slot_of_def])
  have other_slot: "l \<noteq> k" if "slot_of s b m = Some l" "\<not> (b = a \<and> m = n)" for b m l
    using vm_inv_slot [OF inv that(1), of a n] k(1) that(2) by auto
  have page: "page_ok s' T b m q" if q: "pte_of (spaces s') b m = Some q" for b m q
  proof (cases "b = a \<and> m = n")
    case True
    then show ?thesis using q by (auto simp: pte page_ok_def)
  next
    case False
    then have q0: "pte_of (spaces s) b m = Some q"
      using q unfolding pte by (simp split: if_splits)
    show ?thesis
    proof (cases "present q")
      case True
      note f = page_ok_frame [OF vm_inv_page [OF inv q0] True] and g = other_frame [OF q0 True False]
      have "nat (disk_offset (coremap s ! frame_of s q)) \<noteq> k"
        using other_slot [of b m "nat (disk_offset (coremap s ! frame_of s q))"] False q0 True
        by (simp add: slot_of_def)
      then show ?thesis
        using f g True unfolding page_ok_def
        by (auto simp: s' intro!: exI [of _ "frame_of s q"])
    next
      case False
      then show ?thesis using vm_inv_page [OF inv q0] by (simp add: page_ok_def)
    qed
  qed
  have entry: "entry_ok s' T j" if j: "j < num_cm_entries s" for j
  proof (cases "j = i")
    case True
    then show ?thesis using i len by (simp add: entry_ok_def Let_def s')
  next
    case False
    have "pte_of (spaces s') b (vaddr_base (coremap s ! j)) = Some q"
      if "pte_of (spaces s) b (vaddr_base (coremap s ! j)) = Some q" "page_paddr_base q = int (base s + j)" for b q
      using that False p(1,3) by (auto simp: pte frame_of_def)
    then show ?thesis
      using False by (intro entry_ok_transfer [OF vm_inv_entry [OF inv j]]) (simp_all add: s')
  qed
  have content: "page_content s' b m = page_content s b m" for b m
  proof (cases "b = a \<and> m = n")
    case True
    then show ?thesis using p by (simp add: page_content_def pte s')
  next
    case False
    then show ?thesis
      using other_slot [of b m] by (auto simp: page_content_def pte frame s' slot_of_def split: option.split)
  qed
  have "vm_inv T s'"
    using inv s'(1) page entry unfolding vm_inv_def slot s'(2,5) by blast
  then show ?thesis using content by blast
qed

lemma alloc_lock_victim_eq:
  assumes "alloc_lock_victim s as v = Some s'"
  shows "s' = s\<lparr>pt_held := (if as = Some v then pt_held s else insert v (pt_held s))\<rparr>"
proof -
  have "x \<in> h \<Longrightarrow> insert x (insert v (h - {x})) = insert v h" for x h
    by auto
  then show ?thesis
    using assms
    by (auto simp: alloc_lock_victim_def pt_lock_acquire_def pt_lock_release_def insert_absorb
        split: option.splits if_splits)
qed

definition tlb_after_shootdown :: "vm \<Rightarrow> nat \<Rightarrow> tlb" where
  "tlb_after_shootdown s ix = vm_tlb (vm_tlbshootdown s (COREMAP_TO_PADDR s ix))"

lemma vm_tlbshootdown_eq:
  "vm_tlbshootdown s ppn = s\<lparr>vm_tlb := vm_tlb (vm_tlbshootdown s ppn)\<rparr>"
  by (simp add: vm_tlbshootdown_def Let_def)

lemma vm_tlbshootdown_held [simp]:
  "vm_tlb (vm_tlbshootdown (s\<lparr>pt_held := h\<rparr>) ppn) = vm_tlb (vm_tlbshootdown s ppn)"
  by (simp add: vm_tlbshootdown_def PADDR_TO_COREMAP_def cme_defs Let_def)

lemma COREMAP_TO_PADDR_cong: "base s' = base s \<Longrightarrow> COREMAP_TO_PADDR s' = COREMAP_TO_PADDR s"
  by (simp add: COREMAP_TO_PADDR_def fun_eq_iff)

text \<open>The write-back step: the page goes to its slot unless it is already there.\<close>

lemma cme_state_same: "cme_state e = st \<Longrightarrow> e\<lparr>cme_state := st\<rparr> = e" for e :: cm_entry
  by (cases e) simp

lemma alloc_writeback_eq:
  assumes "alloc_writeback io s i = Some s'" "disk_offset (coremap s ! i) = int k" "i < length (coremap s)"
    "cme_state (coremap s' ! i) = CME_CLEAN"
    "cme_state (coremap s ! i) = CME_CLEAN \<Longrightarrow> pmem s i = swapfile s k"
  shows "s' = (cme_set_state s i CME_CLEAN)\<lparr>swapfile := (swapfile s)(k := pmem s i)\<rparr>"
proof (cases "cme_state (coremap s ! i) = CME_DIRTY")
  case True
  then show ?thesis
    using assms(1-4)
    by (auto simp: alloc_writeback_def swapout_def write_page_def cme_defs split: option.splits if_splits)
next
  case False
  then have "s' = s" using assms(1) by (simp add: alloc_writeback_def cme_defs)
  moreover have "(coremap s)[i := (coremap s ! i)\<lparr>cme_state := CME_CLEAN\<rparr>] = coremap s"
    using assms(4) \<open>s' = s\<close> by (simp add: cme_state_same)
  ultimately show ?thesis
    using assms(4,5) by (simp add: cme_defs)
qed

lemma evict_page_clean:
  "evict_page s (COREMAP_TO_PADDR s i) = Some s' \<Longrightarrow> cme_state (coremap s ! i) = CME_CLEAN"
  by (simp add: evict_page_def split: if_splits)

lemma evict_page_eq:
  assumes "evict_page s (COREMAP_TO_PADDR s i) = Some s'" "pte_of (spaces s) a n = Some p"
    "cme_as (coremap s ! i) = Some a" "vaddr_base (coremap s ! i) = n"
    "disk_offset (coremap s ! i) = int k" "k < 524288"
  shows "\<exists>sp. s' = (cme_set_state s i CME_FREE)\<lparr>spaces := sp\<rparr> \<and> spaces_rel s s' \<and>
       (\<forall>b m. pte_of sp b m = (if b = a \<and> m = n
          then Some (p\<lparr>present := False, page_paddr_base := int k\<rparr>) else pte_of (spaces s) b m))"
proof -
  obtain A where A: "spaces s a = Some A" "get_pt_entry A (vpn_addr n) = Some p" and n: "n < 1048576"
    using pte_of_lookup [OF assms(2)] by blast
  let ?p = "p\<lparr>present := False, page_paddr_base := int k\<rparr>"
  let ?sp = "(spaces s)(a := Some (put_pt_entry A (vpn_addr n) ?p))"
  have "s' = (cme_set_state s i CME_FREE)\<lparr>spaces := ?sp\<rparr>"
    using assms A
    by (auto simp: evict_page_def get_as_def put_as_def cme_defs pte_defs vpn_addr_def split: if_splits)
  moreover have "pte_of ?sp b m = (if b = a \<and> m = n then Some ?p else pte_of (spaces s) b m)" for b m
    using pte_of_put [of "spaces s" a A "vpn_addr n" ?p b m] A n pte_of_exists [OF assms(2)] by simp
  moreover have "spaces_rel s s'"
    using A(1) by (simp add: calculation spaces_rel_def option.rel_refl)
  ultimately show ?thesis
    by blast
qed

text \<open>What evicting a selected resident page does.\<close>

definition evicted :: "nat set \<Rightarrow> vm \<Rightarrow> nat \<Rightarrow> vm \<Rightarrow> bool" where
  "evicted T s ix s' \<longleftrightarrow>
     vm_inv T s' \<and> (\<forall>a n. page_content s' a n = page_content s a n) \<and>
     coremap s' = (coremap s)[ix := (coremap s ! ix)\<lparr>cme_state := CME_FREE\<rparr>] \<and>
     pt_held s' = pt_held s \<and> vm_tlb s' = tlb_after_shootdown s ix \<and>
     num_cm_entries s' = num_cm_entries s \<and> base s' = base s \<and> disk_map s' = disk_map s \<and>
     num_cm_kernel s' = num_cm_kernel s \<and> spaces_rel s s' \<and> transit_kept T s s' \<and>
     (\<forall>b m. pte_of (spaces s') b m =
        (if Some b = cme_as (coremap s ! ix) \<and> m = vaddr_base (coremap s ! ix)
         then map_option (\<lambda>p. p\<lparr>present := False, page_paddr_base := disk_offset (coremap s ! ix)\<rparr>)
           (pte_of (spaces s) b m)
         else pte_of (spaces s) b m))"

lemma alloc_evict_spec:
  assumes inv: "vm_inv T s" and i: "ix < num_cm_entries s" "ix \<notin> T"
    and user: "user_state (cme_state (coremap s ! ix))"
    and run: "alloc_evict io s as ix = Some s'"
  shows "evicted T s ix s'"
proof -
  let ?e = "coremap s ! ix"
  obtain a p where a: "cme_as ?e = Some a" and p: "pte_of (spaces s) a (vaddr_base ?e) = Some p" "present p"
    "frame_of s p = ix" and k0: "0 \<le> disk_offset ?e" "slot_of s a (vaddr_base ?e) = Some (nat (disk_offset ?e))"
    using user_frame [OF inv i user] by metis
  define k where "k = nat (disk_offset ?e)"
  have k: "disk_offset ?e = int k" "slot_of s a (vaddr_base ?e) = Some k" "k < 524288"
    using k0 slot_used(2) [OF inv k0(2)] by (simp_all add: k_def)
  have len: "ix < length (coremap s)"
    using vm_inv_shape [OF inv] i by (simp add: inv_shape_def)
  let ?h = "if as = Some a then pt_held s else insert a (pt_held s)"
  let ?s1 = "s\<lparr>pt_held := ?h, vm_tlb := tlb_after_shootdown s ix\<rparr>"
  obtain s2 s3 where s2: "alloc_writeback io ?s1 ix = Some s2"
    and s3: "evict_page s2 (COREMAP_TO_PADDR s2 ix) = Some s3"
    and s': "alloc_unlock_victim s3 (a \<in> pt_held s) ix = Some s'"
  proof -
    obtain sl where sl: "alloc_lock_victim s as a = Some sl"
      using run by (cases "alloc_lock_victim s as a") (simp_all add: alloc_evict_def a)
    have "vm_tlbshootdown sl (COREMAP_TO_PADDR sl ix) = ?s1"
      unfolding alloc_lock_victim_eq [OF sl]
      by (subst vm_tlbshootdown_eq) (simp add: tlb_after_shootdown_def COREMAP_TO_PADDR_def)
    then show thesis
      using run that by (auto simp: alloc_evict_def a sl Option.bind_eq_Some_conv)
  qed
  have clean: "cme_state ?e = CME_CLEAN \<Longrightarrow> pmem s ix = swapfile s k"
    using page_ok_frame(8) [OF vm_inv_page [OF inv p(1)] p(2)] by (simp add: p(3) k(1))
  have s2': "s2 = (cme_set_state ?s1 ix CME_CLEAN)\<lparr>swapfile := (swapfile s)(k := pmem s ix)\<rparr>"
    using alloc_writeback_eq [OF s2, of k] k(1) len evict_page_clean [OF s3] clean by simp
  obtain sp where s3': "s3 = (cme_set_state s2 ix CME_FREE)\<lparr>spaces := sp\<rparr>" and rel: "spaces_rel s2 s3"
    and sp: "\<And>b m. pte_of sp b m = (if b = a \<and> m = vaddr_base ?e
          then Some (p\<lparr>present := False, page_paddr_base := int k\<rparr>) else pte_of (spaces s) b m)"
    using evict_page_eq [OF s3, of a "vaddr_base ?e" p k] p(1) a k len by (auto simp: s2' cme_defs)
  have s3'': "s3 = s\<lparr>coremap := (coremap s)[ix := ?e\<lparr>cme_state := CME_FREE\<rparr>], spaces := sp,
      swapfile := (swapfile s)(k := pmem s ix), pt_held := ?h, vm_tlb := tlb_after_shootdown s ix\<rparr>"
    using len by (simp add: s3' s2' cme_defs)
  have s'': "s' = s3\<lparr>pt_held := pt_held s\<rparr>"
    using s' len a
    by (auto simp: alloc_unlock_victim_def pt_lock_release_def s3'' insert_absorb split: if_splits)
  have "inv_shape s'"
    using vm_inv_shape [OF inv] n_fixed_update [OF len, of "?e\<lparr>cme_state := CME_FREE\<rparr>"] user
    by (auto simp: inv_shape_def user_state_def s'' s3'')
  then have "vm_inv T s' \<and> (\<forall>b m. page_content s' b m = page_content s b m)"
    by (rule evict_core [OF inv i user a refl p k(2,1)]) (simp_all add: s'' s3'' sp)
  moreover have "spaces_rel s s'"
    using rel by (simp add: spaces_rel_def s2' s'' cme_defs)
  moreover have "transit_kept T s s'"
    by (simp add: transit_kept_def s'' s3'' nth_update_notin [OF i(2)])
  ultimately show ?thesis
    using a p(1) k(1) by (auto simp: evicted_def s'' s3'' sp)
qed

section \<open>Allocation\<close>

text \<open>Changing a frame that no page table refers to.\<close>

lemma unmapped_core:
  assumes inv: "vm_inv T s" and T': "\<And>j. j \<noteq> ix \<Longrightarrow> j \<in> T' \<longleftrightarrow> j \<in> T" "T' \<subseteq> {..<num_cm_entries s}"
    and ix: "ix < num_cm_entries s" "ix \<in> T \<or> \<not> user_state (cme_state (coremap s ! ix))"
    and s': "inv_shape s'" "num_cm_entries s' = num_cm_entries s" "base s' = base s"
      "spaces s' = spaces s" "swapfile s' = swapfile s" "disk_map s' = disk_map s"
      "coremap s' = (coremap s)[ix := e]" "\<And>j. j \<noteq> ix \<Longrightarrow> pmem s' j = pmem s j"
    and ok: "entry_ok s' T' ix"
  shows "vm_inv T' s' \<and> (\<forall>b m. page_content s' b m = page_content s b m)"
proof -
  have frame: "frame_of s' q = frame_of s q" for q
    by (simp add: frame_of_def s')
  have other: "frame_of s q \<noteq> ix" if "pte_of (spaces s) b m = Some q" "present q" for b m q
    using page_ok_frame(2,4) [OF vm_inv_page [OF inv that(1)] that(2)] ix(2) by auto
  have slot: "slot_of s' b m = slot_of s b m" for b m
    using other [of b m] by (auto simp: slot_of_def frame s' split: option.split)
  have page: "page_ok s' T' b m q" if q: "pte_of (spaces s) b m = Some q" for b m q
  proof (cases "present q")
    case True
    then show ?thesis
      using page_ok_frame [OF vm_inv_page [OF inv q] True] other [OF q True] T'(1)
      unfolding page_ok_def by (auto simp: s' intro!: exI [of _ "frame_of s q"])
  next
    case False
    then show ?thesis using vm_inv_page [OF inv q] by (simp add: page_ok_def)
  qed
  have entry: "entry_ok s' T' j" if "j < num_cm_entries s" for j
    using vm_inv_entry [OF inv that] ok T'(1) [of j]
    by (cases "j = ix") (auto simp: entry_ok_def Let_def s')
  have "page_content s' b m = page_content s b m" for b m
    using other [of b m] by (auto simp: page_content_def frame s' split: option.split)
  moreover have "vm_inv T' s'"
    using inv s'(1) page entry T'(2) unfolding vm_inv_def slot s'(2,4,6) by blast
  ultimately show ?thesis by blast
qed

lemma mark_allocated_eq:
  assumes "mark_allocated s ix iskern = Some s'"
  shows "cme_state (coremap s ! ix) = CME_FREE" "busy_bit (coremap s ! ix)"
    "ix < length (coremap s) \<Longrightarrow> s' = s\<lparr>coremap := (coremap s)[ix := \<lparr>cme_as = None, disk_offset = - 1,
        vaddr_base = 0, cme_state = (if iskern then CME_FIXED else CME_DIRTY), busy_bit = True,
        use_bit = False\<rparr>],
      num_cm_free := num_cm_free s - 1,
      num_cm_kernel := num_cm_kernel s + of_bool iskern,
      num_cm_user := num_cm_user s + of_bool (\<not> iskern)\<rparr>"
proof -
  show "cme_state (coremap s ! ix) = CME_FREE" "busy_bit (coremap s ! ix)"
    using assms by (simp_all add: mark_allocated_def split: if_splits)
  then show "ix < length (coremap s) \<Longrightarrow> s' = s\<lparr>coremap := (coremap s)[ix := \<lparr>cme_as = None, disk_offset = - 1,
        vaddr_base = 0, cme_state = (if iskern then CME_FIXED else CME_DIRTY), busy_bit = True,
        use_bit = False\<rparr>],
      num_cm_free := num_cm_free s - 1,
      num_cm_kernel := num_cm_kernel s + of_bool iskern,
      num_cm_user := num_cm_user s + of_bool (\<not> iskern)\<rparr>"
    using assms
    by (cases "coremap s ! ix") (auto simp: mark_allocated_def cme_defs Let_def split: if_splits)
qed

text \<open>A page selected for allocation: free and pinned, everything else as before.\<close>

definition ready :: "nat set \<Rightarrow> vm \<Rightarrow> nat \<Rightarrow> vm \<Rightarrow> bool" where
  "ready T s ix s' \<longleftrightarrow>
     vm_inv T s' \<and> (\<forall>a n. page_content s' a n = page_content s a n) \<and>
     ix < num_cm_entries s' \<and> ix \<notin> T \<and>
     num_cm_entries s' = num_cm_entries s \<and> base s' = base s \<and> disk_map s' = disk_map s \<and>
     num_cm_kernel s' = num_cm_kernel s \<and> pt_held s' = pt_held s \<and> spaces_rel s s' \<and>
     transit_kept T s s' \<and>
     (\<forall>b m q. pte_of (spaces s') b m = Some q \<longrightarrow> present q \<longrightarrow> pte_of (spaces s) b m = Some q) \<and>
     (\<forall>j < num_cm_entries s. j \<noteq> ix \<longrightarrow> evictable s' j = evictable s j)"

lemma alloc_select_ready:
  assumes inv: "vm_inv T s" and run: "alloc_select io s as = Some (ix, s')"
  shows "ready T s ix s'"
proof -
  obtain r s1 where find: "(if num_cm_free s > 0 then find_free_page s else (None, s)) = (r, s1)"
    by (cases "if num_cm_free s > 0 then find_free_page s else (None, s)")
  show ?thesis
  proof (cases r)
    case (Some i)
    then have "find_free_page s = (Some ix, s')"
      using find run by (auto simp: alloc_select_def split: if_splits)
    then show ?thesis
      using find_free_page_selected(1) [OF inv] by (auto simp: ready_def selected_def intro: spaces_rel_eq)
  next
    case None
    then have "s1 = s"
      using find by (auto simp: find_free_page_def find_free_page_from_spec split: if_splits option.splits)
    then obtain s2 where s2: "choose_evict_page s = Some (ix, s2)"
      "(if cme_get_state s2 ix \<noteq> CME_FREE then alloc_evict io s2 as ix else Some s2) = Some s'"
      using run find None by (auto simp: alloc_select_def Option.bind_eq_Some_conv split: if_splits)
    note sel = choose_evict_page_selected [OF inv s2(1), unfolded selected_def]
    show ?thesis
    proof (cases "cme_get_state s2 ix = CME_FREE")
      case True
      then show ?thesis using s2(2) sel by (auto simp: ready_def intro: spaces_rel_eq)
    next
      case False
      then have "user_state (cme_state (coremap s2 ! ix))"
        using sel by (cases "cme_state (coremap s2 ! ix)") (auto simp: cme_defs)
      then have "evicted T s2 ix s'"
        using alloc_evict_spec [of T s2 ix io as s'] sel s2(2) False by auto
      then show ?thesis
        using sel spaces_rel_trans [OF spaces_rel_eq, of s2 s s'] transit_kept_trans [of T s s2 s']
        by (auto simp: ready_def evicted_def evictable_def split: if_splits)
    qed
  qed
qed

definition fresh_entry :: "nat option \<Rightarrow> vaddr \<Rightarrow> cm_entry" where
  "fresh_entry as va = \<lparr>cme_as = as, disk_offset = - 1, vaddr_base = (if as = None then 0 else vpn va),
     cme_state = (if as = None then CME_FIXED else CME_DIRTY), busy_bit = True, use_bit = False\<rparr>"

lemma alloc_one_page_eq:
  assumes "alloc_one_page io s as va = Some (pa, s')" "vm_inv T s"
  shows "as = None \<and> reached_kpage_limit s \<and> pa = 0 \<and> s' = s \<or>
    (\<exists>ix s1. alloc_select io s as = Some (ix, s1) \<and> pa = COREMAP_TO_PADDR s ix \<and> pa \<noteq> 0 \<and>
      \<not> (as = None \<and> reached_kpage_limit s) \<and>
      cme_state (coremap s1 ! ix) = CME_FREE \<and>
      s' = s1\<lparr>coremap := (coremap s1)[ix := fresh_entry as va],
        num_cm_free := num_cm_free s1 - 1,
        num_cm_kernel := num_cm_kernel s1 + of_bool (as = None),
        num_cm_user := num_cm_user s1 + of_bool (as \<noteq> None)\<rparr>)"
proof (cases "as = None \<and> reached_kpage_limit s")
  case True
  then show ?thesis using assms(1) by (auto simp: alloc_one_page_def split: if_splits)
next
  case False
  obtain ix s1 s2 where sel: "alloc_select io s as = Some (ix, s1)"
    and mark: "mark_allocated s1 ix (as = None) = Some s2"
    and rest: "(if as \<noteq> None then do { KASSERT (va \<noteq> 0);
        Some (cme_upd s2 ix (\<lambda>e. e\<lparr>cme_as := as, vaddr_base := unat (drop_bit 12 va)\<rparr>)) } else Some s2)
      = Some s'" and pa: "pa = COREMAP_TO_PADDR s' ix"
    using assms(1) False
    by (auto simp: alloc_one_page_def Option.bind_eq_Some_conv split: if_splits)
  note r = alloc_select_ready [OF assms(2) sel, unfolded ready_def]
  have len: "ix < length (coremap s1)"
    using r vm_inv_shape [of T s1] by (simp add: inv_shape_def)
  note m = mark_allocated_eq [OF mark]
  have s': "s' = s1\<lparr>coremap := (coremap s1)[ix := fresh_entry as va],
        num_cm_free := num_cm_free s1 - 1,
        num_cm_kernel := num_cm_kernel s1 + of_bool (as = None),
        num_cm_user := num_cm_user s1 + of_bool (as \<noteq> None)\<rparr>"
    using rest m(3) [OF len] len by (auto simp: cme_upd_def fresh_entry_def vpn_def split: if_splits)
  have "pa = COREMAP_TO_PADDR s ix"
    using pa r by (simp add: COREMAP_TO_PADDR_def s')
  moreover have "pa \<noteq> 0"
    using vm_inv_shape [OF assms(2)] calculation by (simp add: COREMAP_TO_PADDR_def inv_shape_def)
  ultimately show ?thesis
    using False sel s' m(1) by blast
qed

lemma alloc_one_page_spec:
  assumes inv: "vm_inv T s" and run: "alloc_one_page io s as va = Some (pa, s')"
  shows "(\<forall>a n. page_content s' a n = page_content s a n) \<and> pt_held s' = pt_held s \<and>
    num_cm_entries s' = num_cm_entries s \<and> base s' = base s \<and> disk_map s' = disk_map s \<and>
    spaces_rel s s' \<and> transit_kept T s s' \<and>
    (if pa = 0 then s' = s \<and> as = None \<and> reached_kpage_limit s
     else \<exists>ix < num_cm_entries s. pa = COREMAP_TO_PADDR s ix \<and> ix \<notin> T \<and>
       vm_inv (if as = None then T else insert ix T) s' \<and> coremap s' ! ix = fresh_entry as va)"
proof -
  consider "as = None" "reached_kpage_limit s" "pa = 0" "s' = s"
    | ix s1 where "alloc_select io s as = Some (ix, s1)" "pa = COREMAP_TO_PADDR s ix" "pa \<noteq> 0"
      "cme_state (coremap s1 ! ix) = CME_FREE"
      "s' = s1\<lparr>coremap := (coremap s1)[ix := fresh_entry as va],
        num_cm_free := num_cm_free s1 - 1,
        num_cm_kernel := num_cm_kernel s1 + of_bool (as = None),
        num_cm_user := num_cm_user s1 + of_bool (as \<noteq> None)\<rparr>"
    using alloc_one_page_eq [OF run inv] by blast
  then show ?thesis
  proof cases
    case 1
    then show ?thesis by (simp add: spaces_rel_eq)
  next
    case 2
    note r = alloc_select_ready [OF inv 2(1), unfolded ready_def]
    let ?T = "if as = None then T else insert ix T"
    have len: "ix < length (coremap s1)" "ix < num_cm_entries s1"
      using r vm_inv_shape [of T s1] by (simp_all add: inv_shape_def)
    have "inv_shape s'"
      using r vm_inv_shape [of T s1] n_fixed_update [OF len(1), of "fresh_entry as va"] 2(4)
      by (auto simp: inv_shape_def 2(5) fresh_entry_def)
    then have "vm_inv ?T s' \<and> (\<forall>b m. page_content s' b m = page_content s1 b m)"
    proof (rule unmapped_core [of T s1 ix ?T s' "fresh_entry as va", rotated 5])
      show "entry_ok s' ?T ix"
        using len r by (auto simp: entry_ok_def Let_def 2(5) fresh_entry_def)
      show "?T \<subseteq> {..<num_cm_entries s1}"
        using r vm_inv_T [of T s1] by auto
    qed (use r 2(4) in \<open>simp_all add: 2(5)\<close>)
    moreover have "spaces_rel s s'"
      using r by (simp add: spaces_rel_def 2(5))
    moreover have "transit_kept T s s'"
    proof -
      have T: "ix \<notin> T" using r by simp
      show ?thesis
        using r by (simp add: transit_kept_def 2(5) nth_update_notin [OF T])
    qed
    ultimately show ?thesis
      using 2(2,3) r len by (auto simp: 2(5))
  qed
qed

section \<open>Allocation does not stop the machine\<close>

text \<open>The lock discipline of the callers: a user fault holds the lock of its own address space and
  no other.\<close>

definition alloc_locks_ok :: "vm \<Rightarrow> nat option \<Rightarrow> bool" where
  "alloc_locks_ok s as \<longleftrightarrow> (case as of None \<Rightarrow> True | Some a \<Rightarrow> pt_held s = {a})"

lemma alloc_lock_victim_succeeds:
  "alloc_locks_ok s as \<Longrightarrow> \<exists>s'. alloc_lock_victim s as v = Some s'"
  by (auto simp: alloc_locks_ok_def alloc_lock_victim_def pt_lock_acquire_def pt_lock_release_def
      split: option.splits)

lemma alloc_evict_succeeds:
  assumes inv: "vm_inv T s" and i: "ix < num_cm_entries s" "ix \<notin> T"
    and user: "user_state (cme_state (coremap s ! ix))"
    and locks: "alloc_locks_ok s as" and io: "\<And>k. io True k = None"
  shows "\<exists>s'. alloc_evict io s as ix = Some s'"
proof -
  let ?e = "coremap s ! ix"
  obtain a p where a: "cme_as ?e = Some a" and p: "pte_of (spaces s) a (vaddr_base ?e) = Some p"
    and k: "0 \<le> disk_offset ?e"
    using user_frame [OF inv i user] by metis
  obtain A where A: "spaces s a = Some A" "get_pt_entry A (vpn_addr (vaddr_base ?e)) = Some p"
    using pte_of_lookup [OF p] by blast
  have len: "ix < length (coremap s)"
    using vm_inv_shape [OF inv] i by (simp add: inv_shape_def)
  obtain sl where sl: "alloc_lock_victim s as a = Some sl"
    using alloc_lock_victim_succeeds [OF locks] by blast
  let ?h = "if as = Some a then pt_held s else insert a (pt_held s)"
  let ?s1 = "s\<lparr>pt_held := ?h, vm_tlb := tlb_after_shootdown s ix\<rparr>"
  have s1: "vm_tlbshootdown sl (COREMAP_TO_PADDR sl ix) = ?s1"
    unfolding alloc_lock_victim_eq [OF sl]
    by (subst vm_tlbshootdown_eq) (simp add: tlb_after_shootdown_def COREMAP_TO_PADDR_def)
  obtain f where s2: "alloc_writeback io ?s1 ix = Some ((cme_set_state ?s1 ix CME_CLEAN)\<lparr>swapfile := f\<rparr>)"
  proof (cases "cme_state ?e = CME_DIRTY")
    case True
    then show thesis
      using k len io
      by (intro that [of "(swapfile s)(nat (disk_offset ?e) := pmem s ix)"])
        (simp add: alloc_writeback_def swapout_def write_page_def cme_defs)
  next
    case False
    then have "cme_state ?e = CME_CLEAN" using user by (simp add: user_state_def)
    then show thesis
      using that [of "swapfile s"] by (simp add: alloc_writeback_def cme_defs cme_state_same)
  qed
  let ?s2 = "(cme_set_state ?s1 ix CME_CLEAN)\<lparr>swapfile := f\<rparr>"
  let ?p = "pte_set_location (pte_set_present p False) (disk_offset ?e)"
  let ?s3 = "cme_set_state (put_as ?s2 a (put_pt_entry A (vpn_addr (vaddr_base ?e)) ?p)) ix CME_FREE"
  have s3: "evict_page ?s2 (COREMAP_TO_PADDR ?s2 ix) = Some ?s3"
    using a A len k by (simp add: evict_page_def get_as_def cme_defs vpn_addr_def Let_def)
  have "alloc_evict io s as ix = alloc_unlock_victim ?s3 (a \<in> pt_held s) ix"
    by (simp only: alloc_evict_def a sl s1 s2 s3 Let_def Option.bind.bind_lunit)
  moreover have "as = Some a \<Longrightarrow> a \<in> pt_held s"
    using locks by (auto simp: alloc_locks_ok_def)
  ultimately show ?thesis
    using a len by (auto simp: alloc_unlock_victim_def pt_lock_release_def put_as_def cme_defs)
qed

lemma alloc_select_succeeds:
  assumes inv: "vm_inv T s" and ev: "i < num_cm_entries s" "evictable s i"
    and locks: "alloc_locks_ok s as" and io: "\<And>k. io True k = None"
  shows "\<exists>ix s'. alloc_select io s as = Some (ix, s') \<and> cme_state (coremap s' ! ix) = CME_FREE \<and>
    busy_bit (coremap s' ! ix)"
proof -
  obtain r s1 where find: "(if num_cm_free s > 0 then find_free_page s else (None, s)) = (r, s1)"
    by (cases "if num_cm_free s > 0 then find_free_page s else (None, s)")
  show ?thesis
  proof (cases r)
    case (Some ix)
    then have "find_free_page s = (Some ix, s1)"
      using find by (simp split: if_splits)
    from find_free_page_selected [OF inv this] show ?thesis
      using find Some by (auto simp: alloc_select_def selected_def)
  next
    case None
    then have s1: "s1 = s"
      using find by (auto simp: find_free_page_def find_free_page_from_spec split: if_splits option.splits)
    obtain ix s2 where s2: "choose_evict_page s = Some (ix, s2)"
      using choose_evict_page_total [OF vm_inv_shape [OF inv] ev] by blast
    note sel = choose_evict_page_selected [OF inv s2, unfolded selected_def]
    show ?thesis
    proof (cases "cme_state (coremap s2 ! ix) = CME_FREE")
      case True
      then show ?thesis
        using find None s1 s2 sel by (auto simp: alloc_select_def cme_get_state_def)
    next
      case False
      then have user: "user_state (cme_state (coremap s2 ! ix))"
        using sel by (cases "cme_state (coremap s2 ! ix)") auto
      have "alloc_locks_ok s2 as"
        using locks sel by (simp add: alloc_locks_ok_def split: option.splits)
      then obtain s3 where s3: "alloc_evict io s2 as ix = Some s3"
        using alloc_evict_succeeds [of T s2 ix as io] sel user io by blast
      then have "evicted T s2 ix s3"
        using alloc_evict_spec [of T s2 ix io as s3] sel user by blast
      moreover have "ix < length (coremap s2)"
        using sel vm_inv_shape [of T s2] by (simp add: inv_shape_def)
      ultimately have "cme_state (coremap s3 ! ix) = CME_FREE \<and> busy_bit (coremap s3 ! ix)"
        using sel by (simp add: evicted_def)
      then show ?thesis
        using find None s1 s2 s3 False by (auto simp: alloc_select_def cme_get_state_def)
    qed
  qed
qed

lemma alloc_one_page_succeeds:
  assumes inv: "vm_inv T s" and ev: "i < num_cm_entries s" "evictable s i"
    and locks: "alloc_locks_ok s as" and io: "\<And>k. io True k = None" and va: "as \<noteq> None \<Longrightarrow> va \<noteq> 0"
  shows "\<exists>pa s'. alloc_one_page io s as va = Some (pa, s')"
proof (cases "as = None \<and> reached_kpage_limit s")
  case True
  then show ?thesis
    using vm_inv_shape [OF inv] by (auto simp: alloc_one_page_def inv_shape_def)
next
  case False
  obtain ix s1 where s1: "alloc_select io s as = Some (ix, s1)"
    "cme_state (coremap s1 ! ix) = CME_FREE" "busy_bit (coremap s1 ! ix)"
    using alloc_select_succeeds [OF inv ev locks, of io] io by blast
  note r = alloc_select_ready [OF inv s1(1), unfolded ready_def]
  have "\<exists>s2. mark_allocated s1 ix (as = None) = Some s2"
    using s1 r vm_inv_shape [of T s1] by (auto simp: mark_allocated_def cme_defs inv_shape_def Let_def)
  then show ?thesis
    using s1 False va vm_inv_shape [OF inv] by (auto simp: alloc_one_page_def inv_shape_def)
qed

section \<open>Entering a frame in a page table\<close>

text \<open>A frame in transit becomes the home of page \<open>n\<close> of address space \<open>a\<close>, with swap slot \<open>k\<close>: a
  new slot for a new page, its own slot for a page that comes back from swap.\<close>

lemma install_core:
  assumes inv: "vm_inv (insert ix T) s" and ix: "ix \<notin> T" and n: "0 < n"
    and slot: "\<And>b m. slot_of s b m = Some k \<Longrightarrow> b = a \<and> m = n"
    and old: "slot_of s a n = None \<or> slot_of s a n = Some k"
      "\<And>q. pte_of (spaces s) a n = Some q \<Longrightarrow> \<not> present q"
    and s': "inv_shape s'" "num_cm_entries s' = num_cm_entries s" "base s' = base s"
      "swapfile s' = swapfile s" "bitmap_used (disk_map s') = insert k (bitmap_used (disk_map s))"
      "coremap s' = (coremap s)[ix := e]" "\<And>j. j \<noteq> ix \<Longrightarrow> pmem s' j = pmem s j"
    and e: "cme_as e = Some a" "vaddr_base e = n" "disk_offset e = int k" "user_state (cme_state e)"
      "cme_state e = CME_CLEAN \<Longrightarrow> pmem s' ix = swapfile s k"
    and p: "present p" "page_paddr_base p = int (base s + ix)"
    and pte: "\<And>b m. pte_of (spaces s') b m = (if b = a \<and> m = n then Some p else pte_of (spaces s) b m)"
  shows "vm_inv T s' \<and> (\<forall>b m. page_content s' b m =
    (if b = a \<and> m = n then Some (permissions p, pmem s' ix) else page_content s b m))"
proof -
  have ixn: "ix < num_cm_entries s" "ix < length (coremap s)"
    using vm_inv_T [OF inv] vm_inv_shape [OF inv] by (auto simp: inv_shape_def)
  have frame: "frame_of s' q = frame_of s q" and fp: "frame_of s p = ix" for q
    using p(2) by (simp_all add: frame_of_def s')
  have other: "frame_of s q \<noteq> ix" if "pte_of (spaces s) b m = Some q" "present q" for b m q
    using page_ok_frame(2) [OF vm_inv_page [OF inv that(1)] that(2)] by auto
  have slot': "slot_of s' b m = (if b = a \<and> m = n then Some k else slot_of s b m)" for b m
    using other [of b m] p(1) ixn
    by (auto simp: slot_of_def frame fp pte s' e(3) split: option.split)
  have page: "page_ok s' T b m q" if q: "pte_of (spaces s') b m = Some q" for b m q
  proof (cases "b = a \<and> m = n")
    case True
    then have "q = p" using q by (simp add: pte)
    then show ?thesis
      using True p e ix ixn unfolding page_ok_def by (auto simp: s' intro!: exI [of _ ix])
  next
    case False
    then have q0: "pte_of (spaces s) b m = Some q"
      using q unfolding pte by (simp split: if_splits)
    show ?thesis
    proof (cases "present q")
      case True
      then show ?thesis
        using page_ok_frame [OF vm_inv_page [OF inv q0] True] other [OF q0 True]
        unfolding page_ok_def by (auto simp: s' intro!: exI [of _ "frame_of s q"])
    next
      case False
      then show ?thesis using vm_inv_page [OF inv q0] by (simp add: page_ok_def)
    qed
  qed
  have entry: "entry_ok s' T j" if j: "j < num_cm_entries s" for j
  proof (cases "j = ix")
    case True
    then show ?thesis
      using ix ixn e p n by (auto simp: entry_ok_def Let_def s' pte user_state_def)
  next
    case False
    have "pte_of (spaces s') b m = Some q"
      if "pte_of (spaces s) b m = Some q" "present q" for b m q
      using that old(2) by (auto simp: pte)
    then show ?thesis
      using False by (intro entry_ok_transfer [OF vm_inv_entry [OF inv j]]) (simp_all add: s')
  qed
  have uniq: "b = c \<and> m = l" if "slot_of s' b m = Some x" "slot_of s' c l = Some x" for b m c l x
  proof (cases "x = k")
    case True
    have "b = a \<and> m = n" if k: "slot_of s' b m = Some k" for b m
    proof (rule ccontr)
      assume "\<not> (b = a \<and> m = n)"
      moreover from this have "slot_of s b m = Some k"
        using k slot' [of b m] by (simp only: if_False)
      ultimately show False using slot by blast
    qed
    then show ?thesis using that True by blast
  next
    case False
    then have "slot_of s b m = Some x" "slot_of s c l = Some x"
      using that unfolding slot' by (simp_all split: if_splits)
    then show ?thesis by (rule vm_inv_slot [OF inv])
  qed
  have used: "bitmap_used (disk_map s') = {x. \<exists>b m. slot_of s' b m = Some x}"
  proof -
    have "(\<exists>b m. slot_of s' b m = Some x) \<longleftrightarrow> x = k \<or> (\<exists>b m. slot_of s b m = Some x)" for x
    proof (cases "x = k")
      case True
      then show ?thesis unfolding slot' by (auto intro: exI [of _ a])
    next
      case False
      then have "slot_of s' b m = Some x \<longleftrightarrow> slot_of s b m = Some x" for b m
        using old(1) unfolding slot' by auto
      then show ?thesis using False by simp
    qed
    then show ?thesis
      using vm_inv_used [OF inv] s'(5) by auto
  qed
  have uniq': "b = c \<and> m = l" if *: "slot_of s' b m \<noteq> None" "slot_of s' b m = slot_of s' c l" for b m c l
  proof -
    obtain x where "slot_of s' b m = Some x" using *(1) by blast
    then show ?thesis using uniq [of b m x c l] *(2) by simp
  qed
  have "T \<subseteq> {..<num_cm_entries s}" using vm_inv_T [OF inv] by simp
  then have "vm_inv T s'"
    unfolding vm_inv_def s'(2) using s'(1) page entry uniq' used by blast
  moreover have "page_content s' b m =
      (if b = a \<and> m = n then Some (permissions p, pmem s' ix) else page_content s b m)" for b m
    using other [of b m] p(1)
    by (auto simp: page_content_def frame fp pte s' split: option.split)
  ultimately show ?thesis by blast
qed

end
