(* ===== verification/Vm.thy ===== *)
theory Vm
  imports Paging
begin

text \<open>
  Faults and address space life cycle on top of the core map: vm_fault of
  kern/arch/mips/vm/vm.c, and pt_insert, pt_destroy, as_copy, as_destroy of
  kern/vm/addrspace.c.  A page table is one page from kmalloc, which for that size is
  alloc_kpages, and goes back through kfree, which for a page is free_kpages; the small
  kernel objects are not tracked.
\<close>

section \<open>Inserting a page table entry\<close>

definition empty_pte :: pt_ent where
  "empty_pte = \<lparr>page_paddr_base = 0, permissions = 0, present = False, exists = False\<rparr>"

definition pt_insert :: "swap_io \<Rightarrow> vm \<Rightarrow> nat \<Rightarrow> vaddr \<Rightarrow> int \<Rightarrow> int \<Rightarrow> (errno option \<times> vm) option" where
  "pt_insert io s a va ppn perm =
    do {
      KASSERT (ppn AND 0xfff00000 = 0);
      KASSERT (0 \<le> perm \<and> perm \<le> 7);
      A \<leftarrow> spaces s a;
      (mem, s) \<leftarrow> (case page_table A (PT_PRIMARY_INDEX va) of
          Some d \<Rightarrow> Some (True, s)
        | None \<Rightarrow> do {
            (kva, s) \<leftarrow> alloc_kpages io s 1;
            (case kva of
               None \<Rightarrow> Some (False, s)
             | Some kva \<Rightarrow> do {
                 A \<leftarrow> spaces s a;
                 Some (True, put_as s a (A\<lparr>page_table := (page_table A)
                   (PT_PRIMARY_INDEX va := Some (\<lambda>i. empty_pte)),
                   pt_kva := (pt_kva A)(PT_PRIMARY_INDEX va := kva)\<rparr>))
               })
          });
      if \<not> mem then Some (Some ENOMEM, s)
      else do {
        A \<leftarrow> spaces s a;
        pte \<leftarrow> get_pt_entry A va;
        KASSERT (\<not> pte_get_exists pte);
        let pte = pte_set_exists (pte_set_present (pte_set_permissions
          (pte_set_location pte ppn) perm) True) True;
        Some (None, put_as s a (put_pt_entry A va pte))
      }
    }"

section \<open>Faults\<close>

datatype fault_type = VM_FAULT_READ | VM_FAULT_WRITE | VM_FAULT_READONLY | VM_FAULT_OTHER

text \<open>The address check at the head of the handler: the permissions of the page, None when the
  address is not part of the address space.\<close>

definition vm_fault_permissions :: "addrspace \<Rightarrow> vaddr \<Rightarrow> int option" where
  "vm_fault_permissions A va =
    (if heap_start A \<le> va \<and> va \<le> heap_end A then Some 3
     else if USERSTACK - 4096 * STACK_PAGES \<le> va then Some 3
     else let p = as_get_permissions A va in if 0 \<le> p then Some p else None)"

text \<open>A write to a page mapped read-only.\<close>

definition vm_fault_readonly :: "nat \<Rightarrow> vm \<Rightarrow> addrspace \<Rightarrow> vaddr \<Rightarrow> (errno option \<times> vm) option" where
  "vm_fault_readonly rnd s A va =
    do {
      pte \<leftarrow> get_pt_entry A va;
      if pte_get_permissions pte AND 2 = 0 \<and> \<not> is_loading A then Some (Some EFAULT, s)
      else
        let pa = loc_to_paddr (pte_get_location pte);
            s = cme_set_state s (cm_get_index s pa) CME_DIRTY;
            elo = (word_of_nat pa AND TLBLO_PPAGE) OR TLBLO_DIRTY OR TLBLO_VALID;
            ehi = va AND TLBHI_VPAGE;
            tlbindex = tlb_probe (vm_tlb s) va;
            s = s\<lparr>vm_tlb := (if tlbindex < - 1 then tlb_random rnd (vm_tlb s) ehi elo
                              else tlb_write (vm_tlb s) ehi elo tlbindex)\<rparr>
        in Some (None, cme_set_use s (cm_get_index s pa) True)
    }"

text \<open>First access to a page.\<close>

definition vm_fault_new :: "swap_io \<Rightarrow> vm \<Rightarrow> nat \<Rightarrow> vaddr \<Rightarrow> int \<Rightarrow> (errno option \<times> vm) option" where
  "vm_fault_new io s a va perm =
    do {
      (new, s) \<leftarrow> alloc_one_page io s (Some a) va;
      if new = 0 then Some (Some ENOMEM, s)
      else do {
        KASSERT (PADDR_IS_VALID s new);
        let s = s\<lparr>pmem := (pmem s)(cm_get_index s new := zero_page)\<rparr>;
        (ret, s) \<leftarrow> pt_insert io s a va (int (new div 4096)) perm;
        (case ret of
           Some e \<Rightarrow> Some (Some e, s)
         | None \<Rightarrow> do {
             (k, s) \<leftarrow> swapfile_reserve_index s;
             let s = cme_set_offset s (cm_get_index s new) (int k);
             Some (None, cme_set_busy s (cm_get_index s new) False)
           })
      }
    }"

text \<open>A page that is in memory but not in the TLB.\<close>

definition vm_fault_map :: "nat \<Rightarrow> vm \<Rightarrow> vaddr \<Rightarrow> pt_ent \<Rightarrow> (errno option \<times> vm) option" where
  "vm_fault_map rnd s va pte =
    do {
      let pa = loc_to_paddr (pte_get_location pte);
      KASSERT (PADDR_IS_VALID s pa);
      let s = s\<lparr>vm_tlb := tlb_random rnd (vm_tlb s) (va AND TLBHI_VPAGE)
        ((word_of_nat pa AND TLBLO_PPAGE) OR TLBLO_VALID)\<rparr>;
      Some (None, cme_set_use s (cm_get_index s pa) True)
    }"

text \<open>A page in the swap file.\<close>

definition vm_fault_swapin :: "swap_io \<Rightarrow> vm \<Rightarrow> nat \<Rightarrow> vaddr \<Rightarrow> (errno option \<times> vm) option" where
  "vm_fault_swapin io s a va =
    do {
      (new, s) \<leftarrow> alloc_one_page io s (Some a) va;
      (ret, s) \<leftarrow> swapin io s a va new;
      KASSERT (ret = None);
      Some (None, cme_set_busy s (cm_get_index s new) False)
    }"

text \<open>The fault handler of a thread running in address space \<open>cur\<close>; \<open>rnd\<close> is the TLB slot the
  processor picks.\<close>

definition vm_fault ::
  "swap_io \<Rightarrow> nat \<Rightarrow> vm \<Rightarrow> nat option \<Rightarrow> fault_type \<Rightarrow> vaddr \<Rightarrow> (errno option \<times> vm) option" where
  "vm_fault io rnd s cur faulttype faultaddress =
    do {
      let va = faultaddress AND PAGE_FRAME;
      KASSERT (va < 0x80000000);
      (case cur of
         None \<Rightarrow> Some (Some EFAULT, s)
       | Some a \<Rightarrow> do {
           A \<leftarrow> spaces s a;
           (case vm_fault_permissions A va of
              None \<Rightarrow> Some (Some EFAULT, s)
            | Some perm \<Rightarrow>
                let pte = get_pt_entry A va in
                (case faulttype of
                   VM_FAULT_READONLY \<Rightarrow> vm_fault_readonly rnd s A va
                 | VM_FAULT_OTHER \<Rightarrow> Some (Some EINVAL, s)
                 | _ \<Rightarrow> do {
                     s \<leftarrow> pt_lock_acquire s a;
                     (ret, s) \<leftarrow> (case pte of
                         None \<Rightarrow> vm_fault_new io s a va perm
                       | Some p \<Rightarrow>
                           if \<not> pte_get_exists p then vm_fault_new io s a va perm
                           else if pte_get_present p then vm_fault_map rnd s va p
                           else vm_fault_swapin io s a va);
                     s \<leftarrow> pt_lock_release s a;
                     Some (ret, s)
                   }))
         })
    }"

section \<open>Destroying and copying address spaces\<close>

text \<open>The page of one table entry is given back.\<close>

definition pt_destroy_entry :: "vm \<Rightarrow> pt_ent \<Rightarrow> vm option" where
  "pt_destroy_entry s p =
    (if pte_get_exists p then
       (if pte_get_present p then free_coremap_page s (loc_to_paddr (pte_get_location p)) False
        else swapfile_free_index s (nat (pte_get_location p)))
     else Some s)"

fun pt_destroy_row :: "vm \<Rightarrow> (nat \<Rightarrow> pt_ent) \<Rightarrow> nat list \<Rightarrow> vm option" where
  "pt_destroy_row s row [] = Some s"
| "pt_destroy_row s row (j # js) = do { s \<leftarrow> pt_destroy_entry s (row j); pt_destroy_row s row js }"

fun pt_destroy_rows :: "vm \<Rightarrow> addrspace \<Rightarrow> nat list \<Rightarrow> vm option" where
  "pt_destroy_rows s A [] = Some s"
| "pt_destroy_rows s A (i # is) =
    (case page_table A i of
       None \<Rightarrow> pt_destroy_rows s A is
     | Some row \<Rightarrow> do {
         s \<leftarrow> pt_destroy_row s row [0..<1024];
         s \<leftarrow> free_kpages s (pt_kva A i);
         pt_destroy_rows s A is
       })"

definition pt_destroy :: "vm \<Rightarrow> addrspace \<Rightarrow> vm option" where
  "pt_destroy s A = do { s \<leftarrow> pt_destroy_rows s A [0..<1024]; free_kpages s (pt_root A) }"

definition as_destroy :: "vm \<Rightarrow> nat \<Rightarrow> vm option" where
  "as_destroy s a =
    do {
      s \<leftarrow> pin_all_pages s a;
      A \<leftarrow> spaces s a;
      s \<leftarrow> pt_lock_acquire s a;
      s \<leftarrow> pt_destroy s A;
      s \<leftarrow> pt_lock_release s a;
      Some (s\<lparr>spaces := (spaces s)(a := None)\<rparr>)
    }"

definition as_activate :: "vm \<Rightarrow> vm" where
  "as_activate s = s\<lparr>vm_tlb := vm_tlbshootdown_all (vm_tlb s)\<rparr>"

text \<open>Copying one page into a new swap slot of the new address space.  A page in the swap file goes
  through a buffer of one page from kmalloc; writing through a NULL buffer crashes.  The entry is
  read through its pointer each time.\<close>

definition pte_at :: "vm \<Rightarrow> nat \<Rightarrow> nat \<Rightarrow> nat \<Rightarrow> pt_ent option" where
  "pte_at s a i j = do { A \<leftarrow> spaces s a; row \<leftarrow> page_table A i; Some (row j) }"

definition as_copy_entry :: "swap_io \<Rightarrow> vm \<Rightarrow> nat \<Rightarrow> nat \<Rightarrow> nat \<Rightarrow> nat \<Rightarrow> vm option" where
  "as_copy_entry io s old new i j =
    do {
      p \<leftarrow> pte_at s old i j;
      if \<not> pte_get_exists p then Some s
      else do {
        (k, s) \<leftarrow> swapfile_reserve_index s;
        s \<leftarrow> (if pte_get_present p then
               let base_old = loc_to_paddr (pte_get_location p);
                   (ret, s) = write_page io s (pmem s (cm_get_index s base_old)) k
               in do { KASSERT (ret = None); Some (cme_set_busy s (cm_get_index s base_old) False) }
             else do {
               (dest, s) \<leftarrow> alloc_kpages io s 1;
               dest \<leftarrow> dest;
               p \<leftarrow> pte_at s old i j;
               (case read_page io s (nat (pte_get_location p)) of
                  Inl e \<Rightarrow> None
                | Inr pg \<Rightarrow>
                    let (ret, s) = write_page io s pg k
                    in do { KASSERT (ret = None); free_kpages s dest })
             });
        p \<leftarrow> pte_at s old i j;
        N \<leftarrow> spaces s new;
        Some (put_as s new (snd (pt_update N (PT_TO_VADDR i j) (int k) (pte_get_permissions p) False)))
      }
    }"

fun as_copy_row :: "swap_io \<Rightarrow> vm \<Rightarrow> nat \<Rightarrow> nat \<Rightarrow> nat \<Rightarrow> nat list \<Rightarrow> vm option" where
  "as_copy_row io s old new i [] = Some s"
| "as_copy_row io s old new i (j # js) =
    do { s \<leftarrow> as_copy_entry io s old new i j; as_copy_row io s old new i js }"

text \<open>The new second-level tables come from kmalloc and keep the contents \<open>junk\<close> of that memory.\<close>

fun as_copy_rows ::
  "swap_io \<Rightarrow> (nat \<Rightarrow> nat \<Rightarrow> pt_ent) \<Rightarrow> vm \<Rightarrow> nat \<Rightarrow> nat \<Rightarrow> nat list \<Rightarrow> vm option" where
  "as_copy_rows io junk s old new [] = Some s"
| "as_copy_rows io junk s old new (i # is) =
    do {
      Old \<leftarrow> spaces s old;
      s \<leftarrow> (if page_table Old i = None then Some s
           else do {
             (kva, s) \<leftarrow> alloc_kpages io s 1;
             N \<leftarrow> spaces s new;
             let N = (case kva of
                 None \<Rightarrow> N\<lparr>page_table := (page_table N)(i := None)\<rparr>
               | Some kva \<Rightarrow> N\<lparr>page_table := (page_table N)(i := Some (junk i)),
                   pt_kva := (pt_kva N)(i := kva)\<rparr>);
             as_copy_row io (put_as s new N) old new i [0..<1024]
           });
      as_copy_rows io junk s old new is
    }"

text \<open>Copying the regions: \<open>ok c\<close> tells whether the allocation and the insertion of region \<open>c\<close> succeed.
  On failure the cleanup loop reads one array element per old region.\<close>

fun as_copy_regions :: "(nat \<Rightarrow> bool) \<Rightarrow> nat \<Rightarrow> region list \<Rightarrow> region list \<Rightarrow> (errno + region list) option" where
  "as_copy_regions ok n new [] = Some (Inr new)"
| "as_copy_regions ok n new (r # rs) =
    (if \<not> ok (length new) then do { KASSERT (n \<le> length new); Some (Inl ENOMEM) }
     else as_copy_regions ok n (new @ [r]) rs)"

text \<open>\<open>fresh\<close> is the result of as_create: the pointer and the new address space.\<close>

definition as_copy ::
  "swap_io \<Rightarrow> (nat \<Rightarrow> nat \<Rightarrow> pt_ent) \<Rightarrow> (nat \<Rightarrow> bool) \<Rightarrow> vm \<Rightarrow> nat \<Rightarrow> (nat \<times> addrspace) option
    \<Rightarrow> ((errno + nat) \<times> vm) option" where
  "as_copy io junk ok s old fresh =
    (case fresh of
       None \<Rightarrow> Some (Inl ENOMEM, s)
     | Some (new, N) \<Rightarrow> do {
         Old \<leftarrow> spaces s old;
         r \<leftarrow> as_copy_regions ok (length (regions Old)) (regions N) (regions Old);
         (case r of
            Inl e \<Rightarrow> Some (Inl e, s)
          | Inr rs \<Rightarrow> do {
              let s = put_as s new (N\<lparr>heap_start := heap_start Old, heap_end := heap_end Old, regions := rs\<rparr>);
              s \<leftarrow> pin_all_pages s old;
              s \<leftarrow> pt_lock_acquire s old;
              s \<leftarrow> as_copy_rows io junk s old new [0..<1024];
              s \<leftarrow> pt_lock_release s old;
              Some (Inr new, s)
            })
       })"

section \<open>Kernel pages\<close>

text \<open>What an operation that takes or returns kernel pages leaves as it was.\<close>

definition vm_keeps :: "nat set \<Rightarrow> vm \<Rightarrow> vm \<Rightarrow> bool" where
  "vm_keeps T s s' \<longleftrightarrow> vm_inv T s' \<and> (\<forall>a n. page_content s' a n = page_content s a n) \<and>
     pt_held s' = pt_held s \<and> num_cm_entries s' = num_cm_entries s \<and> base s' = base s \<and>
     disk_map s' = disk_map s \<and> spaces_rel s s' \<and> transit_kept T s s'"

lemma vm_keeps_refl: "vm_inv T s \<Longrightarrow> vm_keeps T s s"
  by (simp add: vm_keeps_def spaces_rel_eq)

lemma set_busy_keeps:
  assumes "vm_inv T s" "i \<notin> T"
  shows "vm_keeps T s (cme_set_busy s i b)"
proof (cases "i < length (coremap s)")
  case True
  have "vm_inv T (cme_set_busy s i b) \<and> (\<forall>a n. page_content (cme_set_busy s i b) a n = page_content s a n)"
  proof (rule vm_inv_cong [OF assms(1)], goal_cases)
    case 1
    then show ?case
      using vm_inv_shape [OF assms(1)] by (auto simp: inv_shape_def cme_defs n_fixed_same)
  next
    case (8 j)
    then show ?case
      using vm_inv_entry [OF assms(1) 8] assms(2) True
      by (cases "j = i") (auto simp: cme_defs entry_ok_def Let_def)
  qed (simp_all add: cme_defs)
  then show ?thesis
    by (simp add: vm_keeps_def cme_defs spaces_rel_def option.rel_refl transit_kept_def
        nth_update_notin [OF assms(2)])
next
  case False
  then have "cme_set_busy s i b = s" by (simp add: cme_defs list_update_beyond)
  then show ?thesis using vm_keeps_refl [OF assms(1)] by simp
qed

lemma vm_keeps_trans: "vm_keeps T s s' \<Longrightarrow> vm_keeps T s' s'' \<Longrightarrow> vm_keeps T s s''"
  by (auto simp: vm_keeps_def intro: spaces_rel_trans transit_kept_trans)

lemma alloc_kpages_keeps:
  assumes "vm_inv T s" "alloc_kpages io s n = Some (r, s')"
  shows "vm_keeps T s s'"
proof (cases "n > 1")
  case True
  then show ?thesis using assms vm_keeps_refl by (simp add: alloc_kpages_def)
next
  case False
  then obtain pa s1 where s1: "alloc_one_page io s None 0 = Some (pa, s1)"
    "s' = (if pa = 0 then s1 else cme_set_busy s1 (PADDR_TO_COREMAP s1 pa) False)"
    using assms(2) by (auto simp: alloc_kpages_def Option.bind_eq_Some_conv split: if_splits)
  note spec = alloc_one_page_spec [OF assms(1) s1(1)]
  show ?thesis
  proof (cases "pa = 0")
    case True
    then show ?thesis using spec s1(2) vm_keeps_refl [OF assms(1)] by simp
  next
    case False
    then obtain ix where ix: "pa = COREMAP_TO_PADDR s ix" "ix \<notin> T" "vm_inv T s1"
      using spec by auto
    then have "vm_keeps T s s1"
      using spec by (simp add: vm_keeps_def)
    moreover have "PADDR_TO_COREMAP s1 pa = ix"
      using ix spec by simp
    ultimately show ?thesis
      using set_busy_keeps [OF ix(3) ix(2), of False] s1(2) False vm_keeps_trans by simp
  qed
qed

section \<open>Inserting an entry\<close>

lemma pte_of_new_row:
  assumes "sp a = Some A" "page_table A i = None" "\<And>j. \<not> exists (row j)"
  shows "pte_of (sp(a := Some (A\<lparr>page_table := (page_table A)(i := Some row), pt_kva := w\<rparr>))) b m =
    pte_of sp b m"
  using assms by (auto simp: pte_of_def get_pt_entry_def split: option.splits)

lemma frame_number_ok:
  assumes "0 \<le> ppn" "ppn < 524288"
  shows "ppn AND 0xfff00000 = (0 :: int)"
proof -
  obtain c :: int where eq: "(0xfff00000 :: int) = push_bit 20 c"
  proof -
    have "(0xfff00000 :: int) = push_bit 20 0xfff"
      by (simp add: push_bit_eq_mult)
    then show thesis by (rule that)
  qed
  have "bit ppn n \<Longrightarrow> n < 20" for n
  proof -
    assume "bit ppn n"
    then have "bit (take_bit 19 ppn) n"
      using assms by (simp add: take_bit_int_eq_self)
    then show "n < 20" by (simp add: bit_take_bit_iff)
  qed
  then show ?thesis
    unfolding eq
    by (intro bit_eqI) (fastforce simp: bit_and_iff bit_push_bit_iff)
qed

lemma pt_ent_overwrite:
  "q\<lparr>page_paddr_base := l, permissions := pm, present := pr, exists := ex\<rparr> =
    \<lparr>page_paddr_base = l, permissions = pm, present = pr, exists = ex\<rparr>" for q :: pt_ent
  by (cases q) simp

lemma pt_insert_cases:
  assumes inv: "vm_inv T s" and run: "pt_insert io s a va ppn perm = Some (r, s')"
    and ppn: "0 \<le> ppn" "ppn < 524288"
  shows "r = Some ENOMEM \<and> vm_keeps T s s' \<or>
    r = None \<and> 0 \<le> perm \<and> perm \<le> 7 \<and> pte_of (spaces s) a (vpn va) = None \<and>
    (\<exists>s1 sp. vm_keeps T s s1 \<and> s' = s1\<lparr>spaces := sp\<rparr> \<and>
       (\<forall>b m. pte_of sp b m = (if b = a \<and> m = vpn va
          then Some \<lparr>page_paddr_base = ppn, permissions = perm, present = True, exists = True\<rparr>
          else pte_of (spaces s1) b m)))"
proof -
  let ?i = "PT_PRIMARY_INDEX va"
  let ?p = "\<lparr>page_paddr_base = ppn, permissions = perm, present = True, exists = True\<rparr>"
  have perm: "0 \<le> perm" "perm \<le> 7"
    using run by (auto simp: pt_insert_def split: if_splits)
  obtain A where A: "spaces s a = Some A"
    using run by (cases "spaces s a") (auto simp: pt_insert_def split: if_splits)
  \<comment> \<open>the state in which the entry is written\<close>
  have entered: "r = None \<and> pte_of sp0 a (vpn va) = None \<and> (\<exists>sp. s' = s1\<lparr>spaces := sp\<rparr> \<and>
      (\<forall>b m. pte_of sp b m = (if b = a \<and> m = vpn va then Some ?p else pte_of sp0 b m)))"
    if s1: "sp0 = spaces s1" and fin: "(do {
        A \<leftarrow> spaces s1 a; pte \<leftarrow> get_pt_entry A va; KASSERT (\<not> pte_get_exists pte);
        let pte = pte_set_exists (pte_set_present (pte_set_permissions (pte_set_location pte ppn) perm) True) True;
        Some (None, put_as s1 a (put_pt_entry A va pte)) }) = Some (r, s')" for s1 sp0
  proof -
    obtain B q where B: "spaces s1 a = Some B" "get_pt_entry B va = Some q" "\<not> exists q"
      and s': "r = None" "s' = s1\<lparr>spaces := (spaces s1)(a := Some (put_pt_entry B va ?p))\<rparr>"
      using fin ppn perm
      by (auto simp: Option.bind_eq_Some_conv Let_def put_as_def pte_defs pt_ent_overwrite split: if_splits)
    have "pte_of (spaces s1) a (vpn va) = None"
      using pte_of_vpn [of "spaces s1" a B va q] B by simp
    moreover have "pte_of ((spaces s1)(a := Some (put_pt_entry B va ?p))) b m =
        (if b = a \<and> m = vpn va then Some ?p else pte_of (spaces s1) b m)" for b m
      using pte_of_put [of "spaces s1" a B va ?p b m] B by simp
    ultimately show ?thesis
      unfolding s1 using s' by blast
  qed
  show ?thesis
  proof (cases "page_table A ?i")
    case (Some d)
    have "r = None \<and> pte_of (spaces s) a (vpn va) = None \<and> (\<exists>sp. s' = s\<lparr>spaces := sp\<rparr> \<and>
        (\<forall>b m. pte_of sp b m = (if b = a \<and> m = vpn va then Some ?p else pte_of (spaces s) b m)))"
      using entered [OF refl, of s] run perm frame_number_ok [OF ppn] A Some
      by (simp add: pt_insert_def)
    then show ?thesis
      using vm_keeps_refl [OF inv] perm by blast
  next
    case None
    obtain kva s0 where k: "alloc_kpages io s 1 = Some (kva, s0)"
      using run None A by (auto simp: pt_insert_def Option.bind_eq_Some_conv split: if_splits)
    note keep = alloc_kpages_keeps [OF inv k]
    show ?thesis
    proof (cases kva)
      case kva: None
      then show ?thesis
        using run None A k keep by (auto simp: pt_insert_def split: if_splits)
    next
      case (Some v)
      obtain B where B: "spaces s0 a = Some B" "page_table B ?i = None"
        using spaces_relD(1) [of s s0 a A] keep A None by (auto simp: vm_keeps_def space_rel_def)
      let ?B = "B\<lparr>page_table := (page_table B)(?i := Some (\<lambda>i. empty_pte)), pt_kva := (pt_kva B)(?i := v)\<rparr>"
      let ?s1 = "put_as s0 a ?B"
      have row: "pte_of (spaces ?s1) b m = pte_of (spaces s0) b m" for b m
        using pte_of_new_row [of "spaces s0" a B ?i "\<lambda>i. empty_pte" _ b m] B
        by (simp add: put_as_def empty_pte_def)
      have fin: "r = None \<and> pte_of (spaces s0) a (vpn va) = None \<and> (\<exists>sp. s' = ?s1\<lparr>spaces := sp\<rparr> \<and>
          (\<forall>b m. pte_of sp b m = (if b = a \<and> m = vpn va then Some ?p else pte_of (spaces s0) b m)))"
        using entered [OF refl, of ?s1] run None A k Some B frame_number_ok [OF ppn] perm unfolding row
        by (simp add: pt_insert_def)
      have "pte_of (spaces s) a (vpn va) = None"
        using A None by (simp add: pte_of_def get_pt_entry_def primary_vpn)
      moreover have "?s1\<lparr>spaces := sp\<rparr> = s0\<lparr>spaces := sp\<rparr>" for sp
        by (simp add: put_as_def)
      ultimately show ?thesis
        using fin keep perm by metis
    qed
  qed
qed

section \<open>The first access to a page\<close>

lemma swapfile_reserve_index_eq:
  assumes "swapfile_reserve_index s = Some (k, s')" "bitmap_inv (disk_map s)"
  shows "s' = s\<lparr>disk_map := disk_map s'\<rparr>" "k \<notin> bitmap_used (disk_map s)"
    "bitmap_inv (disk_map s')" "nbits (disk_map s') = nbits (disk_map s)"
    "bitmap_used (disk_map s') = insert k (bitmap_used (disk_map s))" "k < nbits (disk_map s)"
proof -
  obtain b where b: "bitmap_alloc (disk_map s) = Some (Inr (k, b))" "s' = s\<lparr>disk_map := b\<rparr>"
    using assms(1) by (auto simp: swapfile_reserve_index_def split: option.splits sum.splits)
  note * = bm.alloc_SomeD [OF assms(2) b(1)]
  show "s' = s\<lparr>disk_map := disk_map s'\<rparr>" "k \<notin> bitmap_used (disk_map s)"
    "bitmap_inv (disk_map s')" "nbits (disk_map s') = nbits (disk_map s)"
    "bitmap_used (disk_map s') = insert k (bitmap_used (disk_map s))" "k < nbits (disk_map s)"
    using * b(2) by simp_all
qed

lemma set_pmem_transit:
  assumes inv: "vm_inv T s" and ix: "ix \<in> T"
  shows "vm_inv T (s\<lparr>pmem := (pmem s)(ix := pg)\<rparr>) \<and>
    (\<forall>a n. page_content (s\<lparr>pmem := (pmem s)(ix := pg)\<rparr>) a n = page_content s a n)"
proof (rule unmapped_core [OF inv, where ix = ix and e = "coremap s ! ix"])
  show "T \<subseteq> {..<num_cm_entries s}" by (rule vm_inv_T [OF inv])
  then show ixn: "ix < num_cm_entries s" using ix by auto
  show "inv_shape (s\<lparr>pmem := (pmem s)(ix := pg)\<rparr>)"
    using vm_inv_shape [OF inv] by (auto simp: inv_shape_def)
  show "entry_ok (s\<lparr>pmem := (pmem s)(ix := pg)\<rparr>) T ix"
    using vm_inv_entry [OF inv ixn] by (simp add: entry_ok_def Let_def)
qed (use ix in simp_all)

text \<open>The outcome of a first access: the page is there, zero filled, with the permissions of its
  region, and no other page of any address space has changed.\<close>

lemma vm_fault_new_spec:
  assumes inv: "vm_inv T s" and run: "vm_fault_new io s a va perm = Some (r, s')"
    and n: "0 < vpn va"
  shows "pt_held s' = pt_held s \<and>
    (r = None \<and> vm_inv T s' \<and> page_content s a (vpn va) = None \<and>
       (\<forall>b m. page_content s' b m = (if b = a \<and> m = vpn va then Some (perm, zero_page) else page_content s b m)) \<or>
     r = Some ENOMEM \<and> (\<forall>b m. page_content s' b m = page_content s b m) \<and>
       (\<exists>ix. ix \<notin> T \<and> vm_inv (insert ix T) s'))"
proof -
  obtain new s1 where new: "alloc_one_page io s (Some a) va = Some (new, s1)"
    using run by (auto simp: vm_fault_new_def Option.bind_eq_Some_conv)
  note spec = alloc_one_page_spec [OF inv new]
  have "new \<noteq> 0" using spec by (auto split: if_splits)
  then obtain ix where ix: "ix < num_cm_entries s" "new = COREMAP_TO_PADDR s ix" "ix \<notin> T"
      "vm_inv (insert ix T) s1" "coremap s1 ! ix = fresh_entry (Some a) va"
    using spec by auto
  let ?T = "insert ix T" and ?n = "vpn va"
  have b1: "base s1 = base s" "num_cm_entries s1 = num_cm_entries s" using spec by simp_all
  have idx: "PADDR_TO_COREMAP t new = ix" if "base t = base s" for t
    using that ix(2) by simp
  let ?s2 = "s1\<lparr>pmem := (pmem s1)(ix := zero_page)\<rparr>"
  have s2: "vm_inv ?T ?s2" "\<And>b m. page_content ?s2 b m = page_content s b m"
    using set_pmem_transit [OF ix(4), of ix zero_page] spec by auto
  have div: "new div 4096 = base s + ix"
    by (simp add: ix(2) COREMAP_TO_PADDR_def)
  have bound: "base s + ix < 524288"
    using vm_inv_shape [OF inv] ix(1) by (simp add: inv_shape_def)
  obtain ret s3 where ins: "pt_insert io ?s2 a va (int (base s + ix)) perm = Some (ret, s3)"
    and rest: "(case ret of Some e \<Rightarrow> Some (Some e, s3)
         | None \<Rightarrow> do { (k, s) \<leftarrow> swapfile_reserve_index s3;
             let s = cme_set_offset s (cm_get_index s new) (int k);
             Some (None, cme_set_busy s (cm_get_index s new) False) }) = Some (r, s')"
    using run new \<open>new \<noteq> 0\<close> idx [OF b1(1)] div
    by (auto simp: vm_fault_new_def cm_get_index_def Option.bind_eq_Some_conv split: if_splits)
  have "0 \<le> int (base s + ix)" "int (base s + ix) < 524288" using bound by simp_all
  note cases = pt_insert_cases [OF s2(1) ins this]
  show ?thesis
  proof (cases ret)
    case (Some e)
    then have "e = ENOMEM" "vm_keeps ?T ?s2 s3" "r = Some e" "s' = s3"
      using cases rest by auto
    then show ?thesis
      using s2(2) spec ix(3) by (auto simp: vm_keeps_def)
  next
    case None
    let ?p = "\<lparr>page_paddr_base = int (base s + ix), permissions = perm, present = True, exists = True\<rparr>"
    obtain t sp where t: "vm_keeps ?T ?s2 t" "s3 = t\<lparr>spaces := sp\<rparr>"
      and sp: "\<And>b m. pte_of sp b m = (if b = a \<and> m = ?n then Some ?p else pte_of (spaces t) b m)"
      and free: "pte_of (spaces ?s2) a ?n = None"
      using cases None by auto
    have tinv: "vm_inv ?T t" and tb: "base t = base s" "num_cm_entries t = num_cm_entries s"
      and tc: "\<And>b m. page_content t b m = page_content s b m" and tkept: "transit_kept ?T ?s2 t"
      using t(1) b1 s2(2) by (simp_all add: vm_keeps_def)
    have tfree: "pte_of (spaces t) a ?n = None"
      using tc [of a ?n] s2(2) [of a ?n] free by (auto simp: page_content_def split: option.splits)
    obtain k s4 where k: "swapfile_reserve_index s3 = Some (k, s4)" and r: "r = None"
      and s': "s' = cme_set_busy (cme_set_offset s4 (cm_get_index s4 new) (int k))
        (cm_get_index (cme_set_offset s4 (cm_get_index s4 new) (int k)) new) False"
      using rest None by (auto simp: Option.bind_eq_Some_conv Let_def)
    have bm: "bitmap_inv (disk_map s3)"
      using vm_inv_shape [OF tinv] by (simp add: t(2) inv_shape_def)
    note kk = swapfile_reserve_index_eq [OF k bm]
    have len: "ix < length (coremap t)"
      using vm_inv_shape [OF tinv] ix(1) tb by (simp add: inv_shape_def)
    let ?e = "(coremap t ! ix)\<lparr>disk_offset := int k, busy_bit := False\<rparr>"
    have s4: "s4 = t\<lparr>spaces := sp, disk_map := disk_map s4\<rparr>"
      using kk(1) t(2) by simp
    have sx: "s' = t\<lparr>spaces := sp, disk_map := disk_map s4, coremap := (coremap t)[ix := ?e]\<rparr>"
      unfolding s' by (subst (1 2 3 4) s4) (simp add: cme_defs idx tb len)
    have e0: "(coremap t ! ix)\<lparr>use_bit := False\<rparr> = (fresh_entry (Some a) va)\<lparr>use_bit := False\<rparr>"
      using tkept ix(5) by (simp add: transit_kept_def)
    have e: "cme_as (coremap t ! ix) = Some a" "vaddr_base (coremap t ! ix) = ?n"
        "cme_state (coremap t ! ix) = CME_DIRTY"
      using arg_cong [OF e0, of cme_as] arg_cong [OF e0, of vaddr_base] arg_cong [OF e0, of cme_state]
      by (simp_all add: fresh_entry_def)
    have zero: "pmem t ix = zero_page"
      using tkept by (simp add: transit_kept_def)
    have noslot: "slot_of t b m \<noteq> Some k" for b m
      using vm_inv_used [OF tinv] kk(2) t(2) by auto
    have shape: "inv_shape s'"
      using vm_inv_shape [OF tinv] kk(3,4) t(2) by (auto simp: sx inv_shape_def n_fixed_same)
    have "vm_inv T s' \<and> (\<forall>b m. page_content s' b m =
        (if b = a \<and> m = ?n then Some (permissions ?p, pmem s' ix) else page_content t b m))"
    proof (rule install_core [OF tinv ix(3) n, where k = k and e = ?e and p = ?p])
      show "inv_shape s'" by (rule shape)
      show "slot_of t a ?n = None \<or> slot_of t a ?n = Some k"
        using tfree by (simp add: slot_of_def)
    qed (use noslot tfree e kk(5) t(2) sp tb in \<open>simp_all add: sx\<close>)
    then show ?thesis
      using r tc s2(2) [of a ?n] free spec t(1) by (auto simp: sx zero page_content_def vm_keeps_def)
  qed
qed

section \<open>A page that comes back from swap\<close>

lemma vm_fault_swapin_spec:
  assumes inv: "vm_inv T s" and run: "vm_fault_swapin io s a va = Some (r, s')" and n: "0 < vpn va"
  shows "r = None \<and> vm_inv T s' \<and> pt_held s' = pt_held s \<and>
    (\<forall>b m. page_content s' b m = page_content s b m)"
proof -
  obtain new s1 ret s2 where new: "alloc_one_page io s (Some a) va = Some (new, s1)"
    and si: "swapin io s1 a va new = Some (None, s2)" and r: "r = None"
    and s': "s' = cme_set_busy s2 (cm_get_index s2 new) False"
    using run by (auto simp: vm_fault_swapin_def Option.bind_eq_Some_conv split: if_splits)
  note spec = alloc_one_page_spec [OF inv new]
  then obtain ix where ix: "ix < num_cm_entries s" "new = COREMAP_TO_PADDR s ix" "ix \<notin> T"
      "vm_inv (insert ix T) s1"
    by (auto split: if_splits)
  have b1: "base s1 = base s" "num_cm_entries s1 = num_cm_entries s" using spec by simp_all
  have idx: "PADDR_TO_COREMAP t new = ix" if "base t = base s" for t
    using that ix(2) by simp
  have div: "new div 4096 = base s + ix"
    by (simp add: ix(2) COREMAP_TO_PADDR_def)
  have bound: "base s + ix < 524288" and len: "ix < length (coremap s1)"
    using vm_inv_shape [OF inv] vm_inv_shape [OF ix(4)] ix(1) b1 by (simp_all add: inv_shape_def)
  obtain A q where A: "spaces s1 a = Some A" "get_pt_entry A va = Some q" "exists q" "\<not> present q"
    using si by (auto simp: swapin_def Option.bind_eq_Some_conv pte_defs split: if_splits)
  let ?n = "vpn va"
  have q: "pte_of (spaces s1) a ?n = Some q"
    using pte_of_vpn [of "spaces s1" a A va q] A by simp
  define k where "k = nat (page_paddr_base q)"
  have k: "page_paddr_base q = int k" "slot_of s1 a ?n = Some k"
    using vm_inv_page [OF ix(4) q] A(4) q by (simp_all add: page_ok_def k_def slot_of_def)
  let ?p = "q\<lparr>present := True, page_paddr_base := int (base s + ix)\<rparr>"
  let ?sp = "(spaces s1)(a := Some (put_pt_entry A va ?p))"
  let ?e = "(coremap s1 ! ix)\<lparr>disk_offset := int k, vaddr_base := ?n, cme_as := Some a,
    cme_state := CME_CLEAN, busy_bit := False\<rparr>"
  have read: "read_page io s1 k = Inr (swapfile s1 k)"
    using si A k by (auto simp: swapin_def read_page_def Option.bind_eq_Some_conv pte_defs Let_def split: if_splits option.splits)
  have s2: "s2 = s1\<lparr>pmem := (pmem s1)(ix := swapfile s1 k), coremap := (coremap s1)[ix := ?e\<lparr>busy_bit := busy_bit (coremap s1 ! ix)\<rparr>],
      spaces := ?sp\<rparr>"
    using si A k read idx [OF b1(1)] bound
    by (auto simp: swapin_def Option.bind_eq_Some_conv pte_defs cme_upd_def put_as_def div vpn_def Let_def
        split: if_splits)
  have sx: "s' = s1\<lparr>pmem := (pmem s1)(ix := swapfile s1 k), coremap := (coremap s1)[ix := ?e], spaces := ?sp\<rparr>"
    unfolding s' s2 using idx b1 len by (simp add: cme_defs)
  have sp: "pte_of ?sp b m = (if b = a \<and> m = ?n then Some ?p else pte_of (spaces s1) b m)" for b m
    using pte_of_put [of "spaces s1" a A va ?p b m] A by simp
  have kused: "k \<in> bitmap_used (disk_map s1)"
    by (rule slot_used(1) [OF ix(4) k(2)])
  have e0: "cme_state (coremap s1 ! ix) = CME_DIRTY"
    using vm_inv_entry [OF ix(4), of ix] ix(1) b1 by (simp add: entry_ok_def Let_def)
  have shape: "inv_shape s'"
    using vm_inv_shape [OF ix(4)] n_fixed_update [OF len, of ?e] e0
    by (auto simp: sx inv_shape_def)
  have "vm_inv T s' \<and> (\<forall>b m. page_content s' b m =
      (if b = a \<and> m = ?n then Some (permissions ?p, pmem s' ix) else page_content s1 b m))"
  proof (rule install_core [OF ix(4) ix(3) n, where k = k and e = ?e and p = ?p])
    show "inv_shape s'" by (rule shape)
    show "b = a \<and> m = ?n" if "slot_of s1 b m = Some k" for b m
      using vm_inv_slot [OF ix(4) that k(2)] .
    show "slot_of s1 a ?n = None \<or> slot_of s1 a ?n = Some k" using k(2) by simp
  qed (use q A(4) sp b1 kused in \<open>simp_all add: sx insert_absorb\<close>)
  moreover have "page_content s1 a ?n = Some (permissions q, swapfile s1 k)"
    using q A(4) by (simp add: page_content_def k_def)
  ultimately show ?thesis
    using r spec by (auto simp: sx)
qed

section \<open>Marking pages used and dirty\<close>

lemma set_use_keeps:
  assumes "vm_inv T s" "cme_state (coremap s ! i) \<noteq> CME_FIXED"
  shows "vm_keeps T s (cme_set_use s i b)"
proof (cases "i < length (coremap s)")
  case True
  have "vm_inv T (cme_set_use s i b) \<and> (\<forall>a n. page_content (cme_set_use s i b) a n = page_content s a n)"
  proof (rule vm_inv_cong [OF assms(1)], goal_cases)
    case 1
    then show ?case
      using vm_inv_shape [OF assms(1)] by (auto simp: inv_shape_def cme_defs n_fixed_same)
  next
    case (8 j)
    then show ?case
      using vm_inv_entry [OF assms(1) 8] assms(2) True
      by (cases "j = i") (auto simp: cme_defs entry_ok_def Let_def)
  qed (simp_all add: cme_defs)
  moreover have "((coremap s)[i := (coremap s ! i)\<lparr>use_bit := b\<rparr>] ! j)\<lparr>use_bit := False\<rparr>
      = (coremap s ! j)\<lparr>use_bit := False\<rparr>" for j
    using True by (cases "j = i") simp_all
  ultimately show ?thesis
    by (simp add: vm_keeps_def cme_defs spaces_rel_def option.rel_refl transit_kept_def)
next
  case False
  then have "cme_set_use s i b = s" by (simp add: cme_defs list_update_beyond)
  then show ?thesis using vm_keeps_refl [OF assms(1)] by simp
qed

lemma set_tlb_keeps: "vm_keeps T s s' \<Longrightarrow> vm_keeps T s (s'\<lparr>vm_tlb := t\<rparr>)"
proof -
  assume k: "vm_keeps T s s'"
  then have inv: "vm_inv T s'" by (simp add: vm_keeps_def)
  have "vm_inv T (s'\<lparr>vm_tlb := t\<rparr>) \<and> (\<forall>a n. page_content (s'\<lparr>vm_tlb := t\<rparr>) a n = page_content s' a n)"
  proof (rule vm_inv_cong [OF inv], goal_cases)
    case 1
    then show ?case
      using vm_inv_shape [OF inv] by (auto simp: inv_shape_def)
  next
    case (8 j)
    then show ?case
      using vm_inv_entry [OF inv 8] by (auto simp: entry_ok_def Let_def)
  qed simp_all
  then show ?thesis
    using k by (simp add: vm_keeps_def spaces_rel_def transit_kept_def)
qed

lemma set_dirty_inv:
  assumes inv: "vm_inv T s" and i: "user_state (cme_state (coremap s ! i))" "i < length (coremap s)"
  shows "vm_inv T (cme_set_state s i CME_DIRTY)"
    "page_content (cme_set_state s i CME_DIRTY) a n = page_content s a n"
proof -
  let ?s = "cme_set_state s i CME_DIRTY"
  have slot: "slot_of ?s b m = slot_of s b m" for b m
  proof -
    have "disk_offset (coremap ?s ! j) = disk_offset (coremap s ! j)" for j
      using i(2) by (cases "j = i") (simp_all add: cme_defs)
    then show ?thesis
      by (simp add: slot_of_def frame_of_def cme_defs split: option.split)
  qed
  have entry: "entry_ok ?s T j" if "j < num_cm_entries s" for j
    using vm_inv_entry [OF inv that] i
    by (cases "j = i") (auto simp: entry_ok_def Let_def cme_defs user_state_def)
  have page: "page_ok ?s T b m q" if q: "pte_of (spaces s) b m = Some q" for b m q
  proof (cases "present q")
    case True
    note f = page_ok_frame [OF vm_inv_page [OF inv q] True]
    show ?thesis
    proof (cases "frame_of s q = i")
      case T: True
      then show ?thesis
        using f True i unfolding page_ok_def by (auto simp: cme_defs intro!: exI [of _ i])
    next
      case False
      then show ?thesis
        using f True unfolding page_ok_def by (auto simp: cme_defs intro!: exI [of _ "frame_of s q"])
    qed
  next
    case False
    then show ?thesis using vm_inv_page [OF inv q] by (simp add: page_ok_def)
  qed
  have "inv_shape ?s"
    using vm_inv_shape [OF inv] n_fixed_update [OF i(2), of "(coremap s ! i)\<lparr>cme_state := CME_DIRTY\<rparr>"] i(1)
    by (auto simp: inv_shape_def cme_defs user_state_def)
  moreover have "spaces ?s = spaces s" "num_cm_entries ?s = num_cm_entries s" "disk_map ?s = disk_map s"
    by (simp_all add: cme_defs)
  ultimately show "vm_inv T ?s"
    using inv page entry unfolding vm_inv_def slot by simp
  show "page_content ?s a n = page_content s a n"
    by (simp add: page_content_def frame_of_def cme_defs split: option.split)
qed

section \<open>The fault handler\<close>

lemma vpn_page_frame [simp]: "vpn (va AND PAGE_FRAME) = vpn va"
proof -
  have eq: "PAGE_FRAME = NOT (mask 12)"
    by (simp add: PAGE_FRAME_def mask_eq_exp_minus_1)
  have "drop_bit 12 (va AND PAGE_FRAME) = drop_bit 12 va"
  proof (rule bit_eqI)
    fix n
    show "bit (drop_bit 12 (va AND PAGE_FRAME)) n = bit (drop_bit 12 va) n"
      using bit_imp_le_length [of va "12 + n"] by (auto simp: eq bit_simps)
  qed
  then show ?thesis by (simp add: vpn_def)
qed

lemma resident_location:
  assumes "vm_inv T s" "pte_of (spaces s) a n = Some p" "present p"
  shows "cm_get_index s (loc_to_paddr (pte_get_location p)) = frame_of s p"
    "loc_to_paddr (pte_get_location p) = COREMAP_TO_PADDR s (frame_of s p)"
proof -
  note f = page_ok_frame [OF vm_inv_page [OF assms(1,2)] assms(3)]
  have "base s + frame_of s p < 1048576"
    using f(1) vm_inv_shape [OF assms(1)] by (simp add: inv_shape_def)
  then show "loc_to_paddr (pte_get_location p) = COREMAP_TO_PADDR s (frame_of s p)"
    using f(3) loc_to_paddr_nat [of "base s + frame_of s p"]
    by (simp add: pte_get_location_def COREMAP_TO_PADDR_def)
  then show "cm_get_index s (loc_to_paddr (pte_get_location p)) = frame_of s p"
    by (simp add: cm_get_index_def)
qed

lemma vm_fault_map_keeps:
  assumes "vm_inv T s" "pte_of (spaces s) a n = Some p" "present p" "vm_fault_map rnd s va p = Some (r, s')"
  shows "r = None \<and> vm_keeps T s s'"
proof -
  note f = page_ok_frame [OF vm_inv_page [OF assms(1,2)] assms(3)]
  let ?t = "tlb_random rnd (vm_tlb s) (va AND TLBHI_VPAGE)
    ((word_of_nat (loc_to_paddr (pte_get_location p)) AND TLBLO_PPAGE) OR TLBLO_VALID)"
  let ?s = "s\<lparr>vm_tlb := ?t\<rparr>"
  have k: "vm_keeps T s ?s"
    by (rule set_tlb_keeps [OF vm_keeps_refl [OF assms(1)]])
  have "vm_keeps T ?s (cme_set_use ?s (cm_get_index ?s (loc_to_paddr (pte_get_location p))) True)"
    using k f(4) resident_location(1) [OF assms(1-3)]
    by (intro set_use_keeps) (auto simp: vm_keeps_def cm_get_index_def PADDR_TO_COREMAP_def user_state_def)
  then have "vm_keeps T s (cme_set_use ?s (cm_get_index ?s (loc_to_paddr (pte_get_location p))) True)"
    by (rule vm_keeps_trans [OF k])
  then show ?thesis
    using assms(4) by (auto simp: vm_fault_map_def Option.bind_eq_Some_conv Let_def split: if_splits)
qed

text \<open>The page a first access creates, as a change of the view.\<close>

definition page_demand :: "(nat \<Rightarrow> nat \<Rightarrow> (int \<times> page) option) \<Rightarrow> nat \<Rightarrow> nat \<Rightarrow> int
    \<Rightarrow> nat \<Rightarrow> nat \<Rightarrow> (int \<times> page) option" where
  "page_demand v a n perm b m =
    (if b = a \<and> m = n \<and> v b m = None then Some (perm, zero_page) else v b m)"

lemma set_held_inv [simp]:
  "vm_inv T (s\<lparr>pt_held := h\<rparr>) = vm_inv T s" "page_content (s\<lparr>pt_held := h\<rparr>) = page_content s"
proof -
  show "page_content (s\<lparr>pt_held := h\<rparr>) = page_content s"
    by (intro ext) (simp add: page_content_def frame_of_def split: option.split)
  have "slot_of (s\<lparr>pt_held := h\<rparr>) = slot_of s"
    by (intro ext) (simp add: slot_of_def frame_of_def split: option.split)
  moreover have "entry_ok (s\<lparr>pt_held := h\<rparr>) = entry_ok s" "page_ok (s\<lparr>pt_held := h\<rparr>) = page_ok s"
    "inv_shape (s\<lparr>pt_held := h\<rparr>) = inv_shape s"
    by (auto intro!: ext simp: entry_ok_def page_ok_def inv_shape_def Let_def)
  ultimately show "vm_inv T (s\<lparr>pt_held := h\<rparr>) = vm_inv T s"
    by (simp add: vm_inv_def)
qed

lemma vm_fault_access:
  assumes inv: "vm_inv T s" and A: "spaces s a = Some A"
    and perm: "vm_fault_permissions A (addr AND PAGE_FRAME) = Some perm"
    and ft: "ft = VM_FAULT_READ \<or> ft = VM_FAULT_WRITE" and n: "0 < vpn addr"
    and run: "vm_fault io rnd s (Some a) ft addr = Some (r, s')"
  shows "pt_held s' = pt_held s \<and>
    (if r = None then vm_inv T s' \<and> page_content s' = page_demand (page_content s) a (vpn addr) perm
     else r = Some ENOMEM \<and> page_content s' = page_content s \<and> (\<exists>ix. ix \<notin> T \<and> vm_inv (insert ix T) s'))"
proof -
  let ?va = "addr AND PAGE_FRAME" and ?h = "insert a (pt_held s)"
  let ?s = "s\<lparr>pt_held := ?h\<rparr>"
  obtain s2 where body: "(case get_pt_entry A ?va of
        None \<Rightarrow> vm_fault_new io ?s a ?va perm
      | Some p \<Rightarrow> if \<not> pte_get_exists p then vm_fault_new io ?s a ?va perm
          else if pte_get_present p then vm_fault_map rnd ?s ?va p
          else vm_fault_swapin io ?s a ?va) = Some (r, s2)"
    and s': "s' = s2\<lparr>pt_held := pt_held s2 - {a}\<rparr>" and a: "a \<notin> pt_held s"
    using ft run A perm
    by (elim disjE) (auto simp: vm_fault_def Let_def Option.bind_eq_Some_conv pt_lock_acquire_def
        pt_lock_release_def split: if_splits)
  have inv': "vm_inv T ?s" using inv by simp
  have new: ?thesis if "vm_fault_new io ?s a ?va perm = Some (r, s2)"
    using vm_fault_new_spec [OF inv' that] n a
    by (auto simp: s' page_demand_def fun_eq_iff)
  show ?thesis
  proof (cases "get_pt_entry A ?va")
    case None
    then show ?thesis using body new by simp
  next
    case (Some p)
    show ?thesis
    proof (cases "exists p")
      case True
      have p: "pte_of (spaces ?s) a (vpn addr) = Some p"
        using pte_of_vpn [of "spaces s" a A ?va p] A Some True by simp
      then have pg: "page_content ?s a (vpn addr) \<noteq> None" by (simp add: page_content_def)
      have "r = None \<and> vm_inv T s2 \<and> pt_held s2 = ?h \<and> (\<forall>b m. page_content s2 b m = page_content ?s b m)"
      proof (cases "present p")
        case True
        then show ?thesis
          using vm_fault_map_keeps [OF inv' p True, of rnd ?va r s2] body Some \<open>exists p\<close>
          by (simp add: pte_get_exists_def pte_get_present_def vm_keeps_def)
      next
        case False
        then show ?thesis
          using vm_fault_swapin_spec [OF inv', of io a ?va r s2] body Some \<open>exists p\<close> n
          by (simp add: pte_get_exists_def pte_get_present_def)
      qed
      then show ?thesis
        using pg a by (auto simp: s' page_demand_def fun_eq_iff)
    next
      case False
      then show ?thesis using body Some new by (simp add: pte_get_exists_def)
    qed
  qed
qed

lemma vm_fault_write:
  assumes inv: "vm_inv T s" and A: "spaces s a = Some A"
    and res: "pte_of (spaces s) a (vpn addr) = Some p" "present p"
    and run: "vm_fault io rnd s (Some a) VM_FAULT_READONLY addr = Some (r, s')"
  shows "vm_inv T s' \<and> page_content s' = page_content s \<and> pt_held s' = pt_held s \<and>
    (r = Some EFAULT \<and> s' = s \<or>
     r = None \<and> (permissions p AND 2 \<noteq> 0 \<or> is_loading A) \<and> cme_get_state s' (frame_of s p) = CME_DIRTY)"
proof (cases "vm_fault_permissions A (addr AND PAGE_FRAME)")
  case None
  then show ?thesis
    using run A inv by (auto simp: vm_fault_def Let_def Option.bind_eq_Some_conv split: if_splits)
next
  case (Some perm)
  let ?i = "frame_of s p" and ?va = "addr AND PAGE_FRAME"
  note f = page_ok_frame [OF vm_inv_page [OF inv res(1)] res(2)]
  have len: "?i < length (coremap s)"
    using f(1) vm_inv_shape [OF inv] by (simp add: inv_shape_def)
  obtain q where q: "get_pt_entry A ?va = Some q"
    using run A Some
    by (auto simp: vm_fault_def vm_fault_readonly_def Let_def Option.bind_eq_Some_conv split: if_splits)
  have "pte_of (spaces s) a (vpn addr) = (if exists q then Some q else None)"
    using pte_of_vpn [of "spaces s" a A ?va q] A q by simp
  then have "q = p" using res(1) by (simp split: if_splits)
  then have ro: "vm_fault_readonly rnd s A ?va = Some (r, s')" and q: "get_pt_entry A ?va = Some p"
    using run A Some q by (simp_all add: vm_fault_def Let_def Option.bind_eq_Some_conv split: if_splits)
  let ?s1 = "cme_set_state s ?i CME_DIRTY"
  show ?thesis
  proof (cases "permissions p AND 2 = 0 \<and> \<not> is_loading A")
    case True
    then show ?thesis
      using ro q inv by (simp add: vm_fault_readonly_def pte_get_permissions_def)
  next
    case False
    obtain t where s': "s' = cme_set_use (?s1\<lparr>vm_tlb := t\<rparr>) ?i True" and r: "r = None"
      using ro q False resident_location(1) [OF inv res]
      by (auto simp: vm_fault_readonly_def pte_get_permissions_def Let_def cm_get_index_def PADDR_TO_COREMAP_def
          cme_defs)
    have inv1: "vm_inv T ?s1" "page_content ?s1 = page_content s"
      using set_dirty_inv [OF inv f(4) len] by (simp_all add: fun_eq_iff)
    have "vm_keeps T ?s1 (?s1\<lparr>vm_tlb := t\<rparr>)"
      by (rule set_tlb_keeps [OF vm_keeps_refl [OF inv1(1)]])
    moreover have "vm_keeps T (?s1\<lparr>vm_tlb := t\<rparr>) s'"
      unfolding s' using calculation len
      by (intro set_use_keeps) (simp_all add: vm_keeps_def cme_defs)
    ultimately have k: "vm_keeps T ?s1 s'" by (rule vm_keeps_trans)
    have "cme_get_state s' ?i = CME_DIRTY"
      using len by (simp add: s' cme_defs)
    then show ?thesis
      using k False r inv1(2) by (auto simp: vm_keeps_def fun_eq_iff cme_set_state_def cme_upd_def)
  qed
qed

end
