(* ===== verification/Lifecycle.thy ===== *)
theory Lifecycle
  imports Vm
begin

text \<open>
  The life cycle of memory: the state the boot sequence establishes, the release of
  kernel pages, the destruction and the copying of address spaces.
\<close>

section \<open>Boot\<close>

text \<open>The core map entry of a kernel page.\<close>

definition fixed_entry :: "cm_entry \<Rightarrow> bool" where
  "fixed_entry e \<longleftrightarrow> cme_as e = None \<and> disk_offset e = - 1 \<and> vaddr_base e = 0 \<and> cme_state e = CME_FIXED \<and> \<not> use_bit e"

text \<open>A machine with no user page in use.\<close>

lemma vm_inv_fresh:
  assumes "inv_shape s" "bitmap_used (disk_map s) = {}" "\<And>a n. pte_of (spaces s) a n = None"
    and "\<And>i. i < num_cm_entries s \<Longrightarrow> cme_state (coremap s ! i) = CME_FREE \<or> fixed_entry (coremap s ! i)"
  shows "vm_inv {} s" "page_content s a n = None"
proof -
  have "slot_of s a n = None" for a n
    by (simp add: slot_of_def assms(3))
  moreover have "entry_ok s {} i" if "i < num_cm_entries s" for i
    using assms(4) [OF that] by (auto simp: entry_ok_def fixed_entry_def Let_def)
  ultimately show "vm_inv {} s"
    using assms by (simp add: vm_inv_def)
  show "page_content s a n = None"
    by (simp add: page_content_def assms(3))
qed

lemma boot_inv:
  assumes cm: "coremap_bootstrap sz lo hi s = Some s1" and sw: "swapfile_init True True True True s1 = Some s2"
    and mem: "lo + ((hi - lo) div 4096 * sz + 4095) div 4096 * 4096 < hi" "hi \<le> 0x80000000"
      "0 < lo div 4096 + ((hi - lo) div 4096 * sz + 4095) div 4096"
    and none: "\<And>a n. pte_of (spaces s) a n = None"
  shows "vm_inv {} s2 \<and> num_cm_free s2 = int (num_cm_entries s2) \<and> pt_held s2 = pt_held s \<and>
    spaces s2 = spaces s \<and> (\<forall>a n. page_content s2 a n = None) \<and>
    (\<forall>i < num_cm_entries s2. cme_state (coremap s2 ! i) = CME_FREE \<and> \<not> busy_bit (coremap s2 ! i))"
proof -
  let ?c = "((hi - lo) div 4096 * sz + 4095) div 4096"
  have al: "lo mod 4096 = 0" "hi mod 4096 = 0"
    using cm by (auto simp: coremap_bootstrap_def split: if_splits)
  then obtain l h where l: "lo = 4096 * l" "hi = 4096 * h" by (metis mod_eq_0_iff_dvd dvd_def)
  have fit: "l + ?c < h" "h \<le> 524288" "0 < l + ?c"
    using mem by (simp_all add: l)
  obtain d where d: "bitmap_create True True 1200 = Some (Some d)" "bitmap_inv d" "nbits d = 1200" "bitmap_used d = {}"
    using bitmap_create_ok [of 1200] by auto
  define c where "c = ?c"
  have b: "(lo + c * 4096) div 4096 = l + c" "hi div 4096 = h" by (simp_all add: l)
  have "s1 = s\<lparr>base := l + c, num_cm_entries := h - (l + c), num_cm_free := int (h - (l + c)), num_cm_kernel := 0,
        num_cm_user := 0, clock_hand := 0,
        coremap := replicate (h - (l + c)) \<lparr>cme_as = None, disk_offset = - 1, vaddr_base = 0,
          cme_state = CME_FREE, busy_bit = False, use_bit = False\<rparr>\<rparr>"
    using cm al unfolding coremap_bootstrap_def Let_def c_def [symmetric] b by simp
  then have s1: "base s1 = l + ?c" "num_cm_entries s1 = h - (l + ?c)" "num_cm_free s1 = int (h - (l + ?c))"
      "num_cm_kernel s1 = 0" "num_cm_user s1 = 0" "clock_hand s1 = 0" "pt_held s1 = pt_held s" "spaces s1 = spaces s"
      "coremap s1 = replicate (h - (l + ?c)) \<lparr>cme_as = None, disk_offset = - 1, vaddr_base = 0,
          cme_state = CME_FREE, busy_bit = False, use_bit = False\<rparr>"
    by (simp_all add: c_def)
  have s2: "s2 = s1\<lparr>disk_map := d\<rparr>"
    using sw d(1) by (simp add: swapfile_init_def)
  have "inv_shape s2"
    using fit d by (simp add: inv_shape_def s2 s1 n_fixed_def)
  then show ?thesis
    using vm_inv_fresh [of s2] d(4) none by (simp add: s2 s1)
qed

section \<open>Releasing kernel pages\<close>

definition kernel_page :: "vm \<Rightarrow> nat \<Rightarrow> bool" where
  "kernel_page s kva \<longleftrightarrow> (\<exists>ix < num_cm_entries s. kva = COREMAP_TO_PADDR s ix + 0x80000000 \<and>
     cme_state (coremap s ! ix) = CME_FIXED)"

definition freed_entry :: cm_entry where
  "freed_entry = \<lparr>cme_as = None, disk_offset = - 1, vaddr_base = 0, cme_state = CME_FREE,
     busy_bit = False, use_bit = False\<rparr>"

lemma free_kpages_fixed:
  assumes "ix < num_cm_entries s" "ix < length (coremap s)" "fixed_entry (coremap s ! ix)"
  shows "free_kpages s (COREMAP_TO_PADDR s ix + 0x80000000) = Some (s\<lparr>coremap := (coremap s)[ix := freed_entry],
    num_cm_kernel := num_cm_kernel s - 1, num_cm_free := num_cm_free s + 1, pmem := (pmem s)(ix := zero_page)\<rparr>)"
proof -
  have "(coremap s ! ix)\<lparr>cme_state := CME_FREE, busy_bit := False\<rparr> = freed_entry"
    using assms(3) by (cases "coremap s ! ix") (simp add: freed_entry_def fixed_entry_def)
  moreover have "base s \<le> COREMAP_TO_PADDR s ix div 4096"
    by (simp add: COREMAP_TO_PADDR_def)
  ultimately show ?thesis
    using assms by (simp add: free_kpages_def free_coremap_page_def cme_defs fixed_entry_def Let_def)
qed

lemma vm_inv_fixed:
  assumes "vm_inv T s" "ix < num_cm_entries s" "cme_state (coremap s ! ix) = CME_FIXED"
  shows "fixed_entry (coremap s ! ix)" "ix < length (coremap s)"
  using vm_inv_entry [OF assms(1,2)] vm_inv_shape [OF assms(1)] assms(2,3)
  by (auto simp: entry_ok_def fixed_entry_def inv_shape_def Let_def)

lemma free_kpages_eq:
  assumes "vm_inv T s" "ix < num_cm_entries s" "cme_state (coremap s ! ix) = CME_FIXED"
  shows "free_kpages s (COREMAP_TO_PADDR s ix + 0x80000000) = Some (s\<lparr>coremap := (coremap s)[ix := freed_entry],
    num_cm_kernel := num_cm_kernel s - 1, num_cm_free := num_cm_free s + 1, pmem := (pmem s)(ix := zero_page)\<rparr>)"
  using free_kpages_fixed vm_inv_fixed [OF assms] assms(2) by blast

lemma free_kpages_keeps:
  assumes "vm_inv T s" "kernel_page s kva"
  shows "\<exists>s'. free_kpages s kva = Some s' \<and> vm_inv T s' \<and> spaces s' = spaces s \<and> pt_held s' = pt_held s \<and>
    num_cm_entries s' = num_cm_entries s \<and> base s' = base s \<and> disk_map s' = disk_map s \<and>
    (\<forall>a n. page_content s' a n = page_content s a n) \<and>
    (\<forall>kvb. kvb \<noteq> kva \<longrightarrow> kernel_page s kvb \<longrightarrow> kernel_page s' kvb) \<and>
    (\<forall>i. user_state (cme_state (coremap s ! i)) \<longrightarrow> coremap s' ! i = coremap s ! i)"
proof -
  obtain ix where ix: "ix < num_cm_entries s" "kva = COREMAP_TO_PADDR s ix + 0x80000000"
      "cme_state (coremap s ! ix) = CME_FIXED"
    using assms(2) by (auto simp: kernel_page_def)
  let ?s = "s\<lparr>coremap := (coremap s)[ix := freed_entry],
    num_cm_kernel := num_cm_kernel s - 1, num_cm_free := num_cm_free s + 1, pmem := (pmem s)(ix := zero_page)\<rparr>"
  have len: "ix < length (coremap s)"
    using vm_inv_shape [OF assms(1)] ix(1) by (simp add: inv_shape_def)
  have T: "ix \<notin> T"
    using vm_inv_entry [OF assms(1) ix(1)] ix(3) by (auto simp: entry_ok_def Let_def)
  have "int (n_fixed (coremap s)) - 1 = int (n_fixed ((coremap s)[ix := freed_entry]))"
    using n_fixed_update [OF len, of freed_entry] ix(3) by (simp add: freed_entry_def)
  then have shape: "inv_shape ?s"
    using vm_inv_shape [OF assms(1)] by (auto simp: inv_shape_def)
  have "vm_inv T ?s \<and> (\<forall>a n. page_content ?s a n = page_content s a n)"
    by (rule unmapped_core [OF assms(1) _ _ ix(1) _ shape, where T' = T and e = freed_entry])
      (use T ix len vm_inv_T [OF assms(1)] in \<open>auto simp: freed_entry_def entry_ok_def\<close>)
  moreover have "kernel_page ?s kvb" if kvb: "kvb \<noteq> kva" "kernel_page s kvb" for kvb
  proof -
    obtain j where "j < num_cm_entries s" "kvb = COREMAP_TO_PADDR s j + 0x80000000"
        "cme_state (coremap s ! j) = CME_FIXED"
      using kvb(2) by (auto simp: kernel_page_def)
    then show ?thesis
      using kvb(1) ix(2) by (auto simp: kernel_page_def COREMAP_TO_PADDR_def intro!: exI [of _ j])
  qed
  moreover have "(coremap s)[ix := freed_entry] ! i = coremap s ! i" if "user_state (cme_state (coremap s ! i))" for i
    using that ix(3) by (cases "i = ix") simp_all
  ultimately show ?thesis
    using free_kpages_eq [OF assms(1) ix(1,3)] ix(2) by simp
qed

section \<open>Releasing a page\<close>

lemma drop_core:
  assumes inv: "vm_inv T s" and p: "pte_of (spaces s) a n = Some p"
    and s': "inv_shape s'" "num_cm_entries s' = num_cm_entries s" "base s' = base s" "swapfile s' = swapfile s"
    and sp: "\<And>b m. pte_of (spaces s') b m = (if b = a \<and> m = n then None else pte_of (spaces s) b m)"
    and used: "bitmap_used (disk_map s') = bitmap_used (disk_map s) - {the (slot_of s a n)}"
    and cm: "\<And>j. \<not> (present p \<and> j = frame_of s p) \<Longrightarrow> coremap s' ! j = coremap s ! j \<and> pmem s' j = pmem s j"
    and free: "present p \<Longrightarrow> cme_state (coremap s' ! frame_of s p) = CME_FREE"
  shows "vm_inv T s' \<and> (\<forall>b m. page_content s' b m = (if b = a \<and> m = n then None else page_content s b m))"
proof -
  have frame: "frame_of s' q = frame_of s q" for q by (simp add: frame_of_def s')
  have other: "\<not> (present p \<and> frame_of s q = frame_of s p)"
    if "pte_of (spaces s) b m = Some q" "present q" "\<not> (b = a \<and> m = n)" for b m q
    using page_ok_frame(5,6) [OF vm_inv_page [OF inv that(1)] that(2)]
      page_ok_frame(5,6) [OF vm_inv_page [OF inv p]] that(3) by auto
  have slot: "slot_of s' b m = (if b = a \<and> m = n then None else slot_of s b m)" for b m
    using other [of b m] cm by (auto simp: slot_of_def frame sp split: option.split)
  have page: "page_ok s' T b m q" if q: "pte_of (spaces s') b m = Some q" for b m q
  proof (cases "present q")
    case True
    have q': "pte_of (spaces s) b m = Some q" "\<not> (b = a \<and> m = n)" using q by (auto simp: sp split: if_splits)
    then show ?thesis
      using page_ok_frame [OF vm_inv_page [OF inv q'(1)] True] cm [OF other [OF q'(1) True q'(2)]] True
      unfolding page_ok_def by (auto simp: s' intro!: exI [of _ "frame_of s q"])
  next
    case False
    then show ?thesis using vm_inv_page [OF inv, of b m q] q by (simp add: page_ok_def sp split: if_splits)
  qed
  have entry: "entry_ok s' T j" if j: "j < num_cm_entries s" for j
  proof (cases "present p \<and> j = frame_of s p")
    case True
    then have "j \<notin> T" using page_ok_frame(2) [OF vm_inv_page [OF inv p]] by blast
    then show ?thesis using free True by (simp add: entry_ok_def Let_def)
  next
    case False
    show ?thesis
    proof (rule entry_ok_transfer [OF vm_inv_entry [OF inv j]])
      fix b q
      assume q: "pte_of (spaces s) b (vaddr_base (coremap s ! j)) = Some q" "present q"
        "page_paddr_base q = int (base s + j)"
      have "frame_of s q = j" using q(3) by (simp add: frame_of_def nat_add_distrib)
      then have "\<not> (b = a \<and> vaddr_base (coremap s ! j) = n)" using False p q by auto
      then show "pte_of (spaces s') b (vaddr_base (coremap s ! j)) = Some q" using q by (auto simp: sp)
    qed (use cm [OF False] s' in auto)
  qed
  obtain k where k: "slot_of s a n = Some k" using p by (simp add: slot_of_def)
  have "bitmap_used (disk_map s') = {k. \<exists>b m. slot_of s' b m = Some k}"
  proof -
    have only: "(\<exists>b m. slot_of s b m = Some x) \<and> x \<noteq> k \<longleftrightarrow>
        (\<exists>b m. \<not> (b = a \<and> m = n) \<and> slot_of s b m = Some x)" for x
      using vm_inv_slot [OF inv k] k by (metis option.inject)
    have slots: "slot_of s' b m = Some x \<longleftrightarrow> \<not> (b = a \<and> m = n) \<and> slot_of s b m = Some x" for b m x
      by (simp add: slot)
    show ?thesis
      unfolding used vm_inv_used [OF inv] k option.sel slots by (rule set_eqI) (simp add: only del: de_Morgan_conj)
  qed
  then have "vm_inv T s'"
    using inv s'(1) page entry vm_inv_slot [OF inv] unfolding vm_inv_def s'(2) slot by auto
  moreover have "page_content s' b m = (if b = a \<and> m = n then None else page_content s b m)" for b m
    using other [of b m] cm by (auto simp: page_content_def frame sp s' split: option.split)
  ultimately show ?thesis by blast
qed

text \<open>Clearing the existence bit of the pages \<open>D\<close> of an address space.\<close>

definition drop_pages :: "(nat \<Rightarrow> addrspace option) \<Rightarrow> nat \<Rightarrow> nat set \<Rightarrow> nat \<Rightarrow> addrspace option" where
  "drop_pages sp a D = sp(a := map_option (\<lambda>A. A\<lparr>page_table := (\<lambda>i. map_option
     (\<lambda>row j. if i * 1024 + j \<in> D then (row j)\<lparr>exists := False\<rparr> else row j) (page_table A i))\<rparr>) (sp a))"

lemma pte_of_drop:
  "pte_of (drop_pages sp a D) b m = (if b = a \<and> m \<in> D then None else pte_of sp b m)"
proof (cases "b = a \<and> m < 1048576")
  case True
  have "m div 1024 * 1024 + m mod 1024 = m" by simp
  then show ?thesis
    using True by (auto simp: pte_of_def drop_pages_def get_pt_entry_def primary_vpn secondary_vpn
        split: option.splits)
qed (auto simp: pte_of_def drop_pages_def)

lemma pte_of_removed: "pte_of (sp(a := None)) b m = (if b = a then None else pte_of sp b m)"
  by (simp add: pte_of_def)

lemma drop_pages_empty: "drop_pages sp a {} = sp"
  by (auto simp: drop_pages_def fun_eq_iff option.map_ident_strong option.map_id0 map_option_case split: option.splits)

lemma swapfile_free_index_eq:
  assumes "bitmap_inv (disk_map s)" "k \<in> bitmap_used (disk_map s)"
  shows "\<exists>d. swapfile_free_index s k = Some (s\<lparr>disk_map := d\<rparr>) \<and> bitmap_inv d \<and>
    nbits d = nbits (disk_map s) \<and> bitmap_used d = bitmap_used (disk_map s) - {k}"
proof -
  have "bitmap_isset (disk_map s) k"
    using assms bitmap_used_bound [of "disk_map s"] bitmap_isset_iff by blast
  then show ?thesis
    using bitmap_unmark_ok [OF assms] by (auto simp: swapfile_free_index_def)
qed

lemma vm_view_pte:
  assumes "\<And>b m. pte_of X b m = pte_of Y b m"
  shows "vm_inv T (s\<lparr>spaces := X\<rparr>) = vm_inv T (s\<lparr>spaces := Y\<rparr>)"
    "page_content (s\<lparr>spaces := X\<rparr>) = page_content (s\<lparr>spaces := Y\<rparr>)"
proof -
  have "pte_of X = pte_of Y" using assms by (intro ext)
  moreover have "frame_of (s\<lparr>spaces := X\<rparr>) = frame_of (s\<lparr>spaces := Y\<rparr>)"
    by (intro ext) (simp add: frame_of_def)
  ultimately have "slot_of (s\<lparr>spaces := X\<rparr>) = slot_of (s\<lparr>spaces := Y\<rparr>)"
      "page_content (s\<lparr>spaces := X\<rparr>) = page_content (s\<lparr>spaces := Y\<rparr>)"
      "entry_ok (s\<lparr>spaces := X\<rparr>) = entry_ok (s\<lparr>spaces := Y\<rparr>)"
      "page_ok (s\<lparr>spaces := X\<rparr>) = page_ok (s\<lparr>spaces := Y\<rparr>)"
      "inv_shape (s\<lparr>spaces := X\<rparr>) = inv_shape (s\<lparr>spaces := Y\<rparr>)"
    by (auto intro!: ext simp: slot_of_def page_content_def entry_ok_def page_ok_def inv_shape_def Let_def
        split: option.split)
  then show "vm_inv T (s\<lparr>spaces := X\<rparr>) = vm_inv T (s\<lparr>spaces := Y\<rparr>)"
      "page_content (s\<lparr>spaces := X\<rparr>) = page_content (s\<lparr>spaces := Y\<rparr>)"
    using \<open>pte_of X = pte_of Y\<close> by (simp_all add: vm_inv_def)
qed

lemma free_user_page_eq:
  fixes sp s
  defines "t \<equiv> s\<lparr>spaces := sp\<rparr>"
  assumes inv: "vm_inv T t" and p: "pte_of sp a n = Some p" "present p"
    and busy: "busy_bit (coremap s ! frame_of t p)"
  shows "\<exists>d. free_coremap_page s (loc_to_paddr (pte_get_location p)) False =
      Some (s\<lparr>coremap := (coremap s)[frame_of t p := freed_entry], disk_map := d,
        num_cm_user := num_cm_user s - 1, num_cm_free := num_cm_free s + 1,
        pmem := (pmem s)(frame_of t p := zero_page)\<rparr>) \<and>
    bitmap_inv d \<and> nbits d = nbits (disk_map s) \<and>
    bitmap_used d = bitmap_used (disk_map s) - {the (slot_of t a n)}"
proof -
  have pt: "pte_of (spaces t) a n = Some p" using p by (simp add: t_def)
  let ?i = "frame_of t p" and ?k = "nat (disk_offset (coremap s ! frame_of t p))"
  note f = page_ok_frame [OF vm_inv_page [OF inv pt] p(2)]
  note sh = vm_inv_shape [OF inv, unfolded inv_shape_def]
  have len: "?i < length (coremap s)" using f(1) sh by (simp add: t_def)
  have slot: "slot_of t a n = Some ?k" using p by (simp add: slot_of_def t_def)
  have loc: "loc_to_paddr (pte_get_location p) = COREMAP_TO_PADDR s ?i"
    using resident_location(2) [OF inv pt p(2)] by (simp add: t_def COREMAP_TO_PADDR_def)
  have "?k \<in> bitmap_used (disk_map s)" using slot_used(1) [OF inv slot] by (simp add: t_def)
  moreover have "bitmap_inv (disk_map s)" using sh by (simp add: t_def)
  ultimately obtain d where d: "swapfile_free_index s ?k = Some (s\<lparr>disk_map := d\<rparr>)" "bitmap_inv d"
      "nbits d = nbits (disk_map s)" "bitmap_used d = bitmap_used (disk_map s) - {?k}"
    using swapfile_free_index_eq by blast
  have v: "vaddr_base (coremap s ! ?i) \<noteq> 0"
    using vm_inv_entry [OF inv f(1)] f(2,4) by (auto simp: entry_ok_def Let_def t_def)
  have e: "(coremap s ! ?i)\<lparr>cme_as := None, disk_offset := - 1, vaddr_base := 0, use_bit := False,
      cme_state := CME_FREE, busy_bit := False\<rparr> = freed_entry"
    by (cases "coremap s ! ?i") (simp add: freed_entry_def)
  have st: "cme_state (coremap s ! ?i) \<noteq> CME_FREE" using f(4) by (auto simp: t_def)
  have "base s \<le> COREMAP_TO_PADDR s ?i div 4096" by (simp add: COREMAP_TO_PADDR_def)
  then show ?thesis
    unfolding loc slot option.sel
    using d f(1,5,7) v st busy len e
    by (intro exI [of _ d]) (auto simp: free_coremap_page_def cme_defs Let_def t_def)
qed

section \<open>Destroying an address space\<close>

text \<open>The state \<open>s\<close> of a destruction that started in \<open>s0\<close>, after the pages \<open>D\<close> have been given back.\<close>

definition destroying :: "nat set \<Rightarrow> nat \<Rightarrow> vm \<Rightarrow> nat set \<Rightarrow> vm \<Rightarrow> bool" where
  "destroying T a s0 D s \<longleftrightarrow>
     vm_inv T (s\<lparr>spaces := drop_pages (spaces s0) a D\<rparr>) \<and> spaces s = spaces s0 \<and>
     (\<forall>b m. page_content (s\<lparr>spaces := drop_pages (spaces s0) a D\<rparr>) b m =
        (if b = a \<and> m \<in> D then None else page_content s0 b m)) \<and>
     (\<forall>i < num_cm_entries s. cme_as (coremap s ! i) = Some a \<longrightarrow> busy_bit (coremap s ! i)) \<and>
     pt_held s = pt_held s0 \<and> base s = base s0 \<and> num_cm_entries s = num_cm_entries s0"

lemma pt_destroy_entry_step:
  assumes I: "destroying T a s0 D s" and n: "n \<notin> D" "n < 1048576"
    and A: "spaces s0 a = Some A" "page_table A (n div 1024) = Some row"
  shows "\<exists>s'. pt_destroy_entry s (row (n mod 1024)) = Some s' \<and> destroying T a s0 (insert n D) s' \<and>
    (\<forall>kva. kernel_page s kva \<longrightarrow> kernel_page s' kva)"
proof -
  let ?p = "row (n mod 1024)" and ?sp = "drop_pages (spaces s0) a D" and ?sp' = "drop_pages (spaces s0) a (insert n D)"
  let ?t = "s\<lparr>spaces := ?sp\<rparr>"
  have look: "pte_of ?sp a n = (if exists ?p then Some ?p else None)"
    using n A by (simp add: pte_of_drop) (simp add: pte_of_def get_pt_entry_def primary_vpn secondary_vpn)
  have step: "pte_of ?sp' b m = (if b = a \<and> m = n then None else pte_of ?sp b m)" for b m
    by (auto simp: pte_of_drop)
  have inv: "vm_inv T ?t" and sp: "spaces s = spaces s0" using I by (simp_all add: destroying_def)
  note sh = vm_inv_shape [OF inv]
  have fin: ?thesis
    if run: "pt_destroy_entry s ?p = Some s'" and q: "pte_of ?sp a n = Some ?p"
      and s': "inv_shape (s'\<lparr>spaces := ?sp'\<rparr>)" "num_cm_entries s' = num_cm_entries s" "base s' = base s"
        "swapfile s' = swapfile s" "spaces s' = spaces s" "pt_held s' = pt_held s"
      and used: "bitmap_used (disk_map s') = bitmap_used (disk_map s) - {the (slot_of ?t a n)}"
      and cm: "\<And>j. \<not> (present ?p \<and> j = frame_of ?t ?p) \<Longrightarrow> coremap s' ! j = coremap s ! j \<and> pmem s' j = pmem s j"
      and free: "present ?p \<Longrightarrow> coremap s' ! frame_of ?t ?p = freed_entry" for s'
  proof -
    have "vm_inv T (s'\<lparr>spaces := ?sp'\<rparr>) \<and> (\<forall>b m. page_content (s'\<lparr>spaces := ?sp'\<rparr>) b m =
        (if b = a \<and> m = n then None else page_content ?t b m))"
      by (rule drop_core [OF inv, where p = ?p]) (use q s' step used cm free in \<open>simp_all add: freed_entry_def\<close>)
    moreover have "busy_bit (coremap s' ! i)" if "i < num_cm_entries s" "cme_as (coremap s' ! i) = Some a" for i
      using that cm [of i] free I by (cases "present ?p \<and> i = frame_of ?t ?p")
        (auto simp: freed_entry_def destroying_def)
    moreover have "kernel_page s' kva" if kp: "kernel_page s kva" for kva
    proof -
      obtain j where j: "j < num_cm_entries s" "kva = COREMAP_TO_PADDR s j + 0x80000000"
          "cme_state (coremap s ! j) = CME_FIXED"
        using kp by (auto simp: kernel_page_def)
      have "\<not> (present ?p \<and> j = frame_of ?t ?p)"
        using page_ok_frame(4) [OF vm_inv_page [OF inv, of a n ?p]] q j(3) by auto
      then show ?thesis
        using cm [of j] j s' by (auto simp: kernel_page_def COREMAP_TO_PADDR_def intro!: exI [of _ j])
    qed
    ultimately show ?thesis
      using run I s' by (auto simp: destroying_def)
  qed
  show ?thesis
  proof (cases "exists ?p")
    case ex: True
    then have q: "pte_of ?sp a n = Some ?p" by (simp add: look)
    show ?thesis
    proof (cases "present ?p")
      case True
      note f = page_ok_frame [OF vm_inv_page [OF inv, of a n ?p, simplified, OF q] True]
      have busy: "busy_bit (coremap s ! frame_of ?t ?p)"
        using I f(1,5) by (auto simp: destroying_def)
      obtain d where d: "free_coremap_page s (loc_to_paddr (pte_get_location ?p)) False =
          Some (s\<lparr>coremap := (coremap s)[frame_of ?t ?p := freed_entry], disk_map := d,
            num_cm_user := num_cm_user s - 1, num_cm_free := num_cm_free s + 1,
            pmem := (pmem s)(frame_of ?t ?p := zero_page)\<rparr>)"
        "bitmap_inv d" "nbits d = nbits (disk_map s)"
        "bitmap_used d = bitmap_used (disk_map s) - {the (slot_of ?t a n)}"
        using free_user_page_eq [OF inv q True busy] by blast
      have len: "frame_of ?t ?p < length (coremap s)" using f(1) sh by (simp add: inv_shape_def)
      have "n_fixed ((coremap s)[frame_of ?t ?p := freed_entry]) = n_fixed (coremap s)"
        using n_fixed_update [OF len, of freed_entry] f(4) by (auto simp: freed_entry_def user_state_def)
      then have shape: "inv_shape (s\<lparr>coremap := (coremap s)[frame_of ?t ?p := freed_entry], disk_map := d,
            num_cm_user := num_cm_user s - 1, num_cm_free := num_cm_free s + 1,
            pmem := (pmem s)(frame_of ?t ?p := zero_page), spaces := ?sp'\<rparr>)"
        using sh d(2,3) by (auto simp: inv_shape_def)
      show ?thesis
      proof (rule fin [OF _ q])
        show "pt_destroy_entry s ?p = Some (s\<lparr>coremap := (coremap s)[frame_of ?t ?p := freed_entry], disk_map := d,
            num_cm_user := num_cm_user s - 1, num_cm_free := num_cm_free s + 1,
            pmem := (pmem s)(frame_of ?t ?p := zero_page)\<rparr>)"
          using d(1) ex True by (simp add: pt_destroy_entry_def pte_get_exists_def pte_get_present_def)
      qed (use shape d(4) True len in simp_all)
    next
      case False
      let ?k = "nat (page_paddr_base ?p)"
      have slot: "slot_of ?t a n = Some ?k" using q False by (simp add: slot_of_def)
      have "?k \<in> bitmap_used (disk_map s)" "bitmap_inv (disk_map s)"
        using slot_used(1) [OF inv slot] sh by (simp_all add: inv_shape_def)
      then obtain d where d: "swapfile_free_index s ?k = Some (s\<lparr>disk_map := d\<rparr>)" "bitmap_inv d"
          "nbits d = nbits (disk_map s)" "bitmap_used d = bitmap_used (disk_map s) - {?k}"
        using swapfile_free_index_eq by blast
      have shape: "inv_shape (s\<lparr>disk_map := d, spaces := ?sp'\<rparr>)"
        using sh d(2,3) by (auto simp: inv_shape_def)
      show ?thesis
      proof (rule fin [OF _ q])
        show "pt_destroy_entry s ?p = Some (s\<lparr>disk_map := d\<rparr>)"
          using d(1) ex False by (simp add: pt_destroy_entry_def pte_defs)
      qed (use shape d(4) slot False in simp_all)
    qed
  next
    case False
    have "pte_of ?sp' b m = pte_of ?sp b m" for b m
      using look False by (auto simp: step)
    note same = vm_view_pte [OF this]
    have "page_content ?t a n = None" using look False by (simp add: page_content_def)
    then have "destroying T a s0 (insert n D) s"
      using I n(1) by (auto simp: destroying_def same)
    then show ?thesis
      using False by (simp add: pt_destroy_entry_def pte_defs)
  qed
qed

lemma pt_destroy_row_steps:
  assumes "destroying T a s0 D s" "spaces s0 a = Some A" "page_table A i = Some row" "i < 1024"
    and "set js \<subseteq> {..<1024}" "distinct js" "D \<inter> (\<lambda>j. i * 1024 + j) ` set js = {}"
  shows "\<exists>s'. pt_destroy_row s row js = Some s' \<and> destroying T a s0 (D \<union> (\<lambda>j. i * 1024 + j) ` set js) s' \<and>
    (\<forall>kva. kernel_page s kva \<longrightarrow> kernel_page s' kva)"
  using assms
proof (induction js arbitrary: s D)
  case (Cons j js)
  let ?n = "i * 1024 + j"
  have j: "j < 1024" and n: "?n \<notin> D" using Cons.prems(5,7) by auto
  have "?n div 1024 = i" "?n mod 1024 = j" "?n < 1048576" using j Cons.prems(4) by simp_all
  then obtain s1 where s1: "pt_destroy_entry s (row j) = Some s1" "destroying T a s0 (insert ?n D) s1"
      "\<forall>kva. kernel_page s kva \<longrightarrow> kernel_page s1 kva"
    using pt_destroy_entry_step [OF Cons.prems(1) n, of A row] Cons.prems(2,3) by auto
  have "insert ?n D \<inter> (\<lambda>j. i * 1024 + j) ` set js = {}" using Cons.prems(6,7) by auto
  then obtain s2 where "pt_destroy_row s1 row js = Some s2"
      "destroying T a s0 (insert ?n D \<union> (\<lambda>j. i * 1024 + j) ` set js) s2"
      "\<forall>kva. kernel_page s1 kva \<longrightarrow> kernel_page s2 kva"
    using Cons.IH [OF s1(2) Cons.prems(2-4)] Cons.prems(5,6) by auto
  then show ?case using s1 by (auto intro: exI [of _ s2])
qed simp

text \<open>The pages of the page tables themselves belong to one address space.\<close>

definition tables_owned :: "vm \<Rightarrow> addrspace \<Rightarrow> bool" where
  "tables_owned s A \<longleftrightarrow> kernel_page s (pt_root A) \<and>
     (\<forall>i < 1024. page_table A i \<noteq> None \<longrightarrow> kernel_page s (pt_kva A i) \<and> pt_kva A i \<noteq> pt_root A) \<and>
     inj_on (pt_kva A) {i. i < 1024 \<and> page_table A i \<noteq> None}"

lemma free_kpages_destroying:
  assumes I: "destroying T a s0 D s" and k: "kernel_page s kva"
  shows "\<exists>s'. free_kpages s kva = Some s' \<and> destroying T a s0 D s' \<and>
    (\<forall>kvb. kvb \<noteq> kva \<longrightarrow> kernel_page s kvb \<longrightarrow> kernel_page s' kvb)"
proof -
  let ?sp = "drop_pages (spaces s0) a D"
  let ?t = "s\<lparr>spaces := ?sp\<rparr>"
  have inv: "vm_inv T ?t" using I by (simp add: destroying_def)
  obtain ix where ix: "ix < num_cm_entries s" "kva = COREMAP_TO_PADDR s ix + 0x80000000"
      "cme_state (coremap s ! ix) = CME_FIXED"
    using k by (auto simp: kernel_page_def)
  let ?f = "\<lambda>s. s\<lparr>coremap := (coremap s)[ix := freed_entry], num_cm_kernel := num_cm_kernel s - 1,
    num_cm_free := num_cm_free s + 1, pmem := (pmem s)(ix := zero_page)\<rparr>"
  have len: "ix < length (coremap s)" and fixed: "fixed_entry (coremap s ! ix)"
    using vm_inv_fixed [OF inv, of ix] ix by simp_all
  have run: "free_kpages s kva = Some (?f s)"
    using free_kpages_fixed [OF ix(1) len fixed] ix(2) by simp
  have t: "free_kpages ?t kva = Some (?f ?t)"
    using free_kpages_eq [OF inv, of ix] ix by (simp add: COREMAP_TO_PADDR_def)
  have "kernel_page ?t kva" using k by (simp add: kernel_page_def COREMAP_TO_PADDR_def)
  from free_kpages_keeps [OF inv this] t
  have keep: "vm_inv T (?f ?t)" "\<forall>b m. page_content (?f ?t) b m = page_content ?t b m"
      "\<forall>kvb. kvb \<noteq> kva \<longrightarrow> kernel_page ?t kvb \<longrightarrow> kernel_page (?f ?t) kvb"
    by auto
  have eq: "(?f s)\<lparr>spaces := ?sp\<rparr> = ?f ?t" by simp
  have kp: "kernel_page (s\<lparr>spaces := x\<rparr>) kvb = kernel_page s kvb" for s x kvb
    by (simp add: kernel_page_def COREMAP_TO_PADDR_def)
  have "busy_bit ((coremap s)[ix := freed_entry] ! i)"
    if "i < num_cm_entries s" "cme_as ((coremap s)[ix := freed_entry] ! i) = Some a" for i
    using that I len by (cases "i = ix") (auto simp: freed_entry_def destroying_def)
  then have "destroying T a s0 D (?f s)"
    using I keep(1,2) unfolding destroying_def eq by simp
  then show ?thesis
    using run keep(3) kp [of ?sp s] kp [of ?sp "?f s"] unfolding eq by blast
qed

lemma pt_destroy_rows_steps:
  assumes "destroying T a s0 D s" "spaces s0 a = Some A" "set is \<subseteq> {..<1024}" "distinct is"
    and "D \<inter> {n. n div 1024 \<in> set is} = {}"
    and "\<forall>i \<in> set is. page_table A i \<noteq> None \<longrightarrow> kernel_page s (pt_kva A i) \<and> pt_kva A i \<noteq> pt_root A"
    and "inj_on (pt_kva A) {i \<in> set is. page_table A i \<noteq> None}" "kernel_page s (pt_root A)"
  shows "\<exists>D' s'. pt_destroy_rows s A is = Some s' \<and> destroying T a s0 D' s' \<and> D \<subseteq> D' \<and>
    (\<forall>n. n div 1024 \<in> set is \<longrightarrow> pte_of (spaces s0) a n \<noteq> None \<longrightarrow> n \<in> D') \<and> kernel_page s' (pt_root A)"
  using assms
proof (induction "is" arbitrary: s D)
  case (Cons i "is")
  show ?case
  proof (cases "page_table A i")
    case None
    have "pte_of (spaces s0) a n = None" if "n div 1024 = i" for n
      using that None Cons.prems(2) by (auto simp: pte_of_def get_pt_entry_def primary_vpn)
    moreover have "\<exists>D' s'. pt_destroy_rows s A is = Some s' \<and> destroying T a s0 D' s' \<and> D \<subseteq> D' \<and>
      (\<forall>n. n div 1024 \<in> set is \<longrightarrow> pte_of (spaces s0) a n \<noteq> None \<longrightarrow> n \<in> D') \<and> kernel_page s' (pt_root A)"
      by (rule Cons.IH) (use Cons.prems in \<open>auto intro: inj_on_subset\<close>)
    ultimately show ?thesis using None by auto
  next
    case (Some row)
    let ?R = "(\<lambda>j. i * 1024 + j) ` set [0..<1024]"
    have i: "i < 1024" "i \<notin> set is" using Cons.prems(3,4) by auto
    have R: "n \<in> ?R \<longleftrightarrow> n div 1024 = i" for n
    proof
      assume "n div 1024 = i"
      then have "n = i * 1024 + n mod 1024" by auto
      then show "n \<in> ?R" by (intro image_eqI [of _ _ "n mod 1024"]) auto
    qed auto
    have "D \<inter> ?R = {}" using Cons.prems(5) R by auto
    then obtain s1 where s1: "pt_destroy_row s row [0..<1024] = Some s1" "destroying T a s0 (D \<union> ?R) s1"
        "\<forall>kva. kernel_page s kva \<longrightarrow> kernel_page s1 kva"
      using pt_destroy_row_steps [OF Cons.prems(1,2) Some i(1), of "[0..<1024]"] by fastforce
    have "kernel_page s1 (pt_kva A i)" using s1(3) Cons.prems(6) Some by simp
    then obtain s2 where s2: "free_kpages s1 (pt_kva A i) = Some s2" "destroying T a s0 (D \<union> ?R) s2"
        "\<forall>kvb. kvb \<noteq> pt_kva A i \<longrightarrow> kernel_page s1 kvb \<longrightarrow> kernel_page s2 kvb"
      using free_kpages_destroying [OF s1(2)] by blast
    have ne: "pt_kva A j \<noteq> pt_kva A i" if "j \<in> set is" "page_table A j \<noteq> None" for j
      using Cons.prems(7) that i Some by (auto dest: inj_onD)
    have "\<exists>D' s'. pt_destroy_rows s2 A is = Some s' \<and> destroying T a s0 D' s' \<and> D \<union> ?R \<subseteq> D' \<and>
      (\<forall>n. n div 1024 \<in> set is \<longrightarrow> pte_of (spaces s0) a n \<noteq> None \<longrightarrow> n \<in> D') \<and> kernel_page s' (pt_root A)"
    proof (rule Cons.IH [OF s2(2) Cons.prems(2)])
      show "(D \<union> ?R) \<inter> {n. n div 1024 \<in> set is} = {}" using Cons.prems(5) i(2) R by auto
      show "\<forall>i \<in> set is. page_table A i \<noteq> None \<longrightarrow> kernel_page s2 (pt_kva A i) \<and> pt_kva A i \<noteq> pt_root A"
        using Cons.prems(6) s1(3) s2(3) ne by auto
      show "kernel_page s2 (pt_root A)"
        using Cons.prems(6,8) s1(3) s2(3) Some by (metis list.set_intros(1) option.distinct(1))
    qed (use Cons.prems in \<open>auto intro: inj_on_subset\<close>)
    then obtain D' s' where D': "pt_destroy_rows s2 A is = Some s'" "destroying T a s0 D' s'" "D \<union> ?R \<subseteq> D'"
        "\<forall>n. n div 1024 \<in> set is \<longrightarrow> pte_of (spaces s0) a n \<noteq> None \<longrightarrow> n \<in> D'" "kernel_page s' (pt_root A)"
      by blast
    have "n \<in> D'" if "n div 1024 \<in> set (i # is)" "pte_of (spaces s0) a n \<noteq> None" for n
      using that D'(3,4) R [of n] by auto
    then show ?thesis
      using D' Some s1(1) s2(1) by (intro exI [of _ D'] exI [of _ s']) auto
  qed
qed auto

lemma pin_all_pages_from_ok:
  assumes "vm_inv T s" "set is \<subseteq> {..<length (coremap s)}" "distinct is"
    and "\<forall>i \<in> set is. cme_as (coremap s ! i) = Some a \<longrightarrow> \<not> busy_bit (coremap s ! i)"
  shows "\<exists>s'. pin_all_pages_from s a is = Some s' \<and> vm_keeps T s s' \<and> spaces s' = spaces s \<and> num_cm_kernel s' = num_cm_kernel s \<and>
    (\<forall>i. coremap s' ! i = (if i \<in> set is \<and> cme_as (coremap s ! i) = Some a
       then (coremap s ! i)\<lparr>busy_bit := True\<rparr> else coremap s ! i))"
  using assms
proof (induction "is" arbitrary: s)
  case Nil
  then show ?case using vm_keeps_refl by auto
next
  case (Cons i "is")
  show ?case
  proof (cases "cme_as (coremap s ! i) = Some a")
    case True
    let ?s = "cme_set_busy s i True"
    have i: "i < length (coremap s)" "\<not> busy_bit (coremap s ! i)" using Cons.prems True by auto
    have "num_cm_entries s = length (coremap s)"
      using vm_inv_shape [OF Cons.prems(1)] by (simp add: inv_shape_def)
    then have T: "i \<notin> T"
      using vm_inv_entry [OF Cons.prems(1), of i] i by (auto simp: entry_ok_def Let_def)
    note k = set_busy_keeps [OF Cons.prems(1) T, of True]
    have cm: "coremap ?s = (coremap s)[i := (coremap s ! i)\<lparr>busy_bit := True\<rparr>]" "spaces ?s = spaces s"
      "num_cm_kernel ?s = num_cm_kernel s"
      by (simp_all add: cme_defs)
    have "\<exists>s'. pin_all_pages_from ?s a is = Some s' \<and> vm_keeps T ?s s' \<and> spaces s' = spaces ?s \<and> num_cm_kernel s' = num_cm_kernel ?s \<and>
      (\<forall>j. coremap s' ! j = (if j \<in> set is \<and> cme_as (coremap ?s ! j) = Some a
         then (coremap ?s ! j)\<lparr>busy_bit := True\<rparr> else coremap ?s ! j))"
      by (rule Cons.IH) (use Cons.prems k cm in \<open>auto simp: vm_keeps_def nth_list_update\<close>)
    then obtain s' where s': "pin_all_pages_from ?s a is = Some s'" "vm_keeps T ?s s'" "spaces s' = spaces ?s"
      "num_cm_kernel s' = num_cm_kernel ?s"
      "\<And>j. coremap s' ! j = (if j \<in> set is \<and> cme_as (coremap ?s ! j) = Some a
         then (coremap ?s ! j)\<lparr>busy_bit := True\<rparr> else coremap ?s ! j)"
      by blast
    have "coremap s' ! j = (if j \<in> set (i # is) \<and> cme_as (coremap s ! j) = Some a
       then (coremap s ! j)\<lparr>busy_bit := True\<rparr> else coremap s ! j)" for j
      using s'(5) [of j] Cons.prems(3) True i(1) by (cases "j = i") (auto simp: cm)
    then show ?thesis
      using s'(1-4) True i(2) cm(2,3) vm_keeps_trans [OF k s'(2)] by (simp add: cme_defs)
  next
    case False
    have "\<exists>s'. pin_all_pages_from s a is = Some s' \<and> vm_keeps T s s' \<and> spaces s' = spaces s \<and> num_cm_kernel s' = num_cm_kernel s \<and>
      (\<forall>i. coremap s' ! i = (if i \<in> set is \<and> cme_as (coremap s ! i) = Some a
         then (coremap s ! i)\<lparr>busy_bit := True\<rparr> else coremap s ! i))"
      by (rule Cons.IH) (use Cons.prems in auto)
    then show ?thesis using False by auto
  qed
qed

definition unpinned :: "vm \<Rightarrow> nat \<Rightarrow> bool" where
  "unpinned s a \<longleftrightarrow> (\<forall>i < num_cm_entries s. cme_as (coremap s ! i) = Some a \<longrightarrow> \<not> busy_bit (coremap s ! i))"

lemma pin_all_pages_ok:
  assumes "vm_inv T s" "unpinned s a"
  shows "\<exists>s'. pin_all_pages s a = Some s' \<and> vm_keeps T s s' \<and> spaces s' = spaces s \<and> num_cm_kernel s' = num_cm_kernel s \<and>
    (\<forall>i < num_cm_entries s. coremap s' ! i = (if cme_as (coremap s ! i) = Some a
       then (coremap s ! i)\<lparr>busy_bit := True\<rparr> else coremap s ! i))"
proof -
  have n: "num_cm_entries s = length (coremap s)"
    using vm_inv_shape [OF assms(1)] by (simp add: inv_shape_def)
  then show ?thesis
    using pin_all_pages_from_ok [OF assms(1), of "[0..<length (coremap s)]" a] assms(2)
    by (auto simp: pin_all_pages_def unpinned_def atLeast0LessThan)
qed

lemma kernel_page_cong:
  assumes "num_cm_entries s' = num_cm_entries s" "base s' = base s"
    "\<And>i. i < num_cm_entries s \<Longrightarrow> cme_state (coremap s' ! i) = cme_state (coremap s ! i)"
  shows "kernel_page s' kva = kernel_page s kva"
  using assms by (auto simp: kernel_page_def COREMAP_TO_PADDR_def)

lemma as_destroy_ok:
  assumes inv: "vm_inv T s" and A: "spaces s a = Some A" and pins: "unpinned s a" and held: "a \<notin> pt_held s"
    and tables: "tables_owned s A"
  shows "\<exists>s'. as_destroy s a = Some s' \<and> vm_inv T s' \<and> spaces s' a = None \<and> pt_held s' = pt_held s \<and>
    (\<forall>b m. page_content s' b m = (if b = a then None else page_content s b m))"
proof -
  obtain s1 where s1: "pin_all_pages s a = Some s1" "vm_keeps T s s1" "spaces s1 = spaces s"
      "\<And>i. i < num_cm_entries s \<Longrightarrow> coremap s1 ! i = (if cme_as (coremap s ! i) = Some a
       then (coremap s ! i)\<lparr>busy_bit := True\<rparr> else coremap s ! i)"
    using pin_all_pages_ok [OF inv pins] by blast
  let ?s = "s1\<lparr>pt_held := insert a (pt_held s)\<rparr>"
  note k1 = s1(2) [unfolded vm_keeps_def]
  have st: "?s\<lparr>spaces := drop_pages (spaces ?s) a {}\<rparr> = ?s" by (simp add: drop_pages_empty)
  have busy: "cme_as (coremap s1 ! i) = Some a \<longrightarrow> busy_bit (coremap s1 ! i)" if "i < num_cm_entries s" for i
    using s1(4) [OF that] by auto
  have d0: "destroying T a ?s {} ?s"
    unfolding destroying_def st using k1 busy by simp
  have kp: "kernel_page ?s kva = kernel_page s kva" for kva
    by (rule kernel_page_cong) (use k1 s1(4) in auto)
  obtain D s2 where s2: "pt_destroy_rows ?s A [0..<1024] = Some s2" "destroying T a ?s D s2"
      "\<forall>n. n div 1024 \<in> set [0..<1024] \<longrightarrow> pte_of (spaces ?s) a n \<noteq> None \<longrightarrow> n \<in> D" "kernel_page s2 (pt_root A)"
    using pt_destroy_rows_steps [OF d0, of A "[0..<1024]"] A s1(3) tables
    by (auto simp: kp tables_owned_def atLeast0LessThan intro: inj_on_subset)
  obtain s3 where s3: "free_kpages s2 (pt_root A) = Some s3" "destroying T a ?s D s3"
    using free_kpages_destroying [OF s2(2,4)] by blast
  let ?s4 = "s3\<lparr>pt_held := pt_held s3 - {a}, spaces := (spaces s3)(a := None)\<rparr>"
  note d3 = s3(2) [unfolded destroying_def]
  have run: "as_destroy s a = Some ?s4"
    using s1 A k1 held s2(1) s3(1) d3
    by (simp add: as_destroy_def pt_destroy_def pt_lock_acquire_def pt_lock_release_def)
  have D: "n \<in> D" if "pte_of (spaces s) a n = Some q" for n q
  proof -
    have "n < 1048576" using pte_of_lookup(1) [OF that] .
    then show ?thesis using s2(3) that s1(3) by auto
  qed
  have pt: "pte_of ((spaces s3)(a := None)) b m = pte_of (drop_pages (spaces ?s) a D) b m" for b m
    using D [of m] d3 s1(3) by (cases "b = a"; cases "pte_of (spaces s) a m") (auto simp: pte_of_drop pte_of_removed)
  have inv4: "vm_inv T (s3\<lparr>spaces := (spaces s3)(a := None)\<rparr>)"
    "page_content (s3\<lparr>spaces := (spaces s3)(a := None)\<rparr>) = page_content (s3\<lparr>spaces := drop_pages (spaces ?s) a D\<rparr>)"
    using vm_view_pte [OF pt] d3 by simp_all
  have comm: "?s4 = s3\<lparr>spaces := (spaces s3)(a := None), pt_held := pt_held s3 - {a}\<rparr>" by simp
  have "page_content ?s4 b m = (if b = a then None else page_content s b m)" for b m
  proof (cases "b = a")
    case True
    then show ?thesis by (simp add: page_content_def pte_of_def)
  next
    case False
    then show ?thesis unfolding comm set_held_inv(2) inv4(2) using d3 k1 by simp
  qed
  moreover have "vm_inv T ?s4" unfolding comm using inv4(1) by simp
  ultimately show ?thesis using run d3 held by auto
qed

end
