(* ===== verification/Copying.thy ===== *)
theory Copying
  imports Lifecycle
begin

text \<open>
  Copying an address space (as_copy of kern/vm/addrspace.c): the new address space shows the same
  pages as the old one, every page in a swap slot of its own, and no other address space changes.
\<close>

section \<open>Allocation does not look at the swap map\<close>

text \<open>as_copy takes kernel pages while a swap slot is reserved but not yet in a page table.\<close>

abbreviation with_map :: "bitmap \<Rightarrow> vm \<Rightarrow> vm" where
  "with_map d s \<equiv> s\<lparr>disk_map := d\<rparr>"

lemma map_commute:
  "cme_upd (with_map d s) i f = with_map d (cme_upd s i f)"
  "advance_clock (with_map d s) = with_map d (advance_clock s)"
  "vm_tlbshootdown (with_map d s) ppn = with_map d (vm_tlbshootdown s ppn)"
  "COREMAP_TO_PADDR (with_map d s) = COREMAP_TO_PADDR s"
  "PADDR_TO_COREMAP (with_map d s) = PADDR_TO_COREMAP s"
  "PADDR_IS_VALID (with_map d s) = PADDR_IS_VALID s"
  "write_page io (with_map d s) pg k = apsnd (with_map d) (write_page io s pg k)"
  "put_as (with_map d s) a A = with_map d (put_as s a A)"
  "get_as (with_map d s) p = get_as s p"
  "reached_kpage_limit (with_map d s) = reached_kpage_limit s"
  by (simp_all add: cme_defs advance_clock_def vm_tlbshootdown_def COREMAP_TO_PADDR_def PADDR_TO_COREMAP_def
      PADDR_IS_VALID_def write_page_def put_as_def get_as_def reached_kpage_limit_def fun_eq_iff Let_def
      split: option.split)

lemma map_commute_entry:
  "cme_get_state (with_map d s) i = cme_get_state s i"
  "cme_get_busy (with_map d s) i = cme_get_busy s i"
  "cme_get_use (with_map d s) i = cme_get_use s i"
  "cme_set_busy (with_map d s) i b = with_map d (cme_set_busy s i b)"
  "cme_set_use (with_map d s) i b = with_map d (cme_set_use s i b)"
  "cme_set_state (with_map d s) i st = with_map d (cme_set_state s i st)"
  by (simp_all add: cme_defs)

lemma find_free_page_map:
  "find_free_page_from (with_map d s) is = apsnd (with_map d) (find_free_page_from s is)"
  by (induction "is" arbitrary: s) (simp_all add: cme_try_pin_def map_commute_entry Let_def)

lemma choose_evict_page_map:
  assumes "choose_evict_page s = Some y"
  shows "choose_evict_page (with_map d s) = Some (apsnd (with_map d) y)"
proof (rule choose_evict_page.raw_induct [OF _ assms])
  fix f :: "vm \<Rightarrow> (nat \<times> vm) option" and s :: vm and y
  assume ih: "\<And>s y. f s = Some y \<Longrightarrow> choose_evict_page (with_map d s) = Some (apsnd (with_map d) y)"
  assume run: "(let hand = clock_hand s in
       if cme_get_state s hand \<noteq> CME_FIXED then
         (case cme_try_pin s hand of
            (pinned, s') \<Rightarrow>
              if pinned then
                (if cme_get_use s' hand
                 then f (advance_clock (cme_set_busy (cme_set_use s' hand False) hand False))
                 else Some (hand, advance_clock s'))
              else f (advance_clock s'))
       else f (advance_clock s)) = Some y"
  show "choose_evict_page (with_map d s) = Some (apsnd (with_map d) y)"
    using run ih
    by (subst choose_evict_page.simps)
      (auto simp: cme_try_pin_def map_commute_entry map_commute Let_def split: if_splits)
qed

lemma alloc_lock_victim_map:
  "alloc_lock_victim s as v = Some s' \<Longrightarrow> alloc_lock_victim (with_map d s) as v = Some (with_map d s')"
  by (auto simp: alloc_lock_victim_def pt_lock_acquire_def pt_lock_release_def split: option.splits if_splits)

lemma alloc_writeback_map:
  assumes "alloc_writeback io s ix = Some s'"
  shows "alloc_writeback io (with_map d s) ix = Some (with_map d s')"
proof (cases "cme_get_state s ix = CME_DIRTY")
  case True
  let ?w = "write_page io s (pmem s ix) (nat (disk_offset (coremap s ! ix)))"
  obtain r t where w: "?w = (r, t)" by fastforce
  have "swapout io (with_map d s) (COREMAP_TO_PADDR s ix) =
      map_option (apsnd (with_map d)) (swapout io s (COREMAP_TO_PADDR s ix))"
    using w by (simp add: swapout_def map_commute map_commute_entry Let_def)
  then show ?thesis
    using assms True by (auto simp: alloc_writeback_def map_commute map_commute_entry)
qed (use assms in \<open>simp add: alloc_writeback_def map_commute_entry\<close>)

lemma evict_page_map:
  "evict_page s pa = Some s' \<Longrightarrow> evict_page (with_map d s) pa = Some (with_map d s')"
  by (auto simp: evict_page_def map_commute map_commute_entry Option.bind_eq_Some_conv Let_def split: if_splits)

lemma alloc_evict_map:
  assumes "alloc_evict io s as ix = Some s'"
  shows "alloc_evict io (with_map d s) as ix = Some (with_map d s')"
proof -
  obtain v s1 s2 s3 where v: "cme_as (coremap s ! ix) = Some v" "alloc_lock_victim s as v = Some s1"
      "alloc_writeback io (vm_tlbshootdown s1 (COREMAP_TO_PADDR s1 ix)) ix = Some s2"
      "evict_page s2 (COREMAP_TO_PADDR s2 ix) = Some s3"
      "alloc_unlock_victim s3 (v \<in> pt_held s) ix = Some s'"
    using assms by (auto simp: alloc_evict_def Option.bind_eq_Some_conv Let_def)
  have "alloc_unlock_victim (with_map d s3) (v \<in> pt_held s) ix = Some (with_map d s')"
    using v(5) by (auto simp: alloc_unlock_victim_def pt_lock_release_def split: if_splits option.splits)
  then show ?thesis
    using v(1) alloc_lock_victim_map [OF v(2)] alloc_writeback_map [OF v(3)] evict_page_map [OF v(4)]
    by (simp add: alloc_evict_def map_commute)
qed

lemma alloc_select_map:
  assumes "alloc_select io s as = Some (ix, s')"
  shows "alloc_select io (with_map d s) as = Some (ix, with_map d s')"
proof -
  let ?f = "if num_cm_free s > 0 then find_free_page s else (None, s)"
  obtain r t where f: "?f = (r, t)" by fastforce
  then have f': "(if num_cm_free (with_map d s) > 0 then find_free_page (with_map d s) else (None, with_map d s)) =
      (r, with_map d t)"
    by (auto simp: find_free_page_def find_free_page_map split: if_splits)
  show ?thesis
  proof (cases r)
    case None
    obtain s1 where s1: "choose_evict_page t = Some (ix, s1)"
        "(if cme_get_state s1 ix \<noteq> CME_FREE then alloc_evict io s1 as ix else Some s1) = Some s'"
      using assms f None by (auto simp: alloc_select_def Option.bind_eq_Some_conv split: if_splits)
    then show ?thesis
      using f' None choose_evict_page_map [OF s1(1), of d] alloc_evict_map [of io s1 as ix s' d]
      by (auto simp: alloc_select_def map_commute_entry split: if_splits)
  next
    case (Some i)
    then show ?thesis using assms f f' by (simp add: alloc_select_def)
  qed
qed

lemma alloc_kpages_map:
  assumes "alloc_kpages io s n = Some (r, s')"
  shows "alloc_kpages io (with_map d s) n = Some (r, with_map d s')"
proof (cases "n > 1 \<or> reached_kpage_limit s")
  case True
  then show ?thesis
    using assms by (auto simp: alloc_kpages_def alloc_one_page_def map_commute Option.bind_eq_Some_conv split: if_splits)
next
  case False
  then obtain ix s1 s2 where a: "num_cm_entries s \<noteq> 0" "alloc_select io s None = Some (ix, s1)"
      "cme_state (coremap s1 ! ix) = CME_FREE" "busy_bit (coremap s1 ! ix)" "mark_allocated s1 ix True = Some s2"
      "(if COREMAP_TO_PADDR s2 ix = 0 then (None, s2) else (Some (COREMAP_TO_PADDR s2 ix + 0x80000000),
        cme_set_busy s2 (PADDR_TO_COREMAP s2 (COREMAP_TO_PADDR s2 ix)) False)) = (r, s')"
    using assms by (auto simp: alloc_kpages_def alloc_one_page_def Option.bind_eq_Some_conv Let_def split: if_splits)
  have "mark_allocated (with_map d s1) ix True = Some (with_map d s2)"
    using a(5) by (auto simp: mark_allocated_def cme_defs Let_def split: if_splits)
  then show ?thesis
    using False a alloc_select_map [OF a(2), of d]
    by (auto simp: alloc_kpages_def alloc_one_page_def map_commute map_commute_entry Let_def split: if_splits)
qed

section \<open>Kernel pages and their number\<close>

lemma alloc_kpages_kernel:
  assumes inv: "vm_inv T s" and run: "alloc_kpages io s 1 = Some (r, s')"
  shows "r = None \<longleftrightarrow> reached_kpage_limit s"
    "num_cm_kernel s' = num_cm_kernel s + of_bool (r \<noteq> None)"
    "r = Some kva \<Longrightarrow> kernel_page s' kva"
proof -
  obtain pa s1 where pa: "alloc_one_page io s None 0 = Some (pa, s1)"
    and r: "(if pa = 0 then (None, s1) else (Some (pa + 0x80000000), cme_set_busy s1 (PADDR_TO_COREMAP s1 pa) False)) = (r, s')"
    using run by (auto simp: alloc_kpages_def Option.bind_eq_Some_conv split: if_splits)
  from alloc_one_page_eq [OF pa inv]
  consider "reached_kpage_limit s" "pa = 0" "s1 = s"
    | ix s0 where "alloc_select io s None = Some (ix, s0)" "pa = COREMAP_TO_PADDR s ix" "pa \<noteq> 0" "\<not> reached_kpage_limit s"
      "s1 = s0\<lparr>coremap := (coremap s0)[ix := fresh_entry None 0], num_cm_free := num_cm_free s0 - 1,
        num_cm_kernel := num_cm_kernel s0 + 1\<rparr>"
    by fastforce
  then have "(r = None \<longleftrightarrow> reached_kpage_limit s) \<and> num_cm_kernel s' = num_cm_kernel s + of_bool (r \<noteq> None) \<and>
    (r = Some kva \<longrightarrow> kernel_page s' kva)"
  proof cases
    case 1
    then show ?thesis using r by auto
  next
    case (2 ix s0)
    note rd = alloc_select_ready [OF inv 2(1), unfolded ready_def]
    have len: "ix < length (coremap s0)" using rd vm_inv_shape [of T s0] by (simp add: inv_shape_def)
    have "PADDR_TO_COREMAP s1 pa = ix" using 2(2,5) rd by simp
    then have s': "s' = s1\<lparr>coremap := (coremap s0)[ix := (fresh_entry None 0)\<lparr>busy_bit := False\<rparr>]\<rparr>" "r = Some (pa + 0x80000000)"
      using r 2(3,5) len by (auto simp: cme_defs)
    have "kernel_page s' (pa + 0x80000000)"
      using rd 2(2) len unfolding kernel_page_def
      by (auto simp: s' 2(5) COREMAP_TO_PADDR_def fresh_entry_def intro!: exI [of _ ix])
    then show ?thesis using 2(4,5) rd s' by auto
  qed
  then show "r = None \<longleftrightarrow> reached_kpage_limit s" "num_cm_kernel s' = num_cm_kernel s + of_bool (r \<noteq> None)"
    "r = Some kva \<Longrightarrow> kernel_page s' kva" by blast+
qed

section \<open>One more page in the swap file\<close>

lemma add_core:
  assumes inv: "vm_inv T s" and new: "pte_of (spaces s) a n = None" and k: "k \<notin> bitmap_used (disk_map s)"
    and s': "inv_shape s'" "num_cm_entries s' = num_cm_entries s" "base s' = base s" "coremap s' = coremap s"
      "pmem s' = pmem s" "swapfile s' = (swapfile s)(k := pg)"
      "bitmap_used (disk_map s') = insert k (bitmap_used (disk_map s))"
    and p: "\<not> present p" "page_paddr_base p = int k"
    and sp: "\<And>b m. pte_of (spaces s') b m = (if b = a \<and> m = n then Some p else pte_of (spaces s) b m)"
  shows "vm_inv T s' \<and> (\<forall>b m. page_content s' b m =
    (if b = a \<and> m = n then Some (permissions p, pg) else page_content s b m))"
proof -
  have frame: "frame_of s' q = frame_of s q" for q by (simp add: frame_of_def s')
  have slot: "slot_of s' b m = (if b = a \<and> m = n then Some k else slot_of s b m)" for b m
    using p by (auto simp: slot_of_def frame sp s' split: option.split)
  have ne: "slot_of s b m \<noteq> Some k" for b m
    using slot_used(1) [OF inv] k by blast
  have page: "page_ok s' T b m q" if q: "pte_of (spaces s') b m = Some q" for b m q
  proof (cases "b = a \<and> m = n")
    case True
    then show ?thesis using q p by (auto simp: sp page_ok_def)
  next
    case False
    then have q': "pte_of (spaces s) b m = Some q" using q by (auto simp: sp)
    show ?thesis
    proof (cases "present q")
      case True
      have "nat (disk_offset (coremap s ! frame_of s q)) \<noteq> k"
        using ne [of b m] q' True by (simp add: slot_of_def)
      then show ?thesis
        using page_ok_frame [OF vm_inv_page [OF inv q'] True] True
        unfolding page_ok_def by (auto simp: s' intro!: exI [of _ "frame_of s q"])
    next
      case False
      then show ?thesis using vm_inv_page [OF inv q'] by (simp add: page_ok_def)
    qed
  qed
  have entry: "entry_ok s' T j" if j: "j < num_cm_entries s" for j
    by (rule entry_ok_transfer [OF vm_inv_entry [OF inv j]]) (use s' sp new in auto)
  have "slot_of s' b m = slot_of s' c l \<Longrightarrow> slot_of s' b m \<noteq> None \<Longrightarrow> b = c \<and> m = l" for b m c l
    using vm_inv_slot [OF inv] ne unfolding slot by (metis not_Some_eq)
  moreover have "bitmap_used (disk_map s') = {k. \<exists>b m. slot_of s' b m = Some k}"
  proof -
    have "(\<exists>b m. slot_of s' b m = Some x) \<longleftrightarrow> x = k \<or> (\<exists>b m. slot_of s b m = Some x)" for x
    proof -
      have "slot_of s a n = None" using new by (simp add: slot_of_def)
      then show ?thesis unfolding slot by (metis option.distinct(1) option.inject)
    qed
    then show ?thesis unfolding s'(7) vm_inv_used [OF inv] by auto
  qed
  ultimately have "vm_inv T s'"
    using vm_inv_T [OF inv] s'(1) page entry unfolding vm_inv_def s'(2) by blast
  moreover have "page_content s' b m = (if b = a \<and> m = n then Some (permissions p, pg) else page_content s b m)" for b m
  proof (cases "b = a \<and> m = n")
    case False
    have "nat (page_paddr_base q) \<noteq> k" if "pte_of (spaces s) b m = Some q" "\<not> present q" for q
      using ne [of b m] that by (simp add: slot_of_def)
    then show ?thesis using False by (auto simp: page_content_def frame sp s' split: option.split)
  next
    case True
    then show ?thesis using p by (simp add: page_content_def frame sp s')
  qed
  ultimately show ?thesis by blast
qed

lemma vpn_PT_TO_VADDR:
  assumes "i < 1024" "j < 1024"
  shows "vpn (PT_TO_VADDR i j) = i * 1024 + j"
proof -
  have "PT_TO_VADDR i j = vpn_addr (i * 1024 + j)"
    by (simp add: PT_TO_VADDR_def vpn_addr_def push_bit_eq_mult algebra_simps)
  then show ?thesis using assms by simp
qed

section \<open>Copying one page\<close>

text \<open>The state of a copy that started in \<open>s0\<close>, with the pages \<open>D\<close> copied.\<close>

definition copying :: "nat set \<Rightarrow> nat \<Rightarrow> nat \<Rightarrow> vm \<Rightarrow> nat set \<Rightarrow> vm \<Rightarrow> bool" where
  "copying T old new s0 D s \<longleftrightarrow> vm_inv T s \<and> pt_held s = pt_held s0 \<and>
     (\<forall>b m. page_content s b m =
        (if b = new then (if m \<in> D then page_content s0 old m else None) else page_content s0 b m)) \<and>
     (\<exists>A0 A. spaces s0 old = Some A0 \<and> spaces s old = Some A \<and> space_rel A0 A)"

lemma reserve_write:
  fixes pg :: page
  assumes inv: "vm_inv T s" and res: "swapfile_reserve_index s = Some (k, s1)"
    and N: "spaces s new = Some N" "page_table N i \<noteq> None" "pte_of (spaces s) new (i * 1024 + j) = None"
    and ij: "i < 1024" "j < 1024" and pm: "0 \<le> pm" "pm \<le> 7"
  defines "s' \<equiv> put_as (s1\<lparr>swapfile := (swapfile s)(k := pg)\<rparr>) new
    (snd (pt_update N (PT_TO_VADDR i j) (int k) pm False))"
  shows "vm_inv T s' \<and> (\<forall>b m. page_content s' b m =
      (if b = new \<and> m = i * 1024 + j then Some (pm, pg) else page_content s b m)) \<and> spaces_rel s s' \<and>
    num_cm_kernel s' = num_cm_kernel s \<and> num_cm_entries s' = num_cm_entries s"
proof -
  let ?va = "PT_TO_VADDR i j" and ?p = "\<lparr>page_paddr_base = int k, permissions = pm, present = False, exists = True\<rparr>"
  note sh = vm_inv_shape [OF inv]
  have bi: "bitmap_inv (disk_map s)" "nbits (disk_map s) \<le> 524288" using sh by (simp_all add: inv_shape_def)
  note r = swapfile_reserve_index_eq [OF res bi(1)]
  have v: "vpn ?va = i * 1024 + j" using vpn_PT_TO_VADDR [OF ij] .
  obtain row where row: "page_table N i = Some row" using N(2) by blast
  have q: "get_pt_entry N ?va = Some (row j)"
    using row ij by (simp add: get_pt_entry_def primary_vpn secondary_vpn v)
  have upd: "snd (pt_update N ?va (int k) pm False) = put_pt_entry N ?va ?p"
    using q r(6) bi(2) pm by (cases "row j") (simp add: pt_update_def pte_defs)
  define d where "d = disk_map s1"
  have s1: "s1 = s\<lparr>disk_map := d\<rparr>" using r(1) by (simp only: d_def)
  then have s': "s' = s\<lparr>disk_map := d, swapfile := (swapfile s)(k := pg),
      spaces := (spaces s)(new := Some (put_pt_entry N ?va ?p))\<rparr>"
    unfolding s'_def upd put_as_def by simp
  have sp: "pte_of (spaces s') b m = (if b = new \<and> m = i * 1024 + j then Some ?p else pte_of (spaces s) b m)" for b m
    using pte_of_put [of "spaces s" new N ?va ?p b m] N(1) q by (simp add: s' v)
  have "vm_inv T s' \<and> (\<forall>b m. page_content s' b m =
      (if b = new \<and> m = i * 1024 + j then Some (permissions ?p, pg) else page_content s b m))"
    by (rule add_core [OF inv N(3) r(2), where p = ?p]) (use sh r(3-6) sp in \<open>auto simp: s' inv_shape_def d_def\<close>)
  moreover have "spaces_rel s s'"
    using N(1) by (simp add: spaces_rel_def s' option.rel_refl)
  ultimately show ?thesis by (simp add: s')
qed

lemma pte_at_of:
  assumes "pte_at s a i j = Some p" "i < 1024" "j < 1024"
  shows "pte_of (spaces s) a (i * 1024 + j) = (if exists p then Some p else None)"
  using assms by (auto simp: pte_at_def pte_of_def get_pt_entry_def primary_vpn secondary_vpn Option.bind_eq_Some_conv)

lemma page_content_None: "page_content s a n = None \<longleftrightarrow> pte_of (spaces s) a n = None"
  by (simp add: page_content_def split: option.split)

lemma alloc_kpages_present:
  assumes inv: "vm_inv T s" and run: "alloc_kpages io s 1 = Some (r, s')"
    and q: "pte_of (spaces s') b m = Some q" "present q"
  shows "pte_of (spaces s) b m = Some q"
proof -
  obtain pa s1 where pa: "alloc_one_page io s None 0 = Some (pa, s1)"
    and r: "(if pa = 0 then (None, s1) else (Some (pa + 0x80000000), cme_set_busy s1 (PADDR_TO_COREMAP s1 pa) False)) = (r, s')"
    using run by (auto simp: alloc_kpages_def Option.bind_eq_Some_conv split: if_splits)
  have sp: "spaces s' = spaces s1" using r by (auto simp: cme_defs split: if_splits)
  from alloc_one_page_eq [OF pa inv] show ?thesis
  proof (elim disjE exE conjE, goal_cases)
    case 1
    then show ?thesis using q sp by simp
  next
    case (2 ix s0)
    then show ?thesis
      using q sp alloc_select_ready [OF inv 2(1)] by (auto simp: ready_def)
  qed
qed

text \<open>The source page: what the copy writes is what the old address space shows.\<close>

lemma copy_present:
  assumes inv: "vm_inv T s" and p: "pte_at s old i j = Some p" "exists p" "present p" and ij: "i < 1024" "j < 1024"
    and N: "spaces s new = Some N" "page_table N i \<noteq> None" "pte_of (spaces s) new (i * 1024 + j) = None"
    and pm: "0 \<le> permissions p" "permissions p \<le> 7" and run: "as_copy_entry io s old new i j = Some s'"
  shows "vm_inv T s' \<and> (\<forall>b m. page_content s' b m =
      (if b = new \<and> m = i * 1024 + j then page_content s old (i * 1024 + j) else page_content s b m)) \<and>
    spaces_rel s s' \<and> num_cm_kernel s' = num_cm_kernel s \<and> num_cm_entries s' = num_cm_entries s \<and> pt_held s' = pt_held s"
proof -
  let ?n = "i * 1024 + j"
  have q: "pte_of (spaces s) old ?n = Some p" using pte_at_of [OF p(1) ij] p(2) by simp
  obtain k s1 where k: "swapfile_reserve_index s = Some (k, s1)"
    using run p by (auto simp: as_copy_entry_def pte_defs Option.bind_eq_Some_conv)
  note r = swapfile_reserve_index_eq [OF k]
  have bi: "bitmap_inv (disk_map s)" using vm_inv_shape [OF inv] by (simp add: inv_shape_def)
  define d where "d = disk_map s1"
  have s1: "s1 = s\<lparr>disk_map := d\<rparr>" using r(1) [OF bi] by (simp only: d_def)
  let ?i = "frame_of s p" and ?pg = "pmem s (frame_of s p)"
  have idx: "cm_get_index t (loc_to_paddr (pte_get_location p)) = ?i" if "base t = base s" for t
    using resident_location(1) [OF inv q p(3)] that by (simp add: cm_get_index_def PADDR_TO_COREMAP_def)
  let ?s2 = "put_as (s1\<lparr>swapfile := (swapfile s)(k := ?pg)\<rparr>) new (snd (pt_update N (PT_TO_VADDR i j) (int k) (permissions p) False))"
  have "io True k = None"
    using run p k by (auto simp: as_copy_entry_def pte_defs Let_def write_page_def split: option.splits)
  moreover have "pte_at t old i j = Some p" if "spaces t = spaces s" for t
    using p(1) that by (simp add: pte_at_def)
  ultimately have s': "s' = cme_set_busy ?s2 ?i False"
    using run p k N(1) idx
    by (auto simp: as_copy_entry_def pte_defs Let_def write_page_def s1 put_as_def cme_defs)
  have "vm_inv T ?s2 \<and> (\<forall>b m. page_content ?s2 b m =
      (if b = new \<and> m = ?n then Some (permissions p, ?pg) else page_content s b m)) \<and> spaces_rel s ?s2 \<and>
    num_cm_kernel ?s2 = num_cm_kernel s \<and> num_cm_entries ?s2 = num_cm_entries s"
    by (rule reserve_write [OF inv k N ij pm])
  moreover have "vm_keeps T ?s2 s'"
    unfolding s' using calculation page_ok_frame(2) [OF vm_inv_page [OF inv q] p(3)]
    by (intro set_busy_keeps) auto
  moreover have "page_content s old ?n = Some (permissions p, ?pg)" using q p(3) by (simp add: page_content_def)
  moreover have "num_cm_kernel s' = num_cm_kernel ?s2" "spaces s' = spaces ?s2" "pt_held s' = pt_held s"
    by (simp_all add: s' cme_defs put_as_def s1)
  moreover have "spaces_rel s s'"
    using calculation by (simp add: spaces_rel_def)
  ultimately show ?thesis by (simp add: vm_keeps_def)
qed

lemma copy_absent:
  assumes inv: "vm_inv T s" and p: "pte_at s old i j = Some p" "exists p" "\<not> present p" and ij: "i < 1024" "j < 1024"
    and N: "spaces s new = Some N" "page_table N i \<noteq> None" "pte_of (spaces s) new (i * 1024 + j) = None"
    and pm: "\<And>pm pg. page_content s old (i * 1024 + j) = Some (pm, pg) \<Longrightarrow> 0 \<le> pm \<and> pm \<le> 7"
    and run: "as_copy_entry io s old new i j = Some s'"
  shows "vm_inv T s' \<and> (\<forall>b m. page_content s' b m =
      (if b = new \<and> m = i * 1024 + j then page_content s old (i * 1024 + j) else page_content s b m)) \<and>
    spaces_rel s s' \<and> num_cm_kernel s' = num_cm_kernel s \<and> num_cm_entries s' = num_cm_entries s \<and> pt_held s' = pt_held s"
proof -
  let ?n = "i * 1024 + j"
  have q: "pte_of (spaces s) old ?n = Some p" using pte_at_of [OF p(1) ij] p(2) by simp
  obtain k s1 kva s2 p2 where k: "swapfile_reserve_index s = Some (k, s1)" and al: "alloc_kpages io s1 1 = Some (Some kva, s2)"
      and p2: "pte_at s2 old i j = Some p2"
    using run p by (auto simp: as_copy_entry_def pte_defs Option.bind_eq_Some_conv)
  have bi: "bitmap_inv (disk_map s)" using vm_inv_shape [OF inv] by (simp add: inv_shape_def)
  define d where "d = disk_map s1"
  have s1: "s1 = with_map d s" using swapfile_reserve_index_eq(1) [OF k bi] by (simp only: d_def)
  define t where "t = with_map (disk_map s) s2"
  have alt: "alloc_kpages io s 1 = Some (Some kva, t)"
    using alloc_kpages_map [OF al, of "disk_map s"] by (simp add: s1 t_def)
  note keep = alloc_kpages_keeps [OF inv alt, unfolded vm_keeps_def]
  note kern = alloc_kpages_kernel [OF inv alt]
  have "disk_map s2 = d"
    using alloc_kpages_map [OF alt, of d] al by (auto simp: s1)
  then have s2: "s2 = with_map d t" by (simp add: t_def)
  have sp2: "spaces s2 = spaces t" by (simp add: t_def)
  have "pte_of (spaces t) old ?n \<noteq> None"
    using q keep page_content_None [of s old ?n] page_content_None [of t old ?n] by (metis option.distinct(1))
  moreover have at: "pte_at u old i j = Some p2" if "spaces u = spaces t" for u
    using p2 sp2 that by (simp add: pte_at_def)
  ultimately have q2: "pte_of (spaces t) old ?n = Some p2"
    using pte_at_of [OF p2 ij] sp2 by (simp split: if_splits)
  have abs2: "\<not> present p2"
    using alloc_kpages_present [OF inv alt q2] q p(3) by auto
  let ?pg = "swapfile t (nat (page_paddr_base p2))"
  have cont: "page_content s old ?n = Some (permissions p2, ?pg)"
    using keep q2 abs2 by (metis (mono_tags, lifting) page_content_def option.case(2))
  then have pm2: "0 \<le> permissions p2" "permissions p2 \<le> 7" using pm by blast+
  have kp: "kernel_page t kva" using kern(3) by simp
  then obtain ix where ix: "ix < num_cm_entries t" "kva = COREMAP_TO_PADDR t ix + 0x80000000"
      "cme_state (coremap t ! ix) = CME_FIXED"
    by (auto simp: kernel_page_def)
  let ?f = "\<lambda>s. s\<lparr>coremap := (coremap s)[ix := freed_entry], num_cm_kernel := num_cm_kernel s - 1,
    num_cm_free := num_cm_free s + 1, pmem := (pmem s)(ix := zero_page)\<rparr>"
  have ft: "free_kpages t kva = Some (?f t)"
    using free_kpages_eq [OF _ ix(1,3)] keep ix(2) by blast
  have inv2: "vm_inv T (?f t)" "\<forall>b m. page_content (?f t) b m = page_content t b m"
    using free_kpages_keeps [OF _ kp] keep ft by fastforce+
  have fu: "free_kpages (t\<lparr>disk_map := d, swapfile := w\<rparr>) kva = Some ((?f t)\<lparr>disk_map := d, swapfile := w\<rparr>)" for w
  proof -
    have "fixed_entry (coremap t ! ix)" "ix < length (coremap t)"
      using vm_inv_fixed [of T, OF _ ix(1,3)] keep by blast+
    then show ?thesis
      using free_kpages_fixed [of ix "t\<lparr>disk_map := d, swapfile := w\<rparr>"] ix(1,2)
      by (simp add: COREMAP_TO_PADDR_def)
  qed
  obtain M where M: "spaces t new = Some M" "space_rel N M"
    using spaces_relD(1) [of s t new N] keep N(1) by blast
  have res: "swapfile_reserve_index (?f t) = Some (k, with_map d (?f t))"
  proof -
    have "bitmap_alloc (disk_map s) = Some (Inr (k, d))"
      using k by (auto simp: swapfile_reserve_index_def d_def split: option.splits sum.splits)
    then show ?thesis using keep by (simp add: swapfile_reserve_index_def)
  qed
  let ?s3 = "put_as ((with_map d (?f t))\<lparr>swapfile := (swapfile (?f t))(k := ?pg)\<rparr>) new
    (snd (pt_update M (PT_TO_VADDR i j) (int k) (permissions p2) False))"
  have io: "io True k = None" "io False (nat (page_paddr_base p2)) = None"
    using run p k al at by (auto simp: as_copy_entry_def pte_defs Let_def write_page_def read_page_def s2
        split: option.splits)
  have s': "s' = ?s3"
    using run p k al at io M(1) fu
    by (auto simp: as_copy_entry_def pte_defs Let_def write_page_def read_page_def s2 put_as_def)
  have "pte_of (spaces t) new ?n = None"
    using N(3) keep page_content_None [of s new ?n] page_content_None [of t new ?n] by simp
  then have "vm_inv T ?s3 \<and> (\<forall>b m. page_content ?s3 b m =
      (if b = new \<and> m = ?n then Some (permissions p2, ?pg) else page_content (?f t) b m)) \<and> spaces_rel (?f t) ?s3 \<and>
    num_cm_kernel ?s3 = num_cm_kernel (?f t) \<and> num_cm_entries ?s3 = num_cm_entries (?f t)"
    by (intro reserve_write [OF inv2(1) res]) (use M N(2) ij pm2 in \<open>auto simp: space_rel_def\<close>)
  moreover have "spaces_rel s ?s3"
    by (rule spaces_rel_trans [of s t]) (use keep calculation in \<open>auto simp: spaces_rel_def\<close>)
  moreover have "pt_held ?s3 = pt_held s" using keep by (simp add: put_as_def)
  ultimately show ?thesis
    unfolding s' using inv2(2) keep cont kern(2) by simp
qed

section \<open>The copy loops\<close>

lemma space_rel_table: "space_rel A B \<Longrightarrow> page_table A i = None \<longleftrightarrow> page_table B i = None"
  by (simp add: space_rel_def)

definition user_perms :: "vm \<Rightarrow> nat \<Rightarrow> bool" where
  "user_perms s a \<longleftrightarrow> (\<forall>n pm pg. page_content s a n = Some (pm, pg) \<longrightarrow> 0 \<le> pm \<and> pm \<le> 7)"

lemma as_copy_entry_step:
  assumes C: "copying T old new s0 D s" and ne: "old \<noteq> new" and n: "i * 1024 + j \<notin> D" and ij: "i < 1024" "j < 1024"
    and N: "spaces s new = Some N" "page_table N i \<noteq> None" and pm: "user_perms s0 old"
    and run: "as_copy_entry io s old new i j = Some s'"
  shows "copying T old new s0 (insert (i * 1024 + j) D) s' \<and> (\<exists>N'. spaces s' new = Some N' \<and> space_rel N N') \<and>
    num_cm_kernel s' = num_cm_kernel s \<and> num_cm_entries s' = num_cm_entries s"
proof -
  let ?n = "i * 1024 + j"
  have inv: "vm_inv T s" and cont: "page_content s b m =
      (if b = new then (if m \<in> D then page_content s0 old m else None) else page_content s0 b m)" for b m
    using C by (auto simp: copying_def)
  have new: "pte_of (spaces s) new ?n = None" using cont [of new ?n] n page_content_None by simp
  have oldc: "page_content s0 old ?n = page_content s old ?n" using cont [of old] ne by simp
  obtain p where p: "pte_at s old i j = Some p" using run by (auto simp: as_copy_entry_def Option.bind_eq_Some_conv)
  show ?thesis
  proof (cases "exists p")
    case ex: True
    have q: "pte_of (spaces s) old ?n = Some p" using pte_at_of [OF p ij] ex by simp
    have pmc: "0 \<le> pm \<and> pm \<le> 7" if "page_content s old ?n = Some (pm, pg)" for pm pg
      using pm that oldc unfolding user_perms_def by metis
    have pmp: "0 \<le> permissions p" "permissions p \<le> 7"
      using pmc [of "permissions p"] q by (auto simp: page_content_def)
    have res: "vm_inv T s' \<and> (\<forall>b m. page_content s' b m =
        (if b = new \<and> m = ?n then page_content s old ?n else page_content s b m)) \<and>
      spaces_rel s s' \<and> num_cm_kernel s' = num_cm_kernel s \<and> num_cm_entries s' = num_cm_entries s \<and> pt_held s' = pt_held s"
    proof (cases "present p")
      case True
      show ?thesis by (rule copy_present [OF inv p ex True ij N new pmp run])
    next
      case False
      show ?thesis by (rule copy_absent [OF inv p ex False ij N new pmc run])
    qed
    obtain A0 A where A: "spaces s0 old = Some A0" "spaces s old = Some A" "space_rel A0 A"
      using C by (auto simp: copying_def)
    obtain A' where "spaces s' old = Some A'" "space_rel A A'" using spaces_relD(1) [OF _ A(2)] res by blast
    then have "\<exists>A0 A. spaces s0 old = Some A0 \<and> spaces s' old = Some A \<and> space_rel A0 A"
      using A space_rel_trans by blast
    moreover have "page_content s' b m =
        (if b = new then (if m \<in> insert ?n D then page_content s0 old m else None) else page_content s0 b m)" for b m
      using res cont oldc ne by auto
    ultimately have "copying T old new s0 (insert ?n D) s'"
      using res C unfolding copying_def by simp
    then show ?thesis using res spaces_relD(1) [OF _ N(1), of s'] by blast
  next
    case False
    then have s': "s' = s" using run p by (simp add: as_copy_entry_def pte_defs)
    have "page_content s old ?n = None" using pte_at_of [OF p ij] False page_content_None by simp
    then have "copying T old new s0 (insert ?n D) s"
      using C oldc n by (auto simp: copying_def)
    then show ?thesis using N s' by simp
  qed
qed

lemma as_copy_row_steps:
  assumes "copying T old new s0 D s" "old \<noteq> new" "D \<inter> (\<lambda>j. i * 1024 + j) ` set js = {}" "i < 1024" "set js \<subseteq> {..<1024}"
    and "distinct js" "spaces s new = Some N" "page_table N i \<noteq> None" "user_perms s0 old"
    and "as_copy_row io s old new i js = Some s'"
  shows "copying T old new s0 (D \<union> (\<lambda>j. i * 1024 + j) ` set js) s' \<and> (\<exists>N'. spaces s' new = Some N' \<and> space_rel N N') \<and>
    num_cm_kernel s' = num_cm_kernel s \<and> num_cm_entries s' = num_cm_entries s"
  using assms
proof (induction js arbitrary: s D N)
  case (Cons j js)
  obtain s1 where s1: "as_copy_entry io s old new i j = Some s1" "as_copy_row io s1 old new i js = Some s'"
    using Cons.prems(10) by (auto simp: Option.bind_eq_Some_conv)
  have n: "i * 1024 + j \<notin> D" "j < 1024" using Cons.prems(3,5) by auto
  obtain N1 where st: "copying T old new s0 (insert (i * 1024 + j) D) s1" "spaces s1 new = Some N1" "space_rel N N1"
      "num_cm_kernel s1 = num_cm_kernel s" "num_cm_entries s1 = num_cm_entries s"
    using as_copy_entry_step [OF Cons.prems(1,2) n(1) Cons.prems(4) n(2) Cons.prems(7-9) s1(1)] by blast
  have row: "page_table N1 i \<noteq> None" using space_rel_table [OF st(3)] Cons.prems(8) by metis
  have "copying T old new s0 (insert (i * 1024 + j) D \<union> (\<lambda>j. i * 1024 + j) ` set js) s' \<and>
      (\<exists>N'. spaces s' new = Some N' \<and> space_rel N1 N') \<and>
    num_cm_kernel s' = num_cm_kernel s1 \<and> num_cm_entries s' = num_cm_entries s1"
    by (rule Cons.IH [OF st(1) Cons.prems(2) _ Cons.prems(4) _ _ st(2) row Cons.prems(9) s1(2)])
      (use Cons.prems in auto)
  then show ?case using st space_rel_trans by auto
qed auto

lemma copying_cover:
  assumes "copying T old new s0 D s" "\<And>m. m \<in> E \<Longrightarrow> page_content s0 old m = None" "old \<noteq> new"
  shows "copying T old new s0 (D \<union> E) s"
  using assms unfolding copying_def by auto

definition same_layout :: "addrspace \<Rightarrow> addrspace \<Rightarrow> bool" where
  "same_layout A B \<longleftrightarrow> heap_start B = heap_start A \<and> heap_end B = heap_end A \<and> regions B = regions A \<and>
     is_loading B = is_loading A"

lemma as_copy_rows_steps:
  assumes "copying T old new s0 D s" "old \<noteq> new" "spaces s0 old = Some A0" "D \<inter> {n. n div 1024 \<in> set is} = {}"
    and "set is \<subseteq> {..<1024}" "distinct is" "spaces s new = Some N" "\<forall>i \<in> set is. page_table N i = None"
    and "user_perms s0 old" "\<And>i j. \<not> exists (junk i j)"
    and "num_cm_kernel s + int (length (filter (\<lambda>i. page_table A0 i \<noteq> None) is)) < int (num_cm_entries s) - MIN_USER_CM_PAGES"
    and "as_copy_rows io junk s old new is = Some s'"
  shows "copying T old new s0 (D \<union> {n. n div 1024 \<in> set is}) s' \<and> (\<exists>N'. spaces s' new = Some N' \<and> same_layout N N')"
  using assms
proof (induction "is" arbitrary: s D N)
  case Nil
  then show ?case by (simp add: same_layout_def)
next
  case (Cons i "is")
  obtain A where A: "spaces s old = Some A" "space_rel A0 A"
    using Cons.prems(1,3) by (auto simp: copying_def)
  have i: "i < 1024" "i \<notin> set is" using Cons.prems(5,6) by auto
  have cup: "D \<union> {n. n div 1024 = i} \<union> {n. n div 1024 \<in> set is} = D \<union> {n. n div 1024 \<in> set (i # is)}" by auto
  show ?case
  proof (cases "page_table A i")
    case None
    then have "page_table A0 i = None" using A(2) by (simp add: space_rel_def)
    then have "page_content s0 old m = None" if "m div 1024 = i" for m
      using that Cons.prems(3) page_content_None [of s0 old m] by (auto simp: pte_of_def get_pt_entry_def primary_vpn)
    then have "copying T old new s0 (D \<union> {n. n div 1024 = i}) s"
      by (intro copying_cover [OF Cons.prems(1)]) (use Cons.prems(2) in auto)
    then have "copying T old new s0 (D \<union> {n. n div 1024 = i} \<union> {n. n div 1024 \<in> set is}) s' \<and>
        (\<exists>N'. spaces s' new = Some N' \<and> same_layout N N')"
      by (rule Cons.IH) (use Cons.prems i None A \<open>page_table A0 i = None\<close> in auto)
    then show ?thesis unfolding cup .
  next
    case (Some orow)
    then have row0: "page_table A0 i \<noteq> None" using space_rel_table [OF A(2), of i] by simp
    have inv: "vm_inv T s" using Cons.prems(1) by (simp add: copying_def)
    obtain kva s1 N1 s2 where al: "alloc_kpages io s 1 = Some (kva, s1)" and N1: "spaces s1 new = Some N1"
      and row: "as_copy_row io (put_as s1 new (case kva of None \<Rightarrow> N1\<lparr>page_table := (page_table N1)(i := None)\<rparr>
          | Some kva \<Rightarrow> N1\<lparr>page_table := (page_table N1)(i := Some (junk i)), pt_kva := (pt_kva N1)(i := kva)\<rparr>)) old new i [0..<1024] = Some s2"
      and rest: "as_copy_rows io junk s2 old new is = Some s'"
      using Cons.prems(12) A(1) Some by (auto simp: Option.bind_eq_Some_conv)
    note keep = alloc_kpages_keeps [OF inv al, unfolded vm_keeps_def] and kern = alloc_kpages_kernel [OF inv al]
    have "\<not> reached_kpage_limit s"
      using Cons.prems(11) row0 by (simp add: reached_kpage_limit_def)
    then obtain v where v: "kva = Some v" using kern(1) by auto
    let ?N = "N1\<lparr>page_table := (page_table N1)(i := Some (junk i)), pt_kva := (pt_kva N1)(i := v)\<rparr>"
    let ?s1 = "put_as s1 new ?N"
    have rel: "space_rel N N1" using spaces_relD(1) [of s s1 new N] keep Cons.prems(7) N1 by auto
    have none: "page_table N1 k = None" if "k \<in> set (i # is)" for k
      using Cons.prems(8) that space_rel_table [OF rel, of k] by metis
    have "pte_of (spaces ?s1) b m = pte_of (spaces s1) b m" for b m
      using pte_of_new_row [of "spaces s1" new N1 i "junk i" _ b m] N1 none Cons.prems(10) by (simp add: put_as_def)
    note view = vm_view_pte [OF this, where s = s1]
    have inv1: "vm_inv T ?s1" "page_content ?s1 = page_content s1"
      using view keep by (simp_all add: put_as_def)
    obtain A1 where "spaces s1 old = Some A1" "space_rel A A1"
      using spaces_relD(1) [of s s1 old A] keep A(1) by auto
    then have cop1: "copying T old new s0 D ?s1"
      using inv1 keep Cons.prems(1,2) A Cons.prems(3) unfolding copying_def
      by (auto simp: put_as_def intro: space_rel_trans)
    let ?R = "(\<lambda>j. i * 1024 + j) ` set [0..<1024]"
    have R: "?R = {n. n div 1024 = i}"
    proof (intro set_eqI iffI)
      fix n assume "n \<in> {n. n div 1024 = i}"
      then have "n = i * 1024 + n mod 1024" by auto
      then show "n \<in> ?R" by (intro image_eqI [of _ _ "n mod 1024"]) auto
    qed auto
    have "D \<inter> ?R = {}" unfolding R using Cons.prems(4) by auto
    then have "copying T old new s0 (D \<union> ?R) s2 \<and> (\<exists>N'. spaces s2 new = Some N' \<and> space_rel ?N N') \<and>
        num_cm_kernel s2 = num_cm_kernel ?s1 \<and> num_cm_entries s2 = num_cm_entries ?s1"
      by (intro as_copy_row_steps [OF cop1 Cons.prems(2) _ i(1) _ _ _ _ Cons.prems(9)])
        (use row v in \<open>auto simp: put_as_def atLeast0LessThan\<close>)
    then obtain N2 where st: "copying T old new s0 (D \<union> {n. n div 1024 = i}) s2" "spaces s2 new = Some N2" "space_rel ?N N2"
        "num_cm_kernel s2 = num_cm_kernel ?s1" "num_cm_entries s2 = num_cm_entries ?s1"
      unfolding R by blast
    have "num_cm_kernel s2 + int (length (filter (\<lambda>i. page_table A0 i \<noteq> None) is)) < int (num_cm_entries s2) - MIN_USER_CM_PAGES"
      using Cons.prems(11) row0 st(4,5) kern(2) v keep by (simp add: put_as_def)
    moreover have "\<forall>k \<in> set is. page_table N2 k = None"
    proof
      fix k assume k: "k \<in> set is"
      then have "page_table ?N k = None" using none i(2) by auto
      then show "page_table N2 k = None" using space_rel_table [OF st(3), of k] by simp
    qed
    ultimately have "copying T old new s0 (D \<union> {n. n div 1024 = i} \<union> {n. n div 1024 \<in> set is}) s' \<and>
        (\<exists>N'. spaces s' new = Some N' \<and> same_layout N2 N')"
      by (intro Cons.IH [OF st(1) Cons.prems(2,3) _ _ _ st(2) _ Cons.prems(9,10) _ rest])
        (use Cons.prems(4-6) i(2) in auto)
    moreover have "same_layout N N2"
      using rel st(3) by (simp add: same_layout_def space_rel_def)
    ultimately show ?thesis unfolding cup by (auto simp: same_layout_def)
  qed
qed

section \<open>The copy\<close>

lemma as_copy_regions_ok:
  "as_copy_regions ok n new rs = Some (Inr out) \<Longrightarrow> out = new @ rs"
  by (induction ok n new rs rule: as_copy_regions.induct) (auto split: if_splits)

text \<open>Room for the second-level tables of the copy below the limit on kernel pages.\<close>

definition table_room :: "vm \<Rightarrow> addrspace \<Rightarrow> bool" where
  "table_room s A \<longleftrightarrow> num_cm_kernel s + int (length (filter (\<lambda>i. page_table A i \<noteq> None) [0..<1024]))
     < int (num_cm_entries s) - MIN_USER_CM_PAGES"

lemma as_copy_ok:
  assumes inv: "vm_inv T s" and A: "spaces s old = Some A" and free: "spaces s new = None"
    and fresh: "as_create True True (Some kva) True = Some N" and pins: "unpinned s old"
    and perms: "user_perms s old" and junk: "\<And>i j. \<not> exists (junk i j)" and room: "table_room s A"
    and run: "as_copy io junk ok s old (Some (new, N)) = Some (Inr r, s')"
  shows "r = new \<and> vm_inv T s' \<and> pt_held s' = pt_held s \<and>
    (\<forall>b m. page_content s' b m = page_content s (if b = new then old else b) m) \<and>
    (\<exists>N'. spaces s' new = Some N' \<and> heap_start N' = heap_start A \<and> heap_end N' = heap_end A \<and> regions N' = regions A)"
proof -
  have ne: "old \<noteq> new" using A free by auto
  have N: "page_table N = (\<lambda>i. None)" "regions N = []" using fresh by (auto simp: as_create_def pt_create_def)
  let ?N = "N\<lparr>heap_start := heap_start A, heap_end := heap_end A, regions := regions A\<rparr>"
  let ?s1 = "put_as s new ?N"
  obtain rs where rs: "as_copy_regions ok (length (regions A)) [] (regions A) = Some rs"
    using run A by (auto simp: as_copy_def Option.bind_eq_Some_conv N(2))
  then obtain out where out: "rs = Inr out"
    using run A by (cases rs) (auto simp: as_copy_def N(2))
  then have "out = regions A" using as_copy_regions_ok rs by fastforce
  then obtain s2 s3 s4 where s2: "pin_all_pages ?s1 old = Some s2" and s3: "pt_lock_acquire s2 old = Some s3"
    and s4: "as_copy_rows io junk s3 old new [0..<1024] = Some s4" and s': "pt_lock_release s4 old = Some s'" and r: "r = new"
    using run A rs out by (auto simp: as_copy_def Option.bind_eq_Some_conv Let_def N(2))
  have none: "pte_of (spaces s) new m = None" for m using free by (simp add: pte_of_def)
  have "pte_of (spaces ?s1) b m = pte_of (spaces s) b m" for b m
    using free by (simp add: put_as_def pte_of_def get_pt_entry_def N(1))
  note view = vm_view_pte [OF this, where s = s]
  have inv1: "vm_inv T ?s1" "page_content ?s1 = page_content s"
    using view inv by (simp_all add: put_as_def)
  have "unpinned ?s1 old" using pins by (simp add: unpinned_def put_as_def)
  then have "vm_keeps T ?s1 s2 \<and> spaces s2 = spaces ?s1 \<and> num_cm_kernel s2 = num_cm_kernel ?s1"
    using pin_all_pages_ok [OF inv1(1), of old] s2 by auto
  then have k: "vm_keeps T ?s1 s2" "spaces s2 = spaces ?s1" "num_cm_kernel s2 = num_cm_kernel s"
    by (simp_all add: put_as_def)
  have s3': "s3 = s2\<lparr>pt_held := insert old (pt_held s)\<rparr>" "old \<notin> pt_held s"
    using s3 k(1) by (auto simp: pt_lock_acquire_def vm_keeps_def put_as_def split: if_splits)
  have cont3: "page_content s3 b m = page_content s b m" for b m
    using k(1) inv1(2) by (simp add: s3' vm_keeps_def)
  have newc: "page_content s new m = None" for m using none page_content_None by blast
  have "vm_inv T s3" "spaces s3 old = Some A"
    using k(1,2) A ne by (simp_all add: s3' vm_keeps_def put_as_def)
  then have "copying T old new s3 {} s3"
    using newc by (auto simp: copying_def cont3)
  moreover have "num_cm_kernel s3 + int (length (filter (\<lambda>i. page_table A i \<noteq> None) [0..<1024]))
      < int (num_cm_entries s3) - MIN_USER_CM_PAGES"
    using room k by (simp add: table_room_def s3' vm_keeps_def put_as_def)
  moreover have "user_perms s3 old" using perms by (simp add: user_perms_def cont3)
  ultimately have "copying T old new s3 ({} \<union> {n. n div 1024 \<in> set [0..<1024]}) s4 \<and>
      (\<exists>N'. spaces s4 new = Some N' \<and> same_layout ?N N')"
    using k(2) A ne junk s4 N(1)
    by (intro as_copy_rows_steps [where ?A0.0 = A]) (auto simp: s3' put_as_def atLeast0LessThan)
  then obtain N' where c4: "copying T old new s3 {n. n div 1024 < 1024} s4" and N': "spaces s4 new = Some N'" "same_layout ?N N'"
    by auto
  have s'': "s' = s4\<lparr>pt_held := pt_held s\<rparr>"
    using s' s3' c4 by (auto simp: pt_lock_release_def copying_def)
  have big: "page_content s old m = None" if "\<not> m div 1024 < 1024" for m
  proof -
    have "\<not> m < 1048576" using that by auto
    then show ?thesis unfolding page_content_None by (simp add: pte_of_def)
  qed
  have "page_content s4 b m = page_content s (if b = new then old else b) m" for b m
    using c4 big [of m] by (auto simp: copying_def cont3)
  then show ?thesis
    using c4 N' r by (auto simp: s'' copying_def same_layout_def)
qed

end
