(* ===== verification/Progress.thy ===== *)
theory Progress
  imports Vm
begin

text \<open>
  Faults are served: with two frames that can be taken, a free swap slot and a working swap device
  the fault handler returns and does not stop the machine.
\<close>

lemma alloc_one_page_evictable:
  assumes inv: "vm_inv T s" and run: "alloc_one_page io s as va = Some (pa, s')" "pa \<noteq> 0"
    and j: "j < num_cm_entries s" "pa \<noteq> COREMAP_TO_PADDR s j" "evictable s j"
  shows "evictable s' j"
proof -
  obtain ix s1 where s1: "alloc_select io s as = Some (ix, s1)" "pa = COREMAP_TO_PADDR s ix"
      "coremap s' = (coremap s1)[ix := fresh_entry as va]"
    using alloc_one_page_eq [OF run(1) inv] run(2) by auto
  then have "j \<noteq> ix" using j(2) by auto
  then show ?thesis
    using alloc_select_ready [OF inv s1(1)] j s1(3) by (simp add: ready_def evictable_def)
qed

lemma alloc_kpages_succeeds:
  assumes "vm_inv T s" "i < num_cm_entries s" "evictable s i" "\<And>k. io True k = None"
  shows "\<exists>r s'. alloc_kpages io s 1 = Some (r, s')"
proof -
  obtain pa s' where "alloc_one_page io s None 0 = Some (pa, s')"
    using alloc_one_page_succeeds [of T s i None io 0] assms by (auto simp: alloc_locks_ok_def)
  then show ?thesis by (simp add: alloc_kpages_def)
qed

lemma pt_insert_succeeds:
  assumes inv: "vm_inv T s" and ev: "i < num_cm_entries s" "evictable s i" and io: "\<And>k. io True k = None"
    and A: "spaces s a = Some A" and new: "pte_of (spaces s) a (vpn va) = None"
    and ppn: "0 \<le> ppn" "ppn < 524288" and perm: "0 \<le> perm" "perm \<le> 7"
  shows "\<exists>r s'. pt_insert io s a va ppn perm = Some (r, s')"
proof -
  let ?i = "PT_PRIMARY_INDEX va"
  note fr = frame_number_ok [OF ppn]
  show ?thesis
  proof (cases "page_table A ?i")
    case (Some row)
    have q: "get_pt_entry A va = Some (row (PT_SECONDARY_INDEX va))" using Some by (simp add: get_pt_entry_def)
    have "\<not> exists (row (PT_SECONDARY_INDEX va))"
      using pte_of_vpn [of "spaces s" a A va, OF A q] new by (simp split: if_splits)
    then show ?thesis
      using fr perm A Some q by (simp add: pt_insert_def pte_defs)
  next
    case None
    obtain r s1 where r: "alloc_kpages io s 1 = Some (r, s1)"
      using alloc_kpages_succeeds [OF inv ev, of io] io by blast
    note keep = alloc_kpages_keeps [OF inv r, unfolded vm_keeps_def]
    obtain B where B: "spaces s1 a = Some B"
      using spaces_relD(1) [of s s1 a A] keep A by blast
    show ?thesis
      using fr perm A None r B
      by (cases r) (simp_all add: pt_insert_def put_as_def get_pt_entry_def empty_pte_def pte_defs)
  qed
qed

lemma swapfile_reserve_succeeds:
  assumes "bitmap_inv (disk_map s)" "card (bitmap_used (disk_map s)) < nbits (disk_map s)"
  shows "\<exists>k s'. swapfile_reserve_index s = Some (k, s')"
proof -
  have "bitmap_alloc (disk_map s) \<noteq> None" "bitmap_alloc (disk_map s) \<noteq> Some (Inl ENOSPC)"
    using bm.alloc_total [OF assms(1)] bm.alloc_fails_iff [OF assms(1)] assms(2) by auto
  then obtain x where x: "bitmap_alloc (disk_map s) = Some x" "x \<noteq> Inl ENOSPC" by auto
  then obtain i b where "x = Inr (i, b)"
    using bm.alloc_ErrD(1) [OF assms(1)] by (cases x) auto
  then show ?thesis using x by (simp add: swapfile_reserve_index_def)
qed

lemma vm_fault_permissions_range:
  assumes "vm_fault_permissions A va = Some perm"
  shows "0 \<le> perm \<and> perm \<le> 7"
proof -
  have "region_permissions r \<le> 7" for r by simp
  then show ?thesis
    using assms by (auto simp: vm_fault_permissions_def as_get_permissions_def Let_def
        split: if_splits option.splits simp del: region_permissions.simps)
qed

lemma vm_fault_new_succeeds:
  assumes inv: "vm_inv T s" and ev: "i < num_cm_entries s" "evictable s i" "j < num_cm_entries s" "evictable s j" "i \<noteq> j"
    and io: "\<And>k. io True k = None" and A: "spaces s a = Some A" and held: "pt_held s = {a}"
    and new: "pte_of (spaces s) a (vpn va) = None" and va: "va \<noteq> 0" and perm: "0 \<le> perm" "perm \<le> 7"
    and room: "card (bitmap_used (disk_map s)) < nbits (disk_map s)"
  shows "\<exists>r s'. vm_fault_new io s a va perm = Some (r, s')"
proof -
  obtain pa s1 where pa: "alloc_one_page io s (Some a) va = Some (pa, s1)"
    using alloc_one_page_succeeds [OF inv ev(1,2), of "Some a" io va] io held va by (auto simp: alloc_locks_ok_def)
  note spec = alloc_one_page_spec [OF inv pa]
  have pa0: "pa \<noteq> 0" using spec by (auto split: if_splits)
  then obtain ix where ix: "ix < num_cm_entries s" "pa = COREMAP_TO_PADDR s ix" "ix \<notin> T" "vm_inv (insert ix T) s1"
      "coremap s1 ! ix = fresh_entry (Some a) va"
    using spec by auto
  have b1: "base s1 = base s" "num_cm_entries s1 = num_cm_entries s" "disk_map s1 = disk_map s" using spec by simp_all
  have valid: "PADDR_IS_VALID s1 pa" by (simp add: ix(2) PADDR_IS_VALID_def COREMAP_TO_PADDR_def b1)
  have idx: "cm_get_index s1 pa = ix" using ix(2) b1 by (simp add: cm_get_index_def)
  let ?s2 = "s1\<lparr>pmem := (pmem s1)(ix := zero_page)\<rparr>"
  have inv2: "vm_inv (insert ix T) ?s2" using set_pmem_transit [OF ix(4), of ix zero_page] by simp
  obtain l where l: "l < num_cm_entries s" "evictable s1 l"
  proof -
    have "\<exists>l < num_cm_entries s. evictable s l \<and> pa \<noteq> COREMAP_TO_PADDR s l"
      using ev ix(2) by (metis PADDR_COREMAP)
    then show thesis using that alloc_one_page_evictable [OF inv pa pa0] by blast
  qed
  obtain B where B: "spaces s1 a = Some B" using spaces_relD(1) [of s s1 a A] spec A by blast
  have "pte_of (spaces s1) a (vpn va) = None"
  proof -
    have "page_content s1 a (vpn va) = None" using spec new by (simp add: page_content_def)
    then show ?thesis by (simp add: page_content_def split: option.splits)
  qed
  moreover have pn: "pa div 4096 = base s + ix" by (simp add: ix(2) COREMAP_TO_PADDR_def)
  moreover have ppn: "0 \<le> int (pa div 4096)" "int (pa div 4096) < 524288"
    using vm_inv_shape [OF inv] ix(1) pn by (simp_all add: inv_shape_def)
  moreover have "evictable ?s2 l" "l < num_cm_entries ?s2" using l b1 by (simp_all add: evictable_def)
  ultimately obtain r s3 where ins: "pt_insert io ?s2 a va (int (pa div 4096)) perm = Some (r, s3)"
    using pt_insert_succeeds [OF inv2, of l io a B va "int (pa div 4096)" perm] io B perm by auto
  have run: "vm_fault_new io s a va perm = (case r of
      Some e \<Rightarrow> Some (Some e, s3)
    | None \<Rightarrow> do {
        (k, s) \<leftarrow> swapfile_reserve_index s3;
        let s = cme_set_offset s (cm_get_index s pa) (int k);
        Some (None, cme_set_busy s (cm_get_index s pa) False) })"
    using pa pa0 valid idx ins by (simp add: vm_fault_new_def)
  show ?thesis
  proof (cases r)
    case None
    then obtain t sp where t: "vm_keeps (insert ix T) ?s2 t" "s3 = t\<lparr>spaces := sp\<rparr>"
      using pt_insert_cases [OF inv2 ins ppn] by auto
    have "disk_map s3 = disk_map s" using t b1 by (simp add: vm_keeps_def)
    moreover have "bitmap_inv (disk_map s)" using vm_inv_shape [OF inv] by (simp add: inv_shape_def)
    ultimately obtain k s4 where "swapfile_reserve_index s3 = Some (k, s4)"
      using swapfile_reserve_succeeds [of s3] room by auto
    then show ?thesis using run None by (simp add: Let_def)
  qed (use run in simp)
qed

lemma vm_fault_swapin_succeeds:
  assumes inv: "vm_inv T s" and ev: "i < num_cm_entries s" "evictable s i" and io: "\<And>w k. io w k = None"
    and held: "pt_held s = {a}" and q: "pte_of (spaces s) a (vpn va) = Some q" "\<not> present q" and va: "va \<noteq> 0"
  shows "\<exists>r s'. vm_fault_swapin io s a va = Some (r, s')"
proof -
  obtain pa s1 where pa: "alloc_one_page io s (Some a) va = Some (pa, s1)"
    using alloc_one_page_succeeds [OF inv ev(1,2), of "Some a" io va] io held va by (auto simp: alloc_locks_ok_def)
  note spec = alloc_one_page_spec [OF inv pa]
  obtain ix s0 where ix: "alloc_select io s (Some a) = Some (ix, s0)" "pa = COREMAP_TO_PADDR s ix" "spaces s1 = spaces s0"
    using alloc_one_page_eq [OF pa inv] by auto
  note rd = alloc_select_ready [OF inv ix(1), unfolded ready_def]
  obtain B q' where B: "spaces s1 a = Some B" "pte_of (spaces s1) a (vpn va) = Some q'"
  proof -
    have "page_content s1 a (vpn va) \<noteq> None" using spec q by (simp add: page_content_def)
    then obtain q' where q': "pte_of (spaces s1) a (vpn va) = Some q'" by (auto simp: page_content_def split: option.splits)
    then show thesis using that pte_of_lookup(2) [OF q'] by blast
  qed
  obtain q'' where q'': "get_pt_entry B va = Some q''"
  proof -
    have "get_pt_entry B (vpn_addr (vpn va)) = get_pt_entry B va" by (rule get_pt_entry_cong) simp
    then show thesis using B that by (auto simp: pte_of_def split: option.splits if_splits)
  qed
  have "q'' = q'" and ex: "exists q'" using pte_of_vpn [of "spaces s1" a B va q''] B q'' by (auto split: if_splits)
  moreover have "\<not> present q'" using rd ix(3) B(2) q by auto
  moreover have "PADDR_IS_VALID s1 pa" using spec by (simp add: ix(2) PADDR_IS_VALID_def COREMAP_TO_PADDR_def)
  ultimately show ?thesis
    using pa B q'' io held spec by (simp add: vm_fault_swapin_def swapin_def pte_defs read_page_def Let_def)
qed

lemma vm_fault_serves:
  assumes inv: "vm_inv T s" and A: "spaces s a = Some A" and held: "pt_held s = {}"
    and perm: "vm_fault_permissions A (addr AND PAGE_FRAME) = Some perm"
    and ft: "ft = VM_FAULT_READ \<or> ft = VM_FAULT_WRITE" and addr: "0 < vpn addr" "vpn addr < 524288"
    and ev: "i < num_cm_entries s" "evictable s i" "j < num_cm_entries s" "evictable s j" "i \<noteq> j"
    and io: "\<And>w k. io w k = None" and room: "card (bitmap_used (disk_map s)) < nbits (disk_map s)"
  shows "\<exists>r s'. vm_fault io rnd s (Some a) ft addr = Some (r, s')"
proof -
  let ?va = "addr AND PAGE_FRAME" and ?s = "s\<lparr>pt_held := {a}\<rparr>"
  have inv': "vm_inv T ?s" using inv by simp
  have va0: "?va \<noteq> 0"
  proof
    assume "?va = 0"
    then have "vpn addr = 0" using vpn_page_frame [of addr] vpn_div [of ?va] by simp
    then show False using addr(1) by simp
  qed
  have lt: "?va < 0x80000000"
  proof -
    have "unat ?va div 4096 < 524288" using addr(2) vpn_page_frame [of addr] vpn_div [of ?va] by simp
    then have "unat ?va < 2147483648" by auto
    then show ?thesis by (simp add: word_less_nat_alt)
  qed
  have evs: "evictable ?s i" "evictable ?s j" using ev by (simp_all add: evictable_def)
  have new: "\<exists>r s'. vm_fault_new io ?s a ?va perm = Some (r, s')" if "pte_of (spaces s) a (vpn addr) = None"
    using vm_fault_new_succeeds [OF inv', of i j io a A ?va perm] ev evs io A that va0 room
      vm_fault_permissions_range [OF perm] by simp
  have "\<exists>r s2. (case get_pt_entry A ?va of
        None \<Rightarrow> vm_fault_new io ?s a ?va perm
      | Some p \<Rightarrow> if \<not> pte_get_exists p then vm_fault_new io ?s a ?va perm
          else if pte_get_present p then vm_fault_map rnd ?s ?va p
          else vm_fault_swapin io ?s a ?va) = Some (r, s2) \<and> pt_held s2 = {a}"
  proof (cases "pte_of (spaces s) a (vpn addr)")
    case None
    then obtain r s2 where r: "vm_fault_new io ?s a ?va perm = Some (r, s2)" using new by blast
    moreover have "\<not> exists p" if "get_pt_entry A ?va = Some p" for p
      using pte_of_vpn [of "spaces s" a A ?va p] A None that by (simp split: if_splits)
    moreover have "pt_held s2 = {a}" using vm_fault_new_spec [OF inv' r] addr(1) by simp
    ultimately show ?thesis by (auto simp: pte_defs split: option.split)
  next
    case (Some p)
    then have g: "get_pt_entry A ?va = Some p" "exists p"
    proof -
      have "get_pt_entry A (vpn_addr (vpn addr)) = get_pt_entry A ?va" by (rule get_pt_entry_cong) simp
      then show "get_pt_entry A ?va = Some p" "exists p"
        using Some A by (auto simp: pte_of_def split: option.splits if_splits)
    qed
    have p': "pte_of (spaces ?s) a (vpn addr) = Some p" using Some by simp
    show ?thesis
    proof (cases "present p")
      case True
      have v: "PADDR_IS_VALID ?s (loc_to_paddr (pte_get_location p))"
        using resident_location(2) [OF inv' p' True] by (simp add: PADDR_IS_VALID_def COREMAP_TO_PADDR_def)
      then show ?thesis using g True by (simp add: pte_defs vm_fault_map_def Let_def cme_defs)
    next
      case False
      obtain r s2 where r: "vm_fault_swapin io ?s a ?va = Some (r, s2)"
        using vm_fault_swapin_succeeds [OF inv', of i io a ?va p] ev evs io p' False va0 by auto
      then have "pt_held s2 = {a}" using vm_fault_swapin_spec [OF inv' r] addr(1) by simp
      then show ?thesis using g False r by (simp add: pte_defs)
    qed
  qed
  then show ?thesis
    using ft A perm held lt by (auto simp: vm_fault_def Let_def pt_lock_acquire_def pt_lock_release_def)
qed

end
