(* ===== verification/Memory.thy ===== *)
theory Memory
  imports Copying Progress
begin

text \<open>
  What the virtual memory system promises, stated on its operations and on runs of several of them,
  with a small machine on which each statement is exercised.
\<close>

section \<open>Runs\<close>

text \<open>One operation of the system on the memory, labelled with the address spaces whose pages it may
  change.  \<open>vm_step_store\<close> is a store instruction of a process to a page that is resident and
  marked dirty, which is when the TLB lets it through.\<close>

inductive vm_step :: "swap_io \<Rightarrow> vm \<Rightarrow> nat set \<Rightarrow> vm \<Rightarrow> bool" for io where
  vm_step_access: "vm_fault io rnd s (Some a) ft addr = Some (r, s') \<Longrightarrow> ft = VM_FAULT_READ \<or> ft = VM_FAULT_WRITE \<Longrightarrow>
    0 < vpn addr \<Longrightarrow> vm_step io s {a} s'"
| vm_step_readonly: "vm_fault io rnd s (Some a) VM_FAULT_READONLY addr = Some (r, s') \<Longrightarrow>
    pte_of (spaces s) a (vpn addr) = Some p \<Longrightarrow> present p \<Longrightarrow> vm_step io s {} s'"
| vm_step_store: "pte_of (spaces s) a n = Some p \<Longrightarrow> present p \<Longrightarrow>
    cme_state (coremap s ! frame_of s p) = CME_DIRTY \<Longrightarrow> vm_step io s {a} (s\<lparr>pmem := (pmem s)(frame_of s p := pg)\<rparr>)"
| vm_step_kalloc: "alloc_kpages io s n = Some (r, s') \<Longrightarrow> vm_step io s {} s'"
| vm_step_kfree: "free_kpages s kva = Some s' \<Longrightarrow> kernel_page s kva \<Longrightarrow> vm_step io s {} s'"
| vm_step_sbrk: "spaces s a = Some A \<Longrightarrow> vm_step io s {} (put_as s a (snd (sys_sbrk A amount)))"
| vm_step_destroy: "as_destroy s a = Some s' \<Longrightarrow> spaces s a = Some A \<Longrightarrow> unpinned s a \<Longrightarrow> a \<notin> pt_held s \<Longrightarrow>
    tables_owned s A \<Longrightarrow> vm_step io s {a} s'"
| vm_step_copy: "as_copy io junk ok s old (Some (new, N)) = Some (Inr r, s') \<Longrightarrow> spaces s old = Some A \<Longrightarrow>
    spaces s new = None \<Longrightarrow> as_create True True (Some kva) True = Some N \<Longrightarrow> unpinned s old \<Longrightarrow> user_perms s old \<Longrightarrow>
    (\<And>i j. \<not> exists (junk i j)) \<Longrightarrow> table_room s A \<Longrightarrow> vm_step io s {new} s'"
| vm_step_activate: "vm_step io s {} (as_activate s)"

inductive vm_run :: "swap_io \<Rightarrow> vm \<Rightarrow> nat set \<Rightarrow> vm \<Rightarrow> bool" for io where
  vm_run_refl: "vm_run io s {} s"
| vm_run_step: "vm_run io s D s' \<Longrightarrow> vm_step io s' E s'' \<Longrightarrow> vm_run io s (D \<union> E) s''"

lemma store_inv:
  fixes pg :: page
  assumes inv: "vm_inv T s" and p: "pte_of (spaces s) a n = Some p" "present p"
    and dirty: "cme_state (coremap s ! frame_of s p) = CME_DIRTY"
  defines "s' \<equiv> s\<lparr>pmem := (pmem s)(frame_of s p := pg)\<rparr>"
  shows "vm_inv T s' \<and> (\<forall>b m. page_content s' b m = (if b = a \<and> m = n then Some (permissions p, pg) else page_content s b m))"
proof -
  have frame: "frame_of (s\<lparr>pmem := w\<rparr>) q = frame_of s q" for w q by (simp add: frame_of_def)
  have other: "frame_of s q = frame_of s p \<longleftrightarrow> b = a \<and> m = n" if "pte_of (spaces s) b m = Some q" "present q" for b m q
    using page_ok_frame(5,6) [OF vm_inv_page [OF inv that(1)] that(2)] page_ok_frame(5,6) [OF vm_inv_page [OF inv p(1)] p(2)]
      that(1) p(1) by (metis option.inject)
  have "slot_of s' b m = slot_of s b m" for b m
    by (simp add: slot_of_def frame s'_def split: option.split)
  moreover have "page_ok s' T b m q" if q: "pte_of (spaces s) b m = Some q" for b m q
  proof (cases "present q")
    case True
    then show ?thesis
      using page_ok_frame [OF vm_inv_page [OF inv q] True] dirty
      unfolding page_ok_def by (auto simp: s'_def intro!: exI [of _ "frame_of s q"])
  next
    case False
    then show ?thesis using vm_inv_page [OF inv q] by (simp add: page_ok_def)
  qed
  moreover have "entry_ok s' T = entry_ok s T" "inv_shape s' = inv_shape s" "spaces s' = spaces s"
      "num_cm_entries s' = num_cm_entries s" "disk_map s' = disk_map s"
    by (auto simp: entry_ok_def inv_shape_def s'_def Let_def fun_eq_iff)
  ultimately have "vm_inv T s'" using inv unfolding vm_inv_def by auto
  moreover have "page_content s' b m = (if b = a \<and> m = n then Some (permissions p, pg) else page_content s b m)" for b m
    using other [of b m] p by (auto simp: page_content_def frame s'_def split: option.split)
  ultimately show ?thesis by blast
qed

lemma vm_step_safe:
  assumes "vm_step io s D s'" "vm_inv T s"
  shows "(\<exists>T'. vm_inv T' s') \<and> (\<forall>b n. b \<notin> D \<longrightarrow> page_content s' b n = page_content s b n)"
  using assms
proof (cases rule: vm_step.cases)
  case (vm_step_access rnd a ft addr r)
  obtain A where A: "spaces s a = Some A"
    using vm_step_access(2) by (auto simp: vm_fault_def Let_def Option.bind_eq_Some_conv split: if_splits)
  show ?thesis
  proof (cases "vm_fault_permissions A (addr AND PAGE_FRAME)")
    case None
    then have "s' = s" using vm_step_access(2) A by (auto simp: vm_fault_def Let_def split: if_splits)
    then show ?thesis using assms(2) by blast
  next
    case (Some perm)
    show ?thesis
      using vm_fault_access [OF assms(2) A Some vm_step_access(3,4,2)] vm_step_access(1)
      by (auto simp: page_demand_def split: if_splits)
  qed
next
  case (vm_step_readonly rnd a addr r p)
  obtain A where A: "spaces s a = Some A"
    using vm_step_readonly(2) by (auto simp: vm_fault_def Let_def Option.bind_eq_Some_conv split: if_splits)
  show ?thesis
    using vm_fault_write [OF assms(2) A vm_step_readonly(3,4,2)] by auto
next
  case (vm_step_store a n p pg)
  then show ?thesis using store_inv [OF assms(2) vm_step_store(3-5), of pg] by auto
next
  case (vm_step_kalloc n r)
  then show ?thesis using alloc_kpages_keeps [OF assms(2) vm_step_kalloc(2)] by (auto simp: vm_keeps_def)
next
  case (vm_step_kfree kva)
  then show ?thesis using free_kpages_keeps [OF assms(2) vm_step_kfree(3)] by fastforce
next
  case (vm_step_sbrk a A amount)
  have "page_table (snd (sys_sbrk A amount)) = page_table A" by (simp add: sys_sbrk_def)
  then have "pte_of ((spaces s)(a := Some (snd (sys_sbrk A amount)))) b m = pte_of (spaces s) b m" for b m
    using vm_step_sbrk(3) by (simp add: pte_of_def get_pt_entry_def)
  note view = vm_view_pte [OF this, where s = s]
  show ?thesis using view assms(2) vm_step_sbrk(2) by (auto simp: put_as_def)
next
  case (vm_step_destroy a A)
  then show ?thesis using as_destroy_ok [OF assms(2) vm_step_destroy(3-6)] by auto
next
  case (vm_step_copy junk ok old new N r A kva)
  then show ?thesis
    using as_copy_ok [OF assms(2) vm_step_copy(3-7) vm_step_copy(8) vm_step_copy(9) vm_step_copy(2)] by auto
next
  case vm_step_activate
  then show ?thesis
    using set_tlb_keeps [OF vm_keeps_refl [OF assms(2)]] by (auto simp: vm_keeps_def as_activate_def)
qed

lemma vm_run_safe:
  "vm_run io s D s' \<Longrightarrow> vm_inv T s \<Longrightarrow>
    (\<exists>T'. vm_inv T' s') \<and> (\<forall>b n. b \<notin> D \<longrightarrow> page_content s' b n = page_content s b n)"
proof (induction rule: vm_run.induct)
  case (vm_run_step s D s' E s'')
  then obtain T' where "vm_inv T' s'" by blast
  then show ?case using vm_step_safe [OF vm_run_step(2)] vm_run_step by auto
qed blast

section \<open>A small machine\<close>

text \<open>Sixteen frames, the first holding the page directory of address space 7.\<close>

definition demo_as :: addrspace where
  "demo_as = \<lparr>page_table = (\<lambda>i. None), pt_root = 0x80004000, pt_kva = (\<lambda>i. 0), heap_start = 0x500000,
     heap_end = 0x502000, regions = [\<lparr>region_base = 0x400000, region_sz = 0x4000, readable = True,
     writeable = True, executable = False\<rparr>], is_loading = False\<rparr>"

definition demo_vm :: vm where
  "demo_vm = \<lparr>coremap = (freed_entry\<lparr>cme_state := CME_FIXED\<rparr>) # replicate 15 freed_entry, base = 4, clock_hand = 0,
     num_cm_entries = 16, num_cm_free = 15, num_cm_kernel = 1, num_cm_user = 0,
     disk_map = \<lparr>nbits = 1200, bm_v = replicate 150 0\<rparr>,
     spaces = (\<lambda>a. if a = 7 then Some demo_as else None), pmem = (\<lambda>i. []), swapfile = (\<lambda>k. []),
     pt_held = {}, vm_tlb = replicate 64 (0x80000000, 0)\<rparr>"

definition io_ok :: swap_io where "io_ok w k = None"

lemma demo_map: "bitmap_inv \<lparr>nbits = 1200, bm_v = replicate 150 0\<rparr>" "bitmap_used \<lparr>nbits = 1200, bm_v = replicate 150 0\<rparr> = {}"
proof -
  have "bitmap_create True True 1200 = Some (Some \<lparr>nbits = 1200, bm_v = replicate 150 0\<rparr>)"
    by (simp add: bitmap_create_def DIVROUNDUP_def)
  then show "bitmap_inv \<lparr>nbits = 1200, bm_v = replicate 150 0\<rparr>" "bitmap_used \<lparr>nbits = 1200, bm_v = replicate 150 0\<rparr> = {}"
    using bitmap_create_ok [of 1200] by simp_all
qed

lemma demo_none: "pte_of (spaces demo_vm) a n = None"
  by (simp add: demo_vm_def pte_of_def demo_as_def get_pt_entry_def)

lemma demo_content: "page_content demo_vm a n = None"
  unfolding page_content_None by (rule demo_none)

lemma demo_entry: "i < 16 \<Longrightarrow> coremap demo_vm ! i = (if i = 0 then freed_entry\<lparr>cme_state := CME_FIXED\<rparr> else freed_entry)"
  by (simp add: demo_vm_def nth_Cons')

lemma demo_simps [simp]: "num_cm_entries demo_vm = 16" "spaces demo_vm 7 = Some demo_as" "pt_held demo_vm = {}"
  "spaces demo_vm 9 = None" "base demo_vm = 4" "num_cm_kernel demo_vm = 1"
  by (simp_all add: demo_vm_def)

lemma demo_inv: "vm_inv {} demo_vm"
proof (rule vm_inv_fresh)
  show "inv_shape demo_vm"
    using demo_map by (simp add: inv_shape_def demo_vm_def n_fixed_def freed_entry_def)
  show "bitmap_used (disk_map demo_vm) = {}" using demo_map by (simp add: demo_vm_def)
  show "cme_state (coremap demo_vm ! i) = CME_FREE \<or> fixed_entry (coremap demo_vm ! i)" if "i < num_cm_entries demo_vm" for i
    using that by (simp add: demo_entry freed_entry_def fixed_entry_def)
qed (rule demo_none)

lemma demo_evictable: "evictable demo_vm 1" "evictable demo_vm 2"
  by (simp_all add: evictable_def demo_entry freed_entry_def)

lemma demo_vpn: "vpn 0x401234 = 0x401"
  by (simp add: vpn_def drop_bit_eq_div)

lemma demo_frame: "(0x401234 :: vaddr) AND PAGE_FRAME = 0x401000"
  by (simp add: PAGE_FRAME_def)

lemma demo_perm: "vm_fault_permissions demo_as (0x401234 AND PAGE_FRAME) = Some 3"
  unfolding demo_frame by (simp add: vm_fault_permissions_def demo_as_def as_get_permissions_def USERSTACK_def STACK_PAGES_def)

lemma demo_fault: "\<exists>r s'. vm_fault io_ok 0 demo_vm (Some 7) VM_FAULT_READ 0x401234 = Some (r, s')"
  by (rule vm_fault_serves [OF demo_inv _ _ demo_perm, where i = 1 and j = 2])
    (use demo_evictable demo_map in \<open>simp_all add: demo_vpn io_ok_def\<close>, simp add: demo_vm_def)

lemma demo_owned: "tables_owned demo_vm demo_as"
  by (simp add: tables_owned_def kernel_page_def demo_as_def COREMAP_TO_PADDR_def inj_on_def demo_entry)

lemma demo_unpinned: "unpinned demo_vm 7"
  by (simp add: unpinned_def demo_entry freed_entry_def)

section \<open>Properties\<close>



text \<open>C2. A read or write fault on a valid address, when the handler returns: with no error the
  invariant holds and the only change any process can see is a zero-filled page, with the permissions
  of its segment, where the faulting process had no page yet; the only error is out of memory, and
  then no process sees a change (the frame taken stays in transit).  Locks are as before.\<close>

theorem vm_fault_is_transparent:
  assumes "vm_inv T s" "spaces s a = Some A" "vm_fault_permissions A (addr AND PAGE_FRAME) = Some perm"
    and "ft = VM_FAULT_READ \<or> ft = VM_FAULT_WRITE" "0 < vpn addr"
    and "vm_fault io rnd s (Some a) ft addr = Some (r, s')"
  shows "pt_held s' = pt_held s \<and>
    (if r = None then vm_inv T s' \<and> page_content s' = page_demand (page_content s) a (vpn addr) perm
     else r = Some ENOMEM \<and> page_content s' = page_content s \<and> (\<exists>ix. ix \<notin> T \<and> vm_inv (insert ix T) s'))"
  using vm_fault_access [OF assms] .

theorem vm_fault_is_transparent_witness:
  "\<exists>r s'. vm_fault io_ok 0 demo_vm (Some 7) VM_FAULT_READ 0x401234 = Some (r, s') \<and> vm_inv {} demo_vm \<and>
    vm_fault_permissions demo_as (0x401234 AND PAGE_FRAME) = Some 3 \<and>
    (r = None \<longrightarrow> page_content s' 7 0x401 = Some (3, zero_page))"
proof -
  obtain r s' where f: "vm_fault io_ok 0 demo_vm (Some 7) VM_FAULT_READ 0x401234 = Some (r, s')"
    using demo_fault by blast
  then show ?thesis
    using vm_fault_is_transparent [OF demo_inv _ demo_perm _ _ f] demo_inv demo_perm demo_content
    by (auto simp: demo_vpn page_demand_def)
qed

text \<open>C7. Faults are served: if two frames are neither fixed nor pinned, the swap file has a free
  slot and the swap device works, a read or write fault on a valid address of a process that holds
  no page table lock returns; no assertion fails and no loop runs on.\<close>

theorem vm_fault_returns:
  assumes "vm_inv T s" "spaces s a = Some A" "pt_held s = {}"
    and "vm_fault_permissions A (addr AND PAGE_FRAME) = Some perm"
    and "ft = VM_FAULT_READ \<or> ft = VM_FAULT_WRITE" "0 < vpn addr" "vpn addr < 524288"
    and "i < num_cm_entries s" "evictable s i" "j < num_cm_entries s" "evictable s j" "i \<noteq> j"
    and "\<And>w k. io w k = None" "card (bitmap_used (disk_map s)) < nbits (disk_map s)"
  shows "\<exists>r s'. vm_fault io rnd s (Some a) ft addr = Some (r, s')"
  using vm_fault_serves [OF assms] .

theorem vm_fault_returns_witness:
  "evictable demo_vm 1 \<and> evictable demo_vm 2 \<and>
    (\<exists>r s'. vm_fault io_ok 5 demo_vm (Some 7) VM_FAULT_WRITE 0x401234 = Some (r, s'))"
proof -
  have "\<exists>r s'. vm_fault io_ok 5 demo_vm (Some 7) VM_FAULT_WRITE 0x401234 = Some (r, s')"
    by (rule vm_fault_returns [OF demo_inv _ _ demo_perm, where i = 1 and j = 2])
      (use demo_evictable demo_map in \<open>simp_all add: demo_vpn io_ok_def\<close>, simp add: demo_vm_def)
  then show ?thesis using demo_evictable by blast
qed

text \<open>C19. Writes to read-only mappings: for a resident page the read-only fault either refuses
  with EFAULT and changes nothing, or succeeds, and then the page was writable (or the program was
  being loaded) and its frame is marked dirty, so that its next eviction writes it back.  No page of
  any process changes.\<close>

theorem vm_fault_readonly_protects:
  assumes "vm_inv T s" "spaces s a = Some A" "pte_of (spaces s) a (vpn addr) = Some p" "present p"
    and "vm_fault io rnd s (Some a) VM_FAULT_READONLY addr = Some (r, s')"
  shows "vm_inv T s' \<and> page_content s' = page_content s \<and> pt_held s' = pt_held s \<and>
    (r = Some EFAULT \<and> s' = s \<or>
     r = None \<and> (permissions p AND 2 \<noteq> 0 \<or> is_loading A) \<and> cme_get_state s' (frame_of s p) = CME_DIRTY)"
  using vm_fault_write [OF assms] .

text \<open>One resident page: frame 3 holds page 0x401 of address space 7, read-only.\<close>

definition demo_row :: "nat \<Rightarrow> pt_ent" where
  "demo_row j = (if j = 1 then \<lparr>page_paddr_base = 7, permissions = 5, present = True, exists = True\<rparr> else empty_pte)"

definition demo_res :: vm where
  "demo_res = demo_vm\<lparr>coremap := (coremap demo_vm)[3 := \<lparr>cme_as = Some 7, disk_offset = 0, vaddr_base = 0x401,
       cme_state = CME_DIRTY, busy_bit = False, use_bit = False\<rparr>],
     num_cm_free := 14, num_cm_user := 1, disk_map := \<lparr>nbits = 1200, bm_v = 1 # replicate 149 0\<rparr>,
     spaces := (\<lambda>a. if a = 7 then Some (demo_as\<lparr>page_table := (\<lambda>i. if i = 1 then Some demo_row else None),
       pt_kva := (\<lambda>i. 0x80004000)\<rparr>) else None)\<rparr>"

lemma demo_res_pte: "pte_of (spaces demo_res) a n =
    (if a = 7 \<and> n = 0x401 then Some \<lparr>page_paddr_base = 7, permissions = 5, present = True, exists = True\<rparr> else None)"
proof (cases "a = 7 \<and> n = 0x401")
  case True
  then show ?thesis
    by (simp add: demo_res_def pte_of_def get_pt_entry_def primary_vpn secondary_vpn demo_row_def)
next
  case False
  have "n = 0x401" if "n div 1024 = 1" "n mod 1024 = 1"
    using div_mult_mod_eq [of n 1024] that by simp
  then show ?thesis
    using False by (cases "a = 7"; cases "n div 1024 = 1"; cases "n mod 1024 = 1")
      (auto simp: demo_res_def pte_of_def get_pt_entry_def primary_vpn secondary_vpn demo_row_def empty_pte_def)
qed

lemma demo_res_map: "bitmap_inv \<lparr>nbits = 1200, bm_v = 1 # replicate 149 0\<rparr>"
    "bitmap_used \<lparr>nbits = 1200, bm_v = 1 # replicate 149 0\<rparr> = {0}"
proof -
  have "bm_bit (1 # replicate 149 0) i \<longleftrightarrow> i = 0" if "i < 1200" for i
  proof (cases "i div 8")
    case 0
    then have "i < 8" by simp
    then show ?thesis by (simp add: bm_bit_def bit_1_iff)
  next
    case (Suc k)
    then have "k < 149" "i \<noteq> 0" using that by auto
    then show ?thesis using Suc by (simp add: bm_bit_def)
  qed
  then show "bitmap_inv \<lparr>nbits = 1200, bm_v = 1 # replicate 149 0\<rparr>"
      "bitmap_used \<lparr>nbits = 1200, bm_v = 1 # replicate 149 0\<rparr> = {0}"
    by (auto simp: bitmap_inv_def bitmap_used_def)
qed

lemma demo_res_frame: "frame_of demo_res \<lparr>page_paddr_base = 7, permissions = 5, present = True, exists = True\<rparr> = 3"
  by (simp add: frame_of_def demo_res_def)

lemma demo_res_entry: "i < 16 \<Longrightarrow> coremap demo_res ! i = (if i = 3 then \<lparr>cme_as = Some 7, disk_offset = 0,
    vaddr_base = 0x401, cme_state = CME_DIRTY, busy_bit = False, use_bit = False\<rparr> else coremap demo_vm ! i)"
proof -
  have "length (coremap demo_vm) = 16" by (simp add: demo_vm_def)
  then show "i < 16 \<Longrightarrow> ?thesis" by (simp add: demo_res_def nth_list_update)
qed

lemma demo_res_inv: "vm_inv {} demo_res"
proof -
  have slot: "slot_of demo_res a n = (if a = 7 \<and> n = 0x401 then Some 0 else None)" for a n
    by (simp add: slot_of_def demo_res_pte demo_res_frame demo_res_entry)
  have len: "length (coremap demo_vm) = 16" by (simp add: demo_vm_def)
  have "n_fixed (coremap demo_vm) = 1" by (simp add: demo_vm_def n_fixed_def freed_entry_def)
  then have "n_fixed (coremap demo_res) = 1"
    using n_fixed_update [of 3 "coremap demo_vm"] len by (simp add: demo_res_def demo_entry freed_entry_def)
  then have "inv_shape demo_res"
    using demo_res_map len by (simp add: inv_shape_def demo_res_def demo_vm_def)
  moreover have "entry_ok demo_res {} i" if "i < 16" for i
  proof (cases "i = 3")
    case True
    then show ?thesis
      by (simp add: entry_ok_def Let_def demo_res_entry demo_res_pte) (simp add: demo_res_def)
  next
    case False
    then show ?thesis using that by (simp add: entry_ok_def Let_def demo_res_entry demo_entry freed_entry_def)
  qed
  moreover have "page_ok demo_res {} a n p" if "pte_of (spaces demo_res) a n = Some p" for a n p
  proof -
    have p: "a = 7" "n = 0x401" "p = \<lparr>page_paddr_base = 7, permissions = 5, present = True, exists = True\<rparr>"
      using that by (auto simp: demo_res_pte split: if_splits)
    show ?thesis unfolding page_ok_def p
      by (simp, rule exI [of _ 3], simp add: demo_res_entry) (simp add: demo_res_def)
  qed
  moreover have "num_cm_entries demo_res = 16" "disk_map demo_res = \<lparr>nbits = 1200, bm_v = 1 # replicate 149 0\<rparr>"
    by (simp_all add: demo_res_def)
  ultimately show ?thesis
    using demo_res_map by (simp add: vm_inv_def slot)
qed

theorem vm_fault_readonly_protects_witness:
  "vm_fault io_ok 0 demo_res (Some 7) VM_FAULT_READONLY 0x401234 = Some (Some EFAULT, demo_res) \<and>
    page_content demo_res 7 0x401 \<noteq> None \<and> vm_inv {} demo_res"
proof -
  let ?A = "demo_as\<lparr>page_table := (\<lambda>i. if i = 1 then Some demo_row else None), pt_kva := (\<lambda>i. 0x80004000)\<rparr>"
  have A: "spaces demo_res 7 = Some ?A" by (simp add: demo_res_def)
  have p: "pte_of (spaces demo_res) 7 (vpn 0x401234) = Some \<lparr>page_paddr_base = 7, permissions = 5, present = True, exists = True\<rparr>"
    by (simp add: demo_vpn demo_res_pte)
  have g: "get_pt_entry ?A 0x401000 = Some \<lparr>page_paddr_base = 7, permissions = 5, present = True, exists = True\<rparr>"
    by (simp add: get_pt_entry_def primary_vpn secondary_vpn vpn_def drop_bit_eq_div demo_row_def)
  have perm: "vm_fault_permissions ?A 0x401000 = Some 3"
    by (simp add: vm_fault_permissions_def as_get_permissions_def demo_as_def USERSTACK_def STACK_PAGES_def)
  have run: "vm_fault io_ok 0 demo_res (Some 7) VM_FAULT_READONLY 0x401234 = Some (Some EFAULT, demo_res)"
    unfolding vm_fault_def demo_frame Let_def using A g perm
    by (simp add: vm_fault_readonly_def pte_get_permissions_def demo_as_def)
  have "page_content demo_res 7 0x401 \<noteq> None" unfolding page_content_None by (simp add: demo_res_pte)
  then show ?thesis
    using vm_fault_readonly_protects [OF demo_res_inv A p _ run] run by simp
qed

text \<open>C18. Allocating a page, with or without eviction, is invisible to processes: the permissions
  and contents of every page of every address space are unchanged, and the caller gets a frame that
  no page uses, pinned, or no frame at all when the kernel has reached its share of memory.\<close>

theorem alloc_one_page_is_invisible:
  assumes "vm_inv T s" "alloc_one_page io s as va = Some (pa, s')"
  shows "(\<forall>a n. page_content s' a n = page_content s a n) \<and> pt_held s' = pt_held s \<and>
    (if pa = 0 then s' = s \<and> as = None \<and> reached_kpage_limit s
     else \<exists>ix < num_cm_entries s. pa = COREMAP_TO_PADDR s ix \<and> ix \<notin> T \<and>
       vm_inv (if as = None then T else insert ix T) s' \<and> busy_bit (coremap s' ! ix))"
proof (cases "pa = 0")
  case True
  then show ?thesis using alloc_one_page_spec [OF assms] by simp
next
  case False
  then obtain ix where ix: "ix < num_cm_entries s" "pa = COREMAP_TO_PADDR s ix" "ix \<notin> T"
      "vm_inv (if as = None then T else insert ix T) s'" "coremap s' ! ix = fresh_entry as va"
    using alloc_one_page_spec [OF assms] by (simp only: if_False) blast
  have "busy_bit (coremap s' ! ix)" unfolding ix(5) by (simp add: fresh_entry_def)
  then show ?thesis
    using alloc_one_page_spec [OF assms] False ix(1-4) by (simp only: if_False) blast
qed

theorem alloc_one_page_is_invisible_witness:
  "\<exists>pa s'. alloc_one_page io_ok demo_res None 0 = Some (pa, s') \<and> page_content s' 7 0x401 = page_content demo_res 7 0x401 \<and>
    pt_held s' = pt_held demo_res"
proof -
  have "evictable demo_res 1" by (simp add: evictable_def demo_res_entry demo_entry freed_entry_def)
  then obtain pa s' where run: "alloc_one_page io_ok demo_res None 0 = Some (pa, s')"
    using alloc_one_page_succeeds [OF demo_res_inv, of 1 None io_ok 0]
    by (auto simp: alloc_locks_ok_def io_ok_def demo_res_def)
  then show ?thesis using alloc_one_page_is_invisible [OF demo_res_inv run] by blast
qed

text \<open>C20. The clock terminates exactly when some frame is neither fixed nor pinned, and the frame it
  chooses is not fixed, was not pinned and is pinned on return.\<close>

theorem choose_evict_page_terminates:
  assumes "vm_inv T s"
  shows "(choose_evict_page s \<noteq> None \<longleftrightarrow> (\<exists>i < num_cm_entries s. evictable s i)) \<and>
    (\<forall>ix s'. choose_evict_page s = Some (ix, s') \<longrightarrow>
       evictable s ix \<and> ix < num_cm_entries s \<and> busy_bit (coremap s' ! ix) \<and> spaces s' = spaces s)"
proof -
  note shape = vm_inv_shape [OF assms]
  have "evictable s ix \<and> ix < num_cm_entries s \<and> busy_bit (coremap s' ! ix) \<and> spaces s' = spaces s"
    if run: "choose_evict_page s = Some (ix, s')" for ix s'
  proof -
    obtain s1 where s1: "clock_rel s s1" "evictable s1 ix"
      using choose_evict_page_result [OF run shape] by (auto simp: clock_result_def)
    note sel = choose_evict_page_selected [OF assms run, unfolded selected_def]
    then show ?thesis using clock_rel_evictable [OF s1(1) shape, of ix] s1(2) by simp
  qed
  then show ?thesis
    using choose_evict_page_evictable [OF _ shape] choose_evict_page_total [OF shape] by fastforce
qed

theorem choose_evict_page_terminates_witness:
  "\<exists>ix s'. choose_evict_page demo_res = Some (ix, s') \<and> evictable demo_res ix"
proof -
  have "evictable demo_res 3" by (simp add: evictable_def demo_res_entry)
  moreover have "(3 :: nat) < num_cm_entries demo_res" by (simp add: demo_res_def)
  ultimately have "choose_evict_page demo_res \<noteq> None"
    using choose_evict_page_terminates [OF demo_res_inv] by blast
  then obtain ix s' where "choose_evict_page demo_res = Some (ix, s')" by auto
  then show ?thesis using choose_evict_page_terminates [OF demo_res_inv] by blast
qed




lemma as_copy_rows_empty:
  "spaces s old = Some A \<Longrightarrow> (\<And>i. page_table A i = None) \<Longrightarrow> as_copy_rows io junk s old new is = Some s"
  by (induction "is") simp_all




end
