(* ===== verification/Millicode.thy ===== *)
theory Millicode
  imports Prelude
begin

text \<open>
  The 64-bit arithmetic the compiler calls on a 32-bit processor:
  common/gcc-millicode.  A \<open>long long\<close> is a 64-bit word; the union uu of
  longlong.h gives its two 32-bit halves, \<open>ui_H\<close> and \<open>ui_L\<close>, and is put together by
  \<open>uu\<close>.  The long division of qdivrem.c works on digits of 16 bits, modelled as
  integers with the 32-bit wrap-around of unsigned int written out.  Every routine
  is shown equal to the operation on 64-bit words that it implements.
\<close>

section \<open>The halves of a long long\<close>

definition ui_H :: "64 word \<Rightarrow> 32 word" where "ui_H w = ucast (drop_bit 32 w)"
definition ui_L :: "64 word \<Rightarrow> 32 word" where "ui_L w = ucast w"
definition uu :: "32 word \<Rightarrow> 32 word \<Rightarrow> 64 word" where "uu h l = push_bit 32 (ucast h) OR ucast l"

lemma bit_uu: "bit (uu h l) n \<longleftrightarrow> (if n < 32 then bit l n else bit h (n - 32))"
  using bit_imp_le_length [of h "n - 32"] by (auto simp: uu_def bit_simps dest: bit_imp_le_length)

lemma bit_ui_H: "bit (ui_H w) n \<longleftrightarrow> n < 32 \<and> bit w (n + 32)"
  by (auto simp: ui_H_def bit_simps add.commute)

lemma bit_ui_L: "bit (ui_L w) n \<longleftrightarrow> n < 32 \<and> bit w n"
  by (auto simp: ui_L_def bit_simps)

lemma uu_halves [simp]: "uu (ui_H w) (ui_L w) = w"
  by (rule bit_eqI) (auto simp: bit_uu bit_ui_H bit_ui_L dest: bit_imp_le_length)

lemma halves_uu [simp]: "ui_H (uu h l) = h" "ui_L (uu h l) = l"
  by (rule bit_eqI; auto simp: bit_uu bit_ui_H bit_ui_L dest: bit_imp_le_length)+

lemma uu_add: "uu h l = ucast h * 4294967296 + ucast l"
proof -
  have "push_bit 32 (ucast h :: 64 word) + ucast l = push_bit 32 (ucast h) OR ucast l"
    by (rule disjunctive_add) (auto simp: bit_simps dest: bit_imp_le_length)
  then show ?thesis by (simp add: uu_def push_bit_eq_mult)
qed

lemma uint_uu: "uint (uu h l) = uint h * 4294967296 + uint l"
proof -
  have b: "uint h * 4294967296 + uint l < 18446744073709551616"
    using uint_less32 [of h] uint_less32 [of l] by simp
  have "uint (uu h l) = (uint h * 4294967296 + uint l) mod 18446744073709551616"
    by (simp add: uu_add uint_word_ariths unsigned_ucast_eq take_bit_eq_mod mod_simps)
  then show ?thesis using b by simp
qed

section \<open>Shifts\<close>

definition lshldi3 :: "64 word \<Rightarrow> nat \<Rightarrow> 64 word" where
  "lshldi3 a shift =
    (if shift = 0 then a
     else if 32 \<le> shift then uu (push_bit (shift - 32) (ui_L a)) 0
     else uu (push_bit shift (ui_H a) OR drop_bit (32 - shift) (ui_L a)) (push_bit shift (ui_L a)))"

definition ashldi3 :: "64 word \<Rightarrow> nat \<Rightarrow> 64 word" where
  "ashldi3 a shift =
    (if shift = 0 then a
     else if 32 \<le> shift then uu (push_bit (shift - 32) (ui_L a)) 0
     else uu (push_bit shift (ui_H a) OR drop_bit (32 - shift) (ui_L a)) (push_bit shift (ui_L a)))"

definition lshrdi3 :: "64 word \<Rightarrow> nat \<Rightarrow> 64 word" where
  "lshrdi3 a shift =
    (if shift = 0 then a
     else if 32 \<le> shift then uu 0 (drop_bit (shift - 32) (ui_H a))
     else uu (drop_bit shift (ui_H a)) (drop_bit shift (ui_L a) OR push_bit (32 - shift) (ui_H a)))"

definition ashrdi3 :: "64 word \<Rightarrow> nat \<Rightarrow> 64 word" where
  "ashrdi3 a shift =
    (if shift = 0 then a
     else if 32 \<le> shift then
       (let s = signed_drop_bit 1 (signed_drop_bit 31 (ui_H a))
        in uu s (signed_drop_bit (shift - 32) (ui_H a)))
     else uu (signed_drop_bit shift (ui_H a)) (drop_bit shift (ui_L a) OR push_bit (32 - shift) (ui_H a)))"

section \<open>Comparison\<close>

definition cmpdi2 :: "64 word \<Rightarrow> 64 word \<Rightarrow> int" where
  "cmpdi2 a b =
    (if ui_H a <s ui_H b then 0 else if ui_H b <s ui_H a then 2
     else if ui_L a < ui_L b then 0 else if ui_L b < ui_L a then 2 else 1)"

definition ucmpdi2 :: "64 word \<Rightarrow> 64 word \<Rightarrow> int" where
  "ucmpdi2 a b =
    (if ui_H a < ui_H b then 0 else if ui_H b < ui_H a then 2
     else if ui_L a < ui_L b then 0 else if ui_L b < ui_L a then 2 else 1)"

section \<open>Addition, subtraction, bitwise operations\<close>

definition adddi3 :: "64 word \<Rightarrow> 64 word \<Rightarrow> 64 word" where
  "adddi3 a b = (let l = ui_L a + ui_L b in uu (ui_H a + ui_H b + of_bool (l < ui_L b)) l)"

definition subdi3 :: "64 word \<Rightarrow> 64 word \<Rightarrow> 64 word" where
  "subdi3 a b = (let l = ui_L a - ui_L b in uu (ui_H a - ui_H b - of_bool (ui_L a < l)) l)"

definition negdi2 :: "64 word \<Rightarrow> 64 word" where
  "negdi2 a = (let l = - ui_L a in uu (- ui_H a - of_bool (0 < l)) l)"

definition anddi3 :: "64 word \<Rightarrow> 64 word \<Rightarrow> 64 word" where
  "anddi3 a b = uu (ui_H a AND ui_H b) (ui_L a AND ui_L b)"

definition iordi3 :: "64 word \<Rightarrow> 64 word \<Rightarrow> 64 word" where
  "iordi3 a b = uu (ui_H a OR ui_H b) (ui_L a OR ui_L b)"

definition xordi3 :: "64 word \<Rightarrow> 64 word \<Rightarrow> 64 word" where
  "xordi3 a b = uu (ui_H a XOR ui_H b) (ui_L a XOR ui_L b)"

definition one_cmpldi2 :: "64 word \<Rightarrow> 64 word" where
  "one_cmpldi2 a = uu (NOT (ui_H a)) (NOT (ui_L a))"

section \<open>Multiplication\<close>

definition HHALF :: "32 word \<Rightarrow> 32 word" where "HHALF x = drop_bit 16 x"
definition LHALF :: "32 word \<Rightarrow> 32 word" where "LHALF x = x AND 0xffff"
definition LHUP :: "32 word \<Rightarrow> 32 word" where "LHUP x = push_bit 16 x"

definition lmulq :: "32 word \<Rightarrow> 32 word \<Rightarrow> 64 word" where
  "lmulq u v =
    (let u1 = HHALF u; u0 = LHALF u; v1 = HHALF v; v0 = LHALF v; low = u0 * v0 in
     if u1 = 0 \<and> v1 = 0 then ucast low
     else
       let (udiff, neg) = (if u0 \<le> u1 then (u1 - u0, False) else (u0 - u1, True));
           (vdiff, neg) = (if v1 \<le> v0 then (v0 - v1, neg) else (v1 - v0, \<not> neg));
           mid = udiff * vdiff;
           high = u1 * v1;
           prodh = high + HHALF high;
           prodl = LHUP high;
           was = prodl;
           (prodl, prodh) =
             (if neg then (let prodl = prodl - LHUP mid in (prodl, prodh - (HHALF mid + of_bool (was < prodl))))
              else (let prodl = prodl + LHUP mid in (prodl, prodh + (HHALF mid + of_bool (prodl < was)))));
           was = prodl;
           prodl = prodl + LHUP low;
           prodh = prodh + (HHALF low + of_bool (prodl < was));
           prodl = prodl + low;
           prodh = (if prodl < low then prodh + 1 else prodh)
       in uu prodh prodl)"

definition muldi3 :: "64 word \<Rightarrow> 64 word \<Rightarrow> 64 word" where
  "muldi3 a b =
    (let (u, negall) = (if 0 \<le>s a then (a, False) else (- a, True));
         (v, negall) = (if 0 \<le>s b then (b, negall) else (- b, \<not> negall));
         u1 = ui_H u; u0 = ui_L u; v1 = ui_H v; v0 = ui_L v;
         prod = (if u1 = 0 \<and> v1 = 0 then lmulq u0 v0
           else
             let low = lmulq u0 v0;
                 (negmid, udiff) = (if u0 \<le> u1 then (False, u1 - u0) else (True, u0 - u1));
                 (vdiff, negmid) = (if v1 \<le> v0 then (v0 - v1, negmid) else (v1 - v0, \<not> negmid));
                 mid = udiff * vdiff;
                 high = u1 * v1
             in uu (high + (if negmid then - mid else mid) + ui_L low + ui_H low) (ui_L low))
     in if negall then - prod else prod)"

section \<open>Shifts, comparison and bitwise operations are those of 64-bit words\<close>

lemma lshldi3_eq: "shift < 64 \<Longrightarrow> lshldi3 a shift = push_bit shift a"
  by (rule bit_eqI) (auto simp: lshldi3_def bit_uu bit_ui_H bit_ui_L bit_simps)

lemma ashldi3_eq: "shift < 64 \<Longrightarrow> ashldi3 a shift = push_bit shift a"
  by (rule bit_eqI) (auto simp: ashldi3_def bit_uu bit_ui_H bit_ui_L bit_simps)

lemma lshrdi3_eq: "shift < 64 \<Longrightarrow> lshrdi3 a shift = drop_bit shift a"
  by (rule bit_eqI) (auto simp: lshrdi3_def bit_uu bit_ui_H bit_ui_L bit_simps add.commute dest: bit_imp_le_length)

lemma ashrdi3_eq: "shift < 64 \<Longrightarrow> ashrdi3 a shift = signed_drop_bit shift a"
  by (rule bit_eqI) (auto simp: ashrdi3_def bit_uu bit_ui_H bit_ui_L bit_simps Let_def add.commute [of shift]
      dest: bit_imp_le_length)

lemma bitwise_eq:
  "anddi3 a b = a AND b" "iordi3 a b = a OR b" "xordi3 a b = a XOR b" "one_cmpldi2 a = NOT a"
  by (rule bit_eqI; auto simp: anddi3_def iordi3_def xordi3_def one_cmpldi2_def bit_uu bit_ui_H bit_ui_L bit_simps
      dest: bit_imp_le_length)+

lemma sint64: "sint (w :: 64 word) = (if uint w < 9223372036854775808 then uint w else uint w - 18446744073709551616)"
proof -
  have s: "sint w = signed_take_bit 63 (uint w)"
    using sint_uint [of w] by simp
  have lt: "uint w < 18446744073709551616" using uint_lt2p [of w] by simp
  show ?thesis
  proof (cases "uint w < 9223372036854775808")
    case True
    then show ?thesis by (simp add: s signed_take_bit_eq_take_bit_shift take_bit_eq_mod)
  next
    case False
    then have "(uint w + 9223372036854775808) mod 18446744073709551616 = uint w - 9223372036854775808"
      using lt mod_pos_geq [of 18446744073709551616 "uint w + 9223372036854775808"] by simp
    then show ?thesis using False by (simp add: s signed_take_bit_eq_take_bit_shift take_bit_eq_mod)
  qed
qed

lemma uint_magnitude: "uint (if sint w < 0 then - w else w) = \<bar>sint w\<bar>" for w :: "64 word"
proof -
  have b: "0 \<le> uint w" "uint w < 18446744073709551616" using uint_bounded [of w] by simp_all
  have "uint (- w) = 18446744073709551616 - uint w" if "uint w \<noteq> 0"
    using that b by (simp add: uint_word_ariths zmod_zminus1_eq_if)
  then show ?thesis using b by (auto simp: sint64)
qed

lemma lex_less:
  fixes h h' l l' :: int
  assumes "0 \<le> l" "l < 4294967296" "0 \<le> l'" "l' < 4294967296"
  shows "h * 4294967296 + l < h' * 4294967296 + l' \<longleftrightarrow> h < h' \<or> h = h' \<and> l < l'"
  using assms by (cases "h < h'"; cases "h = h'") auto

lemmas lo_bounds = uint_nonneg32 [of "ui_L w" for w] uint_less32 [of "ui_L w" for w]

lemma sint_uu: "sint (uu h l) = sint h * 4294967296 + uint l"
  using lex_less [of "uint l" 0 "uint h" 2147483648] uint_less32 [of l] by (auto simp: sint64 sint32 uint_uu)

lemma uint_halves: "uint a = uint (ui_H a) * 4294967296 + uint (ui_L a)"
  using uint_uu [of "ui_H a" "ui_L a"] by simp

lemma sint_halves: "sint a = sint (ui_H a) * 4294967296 + uint (ui_L a)"
  using sint_uu [of "ui_H a" "ui_L a"] by simp

lemma ucmpdi2_eq: "ucmpdi2 a b = (if a < b then 0 else if b < a then 2 else 1)"
  unfolding word_less_def [of a b] word_less_def [of b a] uint_halves [of a] uint_halves [of b]
    lex_less [OF lo_bounds lo_bounds]
  by (auto simp: ucmpdi2_def word_less_def)

lemma cmpdi2_eq: "cmpdi2 a b = (if a <s b then 0 else if b <s a then 2 else 1)"
  unfolding word_sless_alt [of a b] word_sless_alt [of b a] sint_halves [of a] sint_halves [of b]
    lex_less [OF lo_bounds lo_bounds]
  by (auto simp: cmpdi2_def word_less_def word_sless_alt)

section \<open>Carries\<close>

abbreviation up :: "32 word \<Rightarrow> 64 word" where "up \<equiv> ucast"

lemma up_eq: "up x = word_of_int (uint x)"
  by (rule ucast_eq)

lemma carry32:
  fixes x y :: "32 word"
  shows "uint (x + y) = uint x + uint y - of_bool (x + y < y) * 4294967296"
proof -
  define a b where "a = uint x" and "b = uint y"
  have "0 \<le> a" "a < 4294967296" "0 \<le> b" "b < 4294967296"
    unfolding a_def b_def using uint_less32 by simp_all
  then show ?thesis
    unfolding word_less_def uint_plus32 a_def [symmetric] b_def [symmetric] by simp
qed

lemma up_add: "up (x + y) = up x + up y - of_bool (x + y < y) * 4294967296"
  using arg_cong [OF carry32, of "word_of_int :: int \<Rightarrow> 64 word" x y] by simp

lemma borrow32: "x < x - y \<longleftrightarrow> x < y" for x y :: "32 word"
proof -
  define a d b where "a = uint x" and "d = uint (x - y)" and "b = uint y"
  have a: "a = d + b - of_bool (a < b) * 4294967296"
    using carry32 [of "x - y" y] by (simp add: a_def d_def b_def word_less_def)
  have "0 \<le> d" "d < 4294967296" "0 \<le> b" "b < 4294967296"
    unfolding d_def b_def using uint_less32 by simp_all
  then have "a < d \<longleftrightarrow> a < b" using a by (cases "a < b") simp_all
  then show ?thesis by (simp add: word_less_def a_def d_def b_def)
qed

lemma up_sub: "up (x - y) = up x - up y + of_bool (x < x - y) * 4294967296"
  using up_add [of "x - y" y] unfolding borrow32 by simp

section \<open>Addition and subtraction are those of 64-bit words\<close>

text \<open>The high half only counts modulo the size of a half.\<close>

lemma up_hom:
  "up (x + y) * 4294967296 = up x * 4294967296 + up y * 4294967296"
  "up (x - y) * 4294967296 = up x * 4294967296 - up y * 4294967296"
  "up (- x) * 4294967296 = - (up x * 4294967296)"
  "up (x * y) * 4294967296 = up x * up y * 4294967296"
proof -
  have M: "up (word_of_int k) * 4294967296 = word_of_int k * 4294967296" for k
  proof -
    have "uint (word_of_int k :: 32 word) = k mod 4294967296"
      by (simp add: uint_word_of_int)
    then have "up (word_of_int k) * 4294967296 = word_of_int ((k mod 4294967296) * 4294967296)"
      unfolding up_eq by simp
    also have "\<dots> = word_of_int (k * 4294967296)"
    proof -
      have "(k mod 4294967296) * 4294967296 mod 18446744073709551616 = k * 4294967296 mod 18446744073709551616"
        using mult_mod_right [of k 4294967296 4294967296] mod_mult_mult2 [of k 4294967296 4294967296] by simp
      then show ?thesis unfolding word_of_int_eq_iff by (simp add: take_bit_eq_mod)
    qed
    finally show ?thesis by simp
  qed
  show "up (x + y) * 4294967296 = up x * 4294967296 + up y * 4294967296"
    using M [of "uint x + uint y"] by (simp add: distrib_right)
  show "up (x - y) * 4294967296 = up x * 4294967296 - up y * 4294967296"
    using M [of "uint x - uint y"] by (simp add: left_diff_distrib)
  show "up (- x) * 4294967296 = - (up x * 4294967296)"
    using M [of "- uint x"] by simp
  show "up (x * y) * 4294967296 = up x * up y * 4294967296"
    using M [of "uint x * uint y"] by simp
qed

lemma up_of_bool [simp]: "up (of_bool c) = of_bool c"
  by (cases c) simp_all

lemma adddi3_eq: "adddi3 a b = a + b"
proof -
  have "adddi3 a b = uu (ui_H a) (ui_L a) + uu (ui_H b) (ui_L b)"
    unfolding adddi3_def Let_def uu_add up_hom up_add [of "ui_L a"] up_of_bool by (simp add: algebra_simps)
  then show ?thesis by simp
qed

lemma subdi3_eq: "subdi3 a b = a - b"
proof -
  have "subdi3 a b = uu (ui_H a) (ui_L a) - uu (ui_H b) (ui_L b)"
    unfolding subdi3_def Let_def uu_add up_hom up_sub [of "ui_L a"] up_of_bool by (simp add: algebra_simps)
  then show ?thesis by simp
qed

lemma negdi2_eq: "negdi2 a = - a"
proof -
  have "up (- l) = - up l + of_bool (0 < - l) * 4294967296" for l
    using up_sub [of 0 l] by simp
  then have "negdi2 a = - uu (ui_H a) (ui_L a)"
    unfolding negdi2_def Let_def uu_add up_hom up_of_bool by (simp add: algebra_simps)
  then show ?thesis by simp
qed

section \<open>Multiplication is that of 64-bit words\<close>

lemma up_le_sub: "y \<le> x \<Longrightarrow> up (x - y) = up x - up y"
  using up_sub [of x y] by (simp add: borrow32)

lemma uint_HHALF: "uint (HHALF x) = uint x div 65536"
proof -
  have "uint (drop_bit 16 x) = drop_bit 16 (uint x)" by transfer (simp add: drop_bit_take_bit)
  then show ?thesis by (simp add: HHALF_def drop_bit_eq_div)
qed

lemma uint_LHALF: "uint (LHALF x) = uint x mod 65536"
proof -
  have "LHALF x = take_bit 16 x"
    unfolding LHALF_def take_bit_eq_mask by (simp add: mask_eq_exp_minus_1)
  moreover have "uint (take_bit 16 x) = take_bit 16 (uint x)" by transfer (simp add: ac_simps)
  ultimately show ?thesis by (simp add: take_bit_eq_mod)
qed

lemma half_bounds: "uint (HHALF x) < 65536" "uint (LHALF x) < 65536"
  using uint_less32 [of x] by (simp_all add: uint_HHALF uint_LHALF)

lemma up_halves: "up x = up (HHALF x) * 65536 + up (LHALF x)"
proof -
  have "uint x = uint (HHALF x) * 65536 + uint (LHALF x)"
    by (simp add: uint_HHALF uint_LHALF)
  from arg_cong [OF this, of "word_of_int :: int \<Rightarrow> 64 word"] show ?thesis by simp
qed

lemma up_LHUP: "up (HHALF x) * 4294967296 + up (LHUP x) = up x * 65536"
proof -
  have "uu (HHALF x) (LHUP x) = push_bit 16 (up x)"
    by (rule bit_eqI) (auto simp: bit_uu HHALF_def LHUP_def bit_simps dest: bit_imp_le_length)
  then show ?thesis by (simp add: uu_add push_bit_eq_mult)
qed

lemma up_mult16:
  assumes "uint x < 65536" "uint y < 65536"
  shows "up (x * y) = up x * up y"
proof -
  define a b where "a = uint x" and "b = uint y"
  have r: "0 \<le> a" "a \<le> 65535" "0 \<le> b" "b \<le> 65535" using assms unfolding a_def b_def by simp_all
  have "a * b \<le> 65535 * 65535" using r by (intro mult_mono) auto
  then have "a * b < 4294967296" by simp
  moreover have "0 \<le> a * b" using r by simp
  ultimately have "uint (x * y) = uint x * uint y"
    by (simp add: uint_word_ariths flip: a_def b_def)
  from arg_cong [OF this, of "word_of_int :: int \<Rightarrow> 64 word"] show ?thesis by simp
qed

text \<open>Adding to or subtracting from a product held in two halves.\<close>

lemma uu_plus: "uu (h + (HHALF x + of_bool (l + LHUP x < l))) (l + LHUP x) = uu h l + up x * 65536"
proof -
  have "up (l + LHUP x) = up l + up (LHUP x) - of_bool (l + LHUP x < l) * 4294967296"
    using up_add [of "LHUP x" l] by (simp add: add.commute)
  then show ?thesis
    unfolding uu_add up_hom up_of_bool up_LHUP [symmetric] by (simp add: algebra_simps)
qed

lemma uu_minus: "uu (h - (HHALF x + of_bool (l < l - LHUP x))) (l - LHUP x) = uu h l - up x * 65536"
  unfolding uu_add up_hom up_of_bool up_LHUP [symmetric] up_sub [of l] by (simp add: algebra_simps)

lemma uu_low: "uu (if l + x < x then h + 1 else h) (l + x) = uu h l + up x"
  using up_add [of l x] by (cases "l + x < x") (simp_all add: uu_add up_hom algebra_simps)

lemma half_diff:
  defines "d \<equiv> \<lambda>x y. if y \<le> x then (x - y, False) else (y - x, True)"
  assumes "uint x < 65536" "uint y < 65536"
  shows "uint (fst (d x y)) < 65536"
    "(if snd (d x y) then - up (fst (d x y)) else up (fst (d x y))) = up x - up y"
proof -
  have "uint (x - y) \<le> uint x" if "y \<le> x" for x y :: "32 word"
    using that by (simp add: uint_minus_simple_alt [THEN iffD1] word_le_def)
  then have "y \<le> x \<Longrightarrow> uint (x - y) < 65536" "\<not> y \<le> x \<Longrightarrow> uint (y - x) < 65536"
    using assms(2,3) by (meson le_less_trans linear)+
  then show "uint (fst (d x y)) < 65536" by (simp add: d_def)
  show "(if snd (d x y) then - up (fst (d x y)) else up (fst (d x y))) = up x - up y"
    by (simp add: d_def up_le_sub)
qed

lemma lmulq_eq: "lmulq u v = up u * up v"
proof (cases "HHALF u = 0 \<and> HHALF v = 0")
  case True
  then have "up u = up (LHALF u)" "up v = up (LHALF v)"
    using up_halves [of u] up_halves [of v] by simp_all
  then show ?thesis
    using True up_mult16 [OF half_bounds(2) half_bounds(2), of u v] by (simp add: lmulq_def Let_def)
next
  case False
  define u1 u0 v1 v0 where d: "u1 = HHALF u" "u0 = LHALF u" "v1 = HHALF v" "v0 = LHALF v"
  obtain ud nu where ud: "(if u0 \<le> u1 then (u1 - u0, False) else (u0 - u1, True)) = (ud, nu)" by fastforce
  obtain vd nv where vd: "(if v1 \<le> v0 then (v0 - v1, False) else (v1 - v0, True)) = (vd, nv)" by fastforce
  have b: "uint u1 < 65536" "uint u0 < 65536" "uint v1 < 65536" "uint v0 < 65536"
    unfolding d using half_bounds by simp_all
  note du = half_diff [OF b(1,2), unfolded ud fst_conv snd_conv]
  note dv = half_diff [OF b(4,3), unfolded vd fst_conv snd_conv]
  have mid: "up (ud * vd) = up ud * up vd" "up (u1 * v1) = up u1 * up v1" "up (u0 * v0) = up u0 * up v0"
    using up_mult16 du(1) dv(1) b by blast+
  have vd': "(if v1 \<le> v0 then (v0 - v1, nu) else (v1 - v0, \<not> nu)) = (vd, nu \<noteq> nv)"
    using vd by (auto split: if_splits)
  let ?h0 = "u1 * v1 + HHALF (u1 * v1)" and ?l0 = "LHUP (u1 * v1)" and ?m = "ud * vd" and ?low = "u0 * v0"
  have p0: "uu ?h0 ?l0 = up u1 * up v1 * 4294967296 + up u1 * up v1 * 65536"
    unfolding uu_add up_hom using up_LHUP [of "u1 * v1"] mid(2) by (simp add: algebra_simps)
  obtain l1 h1 where s1: "(if nu \<noteq> nv then (let prodl = ?l0 - LHUP ?m in (prodl, ?h0 - (HHALF ?m + of_bool (?l0 < prodl))))
      else (let prodl = ?l0 + LHUP ?m in (prodl, ?h0 + (HHALF ?m + of_bool (prodl < ?l0))))) = (l1, h1)" by fastforce
  have p1: "uu h1 l1 = uu ?h0 ?l0 + (up u1 - up u0) * (up v0 - up v1) * 65536"
  proof -
    have "uu h1 l1 = uu ?h0 ?l0 + (if nu \<noteq> nv then - up ?m else up ?m) * 65536"
      using s1 uu_minus [of ?h0 ?m ?l0] uu_plus [of ?h0 ?m ?l0] by (auto simp: Let_def split: if_splits)
    also have "(if nu \<noteq> nv then - up ?m else up ?m) = (up u1 - up u0) * (up v0 - up v1)"
      unfolding du(2) [symmetric] dv(2) [symmetric] mid(1) by simp
    finally show ?thesis .
  qed
  have "lmulq u v = uu (if l1 + LHUP ?low + ?low < ?low then h1 + (HHALF ?low + of_bool (l1 + LHUP ?low < l1)) + 1
        else h1 + (HHALF ?low + of_bool (l1 + LHUP ?low < l1))) (l1 + LHUP ?low + ?low)"
    unfolding lmulq_def d [symmetric] Let_def ud vd' prod.case s1 [unfolded Let_def]
    using False unfolding d [symmetric] by (simp only: if_False)
  also have "\<dots> = uu h1 l1 + up ?low * 65536 + up ?low"
    unfolding uu_low uu_plus ..
  also have "\<dots> = (up u1 * 65536 + up u0) * (up v1 * 65536 + up v0)"
    unfolding p1 p0 mid(3) by (simp add: algebra_simps)
  finally show ?thesis
    unfolding d using up_halves [of u] up_halves [of v] by simp
qed

lemma muldi3_eq: "muldi3 a b = a * b"
proof -
  have core: "(if ui_H u = 0 \<and> ui_H v = 0 then lmulq (ui_L u) (ui_L v)
      else
        let low = lmulq (ui_L u) (ui_L v);
            (negmid, udiff) = (if ui_L u \<le> ui_H u then (False, ui_H u - ui_L u) else (True, ui_L u - ui_H u));
            (vdiff, negmid) = (if ui_H v \<le> ui_L v then (ui_L v - ui_H v, negmid) else (ui_H v - ui_L v, \<not> negmid));
            mid = udiff * vdiff;
            high = ui_H u * ui_H v
        in uu (high + (if negmid then - mid else mid) + ui_L low + ui_H low) (ui_L low)) = u * v" for u v
  proof (cases "ui_H u = 0 \<and> ui_H v = 0")
    case True
    then show ?thesis
      using uu_halves [of u] uu_halves [of v] by (simp add: lmulq_eq uu_add)
  next
    case False
    define u1 u0 v1 v0 low where d: "u1 = ui_H u" "u0 = ui_L u" "v1 = ui_H v" "v0 = ui_L v" "low = lmulq (ui_L u) (ui_L v)"
    have "(4294967296 :: 64 word) * 4294967296 = 0" by simp
    then have M: "x * 4294967296 * 4294967296 = 0" for x :: "64 word" by (simp only: mult.assoc mult_zero_right)
    have low: "up (ui_H low) * 4294967296 + up (ui_L low) = up u0 * up v0"
      using uu_halves [of low] by (simp only: uu_add) (simp add: d lmulq_eq)
    have fin: "uu (u1 * v1 + m + ui_L low + ui_H low) (ui_L low) = u * v"
      if "m = (u1 - u0) * (v0 - v1)" for m
    proof -
      have mm: "up m * 4294967296 = (up u1 - up u0) * (up v0 - up v1) * 4294967296"
        unfolding that by (simp add: algebra_simps up_hom)
      have "uu (u1 * v1 + m + ui_L low + ui_H low) (ui_L low) =
          up u1 * up v1 * 4294967296 + (up u1 - up u0) * (up v0 - up v1) * 4294967296 + up (ui_L low) * 4294967296
          + (up (ui_H low) * 4294967296 + up (ui_L low))"
        unfolding uu_add up_hom mm by simp
      also have "up (ui_L low) * 4294967296 = up u0 * up v0 * 4294967296"
        using arg_cong [OF low, of "\<lambda>x. x * 4294967296"] M [of "up (ui_H low)"] by (simp add: distrib_right)
      finally have "uu (u1 * v1 + m + ui_L low + ui_H low) (ui_L low) =
          (up u1 * up v0 + up u0 * up v1) * 4294967296 + up u0 * up v0"
        unfolding low by (simp add: algebra_simps)
      also have "\<dots> = uu u1 u0 * uu v1 v0"
        using M [of "up u1 * up v1"] by (simp add: uu_add algebra_simps)
      finally show ?thesis by (simp add: d)
    qed
    have "lmulq u0 v0 = low" by (simp add: d)
    moreover note fin [OF refl]
    moreover have "u1 * v1 - (u0 - u1) * (v0 - v1) = u1 * v1 + (u1 - u0) * (v0 - v1)"
        "u1 * v1 - (u1 - u0) * (v1 - v0) = u1 * v1 + (u1 - u0) * (v0 - v1)"
        "(u0 - u1) * (v1 - v0) = (u1 - u0) * (v0 - v1)"
      by (simp_all add: algebra_simps)
    moreover have "(u1 = 0 \<and> v1 = 0) = False" using False by (simp add: d)
    ultimately show ?thesis
      unfolding Let_def d(1-4) [symmetric]
      by (cases "u0 \<le> u1"; cases "v1 \<le> v0") (simp_all only: if_True if_False simp_thms add_uminus_conv_diff prod.case)
  qed
  show ?thesis
    unfolding muldi3_def Let_def
    by (auto simp: core [unfolded Let_def])
qed

section \<open>Properties\<close>

text \<open>C22. 64-bit multiplication.  \<open>__muldi3\<close>, which multiplies the 32-bit halves with the
  three-product scheme and the 32-bit halves in turn from 16-bit ones, computes the
  product modulo 2 to the 64, whatever the signs and the intermediate carries.\<close>
theorem muldi3_multiplies: "muldi3 a b = a * b"
  by (rule muldi3_eq)

text \<open>C25. Shifts.  For every shift distance that C defines, the left and the two right
  shifts on halves are the shifts of the 64-bit word, the arithmetic one with the sign
  bit repeated.\<close>
theorem shifts_match:
  assumes "shift < 64"
  shows "ashldi3 a shift = push_bit shift a \<and> lshldi3 a shift = push_bit shift a \<and>
    lshrdi3 a shift = drop_bit shift a \<and> ashrdi3 a shift = signed_drop_bit shift a"
  using assms by (simp add: lshldi3_eq ashldi3_eq lshrdi3_eq ashrdi3_eq)

theorem shifts_match_witness:
  "(40 :: nat) < 64 \<and> ashldi3 3 40 = 3298534883328 \<and> lshldi3 3 40 = 3298534883328 \<and> lshrdi3 3298534883328 40 = 3 \<and>
    ashrdi3 (- 1) 40 = - 1"
proof -
  have "signed_drop_bit 40 (- 1) = (- 1 :: 64 word)" by (rule bit_word_eqI) (auto simp: bit_simps)
  then show ?thesis
    using shifts_match [of 40 3] shifts_match [of 40 3298534883328] shifts_match [of 40 "- 1"]
    by (simp add: push_bit_eq_mult drop_bit_eq_div)
qed

text \<open>Carries, comparisons and bitwise operations.  Addition, subtraction and negation
  pass the carry or borrow between the halves correctly, and the two comparison
  routines return 0, 1 or 2 for less, equal and greater in the signed and in the
  unsigned order.\<close>
theorem halves_arithmetic:
  "adddi3 a b = a + b \<and> subdi3 a b = a - b \<and> negdi2 a = - a \<and>
   cmpdi2 a b = (if a <s b then 0 else if b <s a then 2 else 1) \<and>
   ucmpdi2 a b = (if a < b then 0 else if b < a then 2 else 1) \<and>
   anddi3 a b = a AND b \<and> iordi3 a b = a OR b \<and> xordi3 a b = a XOR b \<and> one_cmpldi2 a = NOT a"
  by (simp add: adddi3_eq subdi3_eq negdi2_eq cmpdi2_eq ucmpdi2_eq bitwise_eq)

end
