(* ===== verification/Qdivrem.thy ===== *)
theory Qdivrem
  imports Millicode
begin

text \<open>
  The 64-bit division of common/gcc-millicode/qdivrem.c (Program D of Knuth, volume 2)
  and the four routines that call it.  The arrays uspace, vspace and qspace are lists
  of five digits in base 65536, the pointers u, v and q into them are indices, and the
  unsigned int variables are integers with their 32-bit wrap-around written out.  What
  the stack holds before the arrays are written is the argument \<open>stack\<close>.  A value
  \<open>None\<close> stands for a trap or a loop that does not end.
\<close>

section \<open>Digits\<close>

definition u32 :: "int \<Rightarrow> int" where "u32 x = x mod 4294967296"
definition lo16 :: "int \<Rightarrow> int" where "lo16 x = x mod 65536"
definition hi16 :: "int \<Rightarrow> int" where "hi16 x = x div 65536"

definition COMBINE :: "int \<Rightarrow> int \<Rightarrow> int" where
  "COMBINE a b = u32 (a * 65536) OR b"

fun shl_loop :: "int list \<Rightarrow> nat \<Rightarrow> nat \<Rightarrow> nat \<Rightarrow> int list" where
  "shl_loop p i 0 sh = p[i := lo16 (u32 (p ! i * 2 ^ sh))]"
| "shl_loop p i (Suc r) sh =
    shl_loop (p[i := lo16 (u32 (p ! i * 2 ^ sh)) OR (p ! (i + 1) div 2 ^ (16 - sh))]) (i + 1) r sh"

definition shl :: "int list \<Rightarrow> nat \<Rightarrow> nat \<Rightarrow> nat \<Rightarrow> int list" where
  "shl p a len sh = shl_loop p a len sh"

section \<open>The division\<close>

fun skip_v :: "int list \<Rightarrow> nat \<Rightarrow> nat \<Rightarrow> nat \<times> nat" where
  "skip_v vs v 0 = (v, 0)"
| "skip_v vs v (Suc n) =
    (if vs ! (v + 1) = 0 then (if n = 1 then (v, n) else skip_v vs (v + 1) n) else (v, Suc n))"

function skip_u :: "int list \<Rightarrow> nat \<Rightarrow> int \<Rightarrow> (nat \<times> int) option" where
  "skip_u us u m =
    (if length us \<le> u + 1 then None
     else if us ! (u + 1) = 0 then skip_u us (u + 1) (m - 1) else Some (u, m))"
  by pat_completeness auto
termination by (relation "measure (\<lambda>(us, u, m). length us - u)") auto

declare skip_u.simps [simp del]

definition short_division :: "int list \<Rightarrow> int \<Rightarrow> 64 word \<times> 64 word" where
  "short_division us t =
    (let q1 = lo16 (us ! 1 div t);
         rbj = COMBINE (us ! 1 mod t) (us ! 2);
         q2 = lo16 (rbj div t);
         rbj = COMBINE (rbj mod t) (us ! 3);
         q3 = lo16 (rbj div t);
         rbj = COMBINE (rbj mod t) (us ! 4);
         q4 = lo16 (rbj div t)
     in (uu (word_of_int (COMBINE q1 q2)) (word_of_int (COMBINE q3 q4)), word_of_int (rbj mod t)))"

partial_function (option) norm_count :: "int \<Rightarrow> nat \<Rightarrow> nat option" where
  "norm_count t d = (if t < 32768 then norm_count (u32 (t * 2)) (d + 1) else Some d)"

partial_function (option) qhat_test :: "int \<Rightarrow> int \<Rightarrow> int \<Rightarrow> int \<Rightarrow> int \<Rightarrow> int option" where
  "qhat_test v1 v2 uj2 qhat rhat =
    (if COMBINE rhat uj2 < u32 (v2 * qhat) then
       let qhat = u32 (qhat - 1); rhat = u32 (rhat + v1)
       in if 65536 \<le> rhat then Some qhat else qhat_test v1 v2 uj2 qhat rhat
     else Some qhat)"

definition qhat_too_big :: "int \<Rightarrow> int \<Rightarrow> int \<Rightarrow> int \<Rightarrow> int \<Rightarrow> int option" where
  "qhat_too_big v1 v2 uj2 qhat rhat =
    (let qhat = u32 (qhat - 1); rhat = u32 (rhat + v1)
     in if 65536 \<le> rhat then Some qhat else qhat_test v1 v2 uj2 qhat rhat)"

definition calc_qhat :: "int \<Rightarrow> int \<Rightarrow> int \<Rightarrow> int \<Rightarrow> int \<Rightarrow> int option" where
  "calc_qhat v1 v2 uj0 uj1 uj2 =
    (if uj0 = v1 then qhat_too_big v1 v2 uj2 65536 uj1
     else let nn = COMBINE uj0 uj1 in qhat_test v1 v2 uj2 (nn div v1) (nn mod v1))"

fun mul_sub :: "int list \<Rightarrow> int list \<Rightarrow> int \<Rightarrow> nat \<Rightarrow> nat \<Rightarrow> nat \<Rightarrow> int \<Rightarrow> int list \<times> int" where
  "mul_sub us vs qhat uj v 0 t = (us, t)"
| "mul_sub us vs qhat uj v (Suc i) t =
    (let t = u32 (us ! (uj + Suc i) - vs ! (v + Suc i) * qhat - t);
         us = us[uj + Suc i := lo16 t];
         t = u32 (65536 - hi16 t) AND 65535
     in mul_sub us vs qhat uj v i t)"

fun add_back :: "int list \<Rightarrow> int list \<Rightarrow> nat \<Rightarrow> nat \<Rightarrow> nat \<Rightarrow> int \<Rightarrow> int list \<times> int" where
  "add_back us vs uj v 0 t = (us, t)"
| "add_back us vs uj v (Suc i) t =
    (let t = u32 (t + us ! (uj + Suc i) + vs ! (v + Suc i));
         us = us[uj + Suc i := lo16 t]
     in add_back us vs uj v i (hi16 t))"

definition div_step :: "int list \<Rightarrow> nat \<Rightarrow> nat \<Rightarrow> nat \<Rightarrow> int list \<Rightarrow> (int \<times> int list) option" where
  "div_step vs v n uj us = do {
    qhat \<leftarrow> calc_qhat (vs ! (v + 1)) (vs ! (v + 2)) (us ! uj) (us ! (uj + 1)) (us ! (uj + 2));
    let (us, t) = mul_sub us vs qhat uj v n 0;
    let t = u32 (us ! uj - t);
    let us = us[uj := lo16 t];
    Some (if hi16 t \<noteq> 0 then
        let (us, t) = add_back us vs uj v n 0
        in (lo16 (u32 (qhat - 1)), us[uj := lo16 (u32 (us ! uj + t))])
      else (lo16 qhat, us)) }"

fun div_loop :: "int list \<Rightarrow> nat \<Rightarrow> nat \<Rightarrow> nat \<Rightarrow> nat \<Rightarrow> nat \<Rightarrow> nat \<Rightarrow> int list \<Rightarrow> int list \<Rightarrow>
    (int list \<times> int list) option" where
  "div_loop vs v n u q j 0 us qs = do {
    (qhat, us) \<leftarrow> div_step vs v n (u + j) us;
    Some (qs[q + j := qhat], us) }"
| "div_loop vs v n u q j (Suc r) us qs = do {
    (qhat, us) \<leftarrow> div_step vs v n (u + j) us;
    div_loop vs v n u q (j + 1) r us (qs[q + j := qhat]) }"

fun unshift_loop :: "int list \<Rightarrow> nat \<Rightarrow> nat \<Rightarrow> nat \<Rightarrow> int list" where
  "unshift_loop us um 0 d = us[um := 0]"
| "unshift_loop us um (Suc i) d =
    unshift_loop (us[um + Suc i := (us ! (um + Suc i) div 2 ^ d) OR lo16 (u32 (us ! (um + i) * 2 ^ (16 - d)))]) um i d"

definition digits :: "64 word \<Rightarrow> int list" where
  "digits w = [uint (HHALF (ui_H w)), uint (LHALF (ui_H w)), uint (HHALF (ui_L w)), uint (LHALF (ui_L w))]"

definition of_digits :: "int list \<Rightarrow> 64 word" where
  "of_digits xs = uu (word_of_int (COMBINE (xs ! 1) (xs ! 2))) (word_of_int (COMBINE (xs ! 3) (xs ! 4)))"

definition qdivrem :: "(nat \<Rightarrow> int) \<Rightarrow> 64 word \<Rightarrow> 64 word \<Rightarrow> (64 word \<times> 64 word) option" where
  "qdivrem stack ull vll =
    (if vll = 0 then None
     else if ull < vll then Some (0, ull)
     else do {
       let us = 0 # digits ull;
       let vs = lo16 (stack 0) # digits vll;
       let (v, n) = skip_v vs 0 4;
       if n = 1 then Some (short_division us (vs ! (v + 2)))
       else do {
         (u, m) \<leftarrow> skip_u us 0 (4 - int n);
         let qs = replicate (nat (4 - m)) 0 @ drop (nat (4 - m)) (map (\<lambda>i. lo16 (stack i)) [0..<5]);
         let q = nat (4 - m);
         let m = nat m;
         d \<leftarrow> norm_count (vs ! (v + 1)) 0;
         let us = (if d > 0 then shl us u (m + n) d else us);
         let vs = (if d > 0 then shl vs (v + 1) (n - 1) d else vs);
         (qs, us) \<leftarrow> div_loop vs v n u q 0 m us qs;
         let us = (if d \<noteq> 0 then unshift_loop us (u + m) n d else us);
         Some (of_digits qs, of_digits us) } })"

section \<open>The routines that call it\<close>

definition udivdi3 :: "(nat \<Rightarrow> int) \<Rightarrow> 64 word \<Rightarrow> 64 word \<Rightarrow> 64 word option" where
  "udivdi3 stack a b = map_option fst (qdivrem stack a b)"

definition umoddi3 :: "(nat \<Rightarrow> int) \<Rightarrow> 64 word \<Rightarrow> 64 word \<Rightarrow> 64 word option" where
  "umoddi3 stack a b = map_option snd (qdivrem stack a b)"

definition divdi3 :: "(nat \<Rightarrow> int) \<Rightarrow> 64 word \<Rightarrow> 64 word \<Rightarrow> 64 word option" where
  "divdi3 stack a b = do {
    let (ua, neg) = (if sint a < 0 then (- a, True) else (a, False));
    let (ub, neg) = (if sint b < 0 then (- b, \<not> neg) else (b, neg));
    (uq, _) \<leftarrow> qdivrem stack ua ub;
    Some (if neg then - uq else uq) }"

definition moddi3 :: "(nat \<Rightarrow> int) \<Rightarrow> 64 word \<Rightarrow> 64 word \<Rightarrow> 64 word option" where
  "moddi3 stack a b = do {
    let (ua, neg) = (if sint a < 0 then (- a, True) else (a, False));
    let ub = (if sint b < 0 then - b else b);
    (_, ur) \<leftarrow> qdivrem stack ua ub;
    Some (if neg then - ur else ur) }"

section \<open>The value of a run of digits\<close>

definition digs :: "int list \<Rightarrow> bool" where
  "digs xs \<longleftrightarrow> (\<forall>x \<in> set xs. 0 \<le> x \<and> x < 65536)"

fun seg :: "int list \<Rightarrow> nat \<Rightarrow> nat \<Rightarrow> int" where
  "seg xs a 0 = 0"
| "seg xs a (Suc k) = seg xs a k * 65536 + xs ! (a + k)"

lemma digs_nth: "digs xs \<Longrightarrow> i < length xs \<Longrightarrow> 0 \<le> xs ! i \<and> xs ! i < 65536"
  by (auto simp: digs_def)

lemma digs_update: "digs xs \<Longrightarrow> 0 \<le> x \<Longrightarrow> x < 65536 \<Longrightarrow> digs (xs[i := x])"
  by (auto simp: digs_def dest!: subsetD [OF set_update_subset_insert])

lemma seg_cong: "(\<And>i. i < k \<Longrightarrow> xs ! (a + i) = ys ! (a + i)) \<Longrightarrow> seg xs a k = seg ys a k"
  by (induction k) auto

lemma seg_bound: "digs xs \<Longrightarrow> a + k \<le> length xs \<Longrightarrow> 0 \<le> seg xs a k \<and> seg xs a k < 65536 ^ k"
proof (induction k)
  case (Suc k)
  then have "0 \<le> seg xs a k" "seg xs a k + 1 \<le> 65536 ^ k" "0 \<le> xs ! (a + k)" "xs ! (a + k) < 65536"
    using digs_nth [of xs "a + k"] by auto
  then show ?case by simp
qed simp

lemma seg_split: "seg xs a (k + l) = seg xs a k * 65536 ^ l + seg xs (a + k) l"
  by (induction l) (simp_all add: algebra_simps)

lemma seg_head: "seg xs a (Suc k) = xs ! a * 65536 ^ k + seg xs (Suc a) k"
  using seg_split [of xs a 1 k] by simp

lemma seg_top_zero:
  assumes "digs xs" "a + Suc k \<le> length xs" "seg xs a (Suc k) < 65536 ^ k"
  shows "xs ! a = 0"
proof (rule ccontr)
  assume "xs ! a \<noteq> 0"
  then have "1 \<le> xs ! a" using digs_nth [OF assms(1), of a] assms(2) by auto
  then have "65536 ^ k \<le> xs ! a * 65536 ^ k" by simp
  moreover have "0 \<le> seg xs (Suc a) k" using seg_bound [OF assms(1), of "Suc a" k] assms(2) by simp
  ultimately show False using assms(3) unfolding seg_head by linarith
qed

lemma or_add: "(a :: int) OR b = a + b" if "2 ^ k dvd a" "0 \<le> b" "b < 2 ^ k"
proof -
  from that(1) obtain c where a: "a = push_bit k c" by (auto simp: push_bit_eq_mult mult.commute)
  have b: "b = take_bit k b" using that(2,3) by (simp add: take_bit_int_eq_self)
  have "push_bit k c + take_bit k b = push_bit k c OR take_bit k b"
    by (rule disjunctive_add) (auto simp: bit_simps)
  then show ?thesis using a b by metis
qed

lemma COMBINE_eq: "COMBINE a b = a * 65536 + b" if "0 \<le> a" "a < 65536" "0 \<le> b" "b < 65536"
proof -
  have "u32 (a * 65536) = a * 65536" using that by (simp add: u32_def)
  then show ?thesis using or_add [of 16 "a * 65536" b] that by (simp add: COMBINE_def)
qed

section \<open>Multiply and subtract, add back\<close>

lemma borrow_step:
  assumes "0 \<le> u" "u < 65536" "0 \<le> w" "w < 65536" "0 \<le> q" "q < 65536" "0 \<le> t" "t < 65536"
  defines "x \<equiv> u - w * q - t"
  shows "lo16 (u32 x) = x mod 65536" "u32 (65536 - hi16 (u32 x)) AND 65535 = - (x div 65536)"
    "0 \<le> - (x div 65536)" "- (x div 65536) < 65536"
proof -
  show "lo16 (u32 x) = x mod 65536" by (simp add: lo16_def u32_def mod_mod_cancel)
  have "w * q \<le> 65535 * 65535" by (rule mult_mono) (use assms in auto)
  moreover have "0 \<le> w * q" using assms by simp
  ultimately have x: "- 4294901760 \<le> x" "x < 65536" using assms(1,2,7,8) unfolding x_def by linarith+
  then show b: "0 \<le> - (x div 65536)" "- (x div 65536) < 65536" by linarith+
  have "u32 (65536 - hi16 (u32 x)) = (if x < 0 then - (x div 65536) else 65536)"
  proof (cases "x < 0")
    case True
    have "u32 x = (x + 4294967296) mod 4294967296" by (simp add: u32_def)
    also have "\<dots> = x + 4294967296" using x True by (intro mod_pos_pos_trivial) auto
    finally have "u32 x = x + 4294967296" .
    then have "hi16 (u32 x) = x div 65536 + 65536" by (simp add: hi16_def)
    then show ?thesis using True b by (simp add: u32_def)
  next
    case False
    then show ?thesis using x by (simp add: u32_def hi16_def)
  qed
  moreover have "- (x div 65536) AND 65535 = - (x div 65536)"
    using b and_int_unfold take_bit_int_eq_self [of "- (x div 65536)" 16] by (simp add: take_bit_eq_mask mask_eq_exp_minus_1)
  ultimately show "u32 (65536 - hi16 (u32 x)) AND 65535 = - (x div 65536)" using x by auto
qed

lemma mul_sub_eq:
  assumes "mul_sub us vs q uj v i t = (us', t')" "digs us" "digs vs" "uj + i < length us" "v + i < length vs"
    "0 \<le> q" "q < 65536" "0 \<le> t" "t < 65536"
  shows "digs us' \<and> length us' = length us \<and> 0 \<le> t' \<and> t' < 65536 \<and> (\<forall>k. k \<le> uj \<or> uj + i < k \<longrightarrow> us' ! k = us ! k) \<and>
    seg us' (Suc uj) i = seg us (Suc uj) i - q * seg vs (Suc v) i - t + t' * 65536 ^ i"
  using assms
proof (induction i arbitrary: us t)
  case (Suc i)
  define x where "x = us ! (uj + Suc i) - vs ! (v + Suc i) * q - t"
  define us1 where "us1 = us[uj + Suc i := x mod 65536]"
  have "0 \<le> us ! (uj + Suc i)" "us ! (uj + Suc i) < 65536" "0 \<le> vs ! (v + Suc i)" "vs ! (v + Suc i) < 65536"
    using Suc.prems digs_nth by blast+
  note b = borrow_step [OF this Suc.prems(6-9), folded x_def]
  have m: "mul_sub us1 vs q uj v i (- (x div 65536)) = (us', t')"
    using Suc.prems(1) unfolding mul_sub.simps Let_def x_def [symmetric] b us1_def [symmetric] .
  have d: "digs us1" "length us1 = length us" using Suc.prems(2) by (simp_all add: us1_def digs_update)
  note ih = Suc.IH [OF m d(1) Suc.prems(3) _ _ Suc.prems(6,7) b(3,4)]
  have ih: "digs us'" "length us' = length us" "0 \<le> t'" "t' < 65536" "\<And>k. k \<le> uj \<or> uj + i < k \<Longrightarrow> us' ! k = us1 ! k"
    "seg us' (Suc uj) i = seg us1 (Suc uj) i - q * seg vs (Suc v) i + x div 65536 + t' * 65536 ^ i"
    using ih Suc.prems(4,5) d(2) by auto
  have "seg us1 (Suc uj) i = seg us (Suc uj) i" by (rule seg_cong) (simp add: us1_def)
  moreover obtain c r where cr: "x div 65536 = c" "x mod 65536 = r" "c * 65536 + r = us ! (Suc uj + i) - vs ! (Suc v + i) * q - t"
    using div_mult_mod_eq [of x 65536] by (simp add: x_def)
  moreover have "us' ! (Suc uj + i) = r" using ih(5) [of "Suc uj + i"] Suc.prems(4) by (simp add: us1_def cr)
  ultimately have "seg us' (Suc uj) (Suc i) = seg us (Suc uj) (Suc i) - q * seg vs (Suc v) (Suc i) - t + t' * 65536 ^ Suc i"
    using ih(6) unfolding cr(1) by (simp add: algebra_simps)
  then show ?case using ih(1-5) by (auto simp: us1_def)
qed auto

lemma add_back_eq:
  assumes "add_back us vs uj v i t = (us', t')" "digs us" "digs vs" "uj + i < length us" "v + i < length vs"
    "0 \<le> t" "t \<le> 1"
  shows "digs us' \<and> length us' = length us \<and> 0 \<le> t' \<and> t' \<le> 1 \<and> (\<forall>k. k \<le> uj \<or> uj + i < k \<longrightarrow> us' ! k = us ! k) \<and>
    seg us' (Suc uj) i = seg us (Suc uj) i + seg vs (Suc v) i + t - t' * 65536 ^ i"
  using assms
proof (induction i arbitrary: us t)
  case (Suc i)
  define x where "x = t + us ! (uj + Suc i) + vs ! (v + Suc i)"
  define us1 where "us1 = us[uj + Suc i := x mod 65536]"
  have "0 \<le> us ! (uj + Suc i)" "us ! (uj + Suc i) < 65536" "0 \<le> vs ! (v + Suc i)" "vs ! (v + Suc i) < 65536"
    using Suc.prems digs_nth by blast+
  then have x: "0 \<le> x" "x < 131072" using Suc.prems(6,7) by (simp_all add: x_def)
  then have b: "u32 x = x" "0 \<le> x div 65536" "x div 65536 \<le> 1" by (simp_all add: u32_def)
  have m: "add_back us1 vs uj v i (x div 65536) = (us', t')"
    using Suc.prems(1) unfolding add_back.simps Let_def x_def [symmetric] b lo16_def hi16_def us1_def [symmetric] .
  have d: "digs us1" "length us1 = length us" using Suc.prems(2) by (simp_all add: us1_def digs_update)
  note ih = Suc.IH [OF m d(1) Suc.prems(3) _ _ b(2,3)]
  have ih: "digs us'" "length us' = length us" "0 \<le> t'" "t' \<le> 1" "\<And>k. k \<le> uj \<or> uj + i < k \<Longrightarrow> us' ! k = us1 ! k"
    "seg us' (Suc uj) i = seg us1 (Suc uj) i + seg vs (Suc v) i + x div 65536 - t' * 65536 ^ i"
    using ih Suc.prems(4,5) d(2) by auto
  have "seg us1 (Suc uj) i = seg us (Suc uj) i" by (rule seg_cong) (simp add: us1_def)
  moreover obtain c r where cr: "x div 65536 = c" "x mod 65536 = r" "c * 65536 + r = t + us ! (Suc uj + i) + vs ! (Suc v + i)"
    using div_mult_mod_eq [of x 65536] by (simp add: x_def)
  moreover have "us' ! (Suc uj + i) = r" using ih(5) [of "Suc uj + i"] Suc.prems(4) by (simp add: us1_def cr)
  ultimately have "seg us' (Suc uj) (Suc i) = seg us (Suc uj) (Suc i) + seg vs (Suc v) (Suc i) + t - t' * 65536 ^ Suc i"
    using ih(6) unfolding cr(1) by (simp add: algebra_simps)
  then show ?case using ih(1-5) by (auto simp: us1_def)
qed auto

section \<open>The trial digit\<close>

lemma int_div_times: "n div v * v \<le> n" if "0 < v" for n v :: int
  using div_mult_mod_eq [of n v] pos_mod_sign [OF that, of n] by linarith

lemma int_div_less: "n div v < q" if "0 < v" "n < q * v" for n v q :: int
proof (rule ccontr)
  assume "\<not> n div v < q"
  then have "q * v \<le> n div v * v" using that(1) by simp
  then show False using int_div_times [OF that(1), of n] that(2) by linarith
qed

lemma int_le_div: "q \<le> n div v" if "0 < v" "q * v \<le> n" for n v q :: int
  using zdiv_mono1 [OF that(2,1)] that(1) by simp

lemma lead_zero: "a = 0" if "0 \<le> s" "s < p" "0 \<le> a * p + s" "a * p + s < p" for a s p :: int
proof -
  have "0 < p" using that by linarith
  moreover have "a * p < 1 * p" "(- 1) * p < a * p" using that by linarith+
  ultimately have "a < 1" "- 1 < a" by (simp_all only: mult_less_cancel_right_pos)
  then show ?thesis by simp
qed

lemma lead_bound: "(x * 65536 + y) * p + l < (x + 1) * (65536 * p)" if "y < 65536" "l < p" "0 < p" for x y l p :: int
proof -
  have "(y + 1) * p \<le> 65536 * p" using that by (intro mult_right_mono) auto
  then have "y * p + l < 65536 * p" using that(2) unfolding distrib_right by linarith
  then show ?thesis by (simp add: algebra_simps)
qed

lemma lead_sign: "0 \<le> a * p + s \<longleftrightarrow> 0 \<le> a" if "0 \<le> s" "s < p" for a s p :: int
proof
  assume "0 \<le> a * p + s"
  moreover have "0 < p" using that by linarith
  ultimately have "(- 1) * p < a * p" using that by linarith
  then show "0 \<le> a" using \<open>0 < p\<close> by (simp only: mult_less_cancel_right_pos)
qed (use that in simp)

text \<open>\<open>good_qhat\<close>: a trial digit that is at least the true one and whose product with the two leading divisor digits fits.\<close>

definition good_qhat :: "int \<Rightarrow> int \<Rightarrow> int \<Rightarrow> int \<Rightarrow> int \<Rightarrow> int \<Rightarrow> bool" where
  "good_qhat v1 v2 nn uj2 qs q \<longleftrightarrow> qs \<le> q \<and> q < 65536 \<and> q * (v1 * 65536 + v2) \<le> nn * 65536 + uj2"

lemma qhat_test_ok:
  assumes "0 < v1" "v1 < 65536" "0 \<le> v2" "v2 < 65536" "0 \<le> uj2" "uj2 < 65536" "0 \<le> qs"
    and big: "\<And>q. nn * 65536 + uj2 < q * (v1 * 65536 + v2) \<Longrightarrow> qs < q"
    and "0 \<le> rhat" "rhat < 65536" "qhat < 65536" "qs \<le> qhat" "qhat * v1 + rhat = nn"
  shows "\<exists>q. qhat_test v1 v2 uj2 qhat rhat = Some q \<and> good_qhat v1 v2 nn uj2 qs q"
  using assms(9-)
proof (induction "nat (65536 - rhat)" arbitrary: qhat rhat rule: less_induct)
  case less
  have "0 \<le> v2 * qhat" using assms(3,7) less.prems by simp
  moreover have "v2 * qhat \<le> 65535 * 65535" by (rule mult_mono) (use assms less.prems in auto)
  ultimately have p: "u32 (v2 * qhat) = v2 * qhat" by (simp add: u32_def)
  have c: "COMBINE rhat uj2 = rhat * 65536 + uj2" by (rule COMBINE_eq) (use assms less.prems in auto)
  have nn: "nn * 65536 = qhat * v1 * 65536 + rhat * 65536" using less.prems by (simp add: algebra_simps)
  show ?case
  proof (cases "rhat * 65536 + uj2 < v2 * qhat")
    case False
    then have "good_qhat v1 v2 nn uj2 qs qhat" using less.prems nn by (simp add: good_qhat_def algebra_simps)
    then show ?thesis using False by (subst qhat_test.simps) (simp add: p c)
  next
    case True
    then have "nn * 65536 + uj2 < qhat * (v1 * 65536 + v2)" unfolding nn by (simp add: algebra_simps)
    then have q: "qs < qhat" by (rule big)
    then have w: "u32 (qhat - 1) = qhat - 1" "u32 (rhat + v1) = rhat + v1"
      using assms less.prems by (simp_all add: u32_def)
    have e: "(qhat - 1) * v1 + (rhat + v1) = nn" using less.prems by (simp add: algebra_simps)
    show ?thesis
    proof (cases "65536 \<le> rhat + v1")
      case far: True
      have "v2 * (qhat - 1) \<le> 65536 * 65536" by (rule mult_mono) (use assms q less.prems in auto)
      moreover have "nn * 65536 = (qhat - 1) * v1 * 65536 + (rhat + v1) * 65536" using e by (simp add: algebra_simps)
      ultimately have "good_qhat v1 v2 nn uj2 qs (qhat - 1)"
        using far q less.prems assms(5) by (simp add: good_qhat_def algebra_simps)
      then show ?thesis using True far by (subst qhat_test.simps) (simp add: p c w)
    next
      case near: False
      have "\<exists>q. qhat_test v1 v2 uj2 (qhat - 1) (rhat + v1) = Some q \<and> good_qhat v1 v2 nn uj2 qs q"
        by (rule less.hyps) (use near q e assms(1) less.prems in auto)
      then show ?thesis using True near by (subst qhat_test.simps) (simp add: p c w)
    qed
  qed
qed

lemma calc_qhat_ok:
  assumes "0 < v1" "v1 < 65536" "0 \<le> v2" "v2 < 65536" "0 \<le> uj2" "uj2 < 65536" "0 \<le> qs" "qs < 65536"
    "0 \<le> uj0" "uj0 \<le> v1" "0 \<le> uj1" "uj1 < 65536"
  defines "nn \<equiv> uj0 * 65536 + uj1"
  assumes "qs * v1 \<le> nn"
    and big: "\<And>q. nn * 65536 + uj2 < q * (v1 * 65536 + v2) \<Longrightarrow> qs < q"
  shows "\<exists>q. calc_qhat v1 v2 uj0 uj1 uj2 = Some q \<and> good_qhat v1 v2 nn uj2 qs q"
proof -
  have test: "\<exists>q. qhat_test v1 v2 uj2 qhat rhat = Some q \<and> good_qhat v1 v2 nn uj2 qs q"
    if "0 \<le> rhat" "rhat < 65536" "qhat < 65536" "qs \<le> qhat" "qhat * v1 + rhat = nn" for rhat qhat
    by (rule qhat_test_ok [OF assms(1-7) big that])
  show ?thesis
  proof (cases "uj0 = v1")
    case True
    have w: "u32 65535 = 65535" "u32 (uj1 + v1) = uj1 + v1" using assms by (simp_all add: u32_def)
    have e: "65535 * v1 + (uj1 + v1) = nn" using True by (simp add: nn_def)
    show ?thesis
    proof (cases "65536 \<le> uj1 + v1")
      case far: True
      have "65535 * v2 \<le> 65535 * 65535" using assms by simp
      then have "good_qhat v1 v2 nn uj2 qs 65535" using e far assms by (simp add: good_qhat_def)
      then show ?thesis using True far by (simp add: calc_qhat_def qhat_too_big_def w)
    next
      case False
      have "\<exists>q. qhat_test v1 v2 uj2 65535 (uj1 + v1) = Some q \<and> good_qhat v1 v2 nn uj2 qs q"
        by (rule test) (use False e assms in auto)
      then show ?thesis using True False by (simp add: calc_qhat_def qhat_too_big_def w)
    qed
  next
    case False
    have c: "COMBINE uj0 uj1 = nn" unfolding nn_def by (rule COMBINE_eq) (use assms in auto)
    have "nn < 65536 * v1" using False assms by (simp add: nn_def)
    then have "nn div v1 < 65536" using assms(1) by (intro int_div_less) (simp_all add: mult.commute)
    moreover have "qs \<le> nn div v1" using assms(1) \<open>qs * v1 \<le> nn\<close> by (rule int_le_div)
    moreover have "0 \<le> nn mod v1" "nn mod v1 < 65536" using assms(1,2) pos_mod_bound [of v1 nn] pos_mod_sign [of v1 nn] by linarith+
    ultimately show ?thesis using False test [of "nn mod v1" "nn div v1"] by (simp add: calc_qhat_def c)
  qed
qed

section \<open>One quotient digit\<close>

lemma good_qhat_close:
  assumes q: "good_qhat v1 v2 nn uj2 (W div V) q" and "0 < v1" "0 \<le> v2" "0 < V" "0 \<le> W"
    and W: "W = (nn * 65536 + uj2) * P + wl" "0 \<le> wl" "wl < P"
    and V: "V = (v1 * 65536 + v2) * P + vl" "0 \<le> vl" "vl < P"
  shows "q = W div V \<or> q = W div V + 1"
proof -
  have le: "W div V \<le> q" "q < 65536" "q * (v1 * 65536 + v2) \<le> nn * 65536 + uj2" using q by (simp_all add: good_qhat_def)
  have q0: "0 \<le> q" using le(1) assms by (meson order_trans pos_imp_zdiv_nonneg_iff)
  have "(q - 1) * V \<le> W" if "0 < q"
  proof -
    have "(q - 1) * V \<le> (q - 1) * ((v1 * 65536 + v2 + 1) * P)"
      using V that by (intro mult_left_mono) (simp_all add: algebra_simps)
    also have "\<dots> = (q * (v1 * 65536 + v2) + (q - (v1 * 65536 + v2 + 1))) * P" by (simp add: algebra_simps)
    also have "\<dots> \<le> (nn * 65536 + uj2) * P"
      using le assms by (intro mult_right_mono) simp_all
    finally show ?thesis using W by simp
  qed
  then have "q - 1 \<le> W div V" if "0 < q" using that \<open>0 < V\<close> by (intro int_le_div) simp_all
  moreover have "0 \<le> W div V" using assms by (simp add: pos_imp_zdiv_nonneg_iff)
  ultimately show ?thesis using le(1) q0 by linarith
qed

lemma digit_wrap: "u32 (a - t) = a - t \<and> hi16 (u32 (a - t)) = 0 \<and> lo16 (u32 (a - t)) = a - t \<and> t \<le> a \<or>
    hi16 (u32 (a - t)) \<noteq> 0 \<and> lo16 (u32 (a - t)) = a - t + 65536 \<and> a < t"
  if "0 \<le> a" "a < 65536" "0 \<le> t" "t < 65536"
proof (cases "t \<le> a")
  case True
  then show ?thesis using that by (simp add: u32_def hi16_def lo16_def)
next
  case False
  have "u32 (a - t) = (a - t + 4294967296) mod 4294967296" by (simp add: u32_def)
  also have "\<dots> = a - t + 4294967296" using False that by (intro mod_pos_pos_trivial) auto
  finally have u: "u32 (a - t) = (a - t + 65536) + 65535 * 65536" by simp
  have "(a - t + 65536) div 65536 = 0" "(a - t + 65536) mod 65536 = a - t + 65536"
    using False that by (auto intro: div_pos_pos_trivial mod_pos_pos_trivial simp del: div_add_self2 mod_add_self2)
  then have "hi16 (u32 (a - t)) = 65535" "lo16 (u32 (a - t)) = a - t + 65536"
    unfolding u hi16_def lo16_def by (simp_all only: div_mult_self1 mod_mult_self1)
  then show ?thesis using False by simp
qed

lemma div_step_ok:
  assumes us: "digs us" "uj + n < length us" and vs: "digs vs" "v + n < length vs"
    and n: "2 \<le> n" and v1: "0 < vs ! (v + 1)"
  defines "V \<equiv> seg vs (Suc v) n" and "W \<equiv> seg us uj (Suc n)"
  assumes WV: "W < V * 65536"
  shows "\<exists>us'. div_step vs v n uj us = Some (W div V, us') \<and> digs us' \<and> length us' = length us \<and>
    (\<forall>k. k < uj \<or> uj + n < k \<longrightarrow> us' ! k = us ! k) \<and> seg us' uj (Suc n) = W mod V"
proof -
  define P nn where "P = (65536 :: int) ^ (n - 2)" and "nn = us ! uj * 65536 + us ! (uj + 1)"
  have n2: "n = 2 + (n - 2)" using n by simp
  have W0: "0 \<le> W" "0 \<le> V" using seg_bound [OF us(1), of uj "Suc n"] seg_bound [OF vs(1), of "Suc v" n] us vs
    by (simp_all add: W_def V_def)
  have Vs: "V = (vs ! (v + 1) * 65536 + vs ! (v + 2)) * P + seg vs (v + 3) (n - 2)"
    unfolding V_def P_def by (subst n2, subst seg_split) (simp add: numeral_2_eq_2 numeral_3_eq_3)
  have Ws: "W = (nn * 65536 + us ! (uj + 2)) * P + seg us (uj + 3) (n - 2)"
    unfolding W_def P_def nn_def using seg_split [of us uj 3 "n - 2"] n by (simp add: numeral_3_eq_3 Suc_diff_Suc numeral_2_eq_2)
  have vl: "0 \<le> seg vs (v + 3) (n - 2)" "seg vs (v + 3) (n - 2) < P"
    using seg_bound [OF vs(1), of "v + 3" "n - 2"] vs n by (simp_all add: P_def)
  have wl: "0 \<le> seg us (uj + 3) (n - 2)" "seg us (uj + 3) (n - 2) < P"
    using seg_bound [OF us(1), of "uj + 3" "n - 2"] us n by (simp_all add: P_def)
  have P: "0 < P" by (simp add: P_def)
  have v2: "0 \<le> vs ! (v + 2)" "vs ! (v + 2) < 65536" "vs ! (v + 1) < 65536"
    using digs_nth [OF vs(1), of "v + 2"] digs_nth [OF vs(1), of "v + 1"] vs n by auto
  have u2: "0 \<le> us ! uj" "us ! uj < 65536" "0 \<le> us ! (uj + 1)" "us ! (uj + 1) < 65536"
      "0 \<le> us ! (uj + 2)" "us ! (uj + 2) < 65536"
    using digs_nth [OF us(1), of "uj + 2"] digs_nth [OF us(1), of "uj + 1"] digs_nth [OF us(1), of uj] us n by auto
  have "P \<le> (vs ! (v + 1) * 65536 + vs ! (v + 2)) * P" using P v1 v2 by simp
  then have V: "0 < V" using P vl unfolding Vs by linarith
  have qs: "0 \<le> W div V" "W div V < 65536" "W div V * V \<le> W"
    using V W0(1) WV int_div_times [OF V, of W] by (simp_all add: pos_imp_zdiv_nonneg_iff int_div_less mult.commute)
  have "us ! uj \<le> vs ! (v + 1)"
  proof -
    have "us ! uj * (65536 * 65536 * P) \<le> W"
      unfolding Ws nn_def using u2 wl P by (simp add: algebra_simps)
    also have "W < V * 65536" by (rule WV)
    also have "V \<le> (vs ! (v + 1) + 1) * (65536 * P)"
      unfolding Vs using lead_bound [OF v2(2) vl(2)] P by (simp add: less_imp_le)
    finally have "us ! uj * (65536 * 65536 * P) < (vs ! (v + 1) + 1) * (65536 * 65536 * P)" by simp
    then have "us ! uj < vs ! (v + 1) + 1" using P by (simp only: mult_less_cancel_right_pos)
    then show ?thesis by simp
  qed
  moreover have "W div V * vs ! (v + 1) \<le> nn"
  proof -
    have "W div V * (vs ! (v + 1) * (65536 * P)) \<le> W div V * V"
      using qs(1) vl v2 P unfolding Vs by (intro mult_left_mono) (simp_all add: algebra_simps)
    also have "\<dots> \<le> W" by (rule qs)
    also have "W < (nn + 1) * (65536 * P)"
      unfolding Ws using lead_bound [OF u2(6) wl(2)] P by simp
    finally have "W div V * vs ! (v + 1) * (65536 * P) < (nn + 1) * (65536 * P)" by (simp add: mult.assoc)
    then have "W div V * vs ! (v + 1) < nn + 1" using P by (simp only: mult_less_cancel_right_pos)
    then show ?thesis by simp
  qed
  moreover have "W div V < q" if "nn * 65536 + us ! (uj + 2) < q * (vs ! (v + 1) * 65536 + vs ! (v + 2))" for q
  proof (rule int_div_less [OF V])
    have "0 < q * (vs ! (v + 1) * 65536 + vs ! (v + 2))" using that u2 by (simp add: nn_def)
    then have q: "0 < q" using v1 v2 by (simp add: zero_less_mult_iff)
    have "W < (nn * 65536 + us ! (uj + 2) + 1) * P" unfolding Ws using wl by (simp add: algebra_simps)
    also have "\<dots> \<le> q * (vs ! (v + 1) * 65536 + vs ! (v + 2)) * P" using that P by (intro mult_right_mono) auto
    also have "\<dots> \<le> q * V" unfolding Vs using vl q by (simp add: algebra_simps)
    finally show "W < q * V" .
  qed
  ultimately obtain qhat where qhat: "calc_qhat (vs ! (v + 1)) (vs ! (v + 2)) (us ! uj) (us ! (uj + 1)) (us ! (uj + 2)) = Some qhat"
      "good_qhat (vs ! (v + 1)) (vs ! (v + 2)) nn (us ! (uj + 2)) (W div V) qhat"
    using calc_qhat_ok [OF v1 v2(3,1,2) u2(5,6) qs(1,2) u2(1) _ u2(3,4), folded nn_def] by blast
  note close = good_qhat_close [OF qhat(2) v1 v2(1) V W0(1) Ws wl Vs vl]
  have q0: "0 \<le> qhat" "qhat < 65536" using qhat(2) qs by (simp_all add: good_qhat_def)
  obtain us1 t1 where ms: "mul_sub us vs qhat uj v n 0 = (us1, t1)" by fastforce
  from mul_sub_eq [OF ms us(1) vs(1) us(2) vs(2) q0] have m1: "digs us1" "length us1 = length us" "0 \<le> t1" "t1 < 65536"
      "\<And>k. k \<le> uj \<or> uj + n < k \<Longrightarrow> us1 ! k = us ! k"
      "seg us1 (Suc uj) n = seg us (Suc uj) n - qhat * V + t1 * 65536 ^ n"
    by (auto simp: V_def)
  define a where "a = us ! uj - t1"
  define us2 where "us2 = us1[uj := lo16 (u32 a)]"
  have s2: "seg us2 (Suc uj) n = seg us1 (Suc uj) n" by (rule seg_cong) (simp add: us2_def)
  have b1: "0 \<le> seg us1 (Suc uj) n" "seg us1 (Suc uj) n < 65536 ^ n"
    using seg_bound [OF m1(1), of "Suc uj" n] m1(2) us(2) by simp_all
  have r: "a * 65536 ^ n + seg us1 (Suc uj) n = W - qhat * V"
    unfolding W_def seg_head m1(6) a_def by (simp add: algebra_simps)
  have us1j: "us1 ! uj = us ! uj" using m1(5) by simp
  have lo: "0 \<le> lo16 x" "lo16 x < 65536" for x by (simp_all add: lo16_def)
  have d2: "digs us2" "length us2 = length us" "us2 ! uj = lo16 (u32 a)" "\<And>k. k < uj \<or> uj + n < k \<Longrightarrow> us2 ! k = us ! k"
    using m1 us(2) lo by (auto simp: us2_def digs_update)
  have md: "0 \<le> W mod V" "W mod V < V" using V by simp_all
  have wq: "W - W div V * V = W mod V" by (rule minus_div_mult_eq_mod)
  then have wq1: "W - (W div V + 1) * V = W mod V - V" unfolding distrib_right by linarith
  have Vn: "V < 65536 ^ n" using seg_bound [OF vs(1), of "Suc v" n] vs(2) by (simp add: V_def)
  note wrap = digit_wrap [OF u2(1,2) m1(3,4), folded a_def]
  from close show ?thesis
  proof
    assume q: "qhat = W div V"
    note r = r [unfolded q wq]
    then have "0 \<le> a * 65536 ^ n + seg us1 (Suc uj) n" using md by simp
    then have "0 \<le> a" by (simp only: lead_sign [OF b1])
    then have w: "hi16 (u32 a) = 0" "lo16 (u32 a) = a" using wrap by (auto simp: a_def)
    have "div_step vs v n uj us = Some (W div V, us2)"
      using q0 unfolding div_step_def qhat(1)
      by (simp add: Let_def ms us1j a_def [symmetric] w us2_def q [symmetric]) (simp add: lo16_def)
    moreover have "seg us2 uj (Suc n) = W mod V"
      unfolding seg_head d2(3) w s2 r ..
    ultimately show ?thesis using d2 by blast
  next
    assume q: "qhat = W div V + 1"
    note r = r [unfolded q wq1]
    then have "\<not> 0 \<le> a * 65536 ^ n + seg us1 (Suc uj) n" using md by simp
    then have "a < 0" unfolding lead_sign [OF b1] by simp
    then have w: "hi16 (u32 a) \<noteq> 0" "lo16 (u32 a) = a + 65536" using wrap by (auto simp: a_def)
    obtain us3 t3 where ab: "add_back us2 vs uj v n 0 = (us3, t3)" by fastforce
    from add_back_eq [OF ab d2(1) vs(1) _ vs(2)] have m3: "digs us3" "length us3 = length us" "0 \<le> t3" "t3 \<le> 1"
        "\<And>k. k \<le> uj \<or> uj + n < k \<Longrightarrow> us3 ! k = us2 ! k"
        "seg us3 (Suc uj) n = seg us2 (Suc uj) n + V - t3 * 65536 ^ n"
      using us(2) d2(2) by (auto simp: V_def)
    have b3: "0 \<le> seg us3 (Suc uj) n" "seg us3 (Suc uj) n < 65536 ^ n"
      using seg_bound [OF m3(1), of "Suc uj" n] m3(2) us(2) by simp_all
    have t: "(a + t3) * 65536 ^ n + seg us3 (Suc uj) n = W mod V"
      using r unfolding m3(6) s2 by (simp add: algebra_simps)
    then have "a + t3 = 0" using lead_zero [OF b3, of "a + t3"] md Vn by simp
    then have z: "lo16 (u32 (us3 ! uj + t3)) = 0" and sm: "seg us3 (Suc uj) n = W mod V"
      using t m3(5) [of uj] d2(3) w by (simp_all add: lo16_def u32_def add.assoc add.commute [of a])
    define us4 where "us4 = us3[uj := 0]"
    have "seg us4 (Suc uj) n = seg us3 (Suc uj) n" by (rule seg_cong) (simp add: us4_def)
    then have "seg us4 uj (Suc n) = W mod V" using us(2) m3(2) sm unfolding seg_head by (simp add: us4_def)
    moreover have "div_step vs v n uj us = Some (W div V, us4)"
    proof -
      have "lo16 (u32 (qhat - 1)) = W div V" using q qs q0 by (simp add: lo16_def u32_def)
      then show ?thesis
        unfolding div_step_def qhat(1)
        by (simp add: Let_def ms us1j a_def [symmetric] w(1) us2_def [symmetric] ab z us4_def)
    qed
    moreover have "digs us4" "length us4 = length us" using m3 by (simp_all add: us4_def digs_update)
    moreover have "\<forall>k. k < uj \<or> uj + n < k \<longrightarrow> us4 ! k = us ! k" using m3(5) d2(4) by (auto simp: us4_def)
    ultimately show ?thesis by blast
  qed
qed

section \<open>The whole quotient\<close>

lemma div_loop_ok:
  assumes vs: "digs vs" "v + n < length vs" and n: "2 \<le> n" and v1: "0 < vs ! (v + 1)"
  defines "V \<equiv> seg vs (Suc v) n"
  assumes "digs us" "u + j + r + n < length us" "q + j + r < length qs" "seg us (u + j) n < V" "digs qs"
  shows "\<exists>qs' us'. div_loop vs v n u q j r us qs = Some (qs', us') \<and>
    length qs' = length qs \<and> digs qs' \<and> (\<forall>k < q + j. qs' ! k = qs ! k) \<and>
    seg qs' (q + j) (Suc r) = seg us (u + j) (Suc n + r) div V \<and> digs us' \<and> length us' = length us \<and>
    (\<forall>k < u + j. us' ! k = us ! k) \<and> seg us' (u + j) (Suc n + r) = seg us (u + j) (Suc n + r) mod V"
  using assms(6-)
proof (induction r arbitrary: j us qs)
  case (0 j us qs)
  have W: "seg us (u + j) (Suc n) < V * 65536"
    using 0 digs_nth [OF 0(1), of "u + j + n"] by simp
  have "0 < V" using seg_bound [OF 0(1), of "u + j" n] 0 by simp
  then have "digs (qs[q + j := seg us (u + j) (Suc n) div V])"
    using W seg_bound [OF 0(1), of "u + j" "Suc n"] 0 by (intro digs_update)
      (simp_all add: pos_imp_zdiv_nonneg_iff int_div_less mult.commute del: seg.simps)
  moreover from W obtain us' where "div_step vs v n (u + j) us = Some (seg us (u + j) (Suc n) div V, us')" "digs us'"
      "length us' = length us" "\<forall>k. k < u + j \<or> u + j + n < k \<longrightarrow> us' ! k = us ! k"
      "seg us' (u + j) (Suc n) = seg us (u + j) (Suc n) mod V"
    using div_step_ok [OF 0(1) _ vs n v1, of "u + j"] 0(2) unfolding V_def by auto
  ultimately show ?case using 0 by (simp del: seg.simps(2) add: seg_head [of _ _ 0])
next
  case (Suc r j us qs)
  define W where "W = seg us (u + j) (Suc n)"
  define L where "L = seg us (u + j + Suc n) (Suc r)"
  have WV: "W < V * 65536"
    using Suc.prems digs_nth [OF Suc.prems(1), of "u + j + n"] by (simp add: W_def)
  then obtain us1 where s1: "div_step vs v n (u + j) us = Some (W div V, us1)" "digs us1"
      "length us1 = length us" "\<And>k. k < u + j \<or> u + j + n < k \<Longrightarrow> us1 ! k = us ! k"
      "seg us1 (u + j) (Suc n) = W mod V"
    using div_step_ok [OF Suc.prems(1) _ vs n v1, of "u + j"] Suc.prems(2) unfolding V_def W_def by auto
  have Vb: "0 < V" "V < 65536 ^ n"
    using seg_bound [OF Suc.prems(1), of "u + j" n] Suc.prems seg_bound [OF vs(1), of "Suc v" n] vs(2) by (simp_all add: V_def)
  have W1: "0 \<le> W mod V" "W mod V < V" using Vb by simp_all
  have z: "us1 ! (u + j) = 0"
  proof (rule seg_top_zero [OF s1(2)])
    show "u + j + Suc n \<le> length us1" using s1(3) Suc.prems(2) by simp
    show "seg us1 (u + j) (Suc n) < 65536 ^ n" unfolding s1(5) using W1(2) Vb(2) by (rule less_trans)
  qed
  have R: "seg us1 (u + (j + 1)) n = W mod V" using s1(5) z by (simp add: seg_head del: seg.simps)
  have L1: "seg us1 (u + j + Suc n) (Suc r) = L"
    unfolding L_def by (rule seg_cong) (simp add: s1(4))
  have X1: "seg us1 (u + (j + 1)) (Suc n + r) = W mod V * 65536 ^ Suc r + L"
    using seg_split [of us1 "u + (j + 1)" n "Suc r"] R L1 by (simp add: add_ac del: seg.simps)
  have X: "seg us (u + j) (Suc n + Suc r) = W * 65536 ^ Suc r + L"
    unfolding W_def L_def by (rule seg_split)
  define qs1 where "qs1 = qs[q + j := W div V]"
  have "0 \<le> W" unfolding W_def using seg_bound [OF Suc.prems(1), of "u + j" "Suc n"] Suc.prems(2) by simp
  then have dq: "digs qs1"
    unfolding qs1_def using Suc.prems(5) Vb WV by (intro digs_update) (simp_all add: pos_imp_zdiv_nonneg_iff int_div_less mult.commute)
  obtain qs' us' where ih: "div_loop vs v n u q (j + 1) r us1 qs1 = Some (qs', us')"
      "length qs' = length qs1 \<and> digs qs'" "\<And>k. k < q + (j + 1) \<Longrightarrow> qs' ! k = qs1 ! k"
      "seg qs' (q + (j + 1)) (Suc r) = seg us1 (u + (j + 1)) (Suc n + r) div V" "digs us'" "length us' = length us1"
      "\<And>k. k < u + (j + 1) \<Longrightarrow> us' ! k = us1 ! k"
      "seg us' (u + (j + 1)) (Suc n + r) = seg us1 (u + (j + 1)) (Suc n + r) mod V"
  proof -
    have "u + (j + 1) + r + n < length us1" "q + (j + 1) + r < length qs1" "seg us1 (u + (j + 1)) n < V"
      unfolding R using Suc.prems(2,3) s1(3) W1 by (simp_all add: qs1_def)
    from Suc.IH [OF s1(2) this dq] show ?thesis using that by blast
  qed
  have d: "W * 65536 ^ Suc r + L = (W mod V * 65536 ^ Suc r + L) + (W div V * 65536 ^ Suc r) * V"
  proof -
    obtain Q M where "W div V = Q" "W mod V = M" "W = Q * V + M" using div_mult_mod_eq [of W V] by metis
    then show ?thesis by (simp add: algebra_simps)
  qed
  have "seg qs' (q + j) (Suc (Suc r)) = W div V * 65536 ^ Suc r + seg qs' (q + (j + 1)) (Suc r)"
    using ih(3) [of "q + j"] Suc.prems(3) by (subst seg_head) (simp add: qs1_def del: seg.simps)
  also have "\<dots> = (W * 65536 ^ Suc r + L) div V"
    unfolding ih(4) X1 d using Vb by simp
  finally have Q: "seg qs' (q + j) (Suc (Suc r)) = seg us (u + j) (Suc n + Suc r) div V" unfolding X .
  have "seg us' (u + j) (Suc (Suc n + r)) = seg us' (u + (j + 1)) (Suc n + r)"
    using ih(7) [of "u + j"] z by (subst seg_head) (simp del: seg.simps)
  also have "\<dots> = (W * 65536 ^ Suc r + L) mod V" unfolding ih(8) X1 d by simp
  finally have U: "seg us' (u + j) (Suc n + Suc r) = seg us (u + j) (Suc n + Suc r) mod V" unfolding X by (simp del: seg.simps)
  have "div_loop vs v n u q j (Suc r) us qs = Some (qs', us')"
    using ih(1) by (simp add: s1(1) qs1_def)
  then show ?case using Q U ih(2,3,5-7) s1(3,4) unfolding qs1_def by (auto simp del: seg.simps)
qed

section \<open>Shifting\<close>

lemma shl_digit:
  assumes "0 \<le> x" "x < 65536" "0 \<le> y" "y < 65536" "sh \<le> 16"
  shows "lo16 (u32 (x * 2 ^ sh)) OR (y div 2 ^ (16 - sh)) = x * 2 ^ sh mod 65536 + y * 2 ^ sh div 65536"
    "lo16 (u32 (x * 2 ^ sh)) = x * 2 ^ sh mod 65536" "y * 2 ^ sh div 65536 < 2 ^ sh"
    "0 \<le> lo16 (u32 (x * 2 ^ sh)) OR (y div 2 ^ (16 - sh))" "lo16 (u32 (x * 2 ^ sh)) OR (y div 2 ^ (16 - sh)) < 65536"
proof -
  have p: "(65536 :: int) = 2 ^ sh * 2 ^ (16 - sh)" using assms(5) by (simp flip: power_add)
  show lo: "lo16 (u32 (x * 2 ^ sh)) = x * 2 ^ sh mod 65536" by (simp add: lo16_def u32_def mod_mod_cancel)
  have y: "y * 2 ^ sh div 65536 = y div 2 ^ (16 - sh)"
    unfolding p by (metis div_mult_mult1 mult.commute power_not_zero zero_neq_numeral)
  have "y < 2 ^ sh * 2 ^ (16 - sh)" using assms(4) p by simp
  then show l: "y * 2 ^ sh div 65536 < 2 ^ sh" unfolding y by (intro int_div_less) simp_all
  have d: "2 ^ sh dvd x * 2 ^ sh mod 65536" unfolding p by (simp add: dvd_mod)
  have "0 \<le> y div 2 ^ (16 - sh)" using assms by (simp add: pos_imp_zdiv_nonneg_iff)
  then show e: "lo16 (u32 (x * 2 ^ sh)) OR (y div 2 ^ (16 - sh)) = x * 2 ^ sh mod 65536 + y * 2 ^ sh div 65536"
    unfolding lo y using or_add [OF d] l y by simp
  have "x * 2 ^ sh mod 65536 \<le> 65536 - 2 ^ sh"
  proof -
    obtain c where c: "x * 2 ^ sh mod 65536 = 2 ^ sh * c" using d by (auto elim: dvdE)
    have "2 ^ sh * c < 2 ^ sh * 2 ^ (16 - sh)" unfolding c [symmetric] p [symmetric] by (rule pos_mod_bound) simp
    then have "c \<le> 2 ^ (16 - sh) - 1" by simp
    then have "2 ^ sh * c \<le> 2 ^ sh * (2 ^ (16 - sh) - 1)" by (intro mult_left_mono) simp_all
    then show ?thesis unfolding c using p by (simp add: right_diff_distrib)
  qed
  then show "lo16 (u32 (x * 2 ^ sh)) OR (y div 2 ^ (16 - sh)) < 65536" using l unfolding e by linarith
  show "0 \<le> lo16 (u32 (x * 2 ^ sh)) OR (y div 2 ^ (16 - sh))"
    unfolding e using assms by (simp add: pos_imp_zdiv_nonneg_iff)
qed

lemma shl_loop_ok:
  assumes "digs p" "i + r < length p" "sh \<le> 16"
  shows "digs (shl_loop p i r sh) \<and> length (shl_loop p i r sh) = length p \<and>
    (\<forall>k. k < i \<or> i + r < k \<longrightarrow> shl_loop p i r sh ! k = p ! k) \<and>
    seg (shl_loop p i r sh) i (Suc r) = seg p i (Suc r) * 2 ^ sh - (p ! i * 2 ^ sh div 65536) * 65536 ^ Suc r"
  using assms
proof (induction r arbitrary: p i)
  case 0
  have "0 \<le> p ! i" "p ! i < 65536" using digs_nth [OF 0(1), of i] 0(2) by simp_all
  note x = shl_digit(2) [OF this this \<open>sh \<le> 16\<close>]
  show ?case using 0 by (simp add: x digs_update minus_div_mult_eq_mod)
next
  case (Suc r)
  define d where "d = p ! i * 2 ^ sh mod 65536 + p ! (i + 1) * 2 ^ sh div 65536"
  define p1 where "p1 = p[i := d]"
  have b: "0 \<le> p ! i" "p ! i < 65536" "0 \<le> p ! (i + 1)" "p ! (i + 1) < 65536"
    using digs_nth [OF Suc.prems(1), of i] digs_nth [OF Suc.prems(1), of "i + 1"] Suc.prems(2) by simp_all
  note sd = shl_digit [OF b \<open>sh \<le> 16\<close>, folded d_def]
  have e: "shl_loop p i (Suc r) sh = shl_loop p1 (i + 1) r sh" by (simp only: shl_loop.simps sd(1) p1_def)
  have "0 \<le> d" "d < 65536" using sd(4,5) unfolding sd(1) .
  then have d1: "digs p1" "length p1 = length p" using Suc.prems by (simp_all add: p1_def digs_update)
  note ih = Suc.IH [OF d1(1), of "i + 1"]
  have ih: "digs (shl_loop p i (Suc r) sh)" "length (shl_loop p i (Suc r) sh) = length p"
    "\<And>k. k < i + 1 \<or> i + 1 + r < k \<Longrightarrow> shl_loop p i (Suc r) sh ! k = p1 ! k"
    "seg (shl_loop p i (Suc r) sh) (i + 1) (Suc r) = seg p1 (i + 1) (Suc r) * 2 ^ sh - (p1 ! (i + 1) * 2 ^ sh div 65536) * 65536 ^ Suc r"
    unfolding e using ih Suc.prems(2,3) d1(2) by (auto simp del: seg.simps)
  have "seg p1 (i + 1) (Suc r) = seg p (i + 1) (Suc r)" by (rule seg_cong) (simp add: p1_def)
  moreover have "p1 ! (i + 1) = p ! (i + 1)" by (simp add: p1_def)
  moreover have "shl_loop p i (Suc r) sh ! i = d" using ih(3) [of i] Suc.prems(2) by (simp add: p1_def)
  ultimately have "seg (shl_loop p i (Suc r) sh) i (Suc (Suc r)) = d * 65536 ^ Suc r + (seg p (i + 1) (Suc r) * 2 ^ sh
      - (p ! (i + 1) * 2 ^ sh div 65536) * 65536 ^ Suc r)"
    using ih(4) by (subst seg_head) (simp del: seg.simps shl_loop.simps)
  also have "\<dots> = (p ! i * 2 ^ sh mod 65536) * 65536 ^ Suc r + seg p (i + 1) (Suc r) * 2 ^ sh"
    by (simp add: d_def algebra_simps del: seg.simps)
  also have "\<dots> = seg p i (Suc (Suc r)) * 2 ^ sh - (p ! i * 2 ^ sh div 65536) * 65536 ^ Suc (Suc r)"
    unfolding seg_head [of p i] minus_div_mult_eq_mod [symmetric] by (simp add: algebra_simps del: seg.simps)
  finally show ?case using ih(1-3) by (auto simp: p1_def simp del: seg.simps shl_loop.simps)
qed

lemma shl_ok:
  assumes "digs p" "i + r < length p" "sh \<le> 16" "p ! i * 2 ^ sh < 65536"
  shows "digs (shl p i r sh)" "length (shl p i r sh) = length p" "\<And>k. k < i \<or> i + r < k \<Longrightarrow> shl p i r sh ! k = p ! k"
    "seg (shl p i r sh) i (Suc r) = seg p i (Suc r) * 2 ^ sh"
  using shl_loop_ok [OF assms(1-3)] assms(4) digs_nth [OF assms(1), of i] assms(2)
  by (auto simp: shl_def simp del: seg.simps)

lemma unshift_digit:
  assumes "0 \<le> x" "x < 65536" "0 \<le> y" "y < 65536" "d \<le> 16"
  shows "(x div 2 ^ d) OR lo16 (u32 (y * 2 ^ (16 - d))) = x div 2 ^ d + (y mod 2 ^ d) * 2 ^ (16 - d)"
    "0 \<le> (x div 2 ^ d) OR lo16 (u32 (y * 2 ^ (16 - d)))" "(x div 2 ^ d) OR lo16 (u32 (y * 2 ^ (16 - d))) < 65536"
proof -
  have p: "(65536 :: int) = 2 ^ d * 2 ^ (16 - d)" using assms(5) by (simp flip: power_add)
  have m: "y * 2 ^ (16 - d) mod 65536 = (y mod 2 ^ d) * 2 ^ (16 - d)" unfolding p by (simp add: mult_mod_right mult.commute)
  have x: "x * 2 ^ (16 - d) div 65536 = x div 2 ^ d" unfolding p by simp
  note s = shl_digit [OF assms(3,4,1,2), of "16 - d"]
  show "(x div 2 ^ d) OR lo16 (u32 (y * 2 ^ (16 - d))) = x div 2 ^ d + (y mod 2 ^ d) * 2 ^ (16 - d)"
    "0 \<le> (x div 2 ^ d) OR lo16 (u32 (y * 2 ^ (16 - d)))" "(x div 2 ^ d) OR lo16 (u32 (y * 2 ^ (16 - d))) < 65536"
    using s assms(5) unfolding m x by (simp_all add: or.commute [of "x div 2 ^ d"])
qed

lemma unshift_loop_ok:
  assumes "digs us" "um + i < length us" "d \<le> 16"
  shows "digs (unshift_loop us um i d) \<and> length (unshift_loop us um i d) = length us \<and>
    unshift_loop us um i d ! um = 0 \<and> (\<forall>k. k < um \<or> um + i < k \<longrightarrow> unshift_loop us um i d ! k = us ! k) \<and>
    seg (unshift_loop us um i d) (Suc um) i = seg us um (Suc i) div 2 ^ d - (us ! um div 2 ^ d) * 65536 ^ i"
  using assms
proof (induction i arbitrary: us)
  case (Suc i)
  define x y where "x = us ! (um + Suc i)" and "y = us ! (um + i)"
  define e where "e = x div 2 ^ d + (y mod 2 ^ d) * 2 ^ (16 - d)"
  define us1 where "us1 = us[um + Suc i := e]"
  have b: "0 \<le> x" "x < 65536" "0 \<le> y" "y < 65536"
    using digs_nth [OF Suc.prems(1), of "um + i"] digs_nth [OF Suc.prems(1), of "um + Suc i"] Suc.prems(2) by (simp_all add: x_def y_def)
  note ud = unshift_digit [OF b \<open>d \<le> 16\<close>, folded e_def]
  have R: "unshift_loop us um (Suc i) d = unshift_loop us1 um i d"
    by (simp only: unshift_loop.simps x_def [symmetric] y_def [symmetric] ud(1) us1_def)
  have "0 \<le> e" "e < 65536" using ud(2,3) unfolding ud(1) .
  then have d1: "digs us1" "length us1 = length us" using Suc.prems by (simp_all add: us1_def digs_update)
  have s1: "seg us1 um (Suc i) = seg us um (Suc i)" by (rule seg_cong) (simp add: us1_def)
  have ih: "digs (unshift_loop us1 um i d)" "length (unshift_loop us1 um i d) = length us"
      "unshift_loop us1 um i d ! um = 0" "\<And>k. k < um \<or> um + i < k \<Longrightarrow> unshift_loop us1 um i d ! k = us1 ! k"
      "seg (unshift_loop us1 um i d) (Suc um) i = seg us um (Suc i) div 2 ^ d - (us ! um div 2 ^ d) * 65536 ^ i"
    using Suc.IH [OF d1(1)] Suc.prems(2,3) d1(2) s1 by (auto simp: us1_def simp del: seg.simps)
  define P where "P = seg us um (Suc i)"
  have p: "(65536 :: int) = 2 ^ d * 2 ^ (16 - d)" using Suc.prems(3) by (simp flip: power_add)
  have "P mod 2 ^ d = y mod 2 ^ d"
  proof -
    have "P = seg us um i * 2 ^ (16 - d) * 2 ^ d + y" unfolding P_def y_def seg.simps p by (simp add: mult_ac)
    then show ?thesis by simp
  qed
  moreover have "(P * 65536 + x) div 2 ^ d = P div 2 ^ d * 65536 + ((P mod 2 ^ d) * 2 ^ (16 - d) + x div 2 ^ d)"
  proof -
    obtain a r where ar: "P div 2 ^ d = a" "P mod 2 ^ d = r" "P = a * 2 ^ d + r" using div_mult_mod_eq [of P "2 ^ d"] by metis
    have "P * 65536 + x = x + (a * 65536 + r * 2 ^ (16 - d)) * 2 ^ d" unfolding ar(3) p by (simp add: algebra_simps)
    then show ?thesis using ar by simp
  qed
  ultimately have v: "seg us um (Suc (Suc i)) div 2 ^ d = P div 2 ^ d * 65536 + e"
    by (simp add: P_def x_def e_def)
  have "seg (unshift_loop us1 um i d) (Suc um) (Suc i) = (P div 2 ^ d - (us ! um div 2 ^ d) * 65536 ^ i) * 65536 + e"
    using ih(4) [of "um + Suc i"] ih(5) Suc.prems(2) by (simp add: P_def us1_def del: seg.simps(2)) (simp add: us1_def)
  also have "\<dots> = seg us um (Suc (Suc i)) div 2 ^ d - (us ! um div 2 ^ d) * 65536 ^ Suc i"
    unfolding v by (simp add: algebra_simps)
  finally show ?case using ih(1-4) unfolding R by (auto simp: us1_def simp del: seg.simps)
qed (auto simp: digs_update)

lemma norm_count_ok: "\<exists>e. norm_count t d = Some (d + e) \<and> t * 2 ^ e < 65536 \<and> e \<le> 16" if "0 < t" "t < 65536"
  using that
proof (induction "nat (65536 - t)" arbitrary: t d rule: less_induct)
  case less
  show ?case
  proof (cases "t < 32768")
    case True
    then have u: "u32 (t * 2) = t * 2" using less.prems by (simp add: u32_def)
    obtain e where e: "norm_count (t * 2) (d + 1) = Some (d + 1 + e)" "t * 2 * 2 ^ e < 65536"
      using less.hyps [of "t * 2" "d + 1"] True less.prems by auto
    have "1 * 2 ^ Suc e \<le> t * 2 ^ Suc e" using less.prems by (intro mult_right_mono) simp_all
    moreover have "t * 2 ^ Suc e < 2 ^ 16" using e(2) by (simp add: mult.assoc)
    ultimately have "1 * (2 :: int) ^ Suc e < 2 ^ 16" by (rule le_less_trans)
    then have "(2 :: int) ^ Suc e < 2 ^ 16" by (simp only: mult_1)
    then have "Suc e < 16" by (rule power_less_imp_less_exp [rotated]) simp
    then show ?thesis using e True by (intro exI [of _ "Suc e"]) (subst norm_count.simps, simp add: u mult.assoc)
  next
    case False
    then show ?thesis using less.prems by (intro exI [of _ 0]) (subst norm_count.simps, simp)
  qed
qed

section \<open>The result\<close>

lemma seg_zeros: "(\<And>k. k < l \<Longrightarrow> xs ! (a + k) = 0) \<Longrightarrow> seg xs a l = 0"
  by (induction l) auto

lemma seg_zeros_rev: "seg xs a l = 0 \<Longrightarrow> digs xs \<Longrightarrow> a + l \<le> length xs \<Longrightarrow> k < l \<Longrightarrow> xs ! (a + k) = 0"
proof (induction l)
  case (Suc l)
  then have "0 \<le> seg xs a l" "0 \<le> xs ! (a + l)" using seg_bound [of xs a l] digs_nth [of xs "a + l"] by simp_all
  then have "seg xs a l = 0" "xs ! (a + l) = 0" using Suc.prems(1) by simp_all
  then show ?case using Suc by (cases "k = l") auto
qed simp

lemma seg_skip: "(\<And>k. k < l \<Longrightarrow> xs ! (a + k) = 0) \<Longrightarrow> seg xs a (l + k) = seg xs (a + l) k"
  by (simp add: seg_split seg_zeros)

lemma uint_word32: "0 \<le> a \<Longrightarrow> a < 4294967296 \<Longrightarrow> uint (word_of_int a :: 32 word) = a"
  by (simp add: uint_word_of_int)

lemma uint_of_digits: "uint (of_digits xs) = seg xs 1 4" if "digs xs" "length xs = 5"
proof -
  have b: "0 \<le> xs ! k" "xs ! k < 65536" if "k < 5" for k using digs_nth [OF \<open>digs xs\<close>, of k] that \<open>length xs = 5\<close> by auto
  have c: "COMBINE (xs ! 1) (xs ! 2) = xs ! 1 * 65536 + xs ! 2" "COMBINE (xs ! 3) (xs ! 4) = xs ! 3 * 65536 + xs ! 4"
    by (simp_all add: COMBINE_eq b)
  have "uint (word_of_int (xs ! i * 65536 + xs ! j) :: 32 word) = xs ! i * 65536 + xs ! j" if "i < 5" "j < 5" for i j
    by (rule uint_word32) (use b [OF that(1)] b [OF that(2)] in auto)
  then show ?thesis
    unfolding of_digits_def c uint_uu by (simp add: numeral_eq_Suc)
qed

lemma seg_digits: "seg (x # digits w) 1 4 = uint w"
proof -
  have half: "uint (HHALF h) * 65536 + uint (LHALF h) = uint h" for h :: "32 word"
    by (simp add: uint_HHALF uint_LHALF)
  have "uint w = uint (ui_H w) * 4294967296 + uint (ui_L w)" using uint_uu [of "ui_H w" "ui_L w"] by simp
  also have "\<dots> = seg (x # digits w) 1 4"
    using half [of "ui_H w"] half [of "ui_L w"] by (simp add: numeral_eq_Suc digits_def)
  finally show ?thesis ..
qed

lemma digs_digits: "digs (digits w)" "length (digits w) = 4"
  using half_bounds [of "ui_H w"] half_bounds [of "ui_L w"] by (simp_all add: digs_def digits_def)

lemma short_division_ok:
  assumes "digs us" "length us = 5" "0 < t" "t < 65536"
  shows "uint (fst (short_division us t)) = seg us 1 4 div t \<and> uint (snd (short_division us t)) = seg us 1 4 mod t"
proof -
  have b: "0 \<le> us ! k" "us ! k < 65536" if "k < 5" for k using digs_nth [OF assms(1), of k] that assms(2) by auto
  define r1 where "r1 = us ! 1 mod t"
  define x2 r2 where "x2 = r1 * 65536 + us ! 2" and "r2 = x2 mod t"
  define x3 r3 where "x3 = r2 * 65536 + us ! 3" and "r3 = x3 mod t"
  define x4 r4 where "x4 = r3 * 65536 + us ! 4" and "r4 = x4 mod t"
  have r: "0 \<le> r1" "r1 < t" "0 \<le> r2" "r2 < t" "0 \<le> r3" "r3 < t" "0 \<le> r4" "r4 < t"
    using assms(3) by (simp_all add: r1_def r2_def r3_def r4_def)
  have c: "COMBINE r1 (us ! 2) = x2" "COMBINE r2 (us ! 3) = x3" "COMBINE r3 (us ! 4) = x4"
    using r assms b by (simp_all add: x2_def x3_def x4_def COMBINE_eq)
  have dig: "0 \<le> (r * 65536 + y) div t" "lo16 ((r * 65536 + y) div t) = (r * 65536 + y) div t" "(r * 65536 + y) div t < 65536"
    if "0 \<le> r" "r < t" "0 \<le> y" "y < 65536" for r y
  proof -
    show "0 \<le> (r * 65536 + y) div t" using that assms by (simp add: pos_imp_zdiv_nonneg_iff)
    moreover have "r * 65536 + y < 65536 * t" using that by simp
    then show "(r * 65536 + y) div t < 65536" using assms by (intro int_div_less)
    ultimately show "lo16 ((r * 65536 + y) div t) = (r * 65536 + y) div t" by (simp add: lo16_def)
  qed
  define q1 q2 q3 q4 where "q1 = us ! 1 div t" and "q2 = x2 div t" and "q3 = x3 div t" and "q4 = x4 div t"
  have q1: "0 \<le> q1" "lo16 q1 = q1" "q1 < 65536"
    using dig [of 0 "us ! 1"] b [of 1] assms by (simp_all add: q1_def)
  have q2: "0 \<le> q2" "lo16 q2 = q2" "q2 < 65536" unfolding q2_def x2_def by (rule dig; use r b in simp)+
  have q3: "0 \<le> q3" "lo16 q3 = q3" "q3 < 65536" unfolding q3_def x3_def by (rule dig; use r b in simp)+
  have q4: "0 \<le> q4" "lo16 q4 = q4" "q4 < 65536" unfolding q4_def x4_def by (rule dig; use r b in simp)+
  have e: "short_division us t = (uu (word_of_int (COMBINE q1 q2)) (word_of_int (COMBINE q3 q4)), word_of_int r4)"
    unfolding short_division_def Let_def r1_def [symmetric] c r2_def [symmetric] r3_def [symmetric] r4_def [symmetric]
      q1_def [symmetric] q2_def [symmetric] q3_def [symmetric] q4_def [symmetric] q1 q2 q3 q4 ..
  define Q where "Q = ((q1 * 65536 + q2) * 65536 + q3) * 65536 + q4"
  have "uint (fst (short_division us t)) = Q"
    unfolding e fst_conv uint_uu using q1 q2 q3 q4 by (simp add: COMBINE_eq uint_word32 Q_def del: of_int_add of_int_mult)
  moreover have "uint (snd (short_division us t)) = r4"
    unfolding e snd_conv using r assms(4) by (simp add: uint_word_of_int)
  moreover have "seg us 1 4 = Q * t + r4"
  proof -
    have "us ! 1 = q1 * t + r1" "x2 = q2 * t + r2" "x3 = q3 * t + r3" "x4 = q4 * t + r4"
      by (simp_all add: q1_def r1_def q2_def r2_def q3_def r3_def q4_def r4_def)
    then show ?thesis using x2_def x3_def x4_def by (simp add: Q_def numeral_eq_Suc algebra_simps)
  qed
  ultimately show ?thesis using r(7,8) by simp
qed

lemma long_division_ok:
  assumes us: "digs us" "length us = 5" "\<And>k. k \<le> u \<Longrightarrow> us ! k = 0"
    and vs: "digs vs" "length vs = 5" "0 < vs ! (v + 1)"
    and n: "2 \<le> n" "v + n = 4" "u + m + n = 4"
    and d: "vs ! (v + 1) * 2 ^ d < 65536" "d \<le> 16"
    and qs: "length qs = 5" "digs qs" "\<And>k. k < 4 - m \<Longrightarrow> qs ! k = 0"
  defines "U \<equiv> seg us u (Suc n + m)" and "V \<equiv> seg vs (Suc v) n"
  defines "us1 \<equiv> (if d > 0 then shl us u (m + n) d else us)"
    and "vs1 \<equiv> (if d > 0 then shl vs (v + 1) (n - 1) d else vs)"
  shows "\<exists>qs' us'. div_loop vs1 v n u (4 - m) 0 m us1 qs = Some (qs', us') \<and>
    length qs' = 5 \<and> digs qs' \<and> seg qs' 1 4 = U div V \<and> length us' = 5 \<and> digs us' \<and>
    (let us'' = (if d \<noteq> 0 then unshift_loop us' (u + m) n d else us')
     in length us'' = 5 \<and> digs us'' \<and> seg us'' 1 4 = U mod V)"
proof -
  have S: "Suc (n - 1) = n" using n by simp
  have us1: "digs us1" "length us1 = 5" "\<And>k. k < u \<Longrightarrow> us1 ! k = 0" "seg us1 u (Suc n + m) = U * 2 ^ d"
    using shl_ok [OF us(1), of u "m + n" d] us n d unfolding us1_def U_def
    by (auto simp: add.commute [of m n] simp del: seg.simps)
  have vs1: "digs vs1" "length vs1 = 5" "seg vs1 (Suc v) n = V * 2 ^ d"
    using shl_ok [OF vs(1), of "v + 1" "n - 1" d] vs n d S unfolding vs1_def V_def
    by (auto simp del: seg.simps)
  have Vlow: "65536 ^ (n - 1) \<le> V"
  proof -
    have "1 * 65536 ^ (n - 1) \<le> vs ! Suc v * 65536 ^ (n - 1)" using vs(3) by (intro mult_right_mono) simp_all
    moreover have "0 \<le> seg vs (Suc (Suc v)) (n - 1)" using seg_bound [OF vs(1), of "Suc (Suc v)" "n - 1"] vs(2) n by simp
    moreover have "V = vs ! Suc v * 65536 ^ (n - 1) + seg vs (Suc (Suc v)) (n - 1)"
      unfolding V_def using seg_head [of vs "Suc v" "n - 1"] S by simp
    ultimately show ?thesis by linarith
  qed
  then have V: "0 < V" by (rule less_le_trans [rotated]) simp
  have V1: "V \<le> V * 2 ^ d" using V by simp
  have "vs1 ! (v + 1) \<noteq> 0"
  proof
    assume "vs1 ! (v + 1) = 0"
    then have "seg vs1 (Suc v) n = seg vs1 (Suc (Suc v)) (n - 1)" using seg_head [of vs1 "Suc v" "n - 1"] S by simp
    also have "\<dots> < 65536 ^ (n - 1)" using seg_bound [OF vs1(1), of "Suc (Suc v)" "n - 1"] vs1(2) n by simp
    finally show False using Vlow V1 vs1(3) by linarith
  qed
  then have v1: "0 < vs1 ! (v + 1)" using digs_nth [OF vs1(1), of "v + 1"] vs1(2) n by fastforce
  have U: "0 \<le> U" "U < V * 65536 ^ Suc m"
  proof -
    have "seg us u n = seg us (Suc u) (n - 1)" using seg_head [of us u "n - 1"] us(3) [of u] S by simp
    also have "\<dots> < 65536 ^ (n - 1)" using seg_bound [OF us(1), of "Suc u" "n - 1"] us(2) n by simp
    finally have "seg us u n + 1 \<le> V" using Vlow by simp
    then have "(seg us u n + 1) * 65536 ^ Suc m \<le> V * 65536 ^ Suc m" by (intro mult_right_mono) simp_all
    moreover have "U = seg us u n * 65536 ^ Suc m + seg us (u + n) (Suc m)"
      unfolding U_def using seg_split [of us u n "Suc m"] by (simp del: seg.simps)
    moreover have "seg us (u + n) (Suc m) < 65536 ^ Suc m" using seg_bound [OF us(1), of "u + n" "Suc m"] us(2) n by simp
    ultimately show "U < V * 65536 ^ Suc m" by (simp add: distrib_right del: seg.simps power_Suc)
    show "0 \<le> U" unfolding U_def using seg_bound [OF us(1), of u "Suc n + m"] us(2) n by simp
  qed
  have lt: "seg us1 (u + 0) n < seg vs1 (Suc v) n"
  proof -
    have "seg us1 u n * 65536 ^ Suc m \<le> seg us1 u (n + Suc m)"
      unfolding seg_split [of us1 u n] using seg_bound [OF us1(1), of "u + n" "Suc m"] us1(2) n by simp
    also have "\<dots> = U * 2 ^ d" using us1(4) by (simp del: seg.simps)
    also have "\<dots> < V * 65536 ^ Suc m * 2 ^ d" using U(2) by simp
    finally have "seg us1 u n * 65536 ^ Suc m < V * 2 ^ d * 65536 ^ Suc m" by (simp add: mult_ac del: power_Suc)
    then have "seg us1 u n < V * 2 ^ d" by (rule mult_right_less_imp_less) simp
    then show ?thesis using vs1(3) by simp
  qed
  obtain qs' us' where res: "div_loop vs1 v n u (4 - m) 0 m us1 qs = Some (qs', us')" "length qs' = 5 \<and> digs qs'"
      "\<And>k. k < 4 - m \<Longrightarrow> qs' ! k = qs ! k" "seg qs' (4 - m) (Suc m) = seg us1 u (Suc n + m) div (V * 2 ^ d)"
      "digs us'" "length us' = 5" "\<And>k. k < u \<Longrightarrow> us' ! k = us1 ! k"
      "seg us' u (Suc n + m) = seg us1 u (Suc n + m) mod (V * 2 ^ d)"
    using div_loop_ok [OF vs1(1) _ n(1) v1 us1(1) _ _ lt qs(2), of m "4 - m"] us1(2) vs1(2,3) qs(1) n by auto
  have "Suc (3 - m) = 4 - m" using n by simp
  then have "seg qs' 1 4 = seg qs' (4 - m) (Suc m)"
    using seg_skip [of "3 - m" qs' 1 "Suc m"] res(3) qs(3) n by (simp del: seg.simps)
  also have "\<dots> = U div V" unfolding res(4) us1(4) by simp
  finally have Q: "seg qs' 1 4 = U div V" .
  define R where "R = U mod V"
  have R: "0 \<le> R" "R < V" using V by (simp_all add: R_def)
  have ru: "seg us' u (Suc m + n) = R * 2 ^ d"
    unfolding R_def mult_mod_left using res(8) us1(4) by (simp add: add.commute [of m n] del: seg.simps)
  have "V * 2 ^ d < 65536 ^ n" using seg_bound [OF vs1(1), of "Suc v" n] vs1(2,3) n by simp
  moreover have "R * 2 ^ d < V * 2 ^ d" using R by simp
  ultimately have small: "R * 2 ^ d < 65536 ^ n" by linarith
  have z: "seg us' u (Suc m) = 0"
  proof (rule lead_zero)
    show "0 \<le> seg us' (u + Suc m) n" "seg us' (u + Suc m) n < 65536 ^ n"
      using seg_bound [OF res(5), of "u + Suc m" n] res(6) n by simp_all
    show "0 \<le> seg us' u (Suc m) * 65536 ^ n + seg us' (u + Suc m) n" "seg us' u (Suc m) * 65536 ^ n + seg us' (u + Suc m) n < 65536 ^ n"
      unfolding seg_split [symmetric] ru using R small by simp_all
  qed
  then have low: "seg us' (Suc (u + m)) n = R * 2 ^ d" using ru unfolding seg_split by (simp del: seg.simps)
  have zk: "us' ! k = 0" if "k \<le> u + m" for k
  proof (cases "k < u")
    case True
    then show ?thesis using res(7) us1(3) by simp
  next
    case False
    then show ?thesis using seg_zeros_rev [OF z res(5), of "k - u"] res(6) n that by simp
  qed
  have end4: "seg w 1 4 = seg w (Suc (u + m)) n" if "\<And>k. k \<le> u + m \<Longrightarrow> w ! k = 0" for w
    using seg_skip [of "u + m" w 1 n] that n by (simp del: seg.simps add: add.commute)
  have "let us'' = (if d \<noteq> 0 then unshift_loop us' (u + m) n d else us')
     in length us'' = 5 \<and> digs us'' \<and> seg us'' 1 4 = R"
  proof (cases "d = 0")
    case True
    then show ?thesis using end4 [OF zk] low res(5,6) by simp
  next
    case False
    have un: "digs (unshift_loop us' (u + m) n d)" "length (unshift_loop us' (u + m) n d) = 5"
        "unshift_loop us' (u + m) n d ! (u + m) = 0" "\<And>k. k < u + m \<Longrightarrow> unshift_loop us' (u + m) n d ! k = us' ! k"
        "seg (unshift_loop us' (u + m) n d) (Suc (u + m)) n = seg us' (u + m) (Suc n) div 2 ^ d"
      using unshift_loop_ok [OF res(5) _ d(2), of "u + m" n] res(6) n zk [of "u + m"] by (auto simp del: seg.simps)
    have "seg us' (u + m) (Suc n) = R * 2 ^ d" unfolding seg_head using low zk by simp
    then have "seg (unshift_loop us' (u + m) n d) (Suc (u + m)) n = R" using un(5) by simp
    moreover have "unshift_loop us' (u + m) n d ! k = 0" if "k \<le> u + m" for k
      using that un(3,4) zk by (cases "k = u + m") auto
    ultimately have "seg (unshift_loop us' (u + m) n d) 1 4 = R" using end4 by simp
    then show ?thesis using un(1,2) False by simp
  qed
  then show ?thesis using res Q unfolding R_def by blast
qed

lemma skip_v_cases:
  "skip_v vs 0 4 = (if vs ! 1 = 0 then if vs ! 2 = 0 then if vs ! 3 = 0 then (2, 1) else (2, 2) else (1, 3) else (0, 4))"
  by (simp add: numeral_eq_Suc)

lemma skip_u_ok:
  assumes "length us = 5" "u < 4" "\<And>k. k \<le> u \<Longrightarrow> us ! k = 0" "\<exists>k. u < k \<and> k < 5 \<and> us ! k \<noteq> 0"
  shows "\<exists>u'. skip_u us u m = Some (u', m - int (u' - u)) \<and> u \<le> u' \<and> u' < 4 \<and> (\<forall>k \<le> u'. us ! k = 0) \<and> us ! (u' + 1) \<noteq> 0"
  using assms(2-)
proof (induction "5 - u" arbitrary: u m rule: less_induct)
  case less
  show ?case
  proof (cases "us ! (u + 1) = 0")
    case True
    obtain k where k: "u < k" "k < 5" "us ! k \<noteq> 0" using less.prems(3) by blast
    then have "u + 1 < k" using True by (metis Suc_eq_plus1 Suc_lessI)
    moreover have "us ! j = 0" if "j \<le> u + 1" for j using that True less.prems(2) by (cases "j = u + 1") auto
    ultimately obtain u' where "skip_u us (u + 1) (m - 1) = Some (u', m - 1 - int (u' - (u + 1)))" "u + 1 \<le> u'" "u' < 4"
        "\<forall>k \<le> u'. us ! k = 0" "us ! (u' + 1) \<noteq> 0"
      using less.hyps [of "u + 1" "m - 1"] k by fastforce
    then show ?thesis using True less.prems(1) assms(1)
      by (intro exI [of _ u']) (subst skip_u.simps, simp add: of_nat_diff)
  next
    case False
    then show ?thesis using less.prems assms(1) by (intro exI [of _ u]) (subst skip_u.simps, simp)
  qed
qed

lemma qdivrem_long:
  fixes stack :: "nat \<Rightarrow> int"
  assumes "vll \<le> ull" "vll \<noteq> 0"
  defines "us \<equiv> 0 # digits ull" and "vs \<equiv> lo16 (stack 0) # digits vll"
  assumes sk: "skip_v vs 0 4 = (v, n)" and n: "2 \<le> n" "v + n = 4" "vs ! (v + 1) \<noteq> 0" "\<And>k. 1 \<le> k \<Longrightarrow> k \<le> v \<Longrightarrow> vs ! k = 0"
  shows "qdivrem stack ull vll = Some (ull div vll, ull mod vll)"
proof -
  have us: "digs us" "length us = 5" "seg us 1 4 = uint ull" using digs_digits [of ull] by (simp_all add: us_def digs_def seg_digits [simplified])
  have vs: "digs vs" "length vs = 5" "seg vs 1 4 = uint vll"
    using digs_digits [of vll] by (simp_all add: vs_def digs_def lo16_def seg_digits [simplified])
  have v1: "0 < vs ! (v + 1)" "vs ! (v + 1) < 65536" using digs_nth [OF vs(1), of "v + 1"] vs(2) n by auto
  have V: "seg vs (Suc v) n = uint vll" using seg_skip [of v vs 1 n] n vs(3) by simp
  have le: "uint vll \<le> uint ull" using assms(1) by (simp add: word_le_def)
  have pos: "0 < uint vll" using assms(2) by (simp add: word_neq_0_conv word_less_def)
  have "\<exists>k. 0 < k \<and> k < 5 \<and> us ! k \<noteq> 0"
  proof (rule ccontr)
    assume "\<not> ?thesis"
    then have "us ! (1 + k) = 0" if "k < 4" for k using that by (auto dest: spec [of _ "1 + k"])
    then have "seg us 1 4 = 0" by (rule seg_zeros)
    then show False using us(3) le pos by simp
  qed
  then obtain u where u: "skip_u us 0 (4 - int n) = Some (u, 4 - int n - int u)" "u < 4" "\<And>k. k \<le> u \<Longrightarrow> us ! k = 0" "us ! (u + 1) \<noteq> 0"
    using skip_u_ok [OF us(2), of 0 "4 - int n"] by (auto simp: us_def)
  have U: "seg us (Suc u) (4 - u) = uint ull" using seg_skip [of u us 1 "4 - u"] u us(3) by simp
  have un: "u + n \<le> 4"
  proof (rule ccontr)
    assume "\<not> u + n \<le> 4"
    then have "4 - u \<le> n - 1" by simp
    then have "(65536 :: int) ^ (4 - u) \<le> 65536 ^ (n - 1)" by (intro power_increasing) simp_all
    moreover have "uint ull < 65536 ^ (4 - u)" using seg_bound [OF us(1), of "Suc u" "4 - u"] us(2) u(2) U by simp
    moreover have "1 * 65536 ^ (n - 1) \<le> vs ! Suc v * 65536 ^ (n - 1)" using v1 by (intro mult_right_mono) simp_all
    moreover have "uint vll = vs ! Suc v * 65536 ^ (n - 1) + seg vs (Suc (Suc v)) (n - 1)"
      using seg_head [of vs "Suc v" "n - 1"] n V by simp
    moreover have "0 \<le> seg vs (Suc (Suc v)) (n - 1)" using seg_bound [OF vs(1), of "Suc (Suc v)" "n - 1"] vs(2) n by simp
    ultimately show False using le by linarith
  qed
  define m where "m = 4 - n - u"
  have m: "u + m + n = 4" "4 - int n - int u = int m" using un by (simp_all add: m_def)
  obtain d where d: "norm_count (vs ! (v + 1)) 0 = Some d" "vs ! (v + 1) * 2 ^ d < 65536" "d \<le> 16"
    using norm_count_ok [OF v1, of 0] by auto
  define qs where "qs = replicate (4 - m) 0 @ drop (4 - m) (map (\<lambda>i. lo16 (stack i)) [0..<5])"
  have qs: "length qs = 5" "digs qs" "\<And>k. k < 4 - m \<Longrightarrow> qs ! k = 0"
    by (auto simp: qs_def digs_def lo16_def nth_append dest!: in_set_dropD)
  have U': "seg us u (Suc n + m) = uint ull"
  proof -
    have "Suc n + m = Suc (4 - u)" using m by simp
    then show ?thesis using U u(3) [of u] by (simp only: seg_head)
  qed
  obtain qs' us' where res: "div_loop (if d > 0 then shl vs (v + 1) (n - 1) d else vs) v n u (4 - m) 0 m
        (if d > 0 then shl us u (m + n) d else us) qs = Some (qs', us')"
      "length qs' = 5" "digs qs'" "seg qs' 1 4 = uint ull div uint vll"
      "length (if d \<noteq> 0 then unshift_loop us' (u + m) n d else us') = 5" "digs (if d \<noteq> 0 then unshift_loop us' (u + m) n d else us')"
      "seg (if d \<noteq> 0 then unshift_loop us' (u + m) n d else us') 1 4 = uint ull mod uint vll"
    using long_division_ok [OF us(1,2) u(3) vs(1,2) v1(1) n(1,2) m(1) d(2,3) qs] unfolding U' V Let_def by blast
  have o: "of_digits qs' = ull div vll" "of_digits (if d \<noteq> 0 then unshift_loop us' (u + m) n d else us') = ull mod vll"
    using uint_of_digits [OF res(3,2)] uint_of_digits [OF res(6,5)] res(4,7) by (simp_all only: word_uint_eq_iff uint_div uint_mod)
  have nm: "nat (4 - int m) = 4 - m" by simp
  have "n \<noteq> 1" using n(1) by simp
  moreover have "\<not> ull < vll" using assms(1) by simp
  ultimately show ?thesis
    unfolding qdivrem_def us_def [symmetric] vs_def [symmetric] Let_def sk prod.case u(1) m(2) bind.bind_lunit d(1) nat_int nm
      qs_def [symmetric] res(1) o
    using assms(2) by simp
qed

lemma qdivrem_ok:
  assumes "v \<noteq> 0"
  shows "qdivrem stack u v = Some (u div v, u mod v)"
proof (cases "u < v")
  case True
  then have "uint u < uint v" by (simp add: word_less_def)
  then have "uint (u div v) = uint 0" "uint (u mod v) = uint u" by (simp_all add: uint_div uint_mod)
  then have "u div v = 0" "u mod v = u" by (simp_all only: word_uint_eq_iff)
  then show ?thesis using True assms by (simp add: qdivrem_def)
next
  case False
  define vs where "vs = lo16 (stack 0) # digits v"
  note long = qdivrem_long [of v u, OF _ assms, of stack, folded vs_def]
  show ?thesis
  proof (cases "vs ! 1 = 0 \<and> vs ! 2 = 0 \<and> vs ! 3 = 0")
    case True
    have "seg vs 1 4 = uint v" unfolding vs_def by (rule seg_digits)
    then have v4: "vs ! 4 = uint v" using True by (simp add: numeral_eq_Suc)
    have us: "digs (0 # digits u)" "length (0 # digits u) = 5" "seg (0 # digits u) 1 4 = uint u"
      using digs_digits [of u] by (simp_all add: digs_def seg_digits [simplified])
    have "0 < vs ! 4" "vs ! 4 < 65536"
      using assms v4 digs_digits [of v] by (simp_all add: vs_def digs_def digits_def word_neq_0_conv word_less_def)
    from short_division_ok [OF us(1,2) this]
    have "short_division (0 # digits u) (vs ! 4) = (u div v, u mod v)"
      unfolding us(3) v4 by (simp add: prod_eq_iff word_uint_eq_iff uint_div uint_mod)
    moreover have "skip_v vs 0 4 = (2, 1)" using True by (simp add: skip_v_cases)
    ultimately show ?thesis using False assms by (simp add: qdivrem_def vs_def [symmetric])
  next
    case nz: False
    consider "vs ! 1 \<noteq> 0" | "vs ! 1 = 0" "vs ! 2 \<noteq> 0" | "vs ! 1 = 0" "vs ! 2 = 0" "vs ! 3 \<noteq> 0" using nz by blast
    then show ?thesis
    proof cases
      case 1
      then show ?thesis using False by (intro long [of 0 4]) (auto simp: skip_v_cases)
    next
      case 2
      then show ?thesis using False by (intro long [of 1 3]) (auto simp: skip_v_cases numeral_2_eq_2 le_Suc_eq)
    next
      case 3
      then show ?thesis using False by (intro long [of 2 2]) (auto simp: skip_v_cases numeral_2_eq_2 numeral_3_eq_3 le_Suc_eq)
    qed
  qed
qed

lemma word_of_signed: "(if p then - w else w) = word_of_int ((if p then - 1 else 1) * uint w)" for w :: "64 word"
  by simp

lemma divdi3_ok:
  assumes "b \<noteq> 0"
  shows "divdi3 stack a b = Some (word_of_int (sgn (sint a) * sgn (sint b) * (\<bar>sint a\<bar> div \<bar>sint b\<bar>)))"
    "moddi3 stack a b = Some (word_of_int (sgn (sint a) * (\<bar>sint a\<bar> mod \<bar>sint b\<bar>)))"
proof -
  define ua ub where "ua = (if sint a < 0 then - a else a)" and "ub = (if sint b < 0 then - b else b)"
  have m: "uint ua = \<bar>sint a\<bar>" "uint ub = \<bar>sint b\<bar>" unfolding ua_def ub_def by (rule uint_magnitude)+
  have sb: "sint b \<noteq> 0" using assms signed_word_eqI [of b 0] by auto
  then have "ub \<noteq> 0" using assms by (simp add: ub_def)
  then have q: "qdivrem stack ua ub = Some (ua div ub, ua mod ub)" by (rule qdivrem_ok)
  have "divdi3 stack a b = Some (if (sint a < 0) \<noteq> (sint b < 0) then - (ua div ub) else ua div ub)"
    using q by (auto simp: divdi3_def ua_def ub_def)
  moreover have "(if (sint a < 0) \<noteq> (sint b < 0) then - 1 else 1) * (\<bar>sint a\<bar> div \<bar>sint b\<bar>)
      = sgn (sint a) * sgn (sint b) * (\<bar>sint a\<bar> div \<bar>sint b\<bar>)"
    using sb by (auto simp: sgn_if)
  ultimately show "divdi3 stack a b = Some (word_of_int (sgn (sint a) * sgn (sint b) * (\<bar>sint a\<bar> div \<bar>sint b\<bar>)))"
    by (simp only: word_of_signed uint_div m)
  have "moddi3 stack a b = Some (if sint a < 0 then - (ua mod ub) else ua mod ub)"
    using q by (auto simp: moddi3_def ua_def ub_def)
  moreover have "(if sint a < 0 then - 1 else 1) * (\<bar>sint a\<bar> mod \<bar>sint b\<bar>) = sgn (sint a) * (\<bar>sint a\<bar> mod \<bar>sint b\<bar>)"
    by (auto simp: sgn_if)
  ultimately show "moddi3 stack a b = Some (word_of_int (sgn (sint a) * (\<bar>sint a\<bar> mod \<bar>sint b\<bar>)))"
    by (simp only: word_of_signed uint_mod m)
qed

section \<open>Properties\<close>

text \<open>C3. 64-bit division.  For every dividend and every non-zero divisor \<open>__qdivrem\<close>
  returns the quotient and the remainder of the unsigned division, whatever the stack
  held before: its loops end, no trial digit is off by more than one, and every
  multiply-and-subtract and add-back works without losing a borrow or a carry.\<close>
theorem qdivrem_divides: "v \<noteq> 0 \<Longrightarrow> qdivrem stack u v = Some (u div v, u mod v)"
  by (rule qdivrem_ok)

theorem qdivrem_divides_witness:
  "(4294967297 :: 64 word) \<noteq> 0 \<and> qdivrem (\<lambda>_. 7) 18446744073709551615 4294967297 = Some (4294967295, 0)"
  using qdivrem_divides [of 4294967297 "\<lambda>_. 7" 18446744073709551615] by simp

text \<open>C24. Signed division.  \<open>__divdi3\<close> and \<open>__moddi3\<close> divide towards zero: the quotient of
  the magnitudes with the product of the signs, and a remainder with the sign of the
  dividend; the most negative dividend, whose magnitude is no signed number, included.\<close>
theorem divdi3_truncates:
  assumes "b \<noteq> 0"
  shows "divdi3 stack a b = Some (word_of_int (sgn (sint a) * sgn (sint b) * (\<bar>sint a\<bar> div \<bar>sint b\<bar>))) \<and>
    moddi3 stack a b = Some (word_of_int (sgn (sint a) * (\<bar>sint a\<bar> mod \<bar>sint b\<bar>)))"
  using divdi3_ok [OF assms] by simp

theorem divdi3_truncates_witness:
  "(2 :: 64 word) \<noteq> 0 \<and> divdi3 (\<lambda>_. 0) (- 7) 2 = Some (- 3) \<and> moddi3 (\<lambda>_. 0) (- 7) 2 = Some (- 1)"
  using divdi3_truncates [of 2 "\<lambda>_. 0" "- 7"] by simp

end
