(* ===== verification/Cstring.thy ===== *)
theory Cstring
  imports Prelude "HOL-Library.List_Lexorder"
begin

text \<open>
  The string and memory routines shared by the kernel and the C library:
  common/libc/string, stdlib/atoi.c, and memset, memcmp and strtok of user/lib/libc/string.
  Memory is a function from addresses to bytes and pointers are addresses; a long is four
  bytes.  The scanning loops have no bound of their own: they are partial functions, with
  \<open>None\<close> for a scan that finds no terminator.  \<open>cstr m p s\<close> says that the terminated
  string \<open>s\<close> lies at \<open>p\<close>; against it each routine is shown to compute the list operation
  it stands for.
\<close>

section \<open>Blocks of memory\<close>

type_synonym mem = "nat \<Rightarrow> 8 word"

definition load_long :: "mem \<Rightarrow> nat \<Rightarrow> 8 word \<times> 8 word \<times> 8 word \<times> 8 word" where
  "load_long m p = (m p, m (p + 1), m (p + 2), m (p + 3))"

definition store_long :: "mem \<Rightarrow> nat \<Rightarrow> 8 word \<times> 8 word \<times> 8 word \<times> 8 word \<Rightarrow> mem" where
  "store_long m p x = (case x of (a, b, c, d) \<Rightarrow> m(p := a, p + 1 := b, p + 2 := c, p + 3 := d))"

definition bzero :: "mem \<Rightarrow> nat \<Rightarrow> nat \<Rightarrow> mem" where
  "bzero m block len =
    (if block mod 4 = 0 \<and> len mod 4 = 0
     then fold (\<lambda>i m. store_long m (block + 4 * i) (0, 0, 0, 0)) [0..<len div 4] m
     else fold (\<lambda>i m. m(block + i := 0)) [0..<len] m)"

definition memset :: "mem \<Rightarrow> nat \<Rightarrow> 8 word \<Rightarrow> nat \<Rightarrow> mem \<times> nat" where
  "memset m ptr ch len = (fold (\<lambda>i m. m(ptr + i := ch)) [0..<len] m, ptr)"

definition memcpy :: "mem \<Rightarrow> nat \<Rightarrow> nat \<Rightarrow> nat \<Rightarrow> mem \<times> nat" where
  "memcpy m dst src len =
    (if dst mod 4 = 0 \<and> src mod 4 = 0 \<and> len mod 4 = 0
     then (fold (\<lambda>i m. store_long m (dst + 4 * i) (load_long m (src + 4 * i))) [0..<len div 4] m, dst)
     else (fold (\<lambda>i m. m(dst + i := m (src + i))) [0..<len] m, dst))"

definition memmove :: "mem \<Rightarrow> nat \<Rightarrow> nat \<Rightarrow> nat \<Rightarrow> mem \<times> nat" where
  "memmove m dst src len =
    (if dst < src then memcpy m dst src len
     else if dst mod 4 = 0 \<and> src mod 4 = 0 \<and> len mod 4 = 0
     then (fold (\<lambda>i m. store_long m (dst + 4 * i) (load_long m (src + 4 * i))) (rev [0..<len div 4]) m, dst)
     else (fold (\<lambda>i m. m(dst + i := m (src + i))) (rev [0..<len]) m, dst))"

fun memcmp_loop :: "mem \<Rightarrow> nat \<Rightarrow> nat \<Rightarrow> nat \<Rightarrow> nat \<Rightarrow> int" where
  "memcmp_loop m a b i 0 = 0"
| "memcmp_loop m a b i (Suc n) =
    (if m (a + i) \<noteq> m (b + i) then uint (m (a + i)) - uint (m (b + i)) else memcmp_loop m a b (i + 1) n)"

definition memcmp :: "mem \<Rightarrow> nat \<Rightarrow> nat \<Rightarrow> nat \<Rightarrow> int" where
  "memcmp m av bv len = memcmp_loop m av bv 0 len"

section \<open>Strings\<close>

partial_function (option) strlen_loop :: "mem \<Rightarrow> nat \<Rightarrow> nat \<Rightarrow> nat option" where
  "strlen_loop m str ret = (if m (str + ret) \<noteq> 0 then strlen_loop m str (ret + 1) else Some ret)"

definition strlen :: "mem \<Rightarrow> nat \<Rightarrow> nat option" where
  "strlen m str = strlen_loop m str 0"

partial_function (option) strcpy_loop :: "mem \<Rightarrow> nat \<Rightarrow> nat \<Rightarrow> nat \<Rightarrow> (mem \<times> nat) option" where
  "strcpy_loop m dest src i =
    (if m (src + i) \<noteq> 0 then strcpy_loop (m(dest + i := m (src + i))) dest src (i + 1)
     else Some (m(dest + i := 0), dest))"

definition strcpy :: "mem \<Rightarrow> nat \<Rightarrow> nat \<Rightarrow> (mem \<times> nat) option" where
  "strcpy m dest src = strcpy_loop m dest src 0"

definition strcat :: "mem \<Rightarrow> nat \<Rightarrow> nat \<Rightarrow> (mem \<times> nat) option" where
  "strcat m dest src = do {
    offset \<leftarrow> strlen m dest;
    (m, _) \<leftarrow> strcpy m (dest + offset) src;
    Some (m, dest) }"

partial_function (option) strchr :: "mem \<Rightarrow> nat \<Rightarrow> 8 word \<Rightarrow> nat option option" where
  "strchr m s ch =
    (if m s \<noteq> 0 then (if m s = ch then Some (Some s) else strchr m (s + 1) ch)
     else Some (if m s = ch then Some s else None))"

fun strrchr_loop :: "mem \<Rightarrow> nat \<Rightarrow> 8 word \<Rightarrow> nat \<Rightarrow> nat option" where
  "strrchr_loop m s ch 0 = None"
| "strrchr_loop m s ch (Suc i) = (if m (s + i) = ch then Some (s + i) else strrchr_loop m s ch i)"

definition strrchr :: "mem \<Rightarrow> nat \<Rightarrow> 8 word \<Rightarrow> nat option option" where
  "strrchr m s ch = do { n \<leftarrow> strlen m s; Some (strrchr_loop m s ch (n + 1)) }"

partial_function (option) strcmp_loop :: "mem \<Rightarrow> nat \<Rightarrow> nat \<Rightarrow> nat \<Rightarrow> int option" where
  "strcmp_loop m a b i =
    (if m (a + i) \<noteq> 0 \<and> m (a + i) = m (b + i) then strcmp_loop m a b (i + 1)
     else Some (if uint (m (b + i)) < uint (m (a + i)) then 1 else if m (a + i) = m (b + i) then 0 else - 1))"

definition strcmp :: "mem \<Rightarrow> nat \<Rightarrow> nat \<Rightarrow> int option" where
  "strcmp m a b = strcmp_loop m a b 0"

section \<open>Tokens\<close>

partial_function (option) skip_seps :: "mem \<Rightarrow> nat \<Rightarrow> nat \<Rightarrow> nat option" where
  "skip_seps m seps head =
    (if m head \<noteq> 0 then do {
       r \<leftarrow> strchr m seps (m head);
       if r \<noteq> None then skip_seps m seps (head + 1) else Some head }
     else Some head)"

partial_function (option) skip_word :: "mem \<Rightarrow> nat \<Rightarrow> nat \<Rightarrow> nat option" where
  "skip_word m seps tail =
    (if m tail \<noteq> 0 then do {
       r \<leftarrow> strchr m seps (m tail);
       if r = None then skip_word m seps (tail + 1) else Some tail }
     else Some tail)"

text \<open>A pointer that may be NULL is an option; the result is the memory, the saved context and the token.\<close>

definition strtok_r :: "mem \<Rightarrow> nat option \<Rightarrow> nat \<Rightarrow> nat option \<Rightarrow> (mem \<times> nat option \<times> nat option) option" where
  "strtok_r m str seps context =
    (case (if str \<noteq> None then str else context) of
       None \<Rightarrow> Some (m, None, None)
     | Some head \<Rightarrow> do {
         head \<leftarrow> skip_seps m seps head;
         if m head = 0 then Some (m, None, None)
         else do {
           tail \<leftarrow> skip_word m seps head;
           Some (if m tail = 0 then (m, None, Some head) else (m(tail := 0), Some (tail + 1), Some head)) } })"

definition strtok :: "mem \<Rightarrow> nat option \<Rightarrow> nat \<Rightarrow> nat option \<Rightarrow> (mem \<times> nat option \<times> nat option) option" where
  "strtok m str seps strtok_context = strtok_r m str seps strtok_context"

section \<open>Decimal numbers\<close>

definition digits_str :: "8 word list" where
  "digits_str = map (\<lambda>i. word_of_nat (48 + i)) [0..<10]"

text \<open>The index of a byte in the constant "0123456789"; the terminator is at index 10.\<close>

definition digit_index :: "8 word \<Rightarrow> nat option" where
  "digit_index c = (case filter (\<lambda>i. (digits_str @ [0]) ! i = c) [0..<11] of [] \<Rightarrow> None | i # _ \<Rightarrow> Some i)"

partial_function (option) atoi_space :: "mem \<Rightarrow> nat \<Rightarrow> nat option" where
  "atoi_space m s = (if m s = 32 \<or> m s = 9 then atoi_space m (s + 1) else Some s)"

partial_function (option) atoi_digits :: "mem \<Rightarrow> nat \<Rightarrow> 32 word \<Rightarrow> 32 word option" where
  "atoi_digits m s val =
    (if m s \<noteq> 0 then
       (case digit_index (m s) of
          None \<Rightarrow> Some val
        | Some digit \<Rightarrow> atoi_digits m (s + 1) (val * 10 + word_of_nat digit))
     else Some val)"

definition atoi :: "mem \<Rightarrow> nat \<Rightarrow> int option" where
  "atoi m s = do {
    s \<leftarrow> atoi_space m s;
    let (neg, s) = (if m s = 45 then (True, s + 1) else if m s = 43 then (False, s + 1) else (False, s));
    val \<leftarrow> atoi_digits m s 0;
    Some (if neg then sint (- val) else sint val) }"

section \<open>Copying blocks\<close>

definition copied :: "mem \<Rightarrow> nat \<Rightarrow> nat \<Rightarrow> nat \<Rightarrow> mem" where
  "copied m dst src len = (\<lambda>a. if dst \<le> a \<and> a < dst + len then m (src + (a - dst)) else m a)"

definition filled :: "mem \<Rightarrow> nat \<Rightarrow> 8 word \<Rightarrow> nat \<Rightarrow> mem" where
  "filled m p c len = (\<lambda>a. if p \<le> a \<and> a < p + len then c else m a)"

lemma copy_byte: "m(d := m s) = copied m d s 1"
  by (auto simp: copied_def fun_eq_iff)

lemma copy_long: "store_long m d (load_long m s) = copied m d s 4"
proof
  fix a
  have "d \<le> a \<and> a < d + 4 \<longleftrightarrow> a = d \<or> a = d + 1 \<or> a = d + 2 \<or> a = d + 3" by auto
  then show "store_long m d (load_long m s) a = copied m d s 4 a"
    by (auto simp: copied_def store_long_def load_long_def)
qed

lemma fill_byte: "m(d := c) = filled m d c 1"
  by (auto simp: filled_def fun_eq_iff)

lemma fill_long: "store_long m d (c, c, c, c) = filled m d c 4"
  by (auto simp: filled_def store_long_def fun_eq_iff)

lemma copied_0: "copied m d s 0 = m"
  by (auto simp: copied_def fun_eq_iff)

lemma copied_up:
  assumes "d \<le> s \<or> s + n + w \<le> d"
  shows "copied (copied m d s n) (d + n) (s + n) w = copied m d s (n + w)"
proof
  fix a
  show "copied (copied m d s n) (d + n) (s + n) w a = copied m d s (n + w) a"
  proof (cases "d + n \<le> a \<and> a < d + n + w")
    case True
    then obtain k where k: "a = d + n + k" "k < w" by (metis add_less_cancel_left le_Suc_ex)
    then have "\<not> (d \<le> s + n + k \<and> s + n + k < d + n)" using assms by auto
    then show ?thesis using k by (auto simp: copied_def add.assoc)
  next
    case False
    then show ?thesis by (auto simp: copied_def)
  qed
qed

lemma copied_down:
  assumes "s \<le> d"
  shows "copied (copied m (d + n) (s + n) w) d s n = copied m d s (n + w)"
proof
  fix a
  show "copied (copied m (d + n) (s + n) w) d s n a = copied m d s (n + w) a"
  proof (cases "d \<le> a \<and> a < d + n")
    case True
    then have "\<not> d + n \<le> s + (a - d)" using assms by auto
    then show ?thesis using True by (simp add: copied_def)
  next
    case False
    then show ?thesis using assms by (auto simp: copied_def)
  qed
qed

lemma copy_up_loop:
  "d \<le> s \<or> s + w * n \<le> d \<Longrightarrow> fold (\<lambda>i m. copied m (d + w * i) (s + w * i) w) [0..<n] m = copied m d s (w * n)"
proof (induction n)
  case (Suc n)
  then have "d \<le> s \<or> s + w * n \<le> d" "d \<le> s \<or> s + w * n + w \<le> d" by auto
  then show ?case using Suc.IH by (simp add: copied_up add.commute)
qed (simp add: copied_0)

lemma copy_down_loop:
  "s \<le> d \<Longrightarrow> fold (\<lambda>i m. copied m (d + w * i) (s + w * i) w) (rev [0..<n]) m = copied m d s (w * n)"
proof (induction n arbitrary: m)
  case (Suc n)
  then show ?case using copied_down [OF Suc.prems, of m "w * n" w] by (simp add: add.commute)
qed (simp add: copied_0)

lemma fill_loop: "fold (\<lambda>i m. filled m (d + w * i) c w) [0..<n] m = filled m d c (w * n)"
proof (induction n)
  case (Suc n)
  then show ?case by (auto simp: filled_def fun_eq_iff)
qed (auto simp: filled_def fun_eq_iff)

lemmas block_loops = copy_byte copy_long fill_byte fill_long
  copy_up_loop [where w = 1, simplified] copy_down_loop [where w = 1, simplified] fill_loop [where w = 1, simplified]
  copy_up_loop [where w = 4] copy_down_loop [where w = 4] fill_loop [where w = 4]

lemma whole_longs: "len mod 4 = 0 \<Longrightarrow> 4 * (len div 4) = (len :: nat)"
  by auto

lemma memcpy_eq: "dst \<le> src \<or> src + len \<le> dst \<Longrightarrow> memcpy m dst src len = (copied m dst src len, dst)"
  by (auto simp: memcpy_def block_loops whole_longs)

lemma memmove_eq: "memmove m dst src len = (copied m dst src len, dst)"
  by (auto simp: memmove_def memcpy_eq block_loops whole_longs)

lemma bzero_eq: "bzero m block len = filled m block 0 len"
  by (auto simp: bzero_def block_loops whole_longs)

lemma memset_eq: "memset m p c len = (filled m p c len, p)"
  by (simp add: memset_def block_loops)

section \<open>Strings in memory\<close>

definition cstr :: "mem \<Rightarrow> nat \<Rightarrow> 8 word list \<Rightarrow> bool" where
  "cstr m p s \<longleftrightarrow> (\<forall>i < length s. m (p + i) = s ! i) \<and> 0 \<notin> set s \<and> m (p + length s) = 0"

lemma cstr_Nil [simp]: "cstr m p [] \<longleftrightarrow> m p = 0"
  by (simp add: cstr_def)

lemma cstr_Cons [simp]: "cstr m p (c # s) \<longleftrightarrow> m p = c \<and> c \<noteq> 0 \<and> cstr m (p + 1) s"
  by (auto simp: cstr_def nth_Cons split: nat.splits)

lemma cstr_cong: "cstr m p s \<Longrightarrow> (\<And>a. p \<le> a \<Longrightarrow> a \<le> p + length s \<Longrightarrow> m' a = m a) \<Longrightarrow> cstr m' p s"
  by (auto simp: cstr_def)

lemma cstr_unique: "cstr m p s \<Longrightarrow> cstr m p t \<Longrightarrow> s = t"
proof (induction s arbitrary: p t)
  case Nil
  then show ?case by (cases t) auto
next
  case (Cons c s)
  then show ?case by (cases t) auto
qed

lemma strlen_loop_eq: "cstr m (p + r) s \<Longrightarrow> strlen_loop m p r = Some (r + length s)"
proof (induction s arbitrary: r)
  case Nil
  then show ?case by (subst strlen_loop.simps) simp
next
  case (Cons c s)
  then show ?case using Cons.IH [of "r + 1"] by (subst strlen_loop.simps) (simp add: add.assoc)
qed

lemma strlen_eq: "cstr m p s \<Longrightarrow> strlen m p = Some (length s)"
  using strlen_loop_eq [of m p 0 s] by (simp add: strlen_def)

lemma strcpy_loop_eq:
  assumes "cstr m (src + i) s" "dest + i + length s < src + i \<or> src + i + length s < dest + i"
  shows "strcpy_loop m dest src i = Some (copied m (dest + i) (src + i) (length s + 1), dest)"
  using assms
proof (induction s arbitrary: i m)
  case Nil
  then have "m(dest + i := 0) = copied m (dest + i) (src + i) 1" using copy_byte [of m "dest + i" "src + i"] by simp
  then show ?case using Nil by (subst strcpy_loop.simps) simp
next
  case (Cons c s)
  define m1 where "m1 = m(dest + i := m (src + i))"
  have m1: "m1 = copied m (dest + i) (src + i) 1" unfolding m1_def by (rule copy_byte)
  have "cstr m1 (src + (i + 1)) s" using Cons.prems by (auto intro: cstr_cong simp: m1_def add.assoc)
  then have "strcpy_loop m1 dest src (i + 1) = Some (copied m1 (dest + (i + 1)) (src + (i + 1)) (length s + 1), dest)"
    using Cons.prems(2) by (intro Cons.IH) auto
  also have "copied m1 (dest + (i + 1)) (src + (i + 1)) (length s + 1) = copied m (dest + i) (src + i) (1 + (length s + 1))"
  proof -
    have "dest + i \<le> src + i \<or> src + i + 1 + (length s + 1) \<le> dest + i" using Cons.prems(2) by auto
    from copied_up [OF this, of m] show ?thesis unfolding m1 by (simp add: add.assoc)
  qed
  finally have "strcpy_loop m1 dest src (i + 1) = Some (copied m (dest + i) (src + i) (1 + (length s + 1)), dest)" .
  moreover have "strcpy_loop m dest src i = strcpy_loop m1 dest src (i + 1)"
    using Cons.prems(1) by (subst strcpy_loop.simps) (simp add: m1_def)
  ultimately show ?case by simp
qed

lemma strcpy_eq:
  assumes "cstr m src s" "dest + length s < src \<or> src + length s < dest"
  shows "strcpy m dest src = Some (copied m dest src (length s + 1), dest)"
  using strcpy_loop_eq [of m src 0 s dest] assms by (simp add: strcpy_def)

lemma cstr_append: "cstr m p (s @ t) \<longleftrightarrow> (\<forall>i < length s. m (p + i) = s ! i \<and> s ! i \<noteq> 0) \<and> cstr m (p + length s) t"
proof (induction s arbitrary: p)
  case (Cons c s)
  show ?case unfolding append_Cons cstr_Cons Cons.IH
    by (auto simp: less_Suc_eq_0_disj add.assoc)
qed simp

lemma strcat_eq:
  assumes "cstr m dest s" "cstr m src t" "dest + length s + length t < src \<or> src + length t < dest"
  shows "\<exists>m'. strcat m dest src = Some (m', dest) \<and> cstr m' dest (s @ t) \<and>
    (\<forall>a. a < dest + length s \<or> dest + length s + length t < a \<longrightarrow> m' a = m a)"
proof -
  define m' where "m' = copied m (dest + length s) src (length t + 1)"
  have "strcpy m (dest + length s) src = Some (m', dest + length s)"
    unfolding m'_def by (rule strcpy_eq [OF assms(2)]) (use assms(3) in auto)
  then have "strcat m dest src = Some (m', dest)" using assms(1) by (simp add: strcat_def strlen_eq)
  moreover have "cstr m' dest (s @ t)"
    unfolding cstr_append using assms(1,2) by (auto simp: m'_def copied_def cstr_def) (metis nth_mem)
  ultimately show ?thesis by (auto simp: m'_def copied_def)
qed

lemma strchr_eq:
  "cstr m p s \<Longrightarrow> strchr m p c = Some (if c \<in> set (s @ [0]) then Some (p + length (takeWhile (\<lambda>x. x \<noteq> c) s)) else None)"
proof (induction s arbitrary: p)
  case Nil
  then show ?case by (subst strchr.simps) auto
next
  case (Cons x s)
  then show ?case using Cons.IH [of "p + 1"] by (subst strchr.simps) auto
qed

lemma strchr_member: "cstr m p s \<Longrightarrow> c \<noteq> 0 \<Longrightarrow> strchr m p c = Some r \<Longrightarrow> r \<noteq> None \<longleftrightarrow> c \<in> set s"
  by (auto simp: strchr_eq split: if_splits)

lemma strrchr_eq:
  assumes "cstr m p s"
  shows "strrchr m p c = Some (if c \<in> set (s @ [0]) then Some (p + (length s - length (takeWhile (\<lambda>x. x \<noteq> c) (rev (s @ [0]))))) else None)"
proof -
  have "strrchr_loop m p c (length t) =
      (if c \<in> set t then Some (p + (length t - 1 - length (takeWhile (\<lambda>x. x \<noteq> c) (rev t)))) else None)"
    if "\<forall>i < length t. m (p + i) = t ! i" for t
    using that
  proof (induction t rule: rev_induct)
    case (snoc x t)
    then have "m (p + length t) = x" "\<forall>i < length t. m (p + i) = t ! i" by (auto simp: nth_append)
    then show ?case using snoc.IH by auto
  qed simp
  from this [of "s @ [0]"] show ?thesis
    using assms strlen_eq [OF assms] by (auto simp: strrchr_def cstr_def nth_append less_Suc_eq)
qed

lemma uint_positive: "0 < uint w \<longleftrightarrow> w \<noteq> 0" for w :: "'a :: len word"
  by (simp add: less_le uint_0_iff)

lemma strcmp_loop_eq:
  "cstr m (a + i) s \<Longrightarrow> cstr m (b + i) t \<Longrightarrow>
    strcmp_loop m a b i = Some (if t < s then 1 else if s = t then 0 else - 1)"
proof (induction s arbitrary: i t)
  case Nil
  then show ?case by (cases t; subst strcmp_loop.simps) (auto simp: uint_0_iff)
next
  case (Cons c s)
  show ?case
  proof (cases t)
    case Nil
    then show ?thesis using Cons.prems by (subst strcmp_loop.simps) (auto simp: uint_positive)
  next
    case (Cons d t')
    then show ?thesis using Cons.prems Cons.IH [of "i + 1" t'] \<open>cstr m (a + i) (c # s)\<close>
      by (subst strcmp_loop.simps) (auto simp: add.assoc simp flip: word_less_def)
  qed
qed

lemma strcmp_eq: "cstr m a s \<Longrightarrow> cstr m b t \<Longrightarrow> strcmp m a b = Some (if t < s then 1 else if s = t then 0 else - 1)"
  using strcmp_loop_eq [of m a 0 s b t] by (simp add: strcmp_def)

section \<open>Words of a line\<close>

lemma skip_seps_eq:
  "cstr m p s \<Longrightarrow> cstr m q seps \<Longrightarrow> skip_seps m q p = Some (p + length (takeWhile (\<lambda>c. c \<in> set seps) s))"
proof (induction s arbitrary: p)
  case Nil
  then show ?case by (subst skip_seps.simps) simp
next
  case (Cons c s)
  then show ?case using Cons.IH [of "p + 1"] by (subst skip_seps.simps) (auto simp: strchr_eq)
qed

lemma skip_word_eq:
  "cstr m p s \<Longrightarrow> cstr m q seps \<Longrightarrow> skip_word m q p = Some (p + length (takeWhile (\<lambda>c. c \<notin> set seps) s))"
proof (induction s arbitrary: p)
  case Nil
  then show ?case by (subst skip_word.simps) simp
next
  case (Cons c s)
  then show ?case using Cons.IH [of "p + 1"] by (subst skip_word.simps) (auto simp: strchr_eq)
qed

function split_words :: "8 word set \<Rightarrow> 8 word list \<Rightarrow> 8 word list list" where
  "split_words S s = (let r = dropWhile (\<lambda>c. c \<in> S) s in
    if r = [] then [] else takeWhile (\<lambda>c. c \<notin> S) r # split_words S (dropWhile (\<lambda>c. c \<notin> S) r))"
  by pat_completeness auto
termination
proof (relation "measure (\<lambda>(S, s). length s)", simp_all, goal_cases)
  case (1 S s)
  then obtain c r where r: "dropWhile (\<lambda>c. c \<in> S) s = c # r" by (cases "dropWhile (\<lambda>c. c \<in> S) s") auto
  then have "c \<notin> S" by (simp add: dropWhile_eq_Cons_conv)
  then have "length (dropWhile (\<lambda>c. c \<notin> S) (c # r)) \<le> length r" by (simp add: length_dropWhile_le)
  moreover have "length (c # r) \<le> length s" using length_dropWhile_le [of "\<lambda>c. c \<in> S" s] r by simp
  ultimately show ?case using r by simp
qed

declare split_words.simps [simp del]

lemma cstr_drop: "cstr m p s \<Longrightarrow> n \<le> length s \<Longrightarrow> cstr m (p + n) (drop n s)"
  using cstr_append [of m p "take n s" "drop n s"] by simp

text \<open>One call: the first word, and what is left for the next call.\<close>

lemma strtok_r_eq:
  assumes "cstr m p s" "cstr m q seps"
    and str: "(if str \<noteq> None then str else context) = Some p"
  defines "S \<equiv> set seps"
  defines "r \<equiv> dropWhile (\<lambda>c. c \<in> S) s"
  defines "w \<equiv> takeWhile (\<lambda>c. c \<notin> S) r" and "t \<equiv> dropWhile (\<lambda>c. c \<notin> S) r"
  defines "h \<equiv> p + length (takeWhile (\<lambda>c. c \<in> S) s)"
  shows "strtok_r m str q context =
    Some (if r = [] then (m, None, None)
      else if t = [] then (m, None, Some h) else (m(h + length w := 0), Some (h + length w + 1), Some h))"
    "r \<noteq> [] \<Longrightarrow> w \<noteq> []" "r \<noteq> [] \<Longrightarrow> t = [] \<Longrightarrow> cstr m h w"
    "t \<noteq> [] \<Longrightarrow> cstr (m(h + length w := 0)) h w" "t \<noteq> [] \<Longrightarrow> cstr (m(h + length w := 0)) (h + length w + 1) (tl t)"
    "t \<noteq> [] \<Longrightarrow> hd t \<in> S" "h + length r = p + length s" "length r = length w + length t"
proof -
  have s: "s = takeWhile (\<lambda>c. c \<in> S) s @ r" by (simp add: r_def)
  have hr: "cstr m h r"
    using assms(1) cstr_append [of m p "takeWhile (\<lambda>c. c \<in> S) s" r] s unfolding h_def by metis
  show len: "h + length r = p + length s" unfolding h_def using arg_cong [OF s, of length] by simp
  have r: "r = w @ t" by (simp add: w_def t_def)
  then show lr: "length r = length w + length t" by simp
  have wt: "\<forall>i < length w. m (h + i) = w ! i \<and> w ! i \<noteq> 0" "cstr m (h + length w) t" using hr unfolding r cstr_append by auto
  have h0: "m h = 0 \<longleftrightarrow> r = []" using hr by (cases r) auto
  have t0: "m (h + length w) = 0 \<longleftrightarrow> t = []" using wt(2) by (cases t) auto
  show "r \<noteq> [] \<Longrightarrow> w \<noteq> []"
    unfolding w_def using hd_dropWhile [of "\<lambda>c. c \<in> S" s] by (cases r) (auto simp: r_def)
  show "t \<noteq> [] \<Longrightarrow> hd t \<in> S" unfolding t_def using hd_dropWhile [of "\<lambda>c. c \<notin> S" r] by auto
  have sk: "skip_seps m q p = Some h" "skip_word m q h = Some (h + length w)"
    using skip_seps_eq [OF assms(1,2)] skip_word_eq [OF hr assms(2)] by (simp_all add: h_def w_def S_def)
  show "strtok_r m str q context =
    Some (if r = [] then (m, None, None)
      else if t = [] then (m, None, Some h) else (m(h + length w := 0), Some (h + length w + 1), Some h))"
    unfolding strtok_r_def str using h0 t0 sk by simp
  show "cstr m h w" if "t = []" using hr r that by simp
  have w0: "0 \<notin> set w" using wt(1) by (auto simp: in_set_conv_nth)
  show "cstr (m(h + length w := 0)) h w" if "t \<noteq> []"
    using wt(1) w0 by (auto simp: cstr_def)
  show "cstr (m(h + length w := 0)) (h + length w + 1) (tl t)" if "t \<noteq> []"
    using wt(2) that by (cases t) (auto intro: cstr_cong)
qed

lemma split_words_nil: "dropWhile (\<lambda>c. c \<in> S) s = [] \<Longrightarrow> split_words S s = []"
  by (simp only: split_words.simps [of S s] Let_def if_True simp_thms)

lemma split_words_step:
  "dropWhile (\<lambda>c. c \<in> S) s = r \<Longrightarrow> r \<noteq> [] \<Longrightarrow>
    split_words S s = takeWhile (\<lambda>c. c \<notin> S) r # split_words S (dropWhile (\<lambda>c. c \<notin> S) r)"
  by (simp only: split_words.simps [of S s] Let_def if_False)

lemma split_words_skip: "c \<in> S \<Longrightarrow> split_words S (c # s) = split_words S s"
  by (simp only: split_words.simps [of S s] split_words.simps [of S "c # s"] dropWhile.simps if_True)

section \<open>Reading numbers\<close>

definition dig :: "nat \<Rightarrow> 8 word" where "dig d = word_of_nat (48 + d)"

lemma digit_index_dig: "d < 10 \<Longrightarrow> digit_index (dig d) = Some d"
proof -
  have "\<forall>d \<in> {0..<10}. digit_index (dig d) = Some d"
    by (simp add: digit_index_def digits_str_def dig_def upt_rec atLeastLessThan_upt)
  then show "d < 10 \<Longrightarrow> digit_index (dig d) = Some d" by simp
qed

lemma dig_distinct: "d < 10 \<Longrightarrow> dig d \<notin> {0, 9, 32, 43, 45}"
proof -
  have "\<forall>d \<in> {0..<10}. dig d \<notin> {0, 9, 32, 43, 45}"
    by (simp add: dig_def upt_rec atLeastLessThan_upt)
  then show "d < 10 \<Longrightarrow> dig d \<notin> {0, 9, 32, 43, 45}" by simp
qed

definition decimal :: "nat list \<Rightarrow> nat" where
  "decimal ds = foldl (\<lambda>v d. v * 10 + d) 0 ds"

lemma atoi_digits_eq:
  assumes "\<forall>d \<in> set ds. d < 10" "cstr m p (map dig ds @ rest)" "rest = [] \<or> digit_index (hd rest) = None"
  shows "atoi_digits m p (word_of_nat v) = Some (word_of_nat (foldl (\<lambda>v d. v * 10 + d) v ds))"
  using assms
proof (induction ds arbitrary: p v)
  case Nil
  then show ?case by (cases rest; subst atoi_digits.simps) auto
next
  case (Cons d ds)
  then show ?case using Cons.IH [of "p + 1" "v * 10 + d"]
    by (subst atoi_digits.simps) (simp add: digit_index_dig)
qed

lemma atoi_space_eq:
  "set bl \<subseteq> {32, 9} \<Longrightarrow> cstr m p (bl @ s) \<Longrightarrow> s = [] \<or> hd s \<notin> {32, 9} \<Longrightarrow> atoi_space m p = Some (p + length bl)"
proof (induction bl arbitrary: p)
  case Nil
  then show ?case by (cases s; subst atoi_space.simps) auto
next
  case (Cons c bl)
  then show ?case using Cons.IH [of "p + 1"] by (subst atoi_space.simps) auto
qed

lemma atoi_eq:
  assumes "cstr m p (bl @ sg @ map dig ds @ rest)" "set bl \<subseteq> {32, 9}" "sg \<in> {[], [43], [45]}"
    "ds \<noteq> []" "\<forall>d \<in> set ds. d < 10" "rest = [] \<or> digit_index (hd rest) = None"
  shows "atoi m p = Some (if sg = [45] then sint (- word_of_nat (decimal ds) :: 32 word) else sint (word_of_nat (decimal ds) :: 32 word))"
proof -
  obtain d ds' where ds: "ds = d # ds'" using assms(4) by (cases ds) auto
  then have dd: "dig d \<notin> {0, 9, 32, 43, 45}" using assms(5) dig_distinct by simp
  have sp: "atoi_space m p = Some (p + length bl)"
    by (rule atoi_space_eq [OF assms(2,1)]) (use assms(3) ds dd in auto)
  have c: "cstr m (p + length bl) (sg @ map dig ds @ rest)" using assms(1) unfolding cstr_append by simp
  have body: "cstr m (p + length bl + length sg) (map dig ds @ rest)" using c unfolding cstr_append by simp
  have "atoi_digits m (p + length bl + length sg) 0 = Some (word_of_nat (decimal ds))"
    using atoi_digits_eq [OF assms(5) body assms(6), of 0] by (simp add: decimal_def)
  then show ?thesis using assms(3) c dd ds sp by (auto simp: atoi_def)
qed

section \<open>Properties\<close>

text \<open>Block moves.  \<open>memmove\<close> leaves in the destination what the source held before the
  call, however the two blocks overlap, and changes no other byte, on the word-at-a-time
  path as on the byte-at-a-time path.\<close>
theorem memmove_moves:
  "memmove m dst src len = ((\<lambda>a. if dst \<le> a \<and> a < dst + len then m (src + (a - dst)) else m a), dst)"
  by (simp add: memmove_eq copied_def)

text \<open>String comparison.  On terminated strings \<open>strcmp\<close> returns, and the result is the
  lexicographic order of the strings as lists of unsigned bytes: zero exactly for equal
  strings, one when the first is greater and minus one when it is less.\<close>
theorem strcmp_orders:
  "cstr m a s \<Longrightarrow> cstr m b t \<Longrightarrow> strcmp m a b = Some (if t < s then 1 else if s = t then 0 else - 1)"
  by (rule strcmp_eq)

theorem strcmp_orders_witness:
  "cstr (\<lambda>a. if a = 0 then 97 else if a = 2 then 200 else 0) 0 [97] \<and>
   cstr (\<lambda>a. if a = 0 then 97 else if a = 2 then 200 else 0) 2 [200] \<and>
   strcmp (\<lambda>a. if a = 0 then 97 else if a = 2 then 200 else 0) 0 2 = Some (- 1)"
proof -
  define m :: mem where "m = (\<lambda>a. if a = 0 then 97 else if a = 2 then 200 else 0)"
  have "cstr m 0 [97]" "cstr m 2 [200]" by (simp_all add: m_def)
  then show ?thesis using strcmp_orders [of m 0 "[97]" 2 "[200]"] unfolding m_def by simp
qed

text \<open>Concatenation.  When the result does not run into the source, \<open>strcat\<close> leaves the two
  strings joined at the destination and touches nothing before or behind the part it appends.\<close>
theorem strcat_appends:
  assumes "cstr m dest s" "cstr m src t" "dest + length s + length t < src \<or> src + length t < dest"
  shows "\<exists>m'. strcat m dest src = Some (m', dest) \<and> cstr m' dest (s @ t) \<and>
    (\<forall>a. a < dest + length s \<or> dest + length s + length t < a \<longrightarrow> m' a = m a)"
  using assms by (rule strcat_eq)

theorem strcat_appends_witness:
  "\<exists>m :: mem. cstr m 0 [97] \<and> cstr m 9 [98] \<and> 0 + length [97 :: 8 word] + length [98 :: 8 word] < (9 :: nat) \<and>
    (\<exists>m'. strcat m 0 9 = Some (m', 0) \<and> cstr m' 0 [97, 98])"
proof -
  define m :: mem where "m = (\<lambda>a. if a = 0 then 97 else if a = 9 then 98 else 0)"
  have c: "cstr m 0 [97]" "cstr m 9 [98]" by (simp_all add: m_def)
  obtain m' where "strcat m 0 9 = Some (m', 0)" "cstr m' 0 ([97] @ [98])"
    using strcat_appends [OF c] by auto
  then show ?thesis using c by auto
qed

text \<open>Reading decimal numbers.  After blanks and an optional sign, \<open>atoi\<close> returns the value of
  the digits up to the first other character, as a 32-bit two's complement number (so exactly
  that value when it fits).\<close>
theorem atoi_reads:
  assumes "cstr m p (bl @ sg @ map dig ds @ rest)" "set bl \<subseteq> {32, 9}" "sg \<in> {[], [43], [45]}"
    "ds \<noteq> []" "\<forall>d \<in> set ds. d < 10" "rest = [] \<or> digit_index (hd rest) = None"
  shows "atoi m p = Some (if sg = [45] then sint (- word_of_nat (decimal ds) :: 32 word) else sint (word_of_nat (decimal ds) :: 32 word))"
  using assms by (rule atoi_eq)

theorem atoi_reads_witness:
  "\<exists>m :: mem. cstr m 0 ([32] @ [45] @ map dig [4, 2] @ [122]) \<and> atoi m 0 = Some (- 42)"
proof -
  define m :: mem where "m = (\<lambda>a. ([32, 45, 52, 50, 122] @ replicate 9 0) ! (min a 13))"
  have c: "cstr m 0 ([32] @ [45] @ map dig [4, 2] @ [122])" by (simp add: m_def dig_def)
  have "digit_index 122 = None" by (simp add: digit_index_def digits_str_def upt_rec)
  then have "atoi m 0 = Some (- 42)" using atoi_reads [OF c] by (simp add: decimal_def)
  then show ?thesis using c by blast
qed

end

