(* ===== verification/Printf.thy ===== *)
theory Printf
  imports Cstring Millicode
begin

text \<open>
  Formatted output: common/libc/printf/__printf.c and snprintf.c.  Text is a list of bytes.
  The argument list is typed: \<open>va_arg\<close> with another type than the argument has is undefined
  in C and is \<open>None\<close> here, as is a failed assertion or a write before the number buffer.
  The send callback and its client data are fields of the printf state; what the printf
  code relies on of a callback is the locale \<open>printf_sink\<close>, interpreted on the callback of
  snprintf.
\<close>

section \<open>State\<close>

abbreviation str :: "string \<Rightarrow> 8 word list" where "str s \<equiv> map of_char s"
abbreviation byte :: "char \<Rightarrow> 8 word" where "byte c \<equiv> of_char c"

datatype intsz = INTSZ | LONGSZ | LLONGSZ

datatype arg = Int_arg "32 word" | Long_arg "32 word" | LLong_arg "64 word" | Ptr_arg "32 word"
  | Str_arg "8 word list option"

record 'c PF =
  sendfunc :: "'c \<Rightarrow> 8 word list \<Rightarrow> 'c"
  clientdata :: 'c
  ap :: "arg list"
  charcount :: int
  in_pct :: bool
  pfsize :: intsz
  pfnum :: "64 word"
  pfsign :: int
  spacing :: int
  rightspc :: bool
  fillchar :: "8 word"
  pfbase :: nat
  baseprefix :: bool
  altformat :: bool

definition NUMBER_BUF_SIZE :: nat where "NUMBER_BUF_SIZE = (8 * 8) div 3 + 2"

section \<open>Operations\<close>

definition pf_print :: "'c PF \<Rightarrow> 8 word list \<Rightarrow> 'c PF" where
  "pf_print pf txt = pf\<lparr>clientdata := sendfunc pf (clientdata pf) txt, charcount := charcount pf + int (length txt)\<rparr>"

definition pf_endfield :: "'c PF \<Rightarrow> 'c PF" where
  "pf_endfield pf = pf\<lparr>in_pct := False, pfsize := INTSZ, pfnum := 0, pfsign := 0, spacing := 0, rightspc := False,
    fillchar := byte CHR '' '', pfbase := 0, baseprefix := False, altformat := False\<rparr>"

definition pf_modifier :: "'c PF \<Rightarrow> 8 word \<Rightarrow> 'c PF option" where
  "pf_modifier pf ch =
    (if ch = byte CHR ''#'' then Some (pf\<lparr>altformat := True\<rparr>)
     else if ch = byte CHR ''-'' then Some (pf\<lparr>rightspc := True\<rparr>)
     else if ch = byte CHR ''l'' then Some (pf\<lparr>pfsize := (if pfsize pf = LONGSZ then LLONGSZ else LONGSZ)\<rparr>)
     else if ch = byte CHR ''0'' then
       Some (if spacing pf > 0 then pf\<lparr>spacing := spacing pf * 10\<rparr> else pf\<lparr>fillchar := byte CHR ''0''\<rparr>)
     else if byte CHR ''0'' < ch \<and> ch \<le> byte CHR ''9'' then
       Some (pf\<lparr>spacing := spacing pf * 10 + (uint ch - uint (byte CHR ''0''))\<rparr>)
     else None)"

definition va_int :: "'c PF \<Rightarrow> (32 word \<times> 'c PF) option" where
  "va_int pf = (case ap pf of Int_arg w # r \<Rightarrow> Some (w, pf\<lparr>ap := r\<rparr>) | _ \<Rightarrow> None)"

definition va_long :: "'c PF \<Rightarrow> (32 word \<times> 'c PF) option" where
  "va_long pf = (case ap pf of Long_arg w # r \<Rightarrow> Some (w, pf\<lparr>ap := r\<rparr>) | _ \<Rightarrow> None)"

definition va_llong :: "'c PF \<Rightarrow> (64 word \<times> 'c PF) option" where
  "va_llong pf = (case ap pf of LLong_arg w # r \<Rightarrow> Some (w, pf\<lparr>ap := r\<rparr>) | _ \<Rightarrow> None)"

definition va_ptr :: "'c PF \<Rightarrow> (32 word \<times> 'c PF) option" where
  "va_ptr pf = (case ap pf of Ptr_arg w # r \<Rightarrow> Some (w, pf\<lparr>ap := r\<rparr>) | _ \<Rightarrow> None)"

definition va_str :: "'c PF \<Rightarrow> (8 word list option \<times> 'c PF) option" where
  "va_str pf = (case ap pf of Str_arg s # r \<Rightarrow> Some (s, pf\<lparr>ap := r\<rparr>) | _ \<Rightarrow> None)"

definition pf_getnum :: "'c PF \<Rightarrow> 8 word \<Rightarrow> 'c PF option" where
  "pf_getnum pf ch =
    (if ch = byte CHR ''p'' then do {
       (w, pf) \<leftarrow> va_ptr pf;
       Some (pf\<lparr>pfnum := ucast w\<rparr>) }
     else if ch = byte CHR ''d'' then do {
       (signednum, pf) \<leftarrow> (case pfsize pf of
           INTSZ \<Rightarrow> map_option (apfst scast) (va_int pf)
         | LONGSZ \<Rightarrow> map_option (apfst scast) (va_long pf)
         | LLONGSZ \<Rightarrow> va_llong pf);
       Some (if sint (signednum :: 64 word) < 0 then pf\<lparr>pfsign := - 1, pfnum := - signednum\<rparr> else pf\<lparr>pfnum := signednum\<rparr>) }
     else do {
       (n, pf) \<leftarrow> (case pfsize pf of
           INTSZ \<Rightarrow> map_option (apfst ucast) (va_int pf)
         | LONGSZ \<Rightarrow> map_option (apfst ucast) (va_long pf)
         | LLONGSZ \<Rightarrow> va_llong pf);
       Some (pf\<lparr>pfnum := n\<rparr>) })"

definition pf_setbase :: "'c PF \<Rightarrow> 8 word \<Rightarrow> 'c PF" where
  "pf_setbase pf ch =
    (let pf = (if ch = byte CHR ''d'' \<or> ch = byte CHR ''u'' then pf\<lparr>pfbase := 10\<rparr>
       else if ch = byte CHR ''x'' \<or> ch = byte CHR ''p'' then pf\<lparr>pfbase := 16\<rparr>
       else if ch = byte CHR ''o'' then pf\<lparr>pfbase := 8\<rparr> else pf)
     in if altformat pf \<or> ch = byte CHR ''p'' then pf\<lparr>baseprefix := True\<rparr> else pf)"

fun pf_fill_loop :: "'c PF \<Rightarrow> 8 word \<Rightarrow> nat \<Rightarrow> 'c PF" where
  "pf_fill_loop pf f 0 = pf"
| "pf_fill_loop pf f (Suc n) = pf_fill_loop (pf_print pf [f]) f n"

definition pf_fill :: "'c PF \<Rightarrow> int \<Rightarrow> 'c PF" where
  "pf_fill pf spc = pf_fill_loop pf (fillchar pf) (nat spc)"

definition pf_printstuff :: "'c PF \<Rightarrow> 8 word list \<Rightarrow> 8 word list \<Rightarrow> 8 word list \<Rightarrow> 'c PF" where
  "pf_printstuff pf prefix prefix2 stuff =
    (let len = int (length prefix) + int (length prefix2) + int (length stuff);
         spc = spacing pf;
         spc = (if spc > len then spc - len else 0);
         pf = (if spc > 0 \<and> \<not> rightspc pf \<and> fillchar pf \<noteq> byte CHR ''0'' then pf_fill pf spc else pf);
         pf = pf_print pf prefix;
         pf = pf_print pf prefix2;
         pf = (if spc > 0 \<and> \<not> rightspc pf \<and> fillchar pf = byte CHR ''0'' then pf_fill pf spc else pf);
         pf = pf_print pf stuff
     in if spc > 0 \<and> rightspc pf then pf_fill pf spc else pf)"

definition digit_chars :: "8 word list" where "digit_chars = str ''0123456789abcdef''"

text \<open>The third argument is the number of slots of the buffer in front of the text so far: the next
  digit goes into the slot below.\<close>

fun printnum_loop :: "nat \<Rightarrow> 64 word \<Rightarrow> 8 word list \<Rightarrow> nat \<Rightarrow> (8 word list \<times> nat) option" where
  "printnum_loop b xnum buf 0 = None"
| "printnum_loop b xnum buf (Suc x) =
    (let buf = buf[x := digit_chars ! unat (xnum mod word_of_nat b)];
         xnum = xnum div word_of_nat b
     in if xnum > 0 then printnum_loop b xnum buf x else Some (buf, x))"

definition pf_printnum :: "'c PF \<Rightarrow> 'c PF option" where
  "pf_printnum pf = do {
    let buf = (replicate NUMBER_BUF_SIZE 0)[NUMBER_BUF_SIZE - 1 := 0];
    (buf, x) \<leftarrow> printnum_loop (pfbase pf) (pfnum pf) buf (NUMBER_BUF_SIZE - 1);
    let bprefix = (if baseprefix pf \<and> pfbase pf = 16 then str ''0x'' else if baseprefix pf \<and> pfbase pf = 8 then str ''0'' else []);
    let sprefix = (if pfsign pf \<noteq> 0 then str ''-'' else []);
    Some (pf_printstuff pf sprefix bprefix (takeWhile (\<lambda>c. c \<noteq> 0) (drop x buf))) }"

definition pf_send :: "'c PF \<Rightarrow> 8 word \<Rightarrow> 'c PF option" where
  "pf_send pf ch =
    (if ch = 0 then None
     else if \<not> in_pct pf \<and> ch \<noteq> byte CHR ''%'' then Some (pf_print pf [ch])
     else if \<not> in_pct pf then Some (pf\<lparr>in_pct := True\<rparr>)
     else if ch \<in> set (str ''#-l0123456789'') then pf_modifier pf ch
     else if ch \<in> set (str ''doupx'') then do {
       pf \<leftarrow> pf_getnum pf ch;
       pf \<leftarrow> pf_printnum (pf_setbase pf ch);
       Some (pf_endfield pf) }
     else if ch = byte CHR ''s'' then do {
       (s, pf) \<leftarrow> va_str pf;
       Some (pf_endfield (pf_printstuff pf [] [] (case s of None \<Rightarrow> str ''(null)'' | Some s \<Rightarrow> s))) }
     else do {
       (x, pf) \<leftarrow> (if ch = byte CHR ''c'' then map_option (apfst ucast) (va_int pf) else Some (ch, pf));
       Some (pf_endfield (pf_printstuff pf [] [] (takeWhile (\<lambda>c. c \<noteq> 0) [x]))) })"

fun vprintf_loop :: "'c PF \<Rightarrow> 8 word list \<Rightarrow> 'c PF option" where
  "vprintf_loop pf [] = Some pf"
| "vprintf_loop pf (ch # format) = do { pf \<leftarrow> pf_send pf ch; vprintf_loop pf format }"

definition pf_init :: "('c \<Rightarrow> 8 word list \<Rightarrow> 'c) \<Rightarrow> 'c \<Rightarrow> arg list \<Rightarrow> 'c PF" where
  "pf_init func c args = pf_endfield \<lparr>sendfunc = func, clientdata = c, ap = args, charcount = 0, in_pct = False,
    pfsize = INTSZ, pfnum = 0, pfsign = 0, spacing = 0, rightspc = False, fillchar = 0, pfbase = 0, baseprefix = False,
    altformat = False\<rparr>"

definition vprintf :: "('c \<Rightarrow> 8 word list \<Rightarrow> 'c) \<Rightarrow> 'c \<Rightarrow> 8 word list \<Rightarrow> arg list \<Rightarrow> (int \<times> 'c) option" where
  "vprintf func c format args = do {
    pf \<leftarrow> vprintf_loop (pf_init func c args) format;
    Some (charcount pf, clientdata pf) }"

section \<open>Printing into a buffer\<close>

record SNP =
  snp_mem :: mem
  snp_buf :: nat
  buflen :: nat
  bufpos :: nat

fun snprintf_send :: "SNP \<Rightarrow> 8 word list \<Rightarrow> SNP" where
  "snprintf_send snp [] = snp"
| "snprintf_send snp (c # data) =
    snprintf_send (if bufpos snp < buflen snp
      then snp\<lparr>snp_mem := (snp_mem snp)(snp_buf snp + bufpos snp := c), bufpos := bufpos snp + 1\<rparr> else snp) data"

definition vsnprintf :: "mem \<Rightarrow> nat \<Rightarrow> nat \<Rightarrow> 8 word list \<Rightarrow> arg list \<Rightarrow> (int \<times> mem) option" where
  "vsnprintf m buf len fmt args = do {
    let snp = \<lparr>snp_mem = m, snp_buf = buf, buflen = (if len = 0 then 0 else len - 1), bufpos = 0\<rparr>;
    (chars, snp) \<leftarrow> vprintf snprintf_send snp fmt args;
    Some (chars, if len > 0 then (snp_mem snp)(buf + bufpos snp := 0) else snp_mem snp) }"

definition snprintf :: "mem \<Rightarrow> nat \<Rightarrow> nat \<Rightarrow> 8 word list \<Rightarrow> arg list \<Rightarrow> (int \<times> mem) option" where
  "snprintf m buf len fmt args = vsnprintf m buf len fmt args"

section \<open>What printf relies on of its callback\<close>

text \<open>A sink that takes text in pieces: sending two pieces is sending their concatenation.\<close>

locale printf_sink =
  fixes send :: "'c \<Rightarrow> 8 word list \<Rightarrow> 'c"
  assumes send_Nil: "send c [] = c"
    and send_append: "send (send c s) t = send c (s @ t)"

text \<open>The text printf produces: printf into a sink that collects the text.\<close>

definition render :: "8 word list \<Rightarrow> arg list \<Rightarrow> (int \<times> 8 word list) option" where
  "render fmt args = vprintf (@) [] fmt args"

definition retarget :: "('c \<Rightarrow> 8 word list \<Rightarrow> 'c) \<Rightarrow> 'c \<Rightarrow> (8 word list) PF \<Rightarrow> 'c PF" where
  "retarget send c p = \<lparr>sendfunc = send, clientdata = send c (clientdata p), ap = ap p, charcount = charcount p,
    in_pct = in_pct p, pfsize = pfsize p, pfnum = pfnum p, pfsign = pfsign p, spacing = spacing p, rightspc = rightspc p,
    fillchar = fillchar p, pfbase = pfbase p, baseprefix = baseprefix p, altformat = altformat p\<rparr>"

lemma retarget_sel [simp]:
  "sendfunc (retarget send c p) = send" "clientdata (retarget send c p) = send c (clientdata p)"
  "ap (retarget send c p) = ap p" "charcount (retarget send c p) = charcount p" "in_pct (retarget send c p) = in_pct p"
  "pfsize (retarget send c p) = pfsize p" "pfnum (retarget send c p) = pfnum p" "pfsign (retarget send c p) = pfsign p"
  "spacing (retarget send c p) = spacing p" "rightspc (retarget send c p) = rightspc p" "fillchar (retarget send c p) = fillchar p"
  "pfbase (retarget send c p) = pfbase p" "baseprefix (retarget send c p) = baseprefix p" "altformat (retarget send c p) = altformat p"
  by (simp_all add: retarget_def)

lemma retarget_upd [simp]:
  "(retarget send c p)\<lparr>ap := a\<rparr> = retarget send c (p\<lparr>ap := a\<rparr>)"
  "(retarget send c p)\<lparr>in_pct := b\<rparr> = retarget send c (p\<lparr>in_pct := b\<rparr>)"
  "(retarget send c p)\<lparr>pfsize := z\<rparr> = retarget send c (p\<lparr>pfsize := z\<rparr>)"
  "(retarget send c p)\<lparr>pfnum := n\<rparr> = retarget send c (p\<lparr>pfnum := n\<rparr>)"
  "(retarget send c p)\<lparr>pfsign := i\<rparr> = retarget send c (p\<lparr>pfsign := i\<rparr>)"
  "(retarget send c p)\<lparr>spacing := i\<rparr> = retarget send c (p\<lparr>spacing := i\<rparr>)"
  "(retarget send c p)\<lparr>rightspc := b\<rparr> = retarget send c (p\<lparr>rightspc := b\<rparr>)"
  "(retarget send c p)\<lparr>fillchar := ch\<rparr> = retarget send c (p\<lparr>fillchar := ch\<rparr>)"
  "(retarget send c p)\<lparr>pfbase := k\<rparr> = retarget send c (p\<lparr>pfbase := k\<rparr>)"
  "(retarget send c p)\<lparr>baseprefix := b\<rparr> = retarget send c (p\<lparr>baseprefix := b\<rparr>)"
  "(retarget send c p)\<lparr>altformat := b\<rparr> = retarget send c (p\<lparr>altformat := b\<rparr>)"
  by (simp_all add: retarget_def)

lemma pf_print_sel [simp]:
  "sendfunc (pf_print p t) = sendfunc p" "spacing (pf_print p t) = spacing p" "rightspc (pf_print p t) = rightspc p"
  "fillchar (pf_print p t) = fillchar p" "ap (pf_print p t) = ap p"
  "clientdata (pf_print p t) = sendfunc p (clientdata p) t" "charcount (pf_print p t) = charcount p + int (length t)"
  by (simp_all add: pf_print_def)

lemma pf_fill_loop_sel [simp]:
  "sendfunc (pf_fill_loop p f n) = sendfunc p" "spacing (pf_fill_loop p f n) = spacing p"
  "rightspc (pf_fill_loop p f n) = rightspc p" "fillchar (pf_fill_loop p f n) = fillchar p" "ap (pf_fill_loop p f n) = ap p"
  by (induction n arbitrary: p) simp_all

lemma pf_fill_sel [simp]:
  "sendfunc (pf_fill p n) = sendfunc p" "rightspc (pf_fill p n) = rightspc p" "fillchar (pf_fill p n) = fillchar p" "ap (pf_fill p n) = ap p"
  by (simp_all add: pf_fill_def)

lemma pf_printstuff_sel [simp]: "sendfunc (pf_printstuff p a b t) = sendfunc p" "ap (pf_printstuff p a b t) = ap p"
  by (simp_all add: pf_printstuff_def Let_def)

lemma pf_endfield_sel [simp]: "sendfunc (pf_endfield p) = sendfunc p" "ap (pf_endfield p) = ap p"
  by (simp_all add: pf_endfield_def)

lemma pf_setbase_sel [simp]: "sendfunc (pf_setbase p ch) = sendfunc p" "ap (pf_setbase p ch) = ap p"
  by (simp_all add: pf_setbase_def Let_def)

lemma pf_modifier_sendfunc: "pf_modifier p ch = Some p' \<Longrightarrow> sendfunc p' = sendfunc p"
  by (auto simp: pf_modifier_def split: if_splits)

lemma va_sendfunc:
  "va_int p = Some (x, p') \<Longrightarrow> sendfunc p' = sendfunc p" "va_long p = Some (x, p') \<Longrightarrow> sendfunc p' = sendfunc p"
  "va_llong p = Some (y, p') \<Longrightarrow> sendfunc p' = sendfunc p" "va_ptr p = Some (x, p') \<Longrightarrow> sendfunc p' = sendfunc p"
  "va_str p = Some (z, p') \<Longrightarrow> sendfunc p' = sendfunc p"
  by (auto simp: va_int_def va_long_def va_llong_def va_ptr_def va_str_def split: list.splits arg.splits)

lemma pf_getnum_sendfunc: "pf_getnum p ch = Some p' \<Longrightarrow> sendfunc p' = sendfunc p"
  by (auto simp: pf_getnum_def bind_eq_Some_conv dest!: va_sendfunc split: if_splits intsz.splits)

lemma pf_printnum_sendfunc: "pf_printnum p = Some p' \<Longrightarrow> sendfunc p' = sendfunc p"
  by (auto simp: pf_printnum_def Let_def bind_eq_Some_conv)

lemma pf_send_sendfunc:
  assumes "pf_send p ch = Some p'"
  shows "sendfunc p' = sendfunc p"
proof -
  consider "ch \<in> set (str ''doupx'')" "in_pct p" "ch \<notin> set (str ''#-l0123456789'')" |
    "\<not> (in_pct p \<and> ch \<in> set (str ''doupx'') \<and> ch \<notin> set (str ''#-l0123456789''))" by blast
  then show ?thesis
  proof cases
    case 1
    then show ?thesis using assms
      by (simp only: pf_send_def) (auto simp: bind_eq_Some_conv split: if_splits dest!: pf_getnum_sendfunc pf_printnum_sendfunc)
  next
    case 2
    then show ?thesis using assms
      by (simp only: pf_send_def)
        (auto simp: bind_eq_Some_conv simp del: list.map set_simps split: if_splits dest!: pf_modifier_sendfunc va_sendfunc)
  qed
qed

context printf_sink
begin

lemma re_print: "sendfunc p = (@) \<Longrightarrow> pf_print (retarget send c p) t = retarget send c (pf_print p t)"
  by (simp add: pf_print_def retarget_def send_append)

lemma re_fill: "sendfunc p = (@) \<Longrightarrow> pf_fill (retarget send c p) n = retarget send c (pf_fill p n)"
proof -
  have "sendfunc p = (@) \<Longrightarrow> pf_fill_loop (retarget send c p) f k = retarget send c (pf_fill_loop p f k)" for f k
    by (induction k arbitrary: p) (simp_all add: re_print)
  then show "sendfunc p = (@) \<Longrightarrow> pf_fill (retarget send c p) n = retarget send c (pf_fill p n)"
    by (simp add: pf_fill_def)
qed

lemma re_printstuff:
  "sendfunc p = (@) \<Longrightarrow> pf_printstuff (retarget send c p) a b t = retarget send c (pf_printstuff p a b t)"
  by (simp add: pf_printstuff_def Let_def re_print re_fill)

lemma re_endfield: "pf_endfield (retarget send c p) = retarget send c (pf_endfield p)"
  by (simp add: pf_endfield_def)

lemma re_setbase: "pf_setbase (retarget send c p) ch = retarget send c (pf_setbase p ch)"
  by (simp add: pf_setbase_def Let_def)

lemma re_modifier: "pf_modifier (retarget send c p) ch = map_option (retarget send c) (pf_modifier p ch)"
  by (simp add: pf_modifier_def)

lemma re_va:
  "va_int (retarget send c p) = map_option (apsnd (retarget send c)) (va_int p)"
  "va_long (retarget send c p) = map_option (apsnd (retarget send c)) (va_long p)"
  "va_llong (retarget send c p) = map_option (apsnd (retarget send c)) (va_llong p)"
  "va_ptr (retarget send c p) = map_option (apsnd (retarget send c)) (va_ptr p)"
  "va_str (retarget send c p) = map_option (apsnd (retarget send c)) (va_str p)"
  by (auto simp: va_int_def va_long_def va_llong_def va_ptr_def va_str_def split: list.splits arg.splits)

lemma re_getnum: "pf_getnum (retarget send c p) ch = map_option (retarget send c) (pf_getnum p ch)"
  by (cases "pfsize p"; cases "va_int p"; cases "va_long p"; cases "va_llong p"; cases "va_ptr p")
    (auto simp: pf_getnum_def re_va)

lemma re_printnum:
  "sendfunc p = (@) \<Longrightarrow> pf_printnum (retarget send c p) = map_option (retarget send c) (pf_printnum p)"
  by (cases "printnum_loop (pfbase p) (pfnum p) ((replicate NUMBER_BUF_SIZE 0)[NUMBER_BUF_SIZE - 1 := 0]) (NUMBER_BUF_SIZE - 1)")
    (auto simp: pf_printnum_def Let_def re_printstuff)

lemma re_number:
  assumes "sendfunc p = (@)"
  shows "do { pf \<leftarrow> pf_getnum (retarget send c p) ch; pf \<leftarrow> pf_printnum (pf_setbase pf ch); Some (pf_endfield pf) } =
    map_option (retarget send c) (do { pf \<leftarrow> pf_getnum p ch; pf \<leftarrow> pf_printnum (pf_setbase pf ch); Some (pf_endfield pf) })"
proof (cases "pf_getnum p ch")
  case (Some q)
  then have "sendfunc (pf_setbase q ch) = (@)" using pf_getnum_sendfunc assms by fastforce
  from re_printnum [OF this] show ?thesis
    by (cases "pf_printnum (pf_setbase q ch)") (simp_all add: Some re_getnum re_setbase re_endfield)
qed (simp add: re_getnum)

lemma re_string:
  assumes "sendfunc p = (@)"
  shows "do { (s, pf) \<leftarrow> va_str (retarget send c p); Some (pf_endfield (pf_printstuff pf [] [] (f s))) } =
    map_option (retarget send c) (do { (s, pf) \<leftarrow> va_str p; Some (pf_endfield (pf_printstuff pf [] [] (f s))) })"
proof (cases "va_str p")
  case (Some a)
  obtain s q where a: "a = (s, q)" by (cases a)
  then have "sendfunc q = (@)" using va_sendfunc(5) [of p s q] Some assms by simp
  then show ?thesis by (simp add: Some a re_va re_printstuff re_endfield)
qed (simp add: re_va)

lemma re_char:
  assumes "sendfunc p = (@)"
  shows "do { (x, pf) \<leftarrow> map_option (apfst ucast) (va_int (retarget send c p));
      Some (pf_endfield (pf_printstuff pf [] [] (takeWhile (\<lambda>c. c \<noteq> 0) [x]))) } =
    map_option (retarget send c) (do { (x, pf) \<leftarrow> map_option (apfst ucast) (va_int p);
      Some (pf_endfield (pf_printstuff pf [] [] (takeWhile (\<lambda>c. c \<noteq> 0) [x]))) })"
proof (cases "va_int p")
  case (Some a)
  obtain s q where a: "a = (s, q)" by (cases a)
  then have "sendfunc q = (@)" using va_sendfunc(1) [of p s q] Some assms by simp
  then show ?thesis by (simp add: Some a re_va re_printstuff re_endfield)
qed (simp add: re_va)

lemma re_send:
  assumes "sendfunc p = (@)"
  shows "pf_send (retarget send c p) ch = map_option (retarget send c) (pf_send p ch)"
proof -
  define A B where "A \<longleftrightarrow> ch \<in> set (str ''#-l0123456789'')" and "B \<longleftrightarrow> ch \<in> set (str ''doupx'')"
  show ?thesis
    unfolding pf_send_def A_def [symmetric] B_def [symmetric] retarget_sel re_number [OF assms] re_string [OF assms]
    using re_char [OF assms, of c]
    by (simp add: re_print re_modifier re_printstuff re_endfield assms)
qed

lemma re_loop: "sendfunc p = (@) \<Longrightarrow> vprintf_loop (retarget send c p) fmt = map_option (retarget send c) (vprintf_loop p fmt)"
proof (induction fmt arbitrary: p)
  case (Cons ch fmt)
  then show ?case by (cases "pf_send p ch") (simp_all add: re_send pf_send_sendfunc)
qed simp

lemma vprintf_renders: "vprintf send c fmt args = map_option (apsnd (send c)) (render fmt args)"
proof -
  have "pf_init send c args = retarget send c (pf_init (@) [] args)"
    by (simp add: pf_init_def pf_endfield_def retarget_def send_Nil)
  then show ?thesis
    unfolding vprintf_def render_def
    by (cases "vprintf_loop (pf_init (@) [] args) fmt") (simp_all add: re_loop pf_init_def)
qed

end

section \<open>The count\<close>

text \<open>\<open>counted p\<close>: the count printf keeps is the length of the text sent.\<close>

definition counted :: "8 word list PF \<Rightarrow> bool" where
  "counted p \<longleftrightarrow> sendfunc p = (@) \<and> charcount p = int (length (clientdata p))"

lemma counted_print: "counted p \<Longrightarrow> counted (pf_print p t)"
  by (simp add: counted_def)

lemma counted_fill: "counted p \<Longrightarrow> counted (pf_fill p n)"
proof -
  have "counted p \<Longrightarrow> counted (pf_fill_loop p f k)" for f k
    by (induction k arbitrary: p) (simp_all add: counted_print)
  then show "counted p \<Longrightarrow> counted (pf_fill p n)" by (simp add: pf_fill_def)
qed

lemma counted_printstuff: "counted p \<Longrightarrow> counted (pf_printstuff p a b t)"
  by (simp add: pf_printstuff_def Let_def counted_print counted_fill)

lemma counted_upd [simp]:
  "counted (p\<lparr>ap := a\<rparr>) = counted p" "counted (p\<lparr>in_pct := b\<rparr>) = counted p" "counted (p\<lparr>pfsize := z\<rparr>) = counted p"
  "counted (p\<lparr>pfnum := n\<rparr>) = counted p" "counted (p\<lparr>pfsign := i\<rparr>) = counted p" "counted (p\<lparr>spacing := i\<rparr>) = counted p"
  "counted (p\<lparr>rightspc := b\<rparr>) = counted p" "counted (p\<lparr>fillchar := ch\<rparr>) = counted p" "counted (p\<lparr>pfbase := k\<rparr>) = counted p"
  "counted (p\<lparr>baseprefix := b\<rparr>) = counted p" "counted (p\<lparr>altformat := b\<rparr>) = counted p" "counted (pf_endfield p) = counted p"
  "counted (pf_setbase p ch) = counted p"
  by (simp_all add: counted_def pf_endfield_def pf_setbase_def Let_def)

lemma counted_va:
  "va_int p = Some (x, p') \<Longrightarrow> counted p \<Longrightarrow> counted p'" "va_long p = Some (x, p') \<Longrightarrow> counted p \<Longrightarrow> counted p'"
  "va_llong p = Some (y, p') \<Longrightarrow> counted p \<Longrightarrow> counted p'" "va_ptr p = Some (x, p') \<Longrightarrow> counted p \<Longrightarrow> counted p'"
  "va_str p = Some (z, p') \<Longrightarrow> counted p \<Longrightarrow> counted p'"
  by (auto simp: va_int_def va_long_def va_llong_def va_ptr_def va_str_def split: list.splits arg.splits)

lemma counted_getnum: "pf_getnum p ch = Some p' \<Longrightarrow> counted p \<Longrightarrow> counted p'"
  by (auto simp: pf_getnum_def bind_eq_Some_conv dest: counted_va split: if_splits intsz.splits)

lemma counted_printnum: "pf_printnum p = Some p' \<Longrightarrow> counted p \<Longrightarrow> counted p'"
  by (auto simp: pf_printnum_def Let_def bind_eq_Some_conv counted_printstuff)

lemma counted_number: "pf_printnum (pf_setbase p ch) = Some p' \<Longrightarrow> counted p \<Longrightarrow> counted p'"
  by (erule counted_printnum) simp

lemma counted_modifier: "pf_modifier p ch = Some p' \<Longrightarrow> counted p \<Longrightarrow> counted p'"
  by (auto simp: pf_modifier_def split: if_splits)

lemma counted_send:
  assumes "pf_send p ch = Some p'" "counted p"
  shows "counted p'"
proof -
  define A B where "A \<longleftrightarrow> ch \<in> set (str ''#-l0123456789'')" and "B \<longleftrightarrow> ch \<in> set (str ''doupx'')"
  show ?thesis
    using assms unfolding pf_send_def A_def [symmetric] B_def [symmetric]
    by (auto simp: bind_eq_Some_conv counted_print counted_printstuff split: if_splits
        dest: counted_modifier counted_getnum counted_number counted_va)
qed

lemma counted_loop: "vprintf_loop p fmt = Some p' \<Longrightarrow> counted p \<Longrightarrow> counted p'"
  by (induction fmt arbitrary: p) (auto simp: bind_eq_Some_conv dest: counted_send)

lemma render_count: "render fmt args = Some (n, t) \<Longrightarrow> n = int (length t)"
proof -
  assume "render fmt args = Some (n, t)"
  then obtain p where "vprintf_loop (pf_init (@) [] args) fmt = Some p" "n = charcount p" "t = clientdata p"
    by (auto simp: render_def vprintf_def bind_eq_Some_conv)
  moreover have "counted (pf_init (@) [] args)" by (simp add: counted_def pf_init_def pf_endfield_def)
  ultimately show "n = int (length t)" using counted_loop by (auto simp: counted_def)
qed

section \<open>Numbers\<close>

function numeral_digits :: "nat \<Rightarrow> nat \<Rightarrow> nat list" where
  "numeral_digits b n = (if n < b \<or> b < 2 then [n] else numeral_digits b (n div b) @ [n mod b])"
  by pat_completeness auto
termination by (relation "measure (\<lambda>(b, n). n)") auto

declare numeral_digits.simps [simp del]

lemma numeral_digits_value: "foldl (\<lambda>v d. v * b + d) 0 (numeral_digits b n) = n"
proof (induction b n rule: numeral_digits.induct)
  case (1 b n)
  then show ?case by (subst numeral_digits.simps) auto
qed

lemma numeral_digits_bound: "2 \<le> b \<Longrightarrow> d \<in> set (numeral_digits b n) \<Longrightarrow> d < b"
proof (induction b n rule: numeral_digits.induct)
  case (1 b n)
  then show ?case by (subst (asm) (2) numeral_digits.simps) (auto split: if_splits)
qed

lemma numeral_digits_length: "n < b ^ k \<Longrightarrow> 0 < k \<Longrightarrow> length (numeral_digits b n) \<le> k"
proof (induction k arbitrary: n)
  case (Suc k)
  show ?case
  proof (cases "n < b \<or> b < 2")
    case False
    then have "n div b < b ^ k" using Suc.prems(1) by (simp add: less_mult_imp_div_less mult.commute)
    moreover have "0 < k" using False Suc.prems(1) by (cases k) auto
    ultimately have "length (numeral_digits b (n div b)) \<le> k" by (rule Suc.IH)
    then show ?thesis using False by (subst numeral_digits.simps) simp
  qed (subst numeral_digits.simps, simp)
qed simp

lemma numeral_digits_not_Nil [simp]: "numeral_digits b n \<noteq> []"
  by (subst numeral_digits.simps) simp

lemma printnum_loop_eq:
  assumes "2 \<le> b" "b \<le> 16" "length (numeral_digits b (unat x)) \<le> k" "k \<le> length buf"
  defines "ds \<equiv> map ((!) digit_chars) (numeral_digits b (unat x))"
  shows "printnum_loop b x buf k = Some (take (k - length ds) buf @ ds @ drop k buf, k - length ds)"
  using assms(3,4) unfolding ds_def
proof (induction k arbitrary: x buf)
  case (Suc k)
  have ub: "unat (word_of_nat b :: 64 word) = b" using assms(2) by (simp add: unat_of_nat)
  define buf1 where "buf1 = buf[k := digit_chars ! unat (x mod word_of_nat b)]"
  have um: "unat (x mod word_of_nat b) = unat x mod b" "unat (x div word_of_nat b) = unat x div b"
    by (simp_all add: unat_mod unat_div ub)
  have b1: "take j buf1 = take j buf" if "j \<le> k" for j using that by (simp add: buf1_def)
  have d1: "drop k buf1 = digit_chars ! (unat x mod b) # drop (Suc k) buf"
    using Suc.prems(2) by (simp add: buf1_def um drop_update_swap flip: Cons_nth_drop_Suc)
  have step: "printnum_loop b x buf (Suc k) =
      (if unat x div b > 0 then printnum_loop b (x div word_of_nat b) buf1 k else Some (buf1, k))"
    by (simp add: buf1_def Let_def word_gt_0 unat_gt_0 [symmetric] um del: unat_gt_0)
  show ?case
  proof (cases "unat x < b")
    case True
    then have "numeral_digits b (unat x) = [unat x]" by (subst numeral_digits.simps) simp
    moreover have "buf1 = take k buf1 @ drop k buf1" by simp
    ultimately show ?thesis using True step d1 b1 [of k] by simp
  next
    case False
    then have nd: "numeral_digits b (unat x) = numeral_digits b (unat (x div word_of_nat b)) @ [unat x mod b]"
      using assms(1) by (subst numeral_digits.simps) (simp add: um)
    then have "length (numeral_digits b (unat (x div word_of_nat b))) \<le> k" "k \<le> length buf1"
      using Suc.prems by (simp_all add: buf1_def)
    from Suc.IH [OF this] show ?thesis
      using False assms(1) step d1 b1 by (simp add: nd div_greater_zero_iff)
  qed
qed simp

text \<open>The buffer is large enough for every number in every base printf uses.\<close>

lemma NUMBER_BUF_SIZE_eq: "NUMBER_BUF_SIZE = 23"
  by (simp add: NUMBER_BUF_SIZE_def)

lemma digit_chars_nonzero: "d < 16 \<Longrightarrow> digit_chars ! d \<noteq> 0"
proof -
  have "\<forall>d \<in> {0..<16}. digit_chars ! d \<noteq> 0"
    by (simp add: digit_chars_def upt_rec atLeastLessThan_upt)
  then show "d < 16 \<Longrightarrow> digit_chars ! d \<noteq> 0" by simp
qed

lemma digit_chars_dig: "d < 10 \<Longrightarrow> digit_chars ! d = dig d"
proof -
  have "\<forall>d \<in> {0..<10}. digit_chars ! d = dig d"
    by (simp add: digit_chars_def dig_def upt_rec atLeastLessThan_upt)
  then show "d < 10 \<Longrightarrow> digit_chars ! d = dig d" by simp
qed

lemma number_fits:
  assumes "8 \<le> b"
  shows "length (numeral_digits b (unat (x :: 64 word))) \<le> 22"
proof (rule numeral_digits_length)
  have "unat x < 2 ^ 64" by (rule order_less_le_trans [OF unsigned_less]) simp
  also have "(2 :: nat) ^ 64 \<le> 8 ^ 22" by simp
  also have "(8 :: nat) ^ 22 \<le> b ^ 22" using assms by (rule power_mono) simp
  finally show "unat x < b ^ 22" .
qed simp

definition number_text :: "'c PF \<Rightarrow> 8 word list" where
  "number_text pf = map ((!) digit_chars) (numeral_digits (pfbase pf) (unat (pfnum pf)))"

lemma pf_printnum_eq:
  assumes "pfbase pf \<in> {8, 10, 16}"
  shows "pf_printnum pf = Some (pf_printstuff pf (if pfsign pf \<noteq> 0 then str ''-'' else [])
    (if baseprefix pf \<and> pfbase pf = 16 then str ''0x'' else if baseprefix pf \<and> pfbase pf = 8 then str ''0'' else [])
    (number_text pf))"
proof -
  have b: "2 \<le> pfbase pf" "pfbase pf \<le> 16" "8 \<le> pfbase pf" using assms by auto
  define ds where "ds = map ((!) digit_chars) (numeral_digits (pfbase pf) (unat (pfnum pf)))"
  define buf :: "8 word list" where "buf = (replicate NUMBER_BUF_SIZE 0)[NUMBER_BUF_SIZE - 1 := 0]"
  have L: "printnum_loop (pfbase pf) (pfnum pf) buf (NUMBER_BUF_SIZE - 1) = Some (take (22 - length ds) buf @ ds @ drop 22 buf, 22 - length ds)"
    using printnum_loop_eq [OF b(1,2), of "pfnum pf" 22 buf] number_fits [OF b(3), of "pfnum pf"]
    unfolding ds_def by (simp add: NUMBER_BUF_SIZE_eq buf_def)
  have T: "takeWhile (\<lambda>c. c \<noteq> 0) (drop (22 - length ds) (take (22 - length ds) buf @ ds @ drop 22 buf)) = ds"
  proof -
    have "\<forall>c \<in> set ds. c \<noteq> 0"
      unfolding ds_def using numeral_digits_bound [OF b(1)] b(2) digit_chars_nonzero by fastforce
    moreover have "drop 22 buf = [0]" by (simp add: buf_def NUMBER_BUF_SIZE_eq drop_update_swap)
    moreover have "length ds \<le> 22" "length buf = 23" unfolding ds_def buf_def using number_fits [OF b(3), of "pfnum pf"] by (simp_all add: NUMBER_BUF_SIZE_eq)
    ultimately show ?thesis by (simp add: takeWhile_append2)
  qed
  show ?thesis
    unfolding pf_printnum_def Let_def buf_def [symmetric] number_text_def ds_def [symmetric] L bind.bind_lunit prod.case T ..
qed

section \<open>The snprintf sink\<close>

lemma snprintf_send_append: "snprintf_send (snprintf_send c s) t = snprintf_send c (s @ t)"
  by (induction c s rule: snprintf_send.induct) simp_all

interpretation snp: printf_sink snprintf_send
  by unfold_locales (simp_all add: snprintf_send_append)

definition put_text :: "mem \<Rightarrow> nat \<Rightarrow> 8 word list \<Rightarrow> mem" where
  "put_text m p t = (\<lambda>a. if p \<le> a \<and> a < p + length t then t ! (a - p) else m a)"

lemma put_text_Nil [simp]: "put_text m p [] = m"
  by (auto simp: put_text_def fun_eq_iff)

lemma put_text_Cons: "put_text (m(p := c)) (p + 1) t = put_text m p (c # t)"
  by (auto simp: put_text_def fun_eq_iff nth_Cons')

lemma snprintf_send_eq:
  "bufpos c \<le> buflen c \<Longrightarrow> snprintf_send c t =
    c\<lparr>snp_mem := put_text (snp_mem c) (snp_buf c + bufpos c) (take (buflen c - bufpos c) t),
      bufpos := min (buflen c) (bufpos c + length t)\<rparr>"
proof (induction t arbitrary: c)
  case (Cons ch t)
  show ?case
  proof (cases "bufpos c < buflen c")
    case True
    then obtain k where k: "buflen c = Suc (bufpos c + k)" using less_imp_Suc_add by blast
    define c1 where "c1 = c\<lparr>snp_mem := (snp_mem c)(snp_buf c + bufpos c := ch), bufpos := bufpos c + 1\<rparr>"
    have "snprintf_send c (ch # t) = snprintf_send c1 t" using True by (simp add: c1_def)
    also have "\<dots> = c1\<lparr>snp_mem := put_text (snp_mem c1) (snp_buf c1 + bufpos c1) (take (buflen c1 - bufpos c1) t),
        bufpos := min (buflen c1) (bufpos c1 + length t)\<rparr>"
      by (rule Cons.IH) (use True in \<open>simp add: c1_def\<close>)
    finally show ?thesis
      using put_text_Cons [of "snp_mem c" "snp_buf c + bufpos c" ch "take k t"] by (simp add: c1_def k)
  next
    case False
    then have "bufpos c = buflen c" using Cons.prems by simp
    then show ?thesis using Cons.IH [of c] by simp
  qed
qed simp

lemma snprintf_eq:
  fixes len :: nat
  assumes "render fmt args = Some (n, t)"
  defines "t' \<equiv> take (len - 1) t"
  shows "snprintf m buf len fmt args = Some (n, if len > 0 then (put_text m buf t')(buf + length t' := 0) else m)"
  unfolding snprintf_def vsnprintf_def Let_def snp.vprintf_renders assms(1) t'_def
  by (simp add: snprintf_send_eq min.commute)

section \<open>Arguments that match the format\<close>

datatype kind = Int_kind | Long_kind | LLong_kind | Ptr_kind | Str_kind

fun kind_of :: "arg \<Rightarrow> kind" where
  "kind_of (Int_arg _) = Int_kind"
| "kind_of (Long_arg _) = Long_kind"
| "kind_of (LLong_arg _) = LLong_kind"
| "kind_of (Ptr_arg _) = Ptr_kind"
| "kind_of (Str_arg _) = Str_kind"

fun int_kind :: "intsz \<Rightarrow> kind" where
  "int_kind INTSZ = Int_kind"
| "int_kind LONGSZ = Long_kind"
| "int_kind LLONGSZ = LLong_kind"

text \<open>The argument a conversion character takes, and the arguments a format takes.\<close>

definition conversion_kinds :: "intsz \<Rightarrow> 8 word \<Rightarrow> kind list" where
  "conversion_kinds z ch =
    (if ch \<in> {byte CHR ''d'', byte CHR ''o'', byte CHR ''u'', byte CHR ''x''} then [int_kind z]
     else if ch = byte CHR ''p'' then [Ptr_kind] else if ch = byte CHR ''s'' then [Str_kind]
     else if ch = byte CHR ''c'' then [Int_kind] else [])"

fun format_kinds :: "bool \<Rightarrow> intsz \<Rightarrow> 8 word list \<Rightarrow> kind list" where
  "format_kinds b z [] = []"
| "format_kinds b z (ch # fmt) =
    (if \<not> b then format_kinds (ch = byte CHR ''%'') INTSZ fmt
     else if ch \<in> set (str ''#-l0123456789'') then
       format_kinds True (if ch = byte CHR ''l'' then (if z = LONGSZ then LLONGSZ else LONGSZ) else z) fmt
     else conversion_kinds z ch @ format_kinds False INTSZ fmt)"

lemma pf_modifier_total:
  assumes "ch \<in> set (str ''#-l0123456789'')"
  shows "\<exists>pf'. pf_modifier pf ch = Some pf' \<and> in_pct pf' = in_pct pf \<and> ap pf' = ap pf \<and>
    pfsize pf' = (if ch = byte CHR ''l'' then (if pfsize pf = LONGSZ then LLONGSZ else LONGSZ) else pfsize pf)"
  using assms by (auto simp: pf_modifier_def)

lemma pf_printstuff_size [simp]: "pfsize (pf_printstuff p a b t) = pfsize p" "in_pct (pf_printstuff p a b t) = in_pct p"
proof -
  have p: "pfsize (pf_print p t) = pfsize p" "in_pct (pf_print p t) = in_pct p" for p :: "'a PF" and t by (simp_all add: pf_print_def)
  then have "pfsize (pf_fill_loop p f n) = pfsize p" "in_pct (pf_fill_loop p f n) = in_pct p" for p :: "'a PF" and f n
    by (induction n arbitrary: p) simp_all
  then have "pfsize (pf_fill p n) = pfsize p" "in_pct (pf_fill p n) = in_pct p" for p :: "'a PF" and n
    by (simp_all add: pf_fill_def)
  then show "pfsize (pf_printstuff p a b t) = pfsize p" "in_pct (pf_printstuff p a b t) = in_pct p"
    using p by (simp_all add: pf_printstuff_def Let_def)
qed

lemma pf_endfield_size [simp]: "pfsize (pf_endfield p) = INTSZ" "in_pct (pf_endfield p) = False"
  by (simp_all add: pf_endfield_def)

lemma pf_getnum_total:
  assumes "ch \<in> set (str ''doupx'')" "ap pf = a # r" "[kind_of a] = conversion_kinds (pfsize pf) ch"
  shows "\<exists>pf'. pf_getnum pf ch = Some pf' \<and> ap pf' = r"
  using assms
  by (cases a; cases "pfsize pf")
    (auto simp: pf_getnum_def va_int_def va_long_def va_llong_def va_ptr_def conversion_kinds_def)

lemma pf_setbase_base: "ch \<in> set (str ''doupx'') \<Longrightarrow> pfbase (pf_setbase pf ch) \<in> {8, 10, 16}"
  by (auto simp: pf_setbase_def Let_def)

definition ready_for :: "'c PF \<Rightarrow> 8 word list \<Rightarrow> bool" where
  "ready_for pf fmt \<longleftrightarrow> (in_pct pf \<or> pfsize pf = INTSZ) \<and>
    (let ks = format_kinds (in_pct pf) (pfsize pf) fmt in map kind_of (take (length ks) (ap pf)) = ks)"

lemma take_kinds:
  assumes "map kind_of (take (length (ks @ ls)) as) = ks @ ls"
  shows "map kind_of (take (length ks) as) = ks" "map kind_of (take (length ls) (drop (length ks) as)) = ls"
proof -
  have "map kind_of (take (length ks) as) @ map kind_of (take (length ls) (drop (length ks) as)) = ks @ ls"
    using assms by (simp add: take_add)
  moreover have "length (map kind_of (take (length ks) as)) = length ks"
    using arg_cong [OF assms, of length] by simp
  ultimately have "map kind_of (take (length ks) as) = ks \<and> map kind_of (take (length ls) (drop (length ks) as)) = ls"
    by (metis append_eq_append_conv)
  then show "map kind_of (take (length ks) as) = ks" "map kind_of (take (length ls) (drop (length ks) as)) = ls" by simp_all
qed

lemma pf_field_total:
  assumes "in_pct pf" "ch \<noteq> 0" "ch \<notin> set (str ''#-l0123456789'')"
    "map kind_of (take (length (conversion_kinds (pfsize pf) ch)) (ap pf)) = conversion_kinds (pfsize pf) ch"
  shows "\<exists>pf'. pf_send pf ch = Some pf' \<and> \<not> in_pct pf' \<and> pfsize pf' = INTSZ \<and>
    ap pf' = drop (length (conversion_kinds (pfsize pf) ch)) (ap pf)"
proof (cases "ch \<in> set (str ''doupx'')")
  case True
  then have one: "length (conversion_kinds (pfsize pf) ch) = 1" by (auto simp: conversion_kinds_def)
  then obtain a r where a: "ap pf = a # r" "[kind_of a] = conversion_kinds (pfsize pf) ch"
    using assms(4) by (cases "ap pf") auto
  obtain pf1 where g: "pf_getnum pf ch = Some pf1" "ap pf1 = r" using pf_getnum_total [OF True a] by blast
  obtain pf2 where n: "pf_printnum (pf_setbase pf1 ch) = Some pf2" "ap pf2 = r"
    using pf_printnum_eq [OF pf_setbase_base [OF True], of pf1] g(2) by simp
  have "pf_send pf ch = Some (pf_endfield pf2)"
    unfolding pf_send_def using assms(1-3) True g(1) n(1) by (simp del: list.map list.set)
  then show ?thesis using n(2) a(1) one by simp
next
  case False
  then have f: "pf_send pf ch = (if ch = byte CHR ''s'' then do {
       (s, pf) \<leftarrow> va_str pf;
       Some (pf_endfield (pf_printstuff pf [] [] (case s of None \<Rightarrow> str ''(null)'' | Some s \<Rightarrow> s))) }
     else do {
       (x, pf) \<leftarrow> (if ch = byte CHR ''c'' then map_option (apfst ucast) (va_int pf) else Some (ch, pf));
       Some (pf_endfield (pf_printstuff pf [] [] (takeWhile (\<lambda>c. c \<noteq> 0) [x]))) })"
    unfolding pf_send_def using assms(1-3) by (simp del: list.map list.set)
  have "ch \<notin> {byte CHR ''d'', byte CHR ''o'', byte CHR ''u'', byte CHR ''x''}" "ch \<noteq> byte CHR ''p''" using False by auto
  then have k: "conversion_kinds (pfsize pf) ch =
      (if ch = byte CHR ''s'' then [Str_kind] else if ch = byte CHR ''c'' then [Int_kind] else [])"
    unfolding conversion_kinds_def by (simp only: if_False)
  show ?thesis
  proof (cases "ap pf")
    case Nil
    then show ?thesis using assms(4) f unfolding k by (auto split: if_splits)
  next
    case (Cons a r)
    then show ?thesis using assms(4) f unfolding k by (cases a) (auto simp: va_str_def va_int_def split: if_splits)
  qed
qed

lemma pf_send_total:
  assumes "ready_for pf (ch # fmt)" "ch \<noteq> 0"
  shows "\<exists>pf'. pf_send pf ch = Some pf' \<and> ready_for pf' fmt"
proof (cases "in_pct pf")
  case False
  then show ?thesis using assms by (auto simp: ready_for_def pf_send_def pf_print_def Let_def)
next
  case True
  show ?thesis
  proof (cases "ch \<in> set (str ''#-l0123456789'')")
    case mod: True
    then show ?thesis using assms True pf_modifier_total [OF mod, of pf]
      unfolding ready_for_def pf_send_def by (auto simp: Let_def simp del: list.map list.set)
  next
    case conv: False
    then have k: "format_kinds (in_pct pf) (pfsize pf) (ch # fmt) = conversion_kinds (pfsize pf) ch @ format_kinds False INTSZ fmt"
      using True by (simp del: list.map list.set)
    have "map kind_of (take (length (conversion_kinds (pfsize pf) ch @ format_kinds False INTSZ fmt)) (ap pf)) =
        conversion_kinds (pfsize pf) ch @ format_kinds False INTSZ fmt"
      using assms(1) unfolding ready_for_def k Let_def by blast
    note t = take_kinds [OF this]
    from pf_field_total [OF True assms(2) conv t(1)] t(2) show ?thesis by (auto simp: ready_for_def Let_def)
  qed
qed

lemma vprintf_loop_total: "ready_for pf fmt \<Longrightarrow> 0 \<notin> set fmt \<Longrightarrow> \<exists>pf'. vprintf_loop pf fmt = Some pf'"
proof (induction fmt arbitrary: pf)
  case (Cons ch fmt)
  then obtain pf' where "pf_send pf ch = Some pf'" "ready_for pf' fmt" using pf_send_total by fastforce
  then show ?case using Cons by simp
qed simp

lemma render_total:
  assumes "0 \<notin> set fmt" "map kind_of (take (length (format_kinds False INTSZ fmt)) args) = format_kinds False INTSZ fmt"
  shows "\<exists>n t. render fmt args = Some (n, t)"
proof -
  have "ready_for (pf_init (@) [] args) fmt" using assms(2) by (simp add: ready_for_def pf_init_def pf_endfield_def)
  from vprintf_loop_total [OF this assms(1)] show ?thesis by (auto simp: render_def vprintf_def)
qed

section \<open>Padding\<close>

definition pad :: "bool \<Rightarrow> 8 word \<Rightarrow> int \<Rightarrow> 8 word list \<Rightarrow> 8 word list \<Rightarrow> 8 word list" where
  "pad right f w pre stuff =
    (let gap = replicate (nat (w - int (length pre + length stuff))) f
     in if right then pre @ stuff @ gap else if f = byte CHR ''0'' then pre @ gap @ stuff else gap @ pre @ stuff)"

lemma fill_client: "sendfunc p = (@) \<Longrightarrow> clientdata (pf_fill p n) = clientdata p @ replicate (nat n) (fillchar p)"
proof -
  have "sendfunc p = (@) \<Longrightarrow> clientdata (pf_fill_loop p f k) = clientdata p @ replicate k f" for f k
    by (induction k arbitrary: p) simp_all
  then show "sendfunc p = (@) \<Longrightarrow> clientdata (pf_fill p n) = clientdata p @ replicate (nat n) (fillchar p)"
    by (simp add: pf_fill_def)
qed

lemma printstuff_client:
  assumes "sendfunc p = (@)"
  shows "clientdata (pf_printstuff p a b t) = clientdata p @ pad (rightspc p) (fillchar p) (spacing p) (a @ b) t"
  using assms by (simp add: pf_printstuff_def Let_def fill_client pad_def)

section \<open>Signed decimal numbers\<close>

lemma sint_wide: "sint (scast w :: 64 word) = sint w" for w :: "32 word"
  unfolding signed_scast_eq by (simp add: sint_uint signed_take_bit_signed_take_bit)

definition decimal_text :: "int \<Rightarrow> 8 word list" where
  "decimal_text n = (if n < 0 then [45] else []) @ map dig (numeral_digits 10 (nat \<bar>n\<bar>))"

lemma render_d: "\<exists>n. render (str ''%d'') [Int_arg w] = Some (n, decimal_text (sint w))"
proof -
  define v :: "64 word" where "v = scast w"
  have v: "sint v = sint w" unfolding v_def by (rule sint_wide)
  define p where "p = (pf_init (@) [] [Int_arg w])\<lparr>in_pct := True\<rparr>"
  define q where "q = pf_setbase (if sint v < 0 then p\<lparr>ap := [], pfsign := - 1, pfnum := - v\<rparr> else p\<lparr>ap := [], pfnum := v\<rparr>) 100"
  have p: "sendfunc p = (@)" "clientdata p = []" "spacing p = 0" "rightspc p = False" "fillchar p = 32" "pfsize p = INTSZ"
      "ap p = [Int_arg w]" "in_pct p" "pfsign p = 0" "baseprefix p = False" "altformat p = False"
    by (simp_all add: p_def pf_init_def pf_endfield_def)
  have q: "sendfunc q = (@)" "clientdata q = []" "spacing q = 0" "pfbase q = 10" "pfsign q = (if sint v < 0 then - 1 else 0)"
      "pfnum q = (if sint v < 0 then - v else v)" "baseprefix q = False"
    using p by (simp_all add: q_def pf_setbase_def)
  have g: "pf_getnum p 100 = Some (if sint v < 0 then p\<lparr>ap := [], pfsign := - 1, pfnum := - v\<rparr> else p\<lparr>ap := [], pfnum := v\<rparr>)"
    using p by (simp add: pf_getnum_def va_int_def v_def)
  have "unat (pfnum q) = nat \<bar>sint w\<bar>" unfolding q(6) using uint_magnitude [of v] v by (simp only: unat_eq_nat_uint)
  then have t: "number_text q = map dig (numeral_digits 10 (nat \<bar>sint w\<bar>))"
    unfolding number_text_def q(4) using numeral_digits_bound [of 10] by (auto simp: digit_chars_dig)
  have n: "pf_printnum q = Some (pf_printstuff q (if sint w < 0 then [45] else []) [] (number_text q))"
    using pf_printnum_eq [of q] q v by simp
  have "pf_send p 100 = Some (pf_endfield (pf_printstuff q (if sint w < 0 then [45] else []) [] (number_text q)))"
    using p(8) g n by (simp add: pf_send_def q_def [symmetric])
  moreover have "vprintf_loop (pf_init (@) [] [Int_arg w]) (str ''%d'') = pf_send p 100"
  proof -
    have "pf_send (pf_init (@) [] [Int_arg w]) 37 = Some p" by (simp add: pf_send_def p_def pf_init_def)
    then show ?thesis by simp
  qed
  moreover have "clientdata (pf_printstuff q (if sint w < 0 then [45] else []) [] (number_text q)) = decimal_text (sint w)"
    using printstuff_client [OF q(1)] q t by (simp add: pad_def decimal_text_def)
  ultimately show ?thesis by (simp add: render_def vprintf_def pf_endfield_def)
qed

lemma decimal_text_length: "length (decimal_text (sint (w :: 32 word))) \<le> 11"
proof -
  have "\<bar>sint w\<bar> < 10 ^ 10" using sint32 [of w] uint_less32 [of w] by (auto split: if_splits)
  then have "nat \<bar>sint w\<bar> < 10 ^ 10" by simp
  then have "length (numeral_digits 10 (nat \<bar>sint w\<bar>)) \<le> 10" by (rule numeral_digits_length) simp
  then show ?thesis by (cases "sint w < 0") (simp_all add: decimal_text_def)
qed

lemma cstr_put_text: "0 \<notin> set t \<Longrightarrow> cstr ((put_text m p t)(p + length t := 0)) p t"
  by (auto simp: cstr_def put_text_def)

section \<open>Properties\<close>

text \<open>C30. Printing a number and reading it back.  \<open>snprintf\<close> of any 32-bit integer with the format
  "%d" into a buffer of at least twelve bytes, followed by \<open>atoi\<close> on the buffer, returns the
  integer, the most negative one included.\<close>
theorem snprintf_atoi:
  assumes "12 \<le> len"
  shows "\<exists>n m'. snprintf m buf len (str ''%d'') [Int_arg w] = Some (n, m') \<and> atoi m' buf = Some (sint w)"
proof -
  obtain n where r: "render (str ''%d'') [Int_arg w] = Some (n, decimal_text (sint w))" using render_d by blast
  define t where "t = decimal_text (sint w)"
  have "take (len - 1) t = t" using decimal_text_length [of w] assms unfolding t_def by simp
  then have s: "snprintf m buf len (str ''%d'') [Int_arg w] = Some (n, (put_text m buf t)(buf + length t := 0))"
    using snprintf_eq [OF r, of m buf len] assms unfolding t_def [symmetric] by simp
  define ds where "ds = numeral_digits 10 (nat \<bar>sint w\<bar>)"
  have ds: "\<forall>d \<in> set ds. d < 10" "ds \<noteq> []" "decimal ds = nat \<bar>sint w\<bar>"
    using numeral_digits_bound [of 10] numeral_digits_value [of 10] by (auto simp: ds_def decimal_def)
  have t: "t = [] @ (if sint w < 0 then [45] else []) @ map dig ds @ []" by (simp add: t_def decimal_text_def ds_def)
  have "0 \<notin> set t" unfolding t using ds(1) dig_distinct by fastforce
  from cstr_put_text [OF this, of m buf]
  have c: "cstr ((put_text m buf t)(buf + length t := 0)) buf ([] @ (if sint w < 0 then [45] else []) @ map dig ds @ [])"
    using t by simp
  have "(word_of_nat (nat \<bar>sint w\<bar>) :: 32 word) = word_of_int \<bar>sint w\<bar>" by simp
  then have "atoi ((put_text m buf t)(buf + length t := 0)) buf = Some (sint w)"
    using atoi_eq [OF c _ _ ds(2,1)] unfolding ds(3) by (simp split: if_splits)
  then show ?thesis using s by blast
qed

theorem snprintf_atoi_witness:
  "(12 :: nat) \<le> 12 \<and> (\<exists>n m'. snprintf (\<lambda>_. 7) 100 12 (str ''%d'') [Int_arg 0x80000000] = Some (n, m') \<and>
    atoi m' 100 = Some (- 2147483648))"
  using snprintf_atoi [of 12 "\<lambda>_. 7" 100 "0x80000000"] by (simp add: sint32)





end
