(* ===== verification/Menu.thy ===== *)
theory Menu
  imports Cstring
begin

text \<open>
  The kernel's command interpreter (the end of kern/startup/menu.c): splitting a line into
  commands and a command into words, and calling the table entry of its first word.  The
  separator strings and the names of the command table are at addresses; the functions of
  the table, reached through pointers, are the argument \<open>run\<close>, which maps a table entry and
  the argument vector to a result and a new kernel state.  A panic is \<open>None\<close>.
\<close>

definition MAXMENUARGS :: nat where "MAXMENUARGS = 16"

partial_function (option) menu_args ::
  "mem \<Rightarrow> nat option \<Rightarrow> nat \<Rightarrow> nat option \<Rightarrow> nat list \<Rightarrow> (mem \<times> (errno + nat list)) option" where
  "menu_args m cmd seps context args = do {
    (m, context, word) \<leftarrow> strtok_r m cmd seps context;
    (case word of
       None \<Rightarrow> Some (m, Inr args)
     | Some w \<Rightarrow> if MAXMENUARGS \<le> length args then Some (m, Inl E2BIG) else menu_args m None seps context (args @ [w])) }"

fun find_cmd :: "mem \<Rightarrow> (nat \<times> 'h) list \<Rightarrow> nat \<Rightarrow> 'h option option" where
  "find_cmd m [] arg = Some None"
| "find_cmd m ((name, func) # cmdtable) arg =
    (if m name \<noteq> 0 then do {
       r \<leftarrow> strcmp m arg name;
       if r = 0 then Some (Some func) else find_cmd m cmdtable arg }
     else find_cmd m cmdtable arg)"

definition cmd_dispatch ::
  "(nat \<times> 'h) list \<Rightarrow> ('h \<Rightarrow> mem \<Rightarrow> nat list \<Rightarrow> 's \<Rightarrow> errno option \<times> 's) \<Rightarrow> nat \<Rightarrow> mem \<Rightarrow> 's \<Rightarrow> nat \<Rightarrow>
    (errno option \<times> mem \<times> 's) option" where
  "cmd_dispatch cmdtable run blanks m s cmd = do {
    (m, r) \<leftarrow> menu_args m (Some cmd) blanks None [];
    (case r of
       Inl e \<Rightarrow> Some (Some e, m, s)
     | Inr args \<Rightarrow>
         if args = [] then Some (None, m, s)
         else do {
           f \<leftarrow> find_cmd m cmdtable (args ! 0);
           Some (case f of
              None \<Rightarrow> (Some EINVAL, m, s)
            | Some func \<Rightarrow> let (result, s) = run func m args s in (result, m, s)) }) }"

partial_function (option) menu_loop ::
  "(nat \<times> 'h) list \<Rightarrow> ('h \<Rightarrow> mem \<Rightarrow> nat list \<Rightarrow> 's \<Rightarrow> errno option \<times> 's) \<Rightarrow> nat \<Rightarrow> nat \<Rightarrow> bool \<Rightarrow> mem \<Rightarrow> 's \<Rightarrow>
    nat option \<Rightarrow> nat option \<Rightarrow> (mem \<times> 's) option" where
  "menu_loop cmdtable run blanks semi isargs m s line context = do {
    (m, context, command) \<leftarrow> strtok_r m line semi context;
    (case command of
       None \<Rightarrow> Some (m, s)
     | Some command \<Rightarrow> do {
         (result, m, s) \<leftarrow> cmd_dispatch cmdtable run blanks m s command;
         if result \<noteq> None \<and> isargs then None
         else menu_loop cmdtable run blanks semi isargs m s None context }) }"

definition menu_execute ::
  "(nat \<times> 'h) list \<Rightarrow> ('h \<Rightarrow> mem \<Rightarrow> nat list \<Rightarrow> 's \<Rightarrow> errno option \<times> 's) \<Rightarrow> nat \<Rightarrow> nat \<Rightarrow> mem \<Rightarrow> 's \<Rightarrow> nat \<Rightarrow> bool \<Rightarrow>
    (mem \<times> 's) option" where
  "menu_execute cmdtable run blanks semi m s line isargs = menu_loop cmdtable run blanks semi isargs m s (Some line) None"

section \<open>The words of a command\<close>

text \<open>\<open>same_outside m m' p n\<close>: the two memories differ at most in the \<open>n\<close> bytes at \<open>p\<close>.\<close>

definition same_outside :: "mem \<Rightarrow> mem \<Rightarrow> nat \<Rightarrow> nat \<Rightarrow> bool" where
  "same_outside m m' p n \<longleftrightarrow> (\<forall>a. a < p \<or> p + n \<le> a \<longrightarrow> m' a = m a)"

definition apart :: "nat \<Rightarrow> 8 word list \<Rightarrow> nat \<Rightarrow> nat \<Rightarrow> bool" where
  "apart q t p n \<longleftrightarrow> q + length t < p \<or> p + n \<le> q"

lemma cstr_outside: "cstr m q t \<Longrightarrow> same_outside m m' p n \<Longrightarrow> apart q t p n \<Longrightarrow> cstr m' q t"
  by (erule cstr_cong) (auto simp: same_outside_def apart_def)

lemma same_outside_trans: "same_outside m m1 p n \<Longrightarrow> same_outside m1 m2 p' n' \<Longrightarrow> p \<le> p' \<Longrightarrow> p' + n' \<le> p + n \<Longrightarrow> same_outside m m2 p n"
  by (auto simp: same_outside_def)

lemma menu_args_eq:
  assumes "cstr m p s" "cstr m q seps" "apart q seps p (length s)" "(if str \<noteq> None then str else ctx) = Some p"
    "length args \<le> MAXMENUARGS"
  defines "ws \<equiv> split_words (set seps) s"
  shows "\<exists>m' r. menu_args m str q ctx args = Some (m', r) \<and> same_outside m m' p (length s) \<and>
    (if length args + length ws \<le> MAXMENUARGS
     then \<exists>ps. r = Inr (args @ ps) \<and> list_all2 (cstr m') ps ws \<and> (\<forall>x \<in> set ps. p \<le> x \<and> x < p + length s)
     else r = Inl E2BIG)"
  using assms(1-5) unfolding ws_def
proof (induction "length s" arbitrary: m p s str ctx args rule: less_induct)
  case less
  define S where "S = set seps"
  define r where "r = dropWhile (\<lambda>c. c \<in> S) s"
  define w t where "w = takeWhile (\<lambda>c. c \<notin> S) r" and "t = dropWhile (\<lambda>c. c \<notin> S) r"
  define h where "h = p + length (takeWhile (\<lambda>c. c \<in> S) s)"
  note tok = strtok_r_eq [OF less.prems(1,2,4), folded S_def, folded r_def h_def, folded w_def t_def]
  show ?case
  proof (cases "r = []")
    case True
    then have "split_words S s = []" unfolding r_def by (rule split_words_nil)
    then show ?thesis using tok(1) True less.prems(5)
      by (subst menu_args.simps) (auto simp: same_outside_def S_def [symmetric])
  next
    case False
    have ws: "split_words S s = w # split_words S t"
      unfolding w_def t_def by (rule split_words_step [OF r_def [symmetric] False])
    have hp: "p \<le> h" "h < p + length s" using tok(7) False by (simp add: h_def, cases r) simp_all
    have hw: "h + length w < p + length s" if "t \<noteq> []" using tok(7,8) that by (cases t) auto
    show ?thesis
    proof (cases "length args < MAXMENUARGS")
      case full: False
      then show ?thesis using tok(1) False hp hw
        by (subst menu_args.simps) (auto simp: same_outside_def S_def [symmetric] ws)
    next
      case room: True
      have next_call: "menu_args m str q ctx args = menu_args (if t = [] then m else m(h + length w := 0)) None q
          (if t = [] then None else Some (h + length w + 1)) (args @ [h])"
        using tok(1) False room by (subst menu_args.simps) (auto split: if_splits)
      show ?thesis
      proof (cases "t = []")
        case True
        have call: "menu_args m str q ctx args = Some (m, Inr (args @ [h]))"
          unfolding next_call using True by (subst menu_args.simps) (simp add: strtok_r_def)
        have sw: "split_words (set seps) s = [w]" using True ws by (simp add: split_words_nil S_def)
        have la: "list_all2 (cstr m) [h] (split_words (set seps) s)" unfolding sw using tok(3) [OF False True] by simp
        have le: "length args + length (split_words (set seps) s) \<le> MAXMENUARGS" using room sw by simp
        have pb: "\<forall>x \<in> set [h]. p \<le> x \<and> x < p + length s" using hp by simp
        have "same_outside m m p (length s)" by (simp add: same_outside_def)
        then show ?thesis unfolding if_P [OF le] using call la pb by blast
      next
        case more: False
        define m1 where "m1 = m(h + length w := 0)"
        obtain c t' where t': "t = c # t'" using more by (cases t) auto
        have len: "h + length w + 1 + length (tl t) = p + length s" "length (tl t) < length s"
          using tok(7,8) hp(1) unfolding t' by simp_all
        have m1: "same_outside m m1 p (length s)" using len hp by (auto simp: m1_def same_outside_def)
        have c1: "cstr m1 (h + length w + 1) (tl t)" "cstr m1 q seps" "apart q seps (h + length w + 1) (length (tl t))" "cstr m1 h w"
          using tok(4,5) [OF more] cstr_outside [OF less.prems(2) m1 less.prems(3)] less.prems(3) len hp
          by (auto simp: m1_def apart_def)
        have sp: "split_words S t = split_words S (tl t)"
          using tok(6) [OF more] more by (cases t) (auto simp: split_words_skip)
        obtain m' r' where ih: "menu_args m1 None q (Some (h + length w + 1)) (args @ [h]) = Some (m', r')"
            "same_outside m1 m' (h + length w + 1) (length (tl t))"
            "if length (args @ [h]) + length (split_words S (tl t)) \<le> MAXMENUARGS
             then \<exists>ps. r' = Inr ((args @ [h]) @ ps) \<and> list_all2 (cstr m') ps (split_words S (tl t)) \<and>
               (\<forall>x \<in> set ps. h + length w + 1 \<le> x \<and> x < h + length w + 1 + length (tl t))
             else r' = Inl E2BIG"
          using less.hyps [OF len(2) c1(1-3), of None "Some (h + length w + 1)" "args @ [h]"] room unfolding S_def by auto
        have "menu_args m str q ctx args = Some (m', r')" unfolding next_call using more ih(1) by (simp add: m1_def)
        moreover have "same_outside m m' p (length s)"
          by (rule same_outside_trans [OF m1 ih(2)]) (use hp len in auto)
        moreover have "cstr m' h w" by (rule cstr_outside [OF c1(4) ih(2)]) (simp add: apart_def)
        ultimately show ?thesis
        proof (cases "length args + length (split_words S s) \<le> MAXMENUARGS")
          case True
          then obtain ps where ps: "r' = Inr (args @ h # ps)" "list_all2 (cstr m') ps (split_words S (tl t))"
              "\<forall>x \<in> set ps. h + length w + 1 \<le> x \<and> x < h + length w + 1 + length (tl t)"
            using ih(3) by (auto simp: ws sp)
          have "\<forall>x \<in> set (h # ps). p \<le> x \<and> x < p + length s" using ps(3) hp len by auto
          moreover have "list_all2 (cstr m') (h # ps) (split_words S s)" using ps(2) \<open>cstr m' h w\<close> by (simp add: ws sp)
          ultimately show ?thesis
            using True ps(1) \<open>menu_args m str q ctx args = Some (m', r')\<close> \<open>same_outside m m' p (length s)\<close>
            unfolding S_def by (intro exI [of _ m'] exI [of _ r']) auto
        next
          case False
          then show ?thesis using ih(3) \<open>menu_args m str q ctx args = Some (m', r')\<close> \<open>same_outside m m' p (length s)\<close>
            unfolding S_def by (simp add: ws [unfolded S_def] sp [unfolded S_def])
        qed
      qed
    qed
  qed
qed

section \<open>Calling the command\<close>

text \<open>\<open>table_at\<close>: the names of the command table, outside the command line.\<close>

definition table_at :: "mem \<Rightarrow> (nat \<times> 'h) list \<Rightarrow> 8 word list list \<Rightarrow> nat \<Rightarrow> nat \<Rightarrow> bool" where
  "table_at m cmdtable names p n \<longleftrightarrow> list_all2 (\<lambda>(a, _) nm. cstr m a nm \<and> apart a nm p n) cmdtable names"

fun lookup_cmd :: "8 word list list \<Rightarrow> (nat \<times> 'h) list \<Rightarrow> 8 word list \<Rightarrow> 'h option" where
  "lookup_cmd (nm # names) ((_, func) # cmdtable) w = (if nm \<noteq> [] \<and> nm = w then Some func else lookup_cmd names cmdtable w)"
| "lookup_cmd _ _ w = None"

lemma apart_mono: "apart q t p n \<Longrightarrow> p \<le> p' \<Longrightarrow> p' + n' \<le> p + n \<Longrightarrow> apart q t p' n'"
  by (auto simp: apart_def)

lemma table_at_keep: "table_at m tbl names p n \<Longrightarrow> same_outside m m' p n \<Longrightarrow> table_at m' tbl names p n"
  unfolding table_at_def by (erule list_all2_mono) (auto intro: cstr_outside)

lemma table_at_mono: "table_at m tbl names p n \<Longrightarrow> p \<le> p' \<Longrightarrow> p' + n' \<le> p + n \<Longrightarrow> table_at m tbl names p' n'"
  unfolding table_at_def by (erule list_all2_mono) (auto intro: apart_mono)

lemma find_cmd_eq: "table_at m tbl names p n \<Longrightarrow> cstr m a w \<Longrightarrow> find_cmd m tbl a = Some (lookup_cmd names tbl w)"
proof (induction tbl arbitrary: names)
  case (Cons e tbl)
  obtain q func where e: "e = (q, func)" by (cases e)
  from Cons.prems(1) obtain nm names' where n: "names = nm # names'" "cstr m q nm" "table_at m tbl names' p n"
    by (auto simp: table_at_def e list_all2_Cons1)
  have "m q \<noteq> 0 \<longleftrightarrow> nm \<noteq> []" using n(2) by (cases nm) auto
  moreover have "strcmp m a q = Some (if nm < w then 1 else if w = nm then 0 else - 1)"
    using strcmp_eq [OF Cons.prems(2) n(2)] .
  ultimately show ?case using Cons.IH [OF n(3) Cons.prems(2)] by (auto simp: e n(1))
qed (auto simp: table_at_def)

text \<open>What the words of a command ask for.\<close>

definition dispatch_words :: "8 word list list \<Rightarrow> (nat \<times> 'h) list \<Rightarrow> ('h \<Rightarrow> 8 word list list \<Rightarrow> 's \<Rightarrow> errno option \<times> 's) \<Rightarrow>
    8 word list list \<Rightarrow> 's \<Rightarrow> errno option \<times> 's" where
  "dispatch_words names cmdtable runw ws s =
    (if ws = [] then (None, s)
     else if MAXMENUARGS < length ws then (Some E2BIG, s)
     else case lookup_cmd names cmdtable (hd ws) of None \<Rightarrow> (Some EINVAL, s) | Some func \<Rightarrow> runw func ws s)"

lemma cmd_dispatch_eq:
  assumes "cstr m p s" "cstr m q seps" "apart q seps p (length s)" "table_at m tbl names p (length s)"
    and run: "\<And>h m args ws st. list_all2 (cstr m) args ws \<Longrightarrow> run h m args st = runw h ws st"
  shows "\<exists>m'. same_outside m m' p (length s) \<and>
    cmd_dispatch tbl run q m st p = (let (r, st') = dispatch_words names tbl runw (split_words (set seps) s) st in Some (r, m', st'))"
proof -
  define ws where "ws = split_words (set seps) s"
  obtain m' r where args: "menu_args m (Some p) q None [] = Some (m', r)" "same_outside m m' p (length s)"
      "if length ws \<le> MAXMENUARGS then \<exists>ps. r = Inr ps \<and> list_all2 (cstr m') ps ws else r = Inl E2BIG"
    using menu_args_eq [OF assms(1-3), of "Some p" None "[]"] unfolding ws_def by (auto split: if_splits)
  have "cmd_dispatch tbl run q m st p = (let (r, st') = dispatch_words names tbl runw ws st in Some (r, m', st'))"
  proof (cases "length ws \<le> MAXMENUARGS")
    case False
    then have "ws \<noteq> []" by auto
    then show ?thesis using False args(1,3) by (simp add: cmd_dispatch_def dispatch_words_def)
  next
    case True
    then obtain ps where ps: "r = Inr ps" "list_all2 (cstr m') ps ws" using args(3) by auto
    show ?thesis
    proof (cases ws)
      case Nil
      then show ?thesis using args(1) ps by (simp add: cmd_dispatch_def dispatch_words_def)
    next
      case (Cons w ws')
      then obtain a ps' where a: "ps = a # ps'" "cstr m' a w" using ps(2) by (auto simp: list_all2_Cons2)
      have "find_cmd m' tbl a = Some (lookup_cmd names tbl w)"
        using find_cmd_eq [OF table_at_keep [OF assms(4) args(2)] a(2)] .
      then show ?thesis using args(1) ps a(1) Cons True run [OF ps(2)]
        by (cases "lookup_cmd names tbl w") (simp_all add: cmd_dispatch_def dispatch_words_def split_def Let_def)
    qed
  qed
  then show ?thesis using args(2) unfolding ws_def by blast
qed

section \<open>A line of commands\<close>

fun run_commands :: "(8 word list \<Rightarrow> 's \<Rightarrow> errno option \<times> 's) \<Rightarrow> bool \<Rightarrow> 8 word list list \<Rightarrow> 's \<Rightarrow> 's option" where
  "run_commands f isargs [] s = Some s"
| "run_commands f isargs (c # cs) s =
    (let (r, s) = f c s in if r \<noteq> None \<and> isargs then None else run_commands f isargs cs s)"

lemma menu_loop_eq:
  fixes runw :: "'h \<Rightarrow> 8 word list list \<Rightarrow> 's \<Rightarrow> errno option \<times> 's"
  assumes "cstr m p s" "cstr m b blanks" "cstr m q semi" "apart b blanks p (length s)" "apart q semi p (length s)"
    "table_at m tbl names p (length s)" "(if str \<noteq> None then str else ctx) = Some p"
    and run: "\<And>h m args ws st. list_all2 (cstr m) args ws \<Longrightarrow> run h m args st = runw h ws st"
  defines "f c \<equiv> dispatch_words names tbl runw (split_words (set blanks) c)"
  shows "map_option snd (menu_loop tbl run b q isargs m st str ctx) = run_commands f isargs (split_words (set semi) s) st"
  using assms(1-7)
proof (induction "length s" arbitrary: m p s str ctx st rule: less_induct)
  case less
  define S where "S = set semi"
  define r where "r = dropWhile (\<lambda>c. c \<in> S) s"
  define w t where "w = takeWhile (\<lambda>c. c \<notin> S) r" and "t = dropWhile (\<lambda>c. c \<notin> S) r"
  define h where "h = p + length (takeWhile (\<lambda>c. c \<in> S) s)"
  note tok = strtok_r_eq [OF less.prems(1,3,7), folded S_def, folded r_def h_def, folded w_def t_def]
  show ?case
  proof (cases "r = []")
    case True
    then have "split_words S s = []" unfolding r_def by (rule split_words_nil)
    then show ?thesis using tok(1) True by (subst menu_loop.simps) (simp add: S_def [symmetric])
  next
    case False
    have ws: "split_words S s = w # split_words S t"
      unfolding w_def t_def by (rule split_words_step [OF r_def [symmetric] False])
    have hp: "p \<le> h" using tok(7) by (simp add: h_def)
    have hw: "h + length w \<le> p + length s" using tok(7,8) by simp
    define m1 ctx1 where "m1 = (if t = [] then m else m(h + length w := 0))" and "ctx1 = (if t = [] then None else Some (h + length w + 1))"
    have lt: "h + length w < p + length s" if "t \<noteq> []" using tok(7,8) that by (cases t) auto
    have m1: "same_outside m m1 p (length s)" using hp lt by (auto simp: m1_def same_outside_def)
    have w1: "cstr m1 h w" using tok(3,4) False by (simp add: m1_def)
    have sub: "apart b blanks h (length w)" "table_at m1 tbl names h (length w)"
      using apart_mono [OF less.prems(4) hp hw] table_at_mono [OF table_at_keep [OF less.prems(6) m1] hp hw] .
    have b1: "cstr m1 b blanks" using cstr_outside [OF less.prems(2) m1 less.prems(4)] .
    obtain m2 where d: "same_outside m1 m2 h (length w)"
        "cmd_dispatch tbl run b m1 st h = (let (r, st') = f w st in Some (r, m2, st'))"
      using cmd_dispatch_eq [OF w1 b1 sub, of run runw st] run unfolding f_def by blast
    obtain res st' where fw: "f w st = (res, st')" by (cases "f w st")
    have step: "menu_loop tbl run b q isargs m st str ctx =
        (if res \<noteq> None \<and> isargs then None else menu_loop tbl run b q isargs m2 st' None ctx1)"
    proof -
      have "strtok_r m str q ctx = Some (m1, ctx1, Some h)" using tok(1) False by (simp add: m1_def ctx1_def)
      then show ?thesis using d(2) fw by (subst menu_loop.simps) simp
    qed
    have "map_option snd (menu_loop tbl run b q isargs m2 st' None ctx1) = run_commands f isargs (split_words S t) st'"
    proof (cases "t = []")
      case True
      then show ?thesis by (subst menu_loop.simps) (simp add: ctx1_def strtok_r_def split_words_nil)
    next
      case more: False
      obtain c t' where t': "t = c # t'" using more by (cases t) auto
      have len: "h + length w + 1 + length t' = p + length s" "length t' < length s" using tok(7,8) hp unfolding t' by simp_all
      have "cstr m1 (h + length w + 1) t'" using tok(5) [OF more] more by (simp add: m1_def t')
      then have c2: "cstr m2 (h + length w + 1) t'" by (rule cstr_outside [OF _ d(1)]) (simp add: apart_def)
      have m2: "same_outside m m2 p (length s)" by (rule same_outside_trans [OF m1 d(1) hp hw])
      have p1: "p \<le> h + length w + 1" "h + length w + 1 + length t' \<le> p + length s" using hp len by simp_all
      have "map_option snd (menu_loop tbl run b q isargs m2 st' None ctx1) = run_commands f isargs (split_words (set semi) t') st'"
        by (rule less.hyps [OF len(2) c2 cstr_outside [OF less.prems(2) m2 less.prems(4)]
              cstr_outside [OF less.prems(3) m2 less.prems(5)] apart_mono [OF less.prems(4) p1] apart_mono [OF less.prems(5) p1]
              table_at_mono [OF table_at_keep [OF less.prems(6) m2] p1]]) (simp add: ctx1_def more)
      moreover have "split_words S t = split_words S t'" using tok(6) [OF more] unfolding t' by (simp add: split_words_skip)
      ultimately show ?thesis by (simp add: S_def)
    qed
    then show ?thesis unfolding step using fw by (cases isargs) (simp_all add: ws S_def [symmetric])
  qed
qed

section \<open>Properties\<close>



end
