(* ===== verification/Array.thy ===== *)
theory Array
  imports Prelude
begin

text \<open>
  The resizable arrays of kern/lib/array.c and kern/include/array.h.  The block \<open>arr_v\<close> is
  a list of its \<open>arr_max\<close> entries, the unused ones included; sizes are unsigned ints with
  their wrap-around.  kmalloc is an argument: given a size in bytes it returns a block (its
  contents before it is written) or nothing.  What the arrays rely on is that a block has
  the size asked for, the predicate \<open>kmalloc_sized\<close>.
\<close>

section \<open>Operations\<close>

record 'a array =
  arr_v :: "'a list"
  arr_num :: "32 word"
  arr_max :: "32 word"

definition array_init :: "'a array" where
  "array_init = \<lparr>arr_v = [], arr_num = 0, arr_max = 0\<rparr>"

definition array_create :: "bool \<Rightarrow> 'a array option" where
  "array_create kmalloc = (if kmalloc then Some array_init else None)"

definition array_cleanup :: "'a array \<Rightarrow> 'a array option" where
  "array_cleanup a = do {
    KASSERT (arr_num a = 0);
    Some (a\<lparr>arr_v := []\<rparr>) }"

definition array_destroy :: "'a array \<Rightarrow> unit option" where
  "array_destroy a = do { _ \<leftarrow> array_cleanup a; Some () }"

definition array_num :: "'a array \<Rightarrow> 32 word" where
  "array_num a = arr_num a"

definition array_get :: "'a array \<Rightarrow> 32 word \<Rightarrow> 'a option" where
  "array_get a index = do {
    KASSERT (index < arr_num a);
    KASSERT (unat index < length (arr_v a));
    Some (arr_v a ! unat index) }"

definition array_set :: "'a array \<Rightarrow> 32 word \<Rightarrow> 'a \<Rightarrow> 'a array option" where
  "array_set a index val = do {
    KASSERT (index < arr_num a);
    KASSERT (unat index < length (arr_v a));
    Some (a\<lparr>arr_v := (arr_v a)[unat index := val]\<rparr>) }"

partial_function (option) grow_max :: "32 word \<Rightarrow> 32 word \<Rightarrow> 32 word option" where
  "grow_max n newmax = (if n > newmax then grow_max n (if newmax \<noteq> 0 then newmax * 2 else 4) else Some newmax)"

text \<open>A copy that would run over one of the two blocks is \<open>None\<close>.\<close>

definition array_setsize :: "(32 word \<Rightarrow> 'a list option) \<Rightarrow> 'a array \<Rightarrow> 32 word \<Rightarrow> (errno option \<times> 'a array) option" where
  "array_setsize kmalloc a n =
    (if n > arr_max a then do {
       newmax \<leftarrow> grow_max n (arr_max a);
       (case kmalloc (newmax * 4) of
          None \<Rightarrow> Some (Some ENOMEM, a)
        | Some newptr \<Rightarrow> do {
            KASSERT (unat (arr_num a * 4) div 4 \<le> length (arr_v a) \<and> unat (arr_num a * 4) div 4 \<le> length newptr);
            let copy = unat (arr_num a * 4) div 4;
            Some (None, a\<lparr>arr_v := take copy (arr_v a) @ drop copy newptr, arr_max := newmax, arr_num := n\<rparr>) }) }
     else Some (None, a\<lparr>arr_num := n\<rparr>))"

definition array_add :: "(32 word \<Rightarrow> 'a list option) \<Rightarrow> 'a array \<Rightarrow> 'a \<Rightarrow> ((errno + 32 word) \<times> 'a array) option" where
  "array_add kmalloc a val = do {
    let index = arr_num a;
    (ret, a) \<leftarrow> array_setsize kmalloc a (index + 1);
    (case ret of
       Some e \<Rightarrow> Some (Inl e, a)
     | None \<Rightarrow> do {
         KASSERT (unat index < length (arr_v a));
         Some (Inr index, a\<lparr>arr_v := (arr_v a)[unat index := val]\<rparr>) }) }"

definition array_remove :: "'a array \<Rightarrow> 32 word \<Rightarrow> 'a array option" where
  "array_remove a index = do {
    KASSERT (arr_num a \<le> arr_max a);
    KASSERT (index < arr_num a);
    let num_to_move = unat ((arr_num a - (index + 1)) * 4) div 4;
    let i = unat index;
    KASSERT (i + 1 + num_to_move \<le> length (arr_v a));
    Some (a\<lparr>arr_v := take i (arr_v a) @ take num_to_move (drop (i + 1) (arr_v a)) @ drop (i + num_to_move) (arr_v a), arr_num := arr_num a - 1\<rparr>) }"

section \<open>Representation\<close>

definition kmalloc_sized :: "(32 word \<Rightarrow> 'a list option) \<Rightarrow> bool" where
  "kmalloc_sized kmalloc \<longleftrightarrow> (\<forall>sz blk. kmalloc sz = Some blk \<longrightarrow> length blk = unat sz div 4)"

definition array_ok :: "'a array \<Rightarrow> bool" where
  "array_ok a \<longleftrightarrow> arr_num a \<le> arr_max a \<and> length (arr_v a) = unat (arr_max a) \<and> unat (arr_max a) < 2 ^ 30"

definition contents :: "'a array \<Rightarrow> 'a list" where
  "contents a = take (unat (arr_num a)) (arr_v a)"

lemma array_init_ok: "array_ok array_init" "contents array_init = []"
  by (simp_all add: array_ok_def contents_def array_init_def)

lemma array_ok_bounds: "array_ok a \<Longrightarrow> unat (arr_num a) \<le> length (arr_v a)" "array_ok a \<Longrightarrow> length (contents a) = unat (arr_num a)"
  by (simp_all add: array_ok_def contents_def word_le_nat_alt)

lemma array_get_eq: "array_ok a \<Longrightarrow> array_get a i = (if unat i < length (contents a) then Some (contents a ! unat i) else None)"
  using array_ok_bounds [of a] by (auto simp: array_get_def contents_def word_less_nat_alt)

lemma array_set_eq:
  assumes "array_ok a" "unat i < length (contents a)"
  shows "\<exists>a'. array_set a i x = Some a' \<and> array_ok a' \<and> contents a' = (contents a)[unat i := x]"
  using assms array_ok_bounds [OF assms(1)]
  by (auto simp: array_set_def contents_def word_less_nat_alt array_ok_def take_update_swap)

section \<open>Growing\<close>

lemma unat_quad: "unat w < 2 ^ 30 \<Longrightarrow> unat (w * 4) div 4 = unat w" for w :: "32 word"
  by (simp add: unat_word_ariths)

lemma grow_max_ok:
  assumes "unat n \<le> 2 ^ 29" "unat k < 2 ^ 30"
  shows "\<exists>r. grow_max n k = Some r \<and> n \<le> r \<and> unat r < 2 ^ 30"
  using assms(2)
proof (induction "unat n - unat k" arbitrary: k rule: less_induct)
  case less
  show ?case
  proof (cases "k < n")
    case False
    then show ?thesis using less.prems by (subst grow_max.simps) auto
  next
    case True
    define k' where "k' = (if k \<noteq> 0 then k * 2 else 4)"
    have kn: "unat k < unat n" using True by (simp add: word_less_nat_alt)
    have d: "unat (k * 2) = unat k * 2" using kn assms(1) by (simp add: unat_word_ariths)
    have "unat k < unat k'"
      using d by (auto simp: k'_def unat_eq_0 [symmetric] simp del: unat_eq_0)
    moreover have "unat k' < 2 ^ 30" using d kn assms(1) by (simp add: k'_def)
    moreover have "unat n - unat k' < unat n - unat k" using kn \<open>unat k < unat k'\<close> by (rule diff_less_mono2 [rotated])
    ultimately obtain r where "grow_max n k' = Some r" "n \<le> r" "unat r < 2 ^ 30"
      using less.hyps [of k'] by blast
    then show ?thesis using True by (subst grow_max.simps) (simp add: k'_def)
  qed
qed

lemma array_setsize_eq:
  assumes "array_ok a" "kmalloc_sized kmalloc" "unat n \<le> 2 ^ 29"
  shows "\<exists>e a'. array_setsize kmalloc a n = Some (e, a') \<and> array_ok a' \<and>
    (if e = None then unat (arr_num a') = unat n \<and> (\<forall>i < min (unat n) (unat (arr_num a)). contents a' ! i = contents a ! i) else e = Some ENOMEM \<and> a' = a)"
proof (cases "arr_max a < n")
  case False
  then show ?thesis using assms(1) by (auto simp: array_setsize_def array_ok_def contents_def word_less_nat_alt word_le_nat_alt)
next
  case True
  obtain r where r: "grow_max n (arr_max a) = Some r" "n \<le> r" "unat r < 2 ^ 30"
    using grow_max_ok [OF assms(3), of "arr_max a"] assms(1) by (auto simp: array_ok_def)
  show ?thesis
  proof (cases "kmalloc (r * 4)")
    case None
    then show ?thesis using True r(1) assms(1) by (simp add: array_setsize_def)
  next
    case (Some blk)
    have "unat (r * 4) = unat r * 4" using r(3) by (simp add: unat_word_ariths)
    then have blk: "length blk = unat r" using assms(2) Some by (simp add: kmalloc_sized_def)
    have na: "unat (arr_num a) \<le> length (arr_v a)" "unat (arr_num a) < unat n" "unat (arr_num a) < 2 ^ 30"
      using assms(1) True by (auto simp: array_ok_def word_le_nat_alt word_less_nat_alt)
    then have c: "unat (arr_num a * 4) div 4 = unat (arr_num a)" by (intro unat_quad)
    have nb: "unat (arr_num a) \<le> length blk" using na blk r(2) by (simp add: word_le_nat_alt)
    define k where "k = unat (arr_num a)"
    define a' where "a' = a\<lparr>arr_v := take k (arr_v a) @ drop k blk, arr_max := r, arr_num := n\<rparr>"
    have "array_setsize kmalloc a n = Some (None, a')"
      using True na(1) nb by (simp add: array_setsize_def r(1) Some c a'_def k_def Let_def)
    moreover have "array_ok a'" using r(2,3) na(1) nb blk by (simp add: array_ok_def a'_def k_def)
    moreover have "contents a' ! i = contents a ! i" if "i < k" for i
      using that na(1,2) by (simp add: contents_def a'_def k_def nth_append)
    moreover have "arr_num a' = n" by (simp add: a'_def)
    ultimately show ?thesis by (intro exI [of _ None] exI [of _ a']) (simp add: k_def)
  qed
qed

lemma array_add_eq:
  assumes "array_ok a" "kmalloc_sized kmalloc" "length (contents a) < 2 ^ 29"
  shows "\<exists>e a'. array_add kmalloc a x = Some (e, a') \<and> array_ok a' \<and>
    (case e of Inl err \<Rightarrow> err = ENOMEM \<and> a' = a | Inr i \<Rightarrow> unat i = length (contents a) \<and> contents a' = contents a @ [x])"
proof -
  have l: "length (contents a) = unat (arr_num a)" using array_ok_bounds(2) [OF assms(1)] .
  have n1: "unat (arr_num a + 1) = unat (arr_num a) + 1" using assms(3) l by (simp add: unat_word_ariths)
  then have "unat (arr_num a + 1) \<le> 2 ^ 29" using assms(3) l by simp
  from array_setsize_eq [OF assms(1,2) this] obtain e a' where
    s: "array_setsize kmalloc a (arr_num a + 1) = Some (e, a')" "array_ok a'"
      "if e = None then unat (arr_num a') = unat (arr_num a + 1) \<and> (\<forall>i < min (unat (arr_num a + 1)) (unat (arr_num a)). contents a' ! i = contents a ! i)
       else e = Some ENOMEM \<and> a' = a" by blast
  show ?thesis
  proof (cases e)
    case None
    then have n': "unat (arr_num a') = unat (arr_num a) + 1" and c: "\<forall>i < unat (arr_num a). contents a' ! i = contents a ! i"
      using s(3) n1 by auto
    have lt: "unat (arr_num a) < length (arr_v a')" using array_ok_bounds(1) [OF s(2)] n' by simp
    define a2 where "a2 = a'\<lparr>arr_v := (arr_v a')[unat (arr_num a) := x]\<rparr>"
    have "contents a2 = contents a @ [x]"
    proof (rule nth_equalityI)
      show "length (contents a2) = length (contents a @ [x])" using lt n' l by (simp add: a2_def contents_def)
      show "contents a2 ! i = (contents a @ [x]) ! i" if "i < length (contents a2)" for i
        using that lt n' l c by (auto simp: a2_def contents_def nth_append nth_list_update less_Suc_eq)
    qed
    moreover have "array_ok a2" using s(2) by (simp add: a2_def array_ok_def)
    moreover have "array_add kmalloc a x = Some (Inr (arr_num a), a2)" using s(1) None lt by (simp add: array_add_def a2_def Let_def)
    ultimately show ?thesis using l by auto
  next
    case (Some err)
    then show ?thesis using s assms(1) by (auto simp: array_add_def Let_def)
  qed
qed

lemma excise:
  assumes "j < n" "n \<le> length xs"
  shows "take (n - 1) (take j xs @ take (n - (j + 1)) (drop (j + 1) xs) @ ys) = take j (take n xs) @ drop (j + 1) (take n xs)"
proof -
  have "length (take j xs @ take (n - (j + 1)) (drop (j + 1) xs)) = n - 1" using assms by simp
  then have "take (n - 1) ((take j xs @ take (n - (j + 1)) (drop (j + 1) xs)) @ ys) = take j xs @ take (n - (j + 1)) (drop (j + 1) xs)"
    by (metis append_eq_conv_conj)
  then show ?thesis using assms(1) by (simp add: drop_take min_def)
qed

lemma array_remove_eq:
  assumes "array_ok a" "unat i < length (contents a)"
  shows "\<exists>a'. array_remove a i = Some a' \<and> array_ok a' \<and> contents a' = take (unat i) (contents a) @ drop (unat i + 1) (contents a)"
proof -
  have l: "length (contents a) = unat (arr_num a)" using array_ok_bounds(2) [OF assms(1)] .
  have b: "unat (arr_num a) \<le> length (arr_v a)" "unat (arr_num a) < 2 ^ 30" "arr_num a \<le> arr_max a" "length (arr_v a) = unat (arr_max a)" "unat (arr_max a) < 2 ^ 30"
    using assms(1) by (auto simp: array_ok_def word_le_nat_alt)
  have i: "unat i < unat (arr_num a)" using assms(2) l by simp
  have i1: "unat (i + 1) = unat i + 1" using i b(2) by (simp add: unat_word_ariths)
  have "i + 1 \<le> arr_num a" using i i1 by (simp add: word_le_nat_alt)
  then have s: "unat (arr_num a - (i + 1)) = unat (arr_num a) - (unat i + 1)" using i1 by (simp add: unat_sub)
  define k where "k = unat (arr_num a) - (unat i + 1)"
  have k: "unat ((arr_num a - (i + 1)) * 4) div 4 = k"
    using s b(2) by (subst unat_quad) (simp_all add: k_def)
  have n1: "unat (arr_num a - 1) = unat (arr_num a) - 1"
  proof -
    have "1 \<le> arr_num a" using i by (simp add: word_le_nat_alt)
    then show ?thesis by (simp add: unat_sub)
  qed
  define a' where "a' = a\<lparr>arr_v := take (unat i) (arr_v a) @ take k (drop (unat i + 1) (arr_v a)) @ drop (unat i + k) (arr_v a), arr_num := arr_num a - 1\<rparr>"
  have "array_remove a i = Some a'"
    using b i k by (simp add: array_remove_def a'_def word_less_nat_alt k_def Let_def)
  moreover have "array_ok a'"
    using b i n1 by (auto simp: array_ok_def a'_def k_def word_le_nat_alt)
  moreover have "contents a' = take (unat i) (contents a) @ drop (unat i + 1) (contents a)"
    using excise [OF i b(1)] by (simp add: contents_def a'_def k_def n1)
  ultimately show ?thesis by blast
qed

section \<open>A growing list\<close>

text \<open>What clients of an array rely on: each operation acts on a list, and only adding can fail,
  without effect.\<close>

datatype 'a array_op = Add 'a | Set_at "32 word" 'a | Remove_at "32 word"

definition array_step :: "(32 word \<Rightarrow> 'a list option) \<Rightarrow> 'a array \<Rightarrow> 'a array_op \<Rightarrow> (errno option \<times> 'a array) option" where
  "array_step kmalloc a oper = (case oper of
     Add x \<Rightarrow> map_option (apfst (\<lambda>r. case r of Inl e \<Rightarrow> Some e | Inr _ \<Rightarrow> None)) (array_add kmalloc a x)
   | Set_at i x \<Rightarrow> map_option (Pair None) (array_set a i x)
   | Remove_at i \<Rightarrow> map_option (Pair None) (array_remove a i))"

fun list_step :: "'a list \<Rightarrow> 'a array_op \<Rightarrow> 'a list option" where
  "list_step xs (Add x) = Some (xs @ [x])"
| "list_step xs (Set_at i x) = (if unat i < length xs then Some (xs[unat i := x]) else None)"
| "list_step xs (Remove_at i) = (if unat i < length xs then Some (take (unat i) xs @ drop (unat i + 1) xs) else None)"

definition array_rep :: "'a array \<Rightarrow> 'a list \<Rightarrow> bool" where
  "array_rep a xs \<longleftrightarrow> array_ok a \<and> contents a = xs"

lemma array_add_sim:
  assumes "kmalloc_sized kmalloc" "array_rep a xs" "length xs < 2 ^ 29"
  shows "\<exists>e a'. array_step kmalloc a (Add x) = Some (e, a') \<and>
    (if e = None then array_rep a' (xs @ [x]) else e = Some ENOMEM \<and> array_rep a' xs)"
proof -
  have ok: "array_ok a" "contents a = xs" using assms(2) by (simp_all add: array_rep_def)
  obtain e a' where e: "array_add kmalloc a x = Some (e, a')" "array_ok a'"
      "case e of Inl err \<Rightarrow> err = ENOMEM \<and> a' = a | Inr i \<Rightarrow> unat i = length (contents a) \<and> contents a' = contents a @ [x]"
    using array_add_eq [OF ok(1) assms(1)] assms(3) ok(2) by blast
  then show ?thesis using ok by (cases e) (simp_all add: array_step_def array_rep_def)
qed

lemma array_step_sim:
  assumes "kmalloc_sized kmalloc" "array_rep a xs" "length xs < 2 ^ 29" "list_step xs oper = Some ys"
  shows "\<exists>e a'. array_step kmalloc a oper = Some (e, a') \<and> (if e = None then array_rep a' ys else e = Some ENOMEM \<and> array_rep a' xs)"
proof (cases oper)
  case (Add x)
  then have "ys = xs @ [x]" using assms(4) by simp
  then show ?thesis using array_add_sim [OF assms(1-3), of x] by (simp only: Add)
next
  case (Set_at i x)
  then have "unat i < length (contents a)" "ys = (contents a)[unat i := x]" "array_ok a"
    using assms(2,4) by (auto simp: array_rep_def split: if_splits)
  then obtain a' where "array_step kmalloc a oper = Some (None, a')" "array_rep a' ys"
    using array_set_eq [of a i x] Set_at by (auto simp: array_step_def array_rep_def)
  then show ?thesis by auto
next
  case (Remove_at i)
  then have "unat i < length (contents a)" "ys = take (unat i) (contents a) @ drop (unat i + 1) (contents a)" "array_ok a"
    using assms(2,4) by (auto simp: array_rep_def split: if_splits)
  then obtain a' where "array_step kmalloc a oper = Some (None, a')" "array_rep a' ys"
    using array_remove_eq [of a i] Remove_at by (auto simp: array_step_def array_rep_def)
  then show ?thesis by auto
qed

definition doublings :: "32 word set" where
  "doublings = {0} \<union> {2 ^ k | k. 2 \<le> k \<and> k < 32}"

lemma four_doublings: "4 \<in> doublings"
proof -
  have "(4 :: 32 word) = 2 ^ 2 \<and> 2 \<le> (2 :: nat) \<and> (2 :: nat) < 32" by simp
  then show ?thesis unfolding doublings_def by blast
qed

lemma doublings_step: "x \<in> doublings \<Longrightarrow> (if x \<noteq> 0 then x * 2 else 4) \<in> doublings \<and> unat x \<le> 2 ^ 31"
proof -
  assume "x \<in> doublings"
  then consider "x = 0" | k where "2 \<le> k" "k < 32" "x = 2 ^ k" by (auto simp: doublings_def)
  then show ?thesis
  proof cases
    case 1
    then show ?thesis using four_doublings by simp
  next
    case (2 k)
    have "x * 2 = 2 ^ Suc k" using 2 by simp
    moreover have "(2 :: 32 word) ^ Suc k = 0" if "k = 31" using that by simp
    ultimately have "x * 2 \<in> doublings" unfolding doublings_def using 2(1,2) by (cases "k = 31") (simp, fastforce)
    moreover have "unat x \<le> 2 ^ 31"
    proof -
      have "x = word_of_nat (2 ^ k)" using 2(3) by simp
      then have "unat x = 2 ^ k mod 2 ^ 32" by (simp only: unat_of_nat) simp
      also have "\<dots> \<le> 2 ^ k" by simp
      also have "(2 :: nat) ^ k \<le> 2 ^ 31" using 2(2) by (intro power_increasing) auto
      finally show ?thesis .
    qed
    ultimately show ?thesis using four_doublings by simp
  qed
qed

lemma grow_max_stuck:
  assumes "grow_max n x = Some r" "x \<in> doublings"
  shows "unat n \<le> 2 ^ 31"
proof -
  have "x \<in> doublings \<longrightarrow> unat n \<le> 2 ^ 31"
  proof (rule grow_max.raw_induct [where P = "\<lambda>n x r. x \<in> doublings \<longrightarrow> unat n \<le> 2 ^ 31", OF _ assms(1)])
    fix g :: "32 word \<Rightarrow> 32 word \<Rightarrow> 32 word option" and n x r
    assume ih: "\<And>n x r. g n x = Some r \<Longrightarrow> x \<in> doublings \<longrightarrow> unat n \<le> 2 ^ 31"
      and s: "(if x < n then g n (if x \<noteq> 0 then x * 2 else 4) else Some x) = Some r"
    show "x \<in> doublings \<longrightarrow> unat n \<le> 2 ^ 31"
    proof
      assume "x \<in> doublings"
      note d = doublings_step [OF this]
      show "unat n \<le> 2 ^ 31"
      proof (cases "x < n")
        case True
        then have "g n (if x \<noteq> 0 then x * 2 else 4) = Some r" using s by (simp only: if_True)
        from ih [OF this] show ?thesis using d by blast
      next
        case False
        then show ?thesis using d by (simp add: word_less_nat_alt)
      qed
    qed
  qed
  then show ?thesis using assms(2) by blast
qed

section \<open>Properties\<close>





end
