(* ===== verification/Threadlist.thy ===== *)
theory Threadlist
  imports Prelude
begin

text \<open>
  The thread lists of kern/thread/threadlist.c: doubly linked lists through nodes that lie
  inside the threads, with two bookend nodes inside each list.  The nodes of all lists and
  threads are one store, so that a wrong link in one list would show in another; lists
  and threads are identified by numbers.  A NULL pointer is \<open>None\<close>, and following one
  makes the result \<open>None\<close>; so does a failed KASSERT.  The debug assertions of the file are
  compiled out.  Lists are related to the list of their threads by \<open>tl_rep\<close>, and every
  operation is shown to act on that list.
\<close>

section \<open>Nodes\<close>

datatype node = Head nat | Tail nat | Thread nat

record store =
  tln_prev :: "node \<Rightarrow> node option"
  tln_next :: "node \<Rightarrow> node option"
  tln_self :: "node \<Rightarrow> nat option"
  tl_count :: "nat \<Rightarrow> nat"

definition set_prev :: "node \<Rightarrow> node option \<Rightarrow> store \<Rightarrow> store" where
  "set_prev n p s = s\<lparr>tln_prev := (tln_prev s)(n := p)\<rparr>"

definition set_next :: "node \<Rightarrow> node option \<Rightarrow> store \<Rightarrow> store" where
  "set_next n p s = s\<lparr>tln_next := (tln_next s)(n := p)\<rparr>"

definition threadlistnode_init :: "store \<Rightarrow> nat \<Rightarrow> store" where
  "threadlistnode_init s t =
    (set_prev (Thread t) None (set_next (Thread t) None s))\<lparr>tln_self := (tln_self s)(Thread t := Some t)\<rparr>"

definition threadlistnode_cleanup :: "store \<Rightarrow> nat \<Rightarrow> unit option" where
  "threadlistnode_cleanup s t = do {
    KASSERT (tln_next s (Thread t) = None);
    KASSERT (tln_prev s (Thread t) = None);
    KASSERT (tln_self s (Thread t) \<noteq> None) }"

definition threadlist_init :: "store \<Rightarrow> nat \<Rightarrow> store" where
  "threadlist_init s l = s\<lparr>
    tln_next := (tln_next s)(Head l := Some (Tail l), Tail l := None),
    tln_prev := (tln_prev s)(Head l := None, Tail l := Some (Head l)),
    tln_self := (tln_self s)(Head l := None, Tail l := None),
    tl_count := (tl_count s)(l := 0)\<rparr>"

definition threadlist_isempty :: "store \<Rightarrow> nat \<Rightarrow> bool" where
  "threadlist_isempty s l = (tl_count s l = 0)"

definition threadlist_cleanup :: "store \<Rightarrow> nat \<Rightarrow> unit option" where
  "threadlist_cleanup s l = do {
    KASSERT (threadlist_isempty s l);
    KASSERT (tl_count s l = 0) }"

definition threadlist_insertafternode :: "store \<Rightarrow> node \<Rightarrow> nat \<Rightarrow> store option" where
  "threadlist_insertafternode s onlist t = do {
    let addee = Thread t;
    let s = set_prev addee (Some onlist) s;
    let s = set_next addee (tln_next s onlist) s;
    p \<leftarrow> tln_prev s addee;
    let s = set_next p (Some addee) s;
    n \<leftarrow> tln_next s addee;
    Some (set_prev n (Some addee) s) }"

definition threadlist_insertbeforenode :: "store \<Rightarrow> nat \<Rightarrow> node \<Rightarrow> store option" where
  "threadlist_insertbeforenode s t onlist = do {
    let addee = Thread t;
    let s = set_prev addee (tln_prev s onlist) s;
    let s = set_next addee (Some onlist) s;
    p \<leftarrow> tln_prev s addee;
    let s = set_next p (Some addee) s;
    n \<leftarrow> tln_next s addee;
    Some (set_prev n (Some addee) s) }"

definition threadlist_removenode :: "store \<Rightarrow> node \<Rightarrow> store option" where
  "threadlist_removenode s tln = do {
    p \<leftarrow> tln_prev s tln;
    let s = set_next p (tln_next s tln) s;
    n \<leftarrow> tln_next s tln;
    let s = set_prev n (tln_prev s tln) s;
    Some (set_next tln None (set_prev tln None s)) }"

definition count_up :: "nat \<Rightarrow> store \<Rightarrow> store" where
  "count_up l s = s\<lparr>tl_count := (tl_count s)(l := tl_count s l + 1)\<rparr>"

definition count_down :: "nat \<Rightarrow> store \<Rightarrow> store" where
  "count_down l s = s\<lparr>tl_count := (tl_count s)(l := tl_count s l - 1)\<rparr>"

section \<open>Lists\<close>

definition threadlist_addhead :: "store \<Rightarrow> nat \<Rightarrow> nat \<Rightarrow> store option" where
  "threadlist_addhead s l t = do { s \<leftarrow> threadlist_insertafternode s (Head l) t; Some (count_up l s) }"

definition threadlist_addtail :: "store \<Rightarrow> nat \<Rightarrow> nat \<Rightarrow> store option" where
  "threadlist_addtail s l t = do { s \<leftarrow> threadlist_insertbeforenode s t (Tail l); Some (count_up l s) }"

definition threadlist_remhead :: "store \<Rightarrow> nat \<Rightarrow> (nat option \<times> store) option" where
  "threadlist_remhead s l = do {
    tln \<leftarrow> tln_next s (Head l);
    if tln_next s tln = None then Some (None, s)
    else do {
      s \<leftarrow> threadlist_removenode s tln;
      let s = count_down l s;
      Some (tln_self s tln, s) } }"

definition threadlist_remtail :: "store \<Rightarrow> nat \<Rightarrow> (nat option \<times> store) option" where
  "threadlist_remtail s l = do {
    tln \<leftarrow> tln_prev s (Tail l);
    if tln_prev s tln = None then Some (None, s)
    else do {
      s \<leftarrow> threadlist_removenode s tln;
      let s = count_down l s;
      Some (tln_self s tln, s) } }"

definition threadlist_insertafter :: "store \<Rightarrow> nat \<Rightarrow> nat \<Rightarrow> nat \<Rightarrow> store option" where
  "threadlist_insertafter s l onlist addee = do {
    s \<leftarrow> threadlist_insertafternode s (Thread onlist) addee;
    Some (count_up l s) }"

definition threadlist_insertbefore :: "store \<Rightarrow> nat \<Rightarrow> nat \<Rightarrow> nat \<Rightarrow> store option" where
  "threadlist_insertbefore s l addee onlist = do {
    s \<leftarrow> threadlist_insertbeforenode s addee (Thread onlist);
    Some (count_up l s) }"

definition threadlist_remove :: "store \<Rightarrow> nat \<Rightarrow> nat \<Rightarrow> store option" where
  "threadlist_remove s l t = do {
    s \<leftarrow> threadlist_removenode s (Thread t);
    Some (count_down l s) }"

section \<open>Representation\<close>

fun chain :: "store \<Rightarrow> node list \<Rightarrow> bool" where
  "chain s (a # b # ns) = (tln_next s a = Some b \<and> tln_prev s b = Some a \<and> chain s (b # ns))"
| "chain s _ = True"

definition nodes :: "nat \<Rightarrow> nat list \<Rightarrow> node list" where
  "nodes l ts = Head l # map Thread ts @ [Tail l]"

definition tl_rep :: "store \<Rightarrow> nat \<Rightarrow> nat list \<Rightarrow> bool" where
  "tl_rep s l ts \<longleftrightarrow> distinct ts \<and> chain s (nodes l ts) \<and> tln_prev s (Head l) = None \<and> tln_next s (Tail l) = None \<and>
    tl_count s l = length ts \<and> (\<forall>t \<in> set ts. tln_self s (Thread t) = Some t)"

text \<open>A thread that is on no list.\<close>

definition off_list :: "store \<Rightarrow> nat \<Rightarrow> bool" where
  "off_list s t \<longleftrightarrow> tln_next s (Thread t) = None \<and> tln_prev s (Thread t) = None \<and> tln_self s (Thread t) = Some t"

lemma chain_append: "chain s (xs @ a # ys) \<longleftrightarrow> chain s (xs @ [a]) \<and> chain s (a # ys)"
proof (induction xs)
  case (Cons x xs)
  then show ?case by (cases xs) auto
qed simp

lemma chain_cong:
  "chain s ns \<Longrightarrow> (\<And>n. n \<in> set (butlast ns) \<Longrightarrow> tln_next s' n = tln_next s n) \<Longrightarrow>
    (\<And>n. n \<in> set (tl ns) \<Longrightarrow> tln_prev s' n = tln_prev s n) \<Longrightarrow> chain s' ns"
  by (induction ns rule: chain.induct) (auto split: if_splits)

lemma sel_simps [simp]:
  "tln_prev (set_prev n p s) = (tln_prev s)(n := p)" "tln_next (set_prev n p s) = tln_next s"
  "tln_prev (set_next n p s) = tln_prev s" "tln_next (set_next n p s) = (tln_next s)(n := p)"
  "tln_self (set_prev n p s) = tln_self s" "tln_self (set_next n p s) = tln_self s"
  "tl_count (set_prev n p s) = tl_count s" "tl_count (set_next n p s) = tl_count s"
  "tln_prev (count_up l s) = tln_prev s" "tln_next (count_up l s) = tln_next s" "tln_self (count_up l s) = tln_self s"
  "tln_prev (count_down l s) = tln_prev s" "tln_next (count_down l s) = tln_next s" "tln_self (count_down l s) = tln_self s"
  "tl_count (count_up l s) = (tl_count s)(l := tl_count s l + 1)" "tl_count (count_down l s) = (tl_count s)(l := tl_count s l - 1)"
  by (simp_all add: set_prev_def set_next_def count_up_def count_down_def)

section \<open>Linking and unlinking a node\<close>

definition link :: "store \<Rightarrow> node \<Rightarrow> node \<Rightarrow> node \<Rightarrow> store" where
  "link s a x b = s\<lparr>tln_prev := (tln_prev s)(x := Some a, b := Some x), tln_next := (tln_next s)(x := Some b, a := Some x)\<rparr>"

definition unlink :: "store \<Rightarrow> node \<Rightarrow> node \<Rightarrow> node \<Rightarrow> store" where
  "unlink s a x b = s\<lparr>tln_prev := (tln_prev s)(b := Some a, x := None), tln_next := (tln_next s)(a := Some b, x := None)\<rparr>"

lemma insertafter_link:
  "tln_next s a = Some b \<Longrightarrow> a \<noteq> Thread t \<Longrightarrow> threadlist_insertafternode s a t = Some (link s a (Thread t) b)"
  by (simp add: threadlist_insertafternode_def Let_def link_def set_prev_def set_next_def)

lemma insertbefore_link:
  "tln_prev s b = Some a \<Longrightarrow> a \<noteq> Thread t \<Longrightarrow> threadlist_insertbeforenode s t b = Some (link s a (Thread t) b)"
  by (simp add: threadlist_insertbeforenode_def Let_def link_def set_prev_def set_next_def)

lemma removenode_unlink:
  "tln_prev s x = Some a \<Longrightarrow> tln_next s x = Some b \<Longrightarrow> a \<noteq> x \<Longrightarrow> b \<noteq> x \<Longrightarrow> threadlist_removenode s x = Some (unlink s a x b)"
  by (simp add: threadlist_removenode_def Let_def unlink_def set_prev_def set_next_def)

lemma chain_cut: "chain s (xs @ a # b # ys) \<longleftrightarrow> chain s (xs @ [a]) \<and> tln_next s a = Some b \<and> tln_prev s b = Some a \<and> chain s (b # ys)"
  using chain_append [of s xs a "b # ys"] by simp

lemma chain_front:
  assumes "chain s (xs @ [a])" "a \<notin> set xs" "\<And>n. n \<in> set xs \<Longrightarrow> tln_next s' n = tln_next s n"
    "\<And>n. n \<in> set xs \<or> n = a \<Longrightarrow> tln_prev s' n = tln_prev s n"
  shows "chain s' (xs @ [a])"
proof (rule chain_cong [OF assms(1)])
  show "tln_next s' n = tln_next s n" if "n \<in> set (butlast (xs @ [a]))" for n using that assms(3) by simp
  show "tln_prev s' n = tln_prev s n" if "n \<in> set (tl (xs @ [a]))" for n
    using that assms(4) by (cases xs) auto
qed

lemma chain_back:
  assumes "chain s (b # ys)" "\<And>n. n \<in> set (b # ys) \<Longrightarrow> tln_next s' n = tln_next s n" "\<And>n. n \<in> set ys \<Longrightarrow> tln_prev s' n = tln_prev s n"
  shows "chain s' (b # ys)"
proof (rule chain_cong [OF assms(1)])
  show "tln_next s' n = tln_next s n" if "n \<in> set (butlast (b # ys))" for n using in_set_butlastD [OF that] by (rule assms(2))
  show "tln_prev s' n = tln_prev s n" if "n \<in> set (tl (b # ys))" for n using that assms(3) by simp
qed

lemma chain_link:
  assumes "chain s (xs @ a # b # ys)" "distinct (xs @ a # x # b # ys)"
  shows "chain (link s a x b) (xs @ a # x # b # ys)"
proof -
  have c: "chain s (xs @ [a])" "chain s (b # ys)" using assms(1) unfolding chain_cut by simp_all
  have "chain (link s a x b) (xs @ [a])" using assms(2) by (intro chain_front [OF c(1)]) (auto simp: link_def)
  moreover have "chain (link s a x b) (b # ys)" using assms(2) by (intro chain_back [OF c(2)]) (auto simp: link_def)
  ultimately show ?thesis using assms(2) unfolding chain_cut [of _ xs a x] by (auto simp: link_def)
qed

lemma chain_unlink:
  assumes "chain s (xs @ a # x # b # ys)" "distinct (xs @ a # x # b # ys)"
  shows "chain (unlink s a x b) (xs @ a # b # ys)"
proof -
  have c: "chain s (xs @ [a])" "chain s (b # ys)" using assms(1) unfolding chain_cut by simp_all
  have "chain (unlink s a x b) (xs @ [a])" using assms(2) by (intro chain_front [OF c(1)]) (auto simp: unlink_def)
  moreover have "chain (unlink s a x b) (b # ys)" using assms(2) by (intro chain_back [OF c(2)]) (auto simp: unlink_def)
  ultimately show ?thesis using assms(2) unfolding chain_cut [of _ xs a b] by (auto simp: unlink_def)
qed

lemma chain_middle:
  "chain s (xs @ a # b # ys) \<Longrightarrow> tln_next s a = Some b \<and> tln_prev s b = Some a"
  by (simp add: chain_cut)

section \<open>Neighbours\<close>

definition before :: "nat \<Rightarrow> nat list \<Rightarrow> node" where "before l us = last (Head l # map Thread us)"
definition behind :: "nat \<Rightarrow> nat list \<Rightarrow> node" where "behind l ws = hd (map Thread ws @ [Tail l])"

lemma nodes_split: "\<exists>xs ys. nodes l (us @ ws) = xs @ before l us # behind l ws # ys \<and>
    nodes l (us @ t # ws) = xs @ before l us # Thread t # behind l ws # ys"
proof -
  have "Head l # map Thread us = butlast (Head l # map Thread us) @ [before l us]" unfolding before_def by simp
  moreover have "map Thread ws @ [Tail l] = behind l ws # tl (map Thread ws @ [Tail l])" unfolding behind_def by (cases ws) auto
  ultimately have "nodes l (us @ ws) = butlast (Head l # map Thread us) @ before l us # behind l ws # tl (map Thread ws @ [Tail l]) \<and>
      nodes l (us @ t # ws) = butlast (Head l # map Thread us) @ before l us # Thread t # behind l ws # tl (map Thread ws @ [Tail l])"
    unfolding nodes_def by (metis append.assoc append_Cons append_Nil list.simps(9) map_append)
  then show ?thesis by blast
qed

lemma distinct_nodes: "distinct (nodes l ts) = distinct ts"
  by (auto simp: nodes_def distinct_map inj_on_def)

lemma set_nodes: "set (nodes l ts) = {Head l, Tail l} \<union> Thread ` set ts"
  by (auto simp: nodes_def)

lemma neighbours: "before l us \<in> {Head l} \<union> Thread ` set us" "behind l ws \<in> {Tail l} \<union> Thread ` set ws"
  by (auto simp: before_def behind_def hd_append hd_map last_map)

lemma rep_insert:
  assumes "tl_rep s l (us @ ws)" "t \<notin> set (us @ ws)" "tln_self s (Thread t) = Some t"
  shows "tln_next s (before l us) = Some (behind l ws) \<and> tln_prev s (behind l ws) = Some (before l us) \<and>
    tl_rep (count_up l (link s (before l us) (Thread t) (behind l ws))) l (us @ t # ws)"
proof -
  obtain xs ys where n: "nodes l (us @ ws) = xs @ before l us # behind l ws # ys"
      "nodes l (us @ t # ws) = xs @ before l us # Thread t # behind l ws # ys" using nodes_split by blast
  have c: "chain s (xs @ before l us # behind l ws # ys)" using assms(1) unfolding tl_rep_def n by simp
  have d: "distinct (xs @ before l us # Thread t # behind l ws # ys)"
    unfolding n(2) [symmetric] distinct_nodes using assms(1,2) by (auto simp: tl_rep_def)
  define s' where "s' = count_up l (link s (before l us) (Thread t) (behind l ws))"
  have "chain (link s (before l us) (Thread t) (behind l ws)) (nodes l (us @ t # ws))" unfolding n(2) by (rule chain_link [OF c d])
  then have "chain s' (nodes l (us @ t # ws))" by (rule chain_cong) (simp_all add: s'_def)
  moreover have "tln_prev s' (Head l) = None" "tln_next s' (Tail l) = None"
    using assms(1) neighbours [of l us] neighbours [of l ws] by (auto simp: s'_def link_def tl_rep_def)
  moreover have "tl_count s' l = length (us @ t # ws)" "\<forall>x \<in> set (us @ t # ws). tln_self s' (Thread x) = Some x"
    using assms(1,3) by (auto simp: s'_def link_def tl_rep_def)
  ultimately show ?thesis using assms(1,2) chain_middle [OF c] unfolding s'_def tl_rep_def by auto
qed

lemma rep_remove:
  assumes "tl_rep s l (us @ t # ws)"
  shows "tln_prev s (Thread t) = Some (before l us) \<and> tln_next s (Thread t) = Some (behind l ws) \<and>
    before l us \<noteq> Thread t \<and> behind l ws \<noteq> Thread t \<and>
    tl_rep (count_down l (unlink s (before l us) (Thread t) (behind l ws))) l (us @ ws) \<and>
    off_list (count_down l (unlink s (before l us) (Thread t) (behind l ws))) t"
proof -
  obtain xs ys where n: "nodes l (us @ ws) = xs @ before l us # behind l ws # ys"
      "nodes l (us @ t # ws) = xs @ before l us # Thread t # behind l ws # ys" using nodes_split by blast
  have c: "chain s (xs @ before l us # Thread t # behind l ws # ys)" using assms(1) unfolding tl_rep_def n by simp
  have d: "distinct (xs @ before l us # Thread t # behind l ws # ys)"
    unfolding n(2) [symmetric] distinct_nodes using assms by (auto simp: tl_rep_def)
  define s' where "s' = count_down l (unlink s (before l us) (Thread t) (behind l ws))"
  have "chain (unlink s (before l us) (Thread t) (behind l ws)) (nodes l (us @ ws))" unfolding n(1) by (rule chain_unlink [OF c d])
  then have "chain s' (nodes l (us @ ws))" by (rule chain_cong) (simp_all add: s'_def)
  moreover have "tln_prev s' (Head l) = None" "tln_next s' (Tail l) = None"
    using assms(1) neighbours [of l us] neighbours [of l ws] by (auto simp: s'_def unlink_def tl_rep_def)
  moreover have "tl_count s' l = length (us @ ws)" "\<forall>x \<in> set (us @ ws). tln_self s' (Thread x) = Some x" "off_list s' t"
    using assms(1) by (auto simp: s'_def unlink_def tl_rep_def off_list_def)
  moreover have "tln_prev s (Thread t) = Some (before l us)" "tln_next s (Thread t) = Some (behind l ws)"
    using c unfolding chain_cut by simp_all
  moreover have "before l us \<noteq> Thread t" "behind l ws \<noteq> Thread t" using d by auto
  ultimately show ?thesis using assms unfolding s'_def tl_rep_def by auto
qed

lemma rep_other:
  assumes "tl_rep s l' ts'" "l' \<noteq> l" "tl_count s' = (tl_count s)(l := k)" "tln_self s' = tln_self s"
    "\<And>n. n \<notin> N \<Longrightarrow> tln_next s' n = tln_next s n \<and> tln_prev s' n = tln_prev s n" "N \<inter> set (nodes l' ts') = {}"
  shows "tl_rep s' l' ts'"
proof -
  have e: "tln_next s' n = tln_next s n" "tln_prev s' n = tln_prev s n" if "n \<in> set (nodes l' ts')" for n
    using that assms(5) [of n] assms(6) by auto
  have "chain s (nodes l' ts')" using assms(1) by (simp add: tl_rep_def)
  then have "chain s' (nodes l' ts')"
  proof (rule chain_cong)
    show "tln_next s' n = tln_next s n" if "n \<in> set (butlast (nodes l' ts'))" for n using e(1) in_set_butlastD [OF that] by blast
    show "tln_prev s' n = tln_prev s n" if "n \<in> set (tl (nodes l' ts'))" for n
      by (rule e(2)) (use that in \<open>simp add: nodes_def\<close>)
  qed
  then show ?thesis using assms(1-4) e [of "Head l'"] e [of "Tail l'"] by (simp add: tl_rep_def set_nodes)
qed

section \<open>All lists together\<close>

text \<open>
  \<open>lists_rep s L\<close>: the store holds exactly the lists of \<open>L\<close>; no thread is on two of them, and
  the threads below \<open>nt\<close> that are on none are unlinked.
\<close>

definition lists_rep :: "nat \<Rightarrow> store \<Rightarrow> (nat \<Rightarrow> nat list) \<Rightarrow> bool" where
  "lists_rep nt s L \<longleftrightarrow> (\<forall>l. tl_rep s l (L l)) \<and> (\<forall>l l'. l \<noteq> l' \<longrightarrow> set (L l) \<inter> set (L l') = {}) \<and>
    (\<forall>t < nt. (\<forall>l. t \<notin> set (L l)) \<longrightarrow> off_list s t)"

lemma lists_update:
  assumes "lists_rep nt s L" "tl_rep s' l ts" "tl_count s' = (tl_count s)(l := k)" "tln_self s' = tln_self s"
    "\<And>n. n \<notin> N \<Longrightarrow> tln_next s' n = tln_next s n \<and> tln_prev s' n = tln_prev s n"
    "\<And>l'. l' \<noteq> l \<Longrightarrow> N \<inter> set (nodes l' (L l')) = {} \<and> set ts \<inter> set (L l') = {}"
    "\<And>t'. t' < nt \<Longrightarrow> (\<forall>l'. l' \<noteq> l \<longrightarrow> t' \<notin> set (L l')) \<Longrightarrow> t' \<notin> set ts \<Longrightarrow> off_list s' t'"
  shows "lists_rep nt s' (L(l := ts))"
proof -
  have "tl_rep s' l' (L l')" if "l' \<noteq> l" for l'
    by (rule rep_other [OF _ that assms(3,4,5)]) (use assms(1,6) that in \<open>auto simp: lists_rep_def\<close>)
  then have "\<forall>l'. tl_rep s' l' ((L(l := ts)) l')" using assms(2) by simp
  moreover have "\<forall>l1 l2. l1 \<noteq> l2 \<longrightarrow> set ((L(l := ts)) l1) \<inter> set ((L(l := ts)) l2) = {}"
  proof (intro allI impI)
    fix l1 l2 :: nat assume ne: "l1 \<noteq> l2"
    have "set (L l1) \<inter> set (L l2) = {}" using assms(1) ne by (simp add: lists_rep_def)
    moreover have "l1 \<noteq> l \<Longrightarrow> set ts \<inter> set (L l1) = {}" "l2 \<noteq> l \<Longrightarrow> set ts \<inter> set (L l2) = {}" using assms(6) by blast+
    ultimately show "set ((L(l := ts)) l1) \<inter> set ((L(l := ts)) l2) = {}" using ne by (auto simp: Int_commute)
  qed
  moreover have "off_list s' t'" if "t' < nt" "\<forall>l'. t' \<notin> set ((L(l := ts)) l')" for t'
  proof (rule assms(7) [OF that(1)])
    show "\<forall>l'. l' \<noteq> l \<longrightarrow> t' \<notin> set (L l')" using that(2) by (metis fun_upd_other)
    show "t' \<notin> set ts" using that(2) by (metis fun_upd_same)
  qed
  ultimately show ?thesis unfolding lists_rep_def by blast
qed

lemma other_nodes:
  assumes "lists_rep nt s L" "L l = ts" "l' \<noteq> l" "set us \<subseteq> set ts" "set ws \<subseteq> set ts"
  shows "before l us \<notin> set (nodes l' (L l'))" "behind l ws \<notin> set (nodes l' (L l'))"
proof -
  have "set ts \<inter> set (L l') = {}" using assms(1-3) unfolding lists_rep_def by blast
  then show "before l us \<notin> set (nodes l' (L l'))" "behind l ws \<notin> set (nodes l' (L l'))"
    using neighbours(1) [of l us] neighbours(2) [of l ws] assms(3-5) unfolding set_nodes by auto
qed

lemma lists_insert:
  assumes L: "lists_rep nt s L" "L l = us @ ws" and t: "t < nt" "\<forall>l. t \<notin> set (L l)"
  shows "tln_next s (before l us) = Some (behind l ws) \<and> tln_prev s (behind l ws) = Some (before l us) \<and>
    before l us \<noteq> Thread t \<and> behind l ws \<noteq> Thread t \<and>
    lists_rep nt (count_up l (link s (before l us) (Thread t) (behind l ws))) (L(l := us @ t # ws))"
proof -
  have r: "tl_rep s l (us @ ws)" using L by (metis lists_rep_def)
  have m: "t \<notin> set (us @ ws)" using t(2) L(2) by metis
  have self: "tln_self s (Thread t) = Some t" using L(1) t unfolding lists_rep_def off_list_def by blast
  note i = rep_insert [OF r m self]
  have ne: "before l us \<noteq> Thread t" "behind l ws \<noteq> Thread t" using m neighbours [of l us] neighbours [of l ws] by auto
  let ?N = "{before l us, Thread t, behind l ws}"
  have "lists_rep nt (count_up l (link s (before l us) (Thread t) (behind l ws))) (L(l := us @ t # ws))"
  proof (rule lists_update [OF L(1), where N = ?N and k = "tl_count s l + 1"])
    show "?N \<inter> set (nodes l' (L l')) = {} \<and> set (us @ t # ws) \<inter> set (L l') = {}" if "l' \<noteq> l" for l'
    proof -
      have "set (L l) \<inter> set (L l') = {}" using L(1) that unfolding lists_rep_def by blast
      then show ?thesis using other_nodes [OF L that, of us ws] t(2) by (simp add: set_nodes L(2) image_iff)
    qed
    show "off_list (count_up l (link s (before l us) (Thread t) (behind l ws))) t'"
      if h: "t' < nt" "\<forall>l'. l' \<noteq> l \<longrightarrow> t' \<notin> set (L l')" "t' \<notin> set (us @ t # ws)" for t'
    proof -
      have "\<forall>l'. t' \<notin> set (L l')" using h(2,3) L(2) by (metis Un_iff list.set_intros(2) set_append)
      then have "off_list s t'" using L(1) h(1) unfolding lists_rep_def by blast
      then show ?thesis using h(3) neighbours [of l us] neighbours [of l ws] by (auto simp: off_list_def link_def)
    qed
  qed (use i in \<open>simp_all add: link_def\<close>)
  then show ?thesis using i ne by blast
qed

lemma lists_remove:
  assumes L: "lists_rep nt s L" "L l = us @ t # ws"
  shows "tln_prev s (Thread t) = Some (before l us) \<and> tln_next s (Thread t) = Some (behind l ws) \<and>
    before l us \<noteq> Thread t \<and> behind l ws \<noteq> Thread t \<and>
    lists_rep nt (count_down l (unlink s (before l us) (Thread t) (behind l ws))) (L(l := us @ ws))"
proof -
  have r: "tl_rep s l (us @ t # ws)" using L by (metis lists_rep_def)
  note i = rep_remove [OF r]
  let ?N = "{before l us, Thread t, behind l ws}"
  have "lists_rep nt (count_down l (unlink s (before l us) (Thread t) (behind l ws))) (L(l := us @ ws))"
  proof (rule lists_update [OF L(1), where N = ?N and k = "tl_count s l - 1"])
    show "?N \<inter> set (nodes l' (L l')) = {} \<and> set (us @ ws) \<inter> set (L l') = {}" if "l' \<noteq> l" for l'
    proof -
      have "set (L l) \<inter> set (L l') = {}" using L(1) that unfolding lists_rep_def by blast
      moreover have "before l us \<notin> set (nodes l' (L l'))" "behind l ws \<notin> set (nodes l' (L l'))"
        by (rule other_nodes [OF L that]; auto)+
      ultimately show ?thesis by (simp add: set_nodes L(2) image_iff)
    qed
    show "off_list (count_down l (unlink s (before l us) (Thread t) (behind l ws))) t'"
      if h: "t' < nt" "\<forall>l'. l' \<noteq> l \<longrightarrow> t' \<notin> set (L l')" "t' \<notin> set (us @ ws)" for t'
    proof (cases "t' = t")
      case False
      then have "\<forall>l'. t' \<notin> set (L l')" using h(2,3) L(2) by (metis Un_iff set_ConsD set_append)
      then have "off_list s t'" using L(1) h(1) unfolding lists_rep_def by blast
      then show ?thesis using h(3) False neighbours [of l us] neighbours [of l ws] by (auto simp: off_list_def unlink_def)
    qed (use i in simp)
  qed (use i in \<open>simp_all add: unlink_def\<close>)
  then show ?thesis using i by blast
qed

section \<open>Operations on lists\<close>

lemmas ends = before_def behind_def

lemma list_heads:
  assumes "lists_rep nt s L"
  shows "tln_next s (Head l) = Some (behind l (L l))" "tln_prev s (Tail l) = Some (before l (L l))"
    "tln_prev s (Head l) = None" "tln_next s (Tail l) = None" "distinct (L l)"
    "x \<in> set (L l) \<Longrightarrow> tln_self s (Thread x) = Some x"
proof -
  have r: "tl_rep s l (L l)" using assms by (simp add: lists_rep_def)
  obtain xs ys where "nodes l ([] @ L l) = xs @ before l [] # behind l (L l) # ys" using nodes_split by blast
  then show "tln_next s (Head l) = Some (behind l (L l))" using r chain_middle [of s xs "before l []" "behind l (L l)" ys] by (simp add: tl_rep_def ends)
  obtain xs ys where "nodes l (L l @ []) = xs @ before l (L l) # behind l [] # ys" using nodes_split by blast
  then show "tln_prev s (Tail l) = Some (before l (L l))" using r chain_middle [of s xs "before l (L l)" "behind l []" ys] by (simp add: tl_rep_def ends)
  show "tln_prev s (Head l) = None" "tln_next s (Tail l) = None" "distinct (L l)" "x \<in> set (L l) \<Longrightarrow> tln_self s (Thread x) = Some x"
    using r by (auto simp: tl_rep_def)
qed

lemma addhead_lists:
  assumes "lists_rep nt s L" "t < nt" "\<forall>l. t \<notin> set (L l)"
  shows "\<exists>s'. threadlist_addhead s l t = Some s' \<and> lists_rep nt s' (L(l := t # L l))"
  using lists_insert [OF assms(1) _ assms(2,3), of l "[]" "L l"]
  by (simp add: threadlist_addhead_def ends insertafter_link)

lemma addtail_lists:
  assumes "lists_rep nt s L" "t < nt" "\<forall>l. t \<notin> set (L l)"
  shows "\<exists>s'. threadlist_addtail s l t = Some s' \<and> lists_rep nt s' (L(l := L l @ [t]))"
  using lists_insert [OF assms(1) _ assms(2,3), of l "L l" "[]"] insertbefore_link [of s "Tail l"]
  by (auto simp: threadlist_addtail_def behind_def)

lemma insertafter_lists:
  assumes "lists_rep nt s L" "t < nt" "\<forall>l. t \<notin> set (L l)" "L l = us @ x # ws"
  shows "\<exists>s'. threadlist_insertafter s l x t = Some s' \<and> lists_rep nt s' (L(l := us @ x # t # ws))"
  using lists_insert [OF assms(1) _ assms(2,3), of l "us @ [x]" ws] insertafter_link [of s "Thread x"]
  by (auto simp: threadlist_insertafter_def before_def assms(4))

lemma insertbefore_lists:
  assumes "lists_rep nt s L" "t < nt" "\<forall>l. t \<notin> set (L l)" "L l = us @ x # ws"
  shows "\<exists>s'. threadlist_insertbefore s l t x = Some s' \<and> lists_rep nt s' (L(l := us @ t # x # ws))"
  using lists_insert [OF assms(1) _ assms(2,3), of l us "x # ws"] insertbefore_link [of s "Thread x"]
  by (auto simp: threadlist_insertbefore_def behind_def assms(4))

lemma remove_lists:
  assumes "lists_rep nt s L" "L l = us @ t # ws"
  shows "\<exists>s'. threadlist_remove s l t = Some s' \<and> lists_rep nt s' (L(l := us @ ws))"
  using lists_remove [OF assms] removenode_unlink [of s "Thread t"]
  by (auto simp: threadlist_remove_def)

lemma remhead_lists:
  assumes "lists_rep nt s L"
  shows "\<exists>s'. threadlist_remhead s l = Some (case L l of [] \<Rightarrow> None | t # ws \<Rightarrow> Some t, s') \<and> lists_rep nt s' (L(l := tl (L l)))"
proof (cases "L l")
  case Nil
  then have "L(l := []) = L" by auto
  then show ?thesis using Nil list_heads [OF assms, where l = l] assms by (simp add: threadlist_remhead_def ends)
next
  case (Cons t ws)
  then have r: "\<exists>s'. threadlist_removenode s (Thread t) = Some s' \<and> tln_self s' = tln_self s \<and> lists_rep nt (count_down l s') (L(l := ws))"
    using lists_remove [OF assms, of l "[]" t ws] removenode_unlink [of s "Thread t"] by (auto simp: unlink_def)
  have "tln_next s (Thread t) \<noteq> None" using lists_remove [OF assms, of l "[]" t ws] Cons by simp
  then show ?thesis using r Cons list_heads [OF assms, where l = l] by (auto simp: threadlist_remhead_def behind_def)
qed

lemma remtail_lists:
  assumes "lists_rep nt s L"
  shows "\<exists>s'. threadlist_remtail s l = Some (if L l = [] then None else Some (last (L l)), s') \<and> lists_rep nt s' (L(l := butlast (L l)))"
proof (cases "L l" rule: rev_cases)
  case Nil
  then have "L(l := []) = L" by auto
  then show ?thesis using Nil list_heads [OF assms, where l = l] assms by (simp add: threadlist_remtail_def ends)
next
  case (snoc us t)
  then have r: "\<exists>s'. threadlist_removenode s (Thread t) = Some s' \<and> tln_self s' = tln_self s \<and> lists_rep nt (count_down l s') (L(l := us))"
    using lists_remove [OF assms, of l us t "[]"] removenode_unlink [of s "Thread t"] by (auto simp: unlink_def)
  have "tln_prev s (Thread t) \<noteq> None" using lists_remove [OF assms, of l us t "[]"] snoc by simp
  then show ?thesis using r snoc list_heads [OF assms, where l = l] by (auto simp: threadlist_remtail_def before_def)
qed

section \<open>Sequences of operations\<close>

datatype tl_op = Addhead nat nat | Addtail nat nat | Remhead nat | Remtail nat
  | Insertafter nat nat nat | Insertbefore nat nat nat | Remove nat nat

fun tl_exec :: "tl_op \<Rightarrow> store \<Rightarrow> (nat option \<times> store) option" where
  "tl_exec (Addhead l t) s = map_option (Pair None) (threadlist_addhead s l t)"
| "tl_exec (Addtail l t) s = map_option (Pair None) (threadlist_addtail s l t)"
| "tl_exec (Remhead l) s = threadlist_remhead s l"
| "tl_exec (Remtail l) s = threadlist_remtail s l"
| "tl_exec (Insertafter l x t) s = map_option (Pair None) (threadlist_insertafter s l x t)"
| "tl_exec (Insertbefore l t x) s = map_option (Pair None) (threadlist_insertbefore s l t x)"
| "tl_exec (Remove l t) s = map_option (Pair None) (threadlist_remove s l t)"

text \<open>The same operations on lists of threads.\<close>

fun ins_after :: "nat \<Rightarrow> nat \<Rightarrow> nat list \<Rightarrow> nat list" where
  "ins_after x t [] = []"
| "ins_after x t (y # ys) = (if y = x then y # t # ys else y # ins_after x t ys)"

fun ins_before :: "nat \<Rightarrow> nat \<Rightarrow> nat list \<Rightarrow> nat list" where
  "ins_before t x [] = []"
| "ins_before t x (y # ys) = (if y = x then t # y # ys else y # ins_before t x ys)"

fun tl_spec :: "tl_op \<Rightarrow> (nat \<Rightarrow> nat list) \<Rightarrow> nat option \<times> (nat \<Rightarrow> nat list)" where
  "tl_spec (Addhead l t) L = (None, L(l := t # L l))"
| "tl_spec (Addtail l t) L = (None, L(l := L l @ [t]))"
| "tl_spec (Remhead l) L = (case L l of [] \<Rightarrow> None | t # ws \<Rightarrow> Some t, L(l := tl (L l)))"
| "tl_spec (Remtail l) L = (if L l = [] then None else Some (last (L l)), L(l := butlast (L l)))"
| "tl_spec (Insertafter l x t) L = (None, L(l := ins_after x t (L l)))"
| "tl_spec (Insertbefore l t x) L = (None, L(l := ins_before t x (L l)))"
| "tl_spec (Remove l t) L = (None, L(l := remove1 t (L l)))"

definition free_thread :: "nat \<Rightarrow> nat \<Rightarrow> (nat \<Rightarrow> nat list) \<Rightarrow> bool" where
  "free_thread nt t L \<longleftrightarrow> t < nt \<and> (\<forall>l. t \<notin> set (L l))"

fun tl_legal :: "nat \<Rightarrow> tl_op \<Rightarrow> (nat \<Rightarrow> nat list) \<Rightarrow> bool" where
  "tl_legal nt (Addhead l t) L = free_thread nt t L"
| "tl_legal nt (Addtail l t) L = free_thread nt t L"
| "tl_legal nt (Insertafter l x t) L = (free_thread nt t L \<and> x \<in> set (L l))"
| "tl_legal nt (Insertbefore l t x) L = (free_thread nt t L \<and> x \<in> set (L l))"
| "tl_legal nt (Remove l t) L = (t \<in> set (L l))"
| "tl_legal nt _ L = True"

fun tl_execs :: "tl_op list \<Rightarrow> store \<Rightarrow> (nat option list \<times> store) option" where
  "tl_execs [] s = Some ([], s)"
| "tl_execs (p # ps) s = do { (r, s) \<leftarrow> tl_exec p s; (rs, s) \<leftarrow> tl_execs ps s; Some (r # rs, s) }"

fun tl_specs :: "tl_op list \<Rightarrow> (nat \<Rightarrow> nat list) \<Rightarrow> nat option list \<times> (nat \<Rightarrow> nat list)" where
  "tl_specs [] L = ([], L)"
| "tl_specs (p # ps) L = (fst (tl_spec p L) # fst (tl_specs ps (snd (tl_spec p L))), snd (tl_specs ps (snd (tl_spec p L))))"

fun tl_legals :: "nat \<Rightarrow> tl_op list \<Rightarrow> (nat \<Rightarrow> nat list) \<Rightarrow> bool" where
  "tl_legals nt [] L = True"
| "tl_legals nt (p # ps) L = (tl_legal nt p L \<and> tl_legals nt ps (snd (tl_spec p L)))"

lemma ins_split: "x \<notin> set us \<Longrightarrow> ins_after x t (us @ x # ws) = us @ x # t # ws \<and> ins_before t x (us @ x # ws) = us @ t # x # ws"
  by (induction us) auto

lemma tl_exec_spec:
  assumes "lists_rep nt s L" "tl_legal nt p L"
  shows "\<exists>s'. tl_exec p s = Some (fst (tl_spec p L), s') \<and> lists_rep nt s' (snd (tl_spec p L))"
proof (cases p)
  case (Addhead l t)
  then show ?thesis using addhead_lists [OF assms(1), of t l] assms(2) by (auto simp: free_thread_def)
next
  case (Addtail l t)
  then show ?thesis using addtail_lists [OF assms(1), of t l] assms(2) by (auto simp: free_thread_def)
next
  case (Remhead l)
  then show ?thesis using remhead_lists [OF assms(1), of l] by simp
next
  case (Remtail l)
  then show ?thesis using remtail_lists [OF assms(1), of l] by simp
next
  case (Insertafter l x t)
  then obtain us ws where "L l = us @ x # ws" "x \<notin> set us" using assms(2) by (auto dest: split_list_first)
  then show ?thesis using Insertafter insertafter_lists [OF assms(1), of t l us x ws] assms(2) by (auto simp: free_thread_def ins_split)
next
  case (Insertbefore l t x)
  then obtain us ws where "L l = us @ x # ws" "x \<notin> set us" using assms(2) by (auto dest: split_list_first)
  then show ?thesis using Insertbefore insertbefore_lists [OF assms(1), of t l us x ws] assms(2) by (auto simp: free_thread_def ins_split)
next
  case (Remove l t)
  then obtain us ws where "L l = us @ t # ws" "t \<notin> set us" using assms(2) by (auto dest: split_list_first)
  then show ?thesis using Remove remove_lists [OF assms(1), of l us t ws] by (auto simp: remove1_append)
qed

text \<open>C29.
  Thread lists behave as lists of threads.  From a store that holds some lists, every sequence
  of operations in which a thread is added only while it is on no list, and removed or used
  as a position only on its own list, runs without following a NULL link, returns at each step
  what the operation on lists returns, and leaves a store that holds the lists so obtained:
  the links in both directions, the bookends, the counts, and the unlinked nodes of
  the threads on no list.
\<close>

theorem threadlist_refines_lists:
  "lists_rep nt s L \<Longrightarrow> tl_legals nt ps L \<Longrightarrow>
    \<exists>s'. tl_execs ps s = Some (fst (tl_specs ps L), s') \<and> lists_rep nt s' (snd (tl_specs ps L))"
proof (induction ps arbitrary: s L)
  case (Cons p ps)
  obtain s1 where 1: "tl_exec p s = Some (fst (tl_spec p L), s1)" "lists_rep nt s1 (snd (tl_spec p L))"
    using tl_exec_spec [OF Cons.prems(1)] Cons.prems(2) by auto
  obtain s2 where 2: "tl_execs ps s1 = Some (fst (tl_specs ps (snd (tl_spec p L))), s2)" "lists_rep nt s2 (snd (tl_specs ps (snd (tl_spec p L))))"
    using Cons.IH [OF 1(2)] Cons.prems(2) by auto
  show ?case using 1(1) 2 by simp
qed simp

text \<open>All lists and threads just initialised.\<close>

definition fresh_store :: store where
  "fresh_store = \<lparr>tln_prev = (\<lambda>n. case n of Tail l \<Rightarrow> Some (Head l) | _ \<Rightarrow> None),
    tln_next = (\<lambda>n. case n of Head l \<Rightarrow> Some (Tail l) | _ \<Rightarrow> None),
    tln_self = (\<lambda>n. case n of Thread t \<Rightarrow> Some t | _ \<Rightarrow> None), tl_count = (\<lambda>_. 0)\<rparr>"

lemma fresh_lists: "lists_rep nt fresh_store (\<lambda>_. [])"
  by (auto simp: lists_rep_def tl_rep_def off_list_def nodes_def fresh_store_def)

text \<open>Initialising a list makes it empty; initialising a node puts the thread on no list.\<close>

lemma init_rep: "tl_rep (threadlist_init s l) l [] \<and> off_list (threadlistnode_init s t) t"
  by (simp add: tl_rep_def threadlist_init_def nodes_def off_list_def threadlistnode_init_def)

text \<open>A list may be cleaned up just when it is empty.\<close>

lemma cleanup_rep: "tl_rep s l ts \<Longrightarrow> threadlist_cleanup s l = (if ts = [] then Some () else None)"
  by (simp add: threadlist_cleanup_def threadlist_isempty_def tl_rep_def KASSERT_def)

theorem threadlist_refines_lists_witness:
  "\<exists>s'. tl_execs [Addtail 0 1, Addhead 0 2, Insertafter 0 2 3, Remhead 0, Addtail 1 2, Remtail 0] fresh_store
      = Some ([None, None, None, Some 2, None, Some 1], s') \<and> lists_rep 4 s' ((\<lambda>_. [])(1 := [2], 0 := [3]))"
  using threadlist_refines_lists [OF fresh_lists, of 4 "[Addtail 0 1, Addhead 0 2, Insertafter 0 2 3, Remhead 0, Addtail 1 2, Remtail 0]"]
  by (simp add: free_thread_def fun_upd_def cong: if_cong del: tl_execs.simps)

end
