(* ===== verification/Synch.thy ===== *)
theory Synch
  imports Prelude
begin

text \<open>
  Spinlocks, wait channels, semaphores, locks and condition variables: kern/thread/spinlock.c,
  the wait channels of kern/thread/thread.c, and kern/thread/synch.c.  Threads run at the same
  time, so the model is a step function: one step of a thread runs it up to its next access
  to state that others share.  Every thread has a stack of frames, one for each function it
  is in, with the place it has reached; a call pushes a frame.  Statements that run under the
  spinlock that protects what they touch are one step.  A step may be impossible for now
  (the spinlock is taken, or the thread sleeps), or it may stop the machine.

  A processor runs with interrupts off while it holds a spinlock, so the holder of a
  spinlock is given by the thread that runs there.  A thread that is awake may take a step at any time: which
  processor it runs on is left open, and so is the run queue it waits in.  The processor
  structure exists, as it does once the machine has booted; functions are called by threads, not
  by interrupt handlers.
\<close>

section \<open>Spinlocks\<close>

datatype 'a outcome = Go 'a | Wait | Panic

fun obind :: "'a outcome \<Rightarrow> ('a \<Rightarrow> 'b outcome) \<Rightarrow> 'b outcome" where
  "obind (Go x) f = f x"
| "obind Wait f = Wait"
| "obind Panic f = Panic"

record spinlock =
  lk_lock :: bool
  lk_holder :: "nat option"

definition spinlock_init :: spinlock where
  "spinlock_init = \<lparr>lk_lock = False, lk_holder = None\<rparr>"

definition spinlock_cleanup :: "spinlock \<Rightarrow> unit option" where
  "spinlock_cleanup lk = do { KASSERT (lk_holder lk = None); KASSERT (\<not> lk_lock lk) }"

definition spinlock_acquire :: "nat \<Rightarrow> spinlock \<Rightarrow> spinlock outcome" where
  "spinlock_acquire me lk =
    (if lk_holder lk = Some me then Panic
     else if lk_lock lk then Wait
     else Go \<lparr>lk_lock = True, lk_holder = Some me\<rparr>)"

definition spinlock_release :: "nat \<Rightarrow> spinlock \<Rightarrow> spinlock outcome" where
  "spinlock_release me lk =
    (if lk_holder lk \<noteq> Some me then Panic
     else Go \<lparr>lk_lock = False, lk_holder = None\<rparr>)"

definition spinlock_do_i_hold :: "nat \<Rightarrow> spinlock \<Rightarrow> bool" where
  "spinlock_do_i_hold me lk = (lk_holder lk = Some me)"

section \<open>State\<close>

text \<open>
  What can be waited for: a semaphore or a lock.  Either has a spinlock and a wait channel of
  its own; a condition variable has a wait channel; a wait channel has a spinlock.
\<close>

datatype res = Sem nat | Lock nat
datatype wchan = Of res | Cv nat
datatype slock = Inner res | Wc wchan

text \<open>Places in the functions, before the statement of the name.\<close>

datatype enter_pc = E_acquire | E_test | E_wlock | E_unlock | E_sleep | E_retry | E_release
datatype exit_pc = X_acquire | X_inc | X_release
datatype wakeone_pc = W_acquire | W_remhead | W_release "nat option" | W_runnable "nat option"
datatype wakeall_pc = A_acquire | A_move "nat list" | A_runnable "nat list"
datatype wait_pc = C_lock | C_sleep | C_acquire | C_done
datatype signal_pc = S_check | S_done

text \<open>
  \<open>Enter\<close> is a call of P or lock_acquire, \<open>Exit\<close> one of V or lock_release, the others are
  named as the functions.
\<close>

datatype frame = Enter res enter_pc | Exit res exit_pc
  | Wakeone wchan wakeone_pc | Wakeall wchan wakeall_pc
  | Cv_wait nat nat wait_pc | Cv_signal nat nat signal_pc | Cv_broadcast nat nat signal_pc

text \<open>
  \<open>owned\<close> is what the threads know: the locks they have acquired, by a call that has returned,
  and have not called to release.
\<close>

record sys =
  spin :: "slock \<Rightarrow> spinlock"
  wc_threads :: "wchan \<Rightarrow> nat list"
  sem_count :: "nat \<Rightarrow> 32 word"
  lk_val :: "nat \<Rightarrow> 32 word"
  holder :: "nat \<Rightarrow> nat option"
  asleep :: "nat \<Rightarrow> bool"
  stack :: "nat \<Rightarrow> frame list"
  owned :: "nat \<Rightarrow> nat set"

definition goto :: "nat \<Rightarrow> frame list \<Rightarrow> sys \<Rightarrow> sys" where
  "goto t fs s = s\<lparr>stack := (stack s)(t := fs)\<rparr>"

definition acquire :: "nat \<Rightarrow> slock \<Rightarrow> sys \<Rightarrow> sys outcome" where
  "acquire t x s = obind (spinlock_acquire t (spin s x)) (\<lambda>lk. Go (s\<lparr>spin := (spin s)(x := lk)\<rparr>))"

definition release :: "nat \<Rightarrow> slock \<Rightarrow> sys \<Rightarrow> sys outcome" where
  "release t x s = obind (spinlock_release t (spin s x)) (\<lambda>lk. Go (s\<lparr>spin := (spin s)(x := lk)\<rparr>))"

fun gains :: "frame \<Rightarrow> nat set" where
  "gains (Enter (Lock l) _) = {l}"
| "gains (Cv_wait c l _) = {l}"
| "gains _ = {}"

fun loses :: "frame \<Rightarrow> nat set" where
  "loses (Exit (Lock l) _) = {l}"
| "loses (Cv_wait c l _) = {l}"
| "loses _ = {}"

text \<open>Return from the function of the frame \<open>f\<close> to its caller.\<close>

definition ret :: "nat \<Rightarrow> frame \<Rightarrow> frame list \<Rightarrow> sys \<Rightarrow> sys" where
  "ret t f fs s = (goto t fs s)\<lparr>owned := (if fs = [] then (owned s)(t := owned s t \<union> gains f) else owned s)\<rparr>"

section \<open>Wait channels\<close>

definition wchan_lock :: "nat \<Rightarrow> wchan \<Rightarrow> sys \<Rightarrow> sys outcome" where
  "wchan_lock t w s = acquire t (Wc w) s"

definition wchan_unlock :: "nat \<Rightarrow> wchan \<Rightarrow> sys \<Rightarrow> sys outcome" where
  "wchan_unlock t w s = release t (Wc w) s"

definition wchan_sleep :: "nat \<Rightarrow> wchan \<Rightarrow> sys \<Rightarrow> sys outcome" where
  "wchan_sleep t w s = obind (wchan_unlock t w (s\<lparr>wc_threads := (wc_threads s)(w := wc_threads s w @ [t])\<rparr>))
    (\<lambda>s. Go (s\<lparr>asleep := (asleep s)(t := True)\<rparr>))"

definition thread_make_runnable :: "nat \<Rightarrow> sys \<Rightarrow> sys" where
  "thread_make_runnable target s = s\<lparr>asleep := (asleep s)(target := False)\<rparr>"

definition wchan_remhead :: "wchan \<Rightarrow> sys \<Rightarrow> nat option \<times> sys" where
  "wchan_remhead w s = (case wc_threads s w of [] \<Rightarrow> (None, s)
    | u # us \<Rightarrow> (Some u, s\<lparr>wc_threads := (wc_threads s)(w := us)\<rparr>))"

fun wchan_wakeone :: "nat \<Rightarrow> wchan \<Rightarrow> wakeone_pc \<Rightarrow> frame list \<Rightarrow> sys \<Rightarrow> sys outcome" where
  "wchan_wakeone t w W_acquire fs s = obind (acquire t (Wc w) s) (\<lambda>s. Go (goto t (Wakeone w W_remhead # fs) s))"
| "wchan_wakeone t w W_remhead fs s = (case wchan_remhead w s of (target, s) \<Rightarrow>
    Go (goto t (Wakeone w (W_release target) # fs) s))"
| "wchan_wakeone t w (W_release target) fs s = obind (release t (Wc w) s) (\<lambda>s.
    Go (goto t (Wakeone w (W_runnable target) # fs) s))"
| "wchan_wakeone t w (W_runnable target) fs s = (case target of
    None \<Rightarrow> Go (ret t (Wakeone w (W_runnable target)) fs s)
  | Some u \<Rightarrow> Go (ret t (Wakeone w (W_runnable target)) fs (thread_make_runnable u s)))"

fun wchan_wakeall :: "nat \<Rightarrow> wchan \<Rightarrow> wakeall_pc \<Rightarrow> frame list \<Rightarrow> sys \<Rightarrow> sys outcome" where
  "wchan_wakeall t w A_acquire fs s = obind (acquire t (Wc w) s) (\<lambda>s. Go (goto t (Wakeall w (A_move []) # fs) s))"
| "wchan_wakeall t w (A_move list) fs s = (case wchan_remhead w s of
    (Some u, s) \<Rightarrow> Go (goto t (Wakeall w (A_move (list @ [u])) # fs) s)
  | (None, s) \<Rightarrow> obind (release t (Wc w) s) (\<lambda>s. Go (goto t (Wakeall w (A_runnable list) # fs) s)))"
| "wchan_wakeall t w (A_runnable list) fs s = (case list of
    [] \<Rightarrow> Go (ret t (Wakeall w (A_runnable list)) fs s)
  | u # list' \<Rightarrow> Go (goto t (Wakeall w (A_runnable list') # fs) (thread_make_runnable u s)))"

section \<open>Semaphores\<close>

fun P :: "nat \<Rightarrow> nat \<Rightarrow> enter_pc \<Rightarrow> frame list \<Rightarrow> sys \<Rightarrow> sys outcome" where
  "P t n E_acquire fs s = obind (acquire t (Inner (Sem n)) s) (\<lambda>s. Go (goto t (Enter (Sem n) E_test # fs) s))"
| "P t n E_test fs s =
    (if sem_count s n = 0 then Go (goto t (Enter (Sem n) E_wlock # fs) s)
     else if \<not> 0 <s sem_count s n then Panic
     else Go (goto t (Enter (Sem n) E_release # fs) (s\<lparr>sem_count := (sem_count s)(n := sem_count s n - 1)\<rparr>)))"
| "P t n E_wlock fs s = obind (wchan_lock t (Of (Sem n)) s) (\<lambda>s. Go (goto t (Enter (Sem n) E_unlock # fs) s))"
| "P t n E_unlock fs s = obind (release t (Inner (Sem n)) s) (\<lambda>s. Go (goto t (Enter (Sem n) E_sleep # fs) s))"
| "P t n E_sleep fs s = obind (wchan_sleep t (Of (Sem n)) s) (\<lambda>s. Go (goto t (Enter (Sem n) E_retry # fs) s))"
| "P t n E_retry fs s = obind (acquire t (Inner (Sem n)) s) (\<lambda>s. Go (goto t (Enter (Sem n) E_test # fs) s))"
| "P t n E_release fs s = obind (release t (Inner (Sem n)) s) (\<lambda>s. Go (ret t (Enter (Sem n) E_release) fs s))"

fun V :: "nat \<Rightarrow> nat \<Rightarrow> exit_pc \<Rightarrow> frame list \<Rightarrow> sys \<Rightarrow> sys outcome" where
  "V t n X_acquire fs s = obind (acquire t (Inner (Sem n)) s) (\<lambda>s. Go (goto t (Exit (Sem n) X_inc # fs) s))"
| "V t n X_inc fs s =
    (if \<not> 0 <s sem_count s n + 1 then Panic
     else Go (goto t (Wakeone (Of (Sem n)) W_acquire # Exit (Sem n) X_release # fs)
       (s\<lparr>sem_count := (sem_count s)(n := sem_count s n + 1)\<rparr>)))"
| "V t n X_release fs s = obind (release t (Inner (Sem n)) s) (\<lambda>s. Go (ret t (Exit (Sem n) X_release) fs s))"

section \<open>Locks\<close>

fun lock_acquire :: "nat \<Rightarrow> nat \<Rightarrow> enter_pc \<Rightarrow> frame list \<Rightarrow> sys \<Rightarrow> sys outcome" where
  "lock_acquire t l E_acquire fs s =
    (if holder s l = Some t then Panic
     else obind (acquire t (Inner (Lock l)) s) (\<lambda>s. Go (goto t (Enter (Lock l) E_test # fs) s)))"
| "lock_acquire t l E_test fs s =
    (if lk_val s l = 0 then Go (goto t (Enter (Lock l) E_wlock # fs) s)
     else if \<not> 0 <s lk_val s l then Panic
     else Go (goto t (Enter (Lock l) E_release # fs)
       (s\<lparr>lk_val := (lk_val s)(l := 0), holder := (holder s)(l := Some t)\<rparr>)))"
| "lock_acquire t l E_wlock fs s = obind (wchan_lock t (Of (Lock l)) s) (\<lambda>s. Go (goto t (Enter (Lock l) E_unlock # fs) s))"
| "lock_acquire t l E_unlock fs s = obind (release t (Inner (Lock l)) s) (\<lambda>s. Go (goto t (Enter (Lock l) E_sleep # fs) s))"
| "lock_acquire t l E_sleep fs s = obind (wchan_sleep t (Of (Lock l)) s) (\<lambda>s. Go (goto t (Enter (Lock l) E_retry # fs) s))"
| "lock_acquire t l E_retry fs s = obind (acquire t (Inner (Lock l)) s) (\<lambda>s. Go (goto t (Enter (Lock l) E_test # fs) s))"
| "lock_acquire t l E_release fs s = obind (release t (Inner (Lock l)) s) (\<lambda>s. Go (ret t (Enter (Lock l) E_release) fs s))"

fun lock_release :: "nat \<Rightarrow> nat \<Rightarrow> exit_pc \<Rightarrow> frame list \<Rightarrow> sys \<Rightarrow> sys outcome" where
  "lock_release t l X_acquire fs s = obind (acquire t (Inner (Lock l)) s) (\<lambda>s. Go (goto t (Exit (Lock l) X_inc # fs) s))"
| "lock_release t l X_inc fs s =
    (if holder s l \<noteq> Some t then Panic
     else if \<not> 0 <s lk_val s l + 1 then Panic
     else Go (goto t (Wakeone (Of (Lock l)) W_acquire # Exit (Lock l) X_release # fs)
       (s\<lparr>lk_val := (lk_val s)(l := lk_val s l + 1), holder := (holder s)(l := None)\<rparr>)))"
| "lock_release t l X_release fs s = obind (release t (Inner (Lock l)) s) (\<lambda>s. Go (ret t (Exit (Lock l) X_release) fs s))"

definition lock_do_i_hold :: "nat \<Rightarrow> nat \<Rightarrow> sys \<Rightarrow> bool" where
  "lock_do_i_hold t l s = (holder s l = Some t)"

section \<open>Condition variables\<close>

fun cv_wait :: "nat \<Rightarrow> nat \<Rightarrow> nat \<Rightarrow> wait_pc \<Rightarrow> frame list \<Rightarrow> sys \<Rightarrow> sys outcome" where
  "cv_wait t c l C_lock fs s = obind (wchan_lock t (Cv c) s) (\<lambda>s.
    Go (goto t (Exit (Lock l) X_acquire # Cv_wait c l C_sleep # fs) s))"
| "cv_wait t c l C_sleep fs s = obind (wchan_sleep t (Cv c) s) (\<lambda>s. Go (goto t (Cv_wait c l C_acquire # fs) s))"
| "cv_wait t c l C_acquire fs s = Go (goto t (Enter (Lock l) E_acquire # Cv_wait c l C_done # fs) s)"
| "cv_wait t c l C_done fs s = Go (ret t (Cv_wait c l C_done) fs s)"

fun cv_signal :: "nat \<Rightarrow> nat \<Rightarrow> nat \<Rightarrow> signal_pc \<Rightarrow> frame list \<Rightarrow> sys \<Rightarrow> sys outcome" where
  "cv_signal t c l S_check fs s =
    (if \<not> lock_do_i_hold t l s then Panic
     else Go (goto t (Wakeone (Cv c) W_acquire # Cv_signal c l S_done # fs) s))"
| "cv_signal t c l S_done fs s = Go (ret t (Cv_signal c l S_done) fs s)"

fun cv_broadcast :: "nat \<Rightarrow> nat \<Rightarrow> nat \<Rightarrow> signal_pc \<Rightarrow> frame list \<Rightarrow> sys \<Rightarrow> sys outcome" where
  "cv_broadcast t c l S_check fs s =
    (if \<not> lock_do_i_hold t l s then Panic
     else Go (goto t (Wakeall (Cv c) A_acquire # Cv_broadcast c l S_done # fs) s))"
| "cv_broadcast t c l S_done fs s = Go (ret t (Cv_broadcast c l S_done) fs s)"

section \<open>Creation and destruction\<close>

text \<open>The outcomes of kmalloc, kstrdup and of kmalloc in wchan_create are arguments.\<close>

definition wchan_create :: "bool \<Rightarrow> wchan \<Rightarrow> sys \<Rightarrow> bool \<times> sys" where
  "wchan_create ok w s = (if \<not> ok then (False, s)
    else (True, s\<lparr>spin := (spin s)(Wc w := spinlock_init), wc_threads := (wc_threads s)(w := [])\<rparr>))"

definition wchan_destroy :: "wchan \<Rightarrow> sys \<Rightarrow> unit option" where
  "wchan_destroy w s = do { spinlock_cleanup (spin s (Wc w)); KASSERT (wc_threads s w = []) }"

definition wchan_isempty :: "nat \<Rightarrow> wchan \<Rightarrow> sys \<Rightarrow> bool outcome" where
  "wchan_isempty t w s = obind (acquire t (Wc w) s) (\<lambda>s.
    let r = (wc_threads s w = []) in obind (release t (Wc w) s) (\<lambda>s. Go r))"

definition sem_create :: "bool \<Rightarrow> bool \<Rightarrow> bool \<Rightarrow> nat \<Rightarrow> 32 word \<Rightarrow> sys \<Rightarrow> (bool \<times> sys) option" where
  "sem_create mem name wc n initial_count s = do {
    KASSERT (0 \<le>s initial_count);
    if \<not> mem then Some (False, s)
    else if \<not> name then Some (False, s)
    else case wchan_create wc (Of (Sem n)) s of
      (False, s) \<Rightarrow> Some (False, s)
    | (True, s) \<Rightarrow> Some (True, s\<lparr>spin := (spin s)(Inner (Sem n) := spinlock_init),
        sem_count := (sem_count s)(n := initial_count)\<rparr>) }"

definition sem_destroy :: "nat \<Rightarrow> sys \<Rightarrow> unit option" where
  "sem_destroy n s = do { spinlock_cleanup (spin s (Inner (Sem n))); wchan_destroy (Of (Sem n)) s }"

definition lock_create :: "bool \<Rightarrow> bool \<Rightarrow> bool \<Rightarrow> nat \<Rightarrow> sys \<Rightarrow> bool \<times> sys" where
  "lock_create mem name wc l s =
    (if \<not> mem then (False, s)
     else if \<not> name then (False, s)
     else case wchan_create wc (Of (Lock l)) s of
      (False, s) \<Rightarrow> (False, s)
    | (True, s) \<Rightarrow> (True, s\<lparr>spin := (spin s)(Inner (Lock l) := spinlock_init),
        lk_val := (lk_val s)(l := 1), holder := (holder s)(l := None)\<rparr>))"

definition lock_destroy :: "nat \<Rightarrow> sys \<Rightarrow> unit option" where
  "lock_destroy l s = do {
    KASSERT (holder s l = None);
    spinlock_cleanup (spin s (Inner (Lock l)));
    wchan_destroy (Of (Lock l)) s }"

definition cv_create :: "bool \<Rightarrow> bool \<Rightarrow> bool \<Rightarrow> nat \<Rightarrow> sys \<Rightarrow> bool \<times> sys" where
  "cv_create mem name wc c s =
    (if \<not> mem then (False, s) else if \<not> name then (False, s) else wchan_create wc (Cv c) s)"

definition cv_destroy :: "nat \<Rightarrow> sys \<Rightarrow> unit option" where
  "cv_destroy c s = wchan_destroy (Cv c) s"

section \<open>Steps and runs\<close>

definition step :: "nat \<Rightarrow> sys \<Rightarrow> sys outcome" where
  "step t s = (if asleep s t then Wait else case stack s t of
      [] \<Rightarrow> Wait
    | Enter (Sem n) p # fs \<Rightarrow> P t n p fs s
    | Enter (Lock l) p # fs \<Rightarrow> lock_acquire t l p fs s
    | Exit (Sem n) p # fs \<Rightarrow> V t n p fs s
    | Exit (Lock l) p # fs \<Rightarrow> lock_release t l p fs s
    | Wakeone w p # fs \<Rightarrow> wchan_wakeone t w p fs s
    | Wakeall w p # fs \<Rightarrow> wchan_wakeall t w p fs s
    | Cv_wait c l p # fs \<Rightarrow> cv_wait t c l p fs s
    | Cv_signal c l p # fs \<Rightarrow> cv_signal t c l p fs s
    | Cv_broadcast c l p # fs \<Rightarrow> cv_broadcast t c l p fs s)"

text \<open>
  The discipline of the callers: a thread acquires a lock only when it does not own it, and
  releases it, waits or signals with it only when it does.
\<close>

fun may_call :: "frame \<Rightarrow> nat set \<Rightarrow> bool" where
  "may_call (Enter (Sem n) E_acquire) L = True"
| "may_call (Exit (Sem n) X_acquire) L = True"
| "may_call (Enter (Lock l) E_acquire) L = (l \<notin> L)"
| "may_call (Exit (Lock l) X_acquire) L = (l \<in> L)"
| "may_call (Cv_wait c l C_lock) L = (l \<in> L)"
| "may_call (Cv_signal c l S_check) L = (l \<in> L)"
| "may_call (Cv_broadcast c l S_check) L = (l \<in> L)"
| "may_call _ L = False"

definition call :: "nat \<Rightarrow> frame \<Rightarrow> sys \<Rightarrow> sys" where
  "call t f s = (goto t [f] s)\<lparr>owned := (owned s)(t := owned s t - loses f)\<rparr>"

definition sys_init :: "(nat \<Rightarrow> 32 word) \<Rightarrow> sys" where
  "sys_init counts = \<lparr>spin = (\<lambda>_. spinlock_init), wc_threads = (\<lambda>_. []), sem_count = counts,
    lk_val = (\<lambda>_. 1), holder = (\<lambda>_. None), asleep = (\<lambda>_. False), stack = (\<lambda>_. []), owned = (\<lambda>_. {})\<rparr>"

inductive reach :: "nat \<Rightarrow> (nat \<Rightarrow> 32 word) \<Rightarrow> sys \<Rightarrow> bool" for n counts where
  reach_init: "reach n counts (sys_init counts)"
| reach_call: "reach n counts s \<Longrightarrow> t < n \<Longrightarrow> stack s t = [] \<Longrightarrow> may_call f (owned s t) \<Longrightarrow> reach n counts (call t f s)"
| reach_step: "reach n counts s \<Longrightarrow> t < n \<Longrightarrow> step t s = Go s' \<Longrightarrow> reach n counts s'"

section \<open>The effects of a step\<close>

text \<open>
  Most steps take a spinlock, give one up, or go to sleep; the following say which spinlock, and
  the frames that replace the top one.
\<close>

fun acq :: "frame \<Rightarrow> (slock \<times> frame list) option" where
  "acq (Enter r E_acquire) = Some (Inner r, [Enter r E_test])"
| "acq (Enter r E_retry) = Some (Inner r, [Enter r E_test])"
| "acq (Enter r E_wlock) = Some (Wc (Of r), [Enter r E_unlock])"
| "acq (Exit r X_acquire) = Some (Inner r, [Exit r X_inc])"
| "acq (Wakeone w W_acquire) = Some (Wc w, [Wakeone w W_remhead])"
| "acq (Wakeall w A_acquire) = Some (Wc w, [Wakeall w (A_move [])])"
| "acq (Cv_wait c l C_lock) = Some (Wc (Cv c), [Exit (Lock l) X_acquire, Cv_wait c l C_sleep])"
| "acq _ = None"

fun rel :: "frame \<Rightarrow> (slock \<times> frame list) option" where
  "rel (Enter r E_unlock) = Some (Inner r, [Enter r E_sleep])"
| "rel (Wakeone w (W_release u)) = Some (Wc w, [Wakeone w (W_runnable u)])"
| "rel (Wakeall w (A_move us)) = Some (Wc w, [Wakeall w (A_runnable us)])"
| "rel (Enter r E_release) = Some (Inner r, [])"
| "rel (Exit r X_release) = Some (Inner r, [])"
| "rel _ = None"

fun slp :: "frame \<Rightarrow> (wchan \<times> frame) option" where
  "slp (Enter r E_sleep) = Some (Of r, Enter r E_retry)"
| "slp (Cv_wait c l C_sleep) = Some (Cv c, Cv_wait c l C_acquire)"
| "slp _ = None"

text \<open>Steps that only move, and those that return.\<close>

fun move :: "nat \<Rightarrow> sys \<Rightarrow> frame \<Rightarrow> frame list option" where
  "move t s (Cv_wait c l C_acquire) = Some [Enter (Lock l) E_acquire, Cv_wait c l C_done]"
| "move t s (Cv_signal c l S_check) = (if holder s l = Some t then Some [Wakeone (Cv c) W_acquire, Cv_signal c l S_done] else None)"
| "move t s (Cv_broadcast c l S_check) = (if holder s l = Some t then Some [Wakeall (Cv c) A_acquire, Cv_broadcast c l S_done] else None)"
| "move t s _ = None"

fun returns :: "frame \<Rightarrow> bool" where
  "returns (Cv_wait c l C_done) = True"
| "returns (Cv_signal c l S_done) = True"
| "returns (Cv_broadcast c l S_done) = True"
| "returns (Wakeone w (W_runnable None)) = True"
| "returns (Wakeall w (A_runnable [])) = True"
| "returns _ = False"

fun val :: "sys \<Rightarrow> res \<Rightarrow> nat" where
  "val s (Sem n) = unat (sem_count s n)"
| "val s (Lock l) = unat (lk_val s l)"

fun take_res :: "nat \<Rightarrow> res \<Rightarrow> sys \<Rightarrow> sys" where
  "take_res t (Sem n) s = s\<lparr>sem_count := (sem_count s)(n := sem_count s n - 1)\<rparr>"
| "take_res t (Lock l) s = s\<lparr>lk_val := (lk_val s)(l := 0), holder := (holder s)(l := Some t)\<rparr>"

fun give_res :: "res \<Rightarrow> sys \<Rightarrow> sys" where
  "give_res (Sem n) s = s\<lparr>sem_count := (sem_count s)(n := sem_count s n + 1)\<rparr>"
| "give_res (Lock l) s = s\<lparr>lk_val := (lk_val s)(l := lk_val s l + 1), holder := (holder s)(l := None)\<rparr>"

fun may_give :: "nat \<Rightarrow> res \<Rightarrow> sys \<Rightarrow> bool" where
  "may_give t (Sem n) s \<longleftrightarrow> 0 <s sem_count s n + 1"
| "may_give t (Lock l) s \<longleftrightarrow> 0 <s lk_val s l + 1 \<and> holder s l = Some t"

definition set_spin :: "slock \<Rightarrow> nat option \<Rightarrow> sys \<Rightarrow> sys" where
  "set_spin x h s = s\<lparr>spin := (spin s)(x := \<lparr>lk_lock = (h \<noteq> None), lk_holder = h\<rparr>)\<rparr>"

definition set_queue :: "wchan \<Rightarrow> nat list \<Rightarrow> sys \<Rightarrow> sys" where
  "set_queue w us s = s\<lparr>wc_threads := (wc_threads s)(w := us)\<rparr>"

definition set_asleep :: "nat \<Rightarrow> bool \<Rightarrow> sys \<Rightarrow> sys" where
  "set_asleep u b s = s\<lparr>asleep := (asleep s)(u := b)\<rparr>"

text \<open>Continue with the frames \<open>gs\<close> in place of \<open>f\<close>: a return when there are none.\<close>

definition continue :: "nat \<Rightarrow> frame \<Rightarrow> frame list \<Rightarrow> frame list \<Rightarrow> sys \<Rightarrow> sys" where
  "continue t f gs fs s = (if gs = [] then ret t f fs s else goto t (gs @ fs) s)"

inductive kstep :: "nat \<Rightarrow> frame \<Rightarrow> frame list \<Rightarrow> sys \<Rightarrow> sys \<Rightarrow> bool" for t f fs s where
  k_acquire: "acq f = Some (x, gs) \<Longrightarrow> \<not> lk_lock (spin s x) \<Longrightarrow> kstep t f fs s (goto t (gs @ fs) (set_spin x (Some t) s))"
| k_release: "rel f = Some (x, gs) \<Longrightarrow> lk_holder (spin s x) = Some t \<Longrightarrow>
    (\<forall>w us. f = Wakeall w (A_move us) \<longrightarrow> wc_threads s w = []) \<Longrightarrow> kstep t f fs s (continue t f gs fs (set_spin x None s))"
| k_sleep: "slp f = Some (w, g) \<Longrightarrow> lk_holder (spin s (Wc w)) = Some t \<Longrightarrow>
    kstep t f fs s (goto t (g # fs) (set_asleep t True (set_spin (Wc w) None (set_queue w (wc_threads s w @ [t]) s))))"
| k_block: "f = Enter r E_test \<Longrightarrow> val s r = 0 \<Longrightarrow> kstep t f fs s (goto t (Enter r E_wlock # fs) s)"
| k_take: "f = Enter r E_test \<Longrightarrow> val s r \<noteq> 0 \<Longrightarrow> kstep t f fs s (goto t (Enter r E_release # fs) (take_res t r s))"
| k_give: "f = Exit r X_inc \<Longrightarrow> may_give t r s \<Longrightarrow> kstep t f fs s (goto t (Wakeone (Of r) W_acquire # Exit r X_release # fs) (give_res r s))"
| k_none: "f = Wakeone w W_remhead \<Longrightarrow> wc_threads s w = [] \<Longrightarrow> kstep t f fs s (goto t (Wakeone w (W_release None) # fs) s)"
| k_one: "f = Wakeone w W_remhead \<Longrightarrow> wc_threads s w = u # us \<Longrightarrow>
    kstep t f fs s (goto t (Wakeone w (W_release (Some u)) # fs) (set_queue w us s))"
| k_all: "f = Wakeall w (A_move vs) \<Longrightarrow> wc_threads s w = u # us \<Longrightarrow>
    kstep t f fs s (goto t (Wakeall w (A_move (vs @ [u])) # fs) (set_queue w us s))"
| k_wakeone: "f = Wakeone w (W_runnable (Some u)) \<Longrightarrow> kstep t f fs s (continue t f [] fs (set_asleep u False s))"
| k_wakeall: "f = Wakeall w (A_runnable (u # us)) \<Longrightarrow> kstep t f fs s (continue t f [Wakeall w (A_runnable us)] fs (set_asleep u False s))"
| k_move: "move t s f = Some gs \<Longrightarrow> kstep t f fs s (goto t (gs @ fs) s)"
| k_done: "returns f \<Longrightarrow> kstep t f fs s (continue t f [] fs s)"

lemma obind_Go: "obind x f = Go y \<longleftrightarrow> (\<exists>z. x = Go z \<and> f z = Go y)"
  by (cases x) auto

lemma acquire_Go: "acquire t x s = Go s' \<longleftrightarrow> lk_holder (spin s x) \<noteq> Some t \<and> \<not> lk_lock (spin s x) \<and> s' = set_spin x (Some t) s"
  by (auto simp: acquire_def obind_Go spinlock_acquire_def set_spin_def)

lemma release_Go: "release t x s = Go s' \<longleftrightarrow> lk_holder (spin s x) = Some t \<and> s' = set_spin x None s"
  by (auto simp: release_def obind_Go spinlock_release_def set_spin_def)

lemma sleep_Go: "wchan_sleep t w s = Go s' \<longleftrightarrow> lk_holder (spin s (Wc w)) = Some t \<and>
    s' = set_asleep t True (set_spin (Wc w) None (set_queue w (wc_threads s w @ [t]) s))"
  by (auto simp: wchan_sleep_def wchan_unlock_def obind_Go release_Go set_asleep_def set_queue_def set_spin_def)

lemmas go_simps = obind_Go acquire_Go release_Go sleep_Go wchan_lock_def lock_do_i_hold_def wchan_remhead_def

lemma step_kstep: "step t s = Go s' \<Longrightarrow> \<not> asleep s t \<and> (\<exists>f fs. stack s t = f # fs \<and> kstep t f fs s s')"
proof -
  assume a: "step t s = Go s'"
  then obtain f fs where f: "stack s t = f # fs" "\<not> asleep s t" by (cases "stack s t") (auto simp: step_def split: if_splits)
  note k = step_def go_simps continue_def kstep.simps set_asleep_def set_queue_def thread_make_runnable_def unat_eq_zero unat_gt_0
  have "kstep t f fs s s'"
  proof (cases f)
    case (Enter r p)
    then show ?thesis using a f by (cases r; cases p) (auto simp: k split: if_splits)
  next
    case (Exit r p)
    then show ?thesis using a f by (cases r; cases p) (auto simp: k split: if_splits)
  next
    case (Wakeone w p)
    then show ?thesis using a f by (cases p) (auto simp: k split: option.splits list.splits)
  next
    case (Wakeall w p)
    then show ?thesis using a f by (cases p) (auto simp: k split: option.splits list.splits)
  next
    case (Cv_wait c l p)
    then show ?thesis using a f by (cases p) (auto simp: k)
  next
    case (Cv_signal c l p)
    then show ?thesis using a f by (cases p) (auto simp: k split: if_splits)
  next
    case (Cv_broadcast c l p)
    then show ?thesis using a f by (cases p) (auto simp: k split: if_splits)
  qed
  then show ?thesis using f by blast
qed

lemma sys_sel [simp]:
  "spin (goto t fs s) = spin s" "wc_threads (goto t fs s) = wc_threads s" "sem_count (goto t fs s) = sem_count s"
  "lk_val (goto t fs s) = lk_val s" "holder (goto t fs s) = holder s" "asleep (goto t fs s) = asleep s"
  "stack (goto t fs s) = (stack s)(t := fs)" "owned (goto t fs s) = owned s"
  "spin (set_spin x h s) = (spin s)(x := \<lparr>lk_lock = (h \<noteq> None), lk_holder = h\<rparr>)" "wc_threads (set_spin x h s) = wc_threads s"
  "sem_count (set_spin x h s) = sem_count s" "lk_val (set_spin x h s) = lk_val s" "holder (set_spin x h s) = holder s"
  "asleep (set_spin x h s) = asleep s" "stack (set_spin x h s) = stack s" "owned (set_spin x h s) = owned s"
  "spin (set_queue w us s) = spin s" "wc_threads (set_queue w us s) = (wc_threads s)(w := us)" "sem_count (set_queue w us s) = sem_count s"
  "lk_val (set_queue w us s) = lk_val s" "holder (set_queue w us s) = holder s" "asleep (set_queue w us s) = asleep s"
  "stack (set_queue w us s) = stack s" "owned (set_queue w us s) = owned s"
  "spin (set_asleep u b s) = spin s" "wc_threads (set_asleep u b s) = wc_threads s" "sem_count (set_asleep u b s) = sem_count s"
  "lk_val (set_asleep u b s) = lk_val s" "holder (set_asleep u b s) = holder s" "asleep (set_asleep u b s) = (asleep s)(u := b)"
  "stack (set_asleep u b s) = stack s" "owned (set_asleep u b s) = owned s"
  by (simp_all add: goto_def set_spin_def set_queue_def set_asleep_def)

lemma res_sel [simp]:
  "spin (take_res t r s) = spin s" "wc_threads (take_res t r s) = wc_threads s" "asleep (take_res t r s) = asleep s"
  "stack (take_res t r s) = stack s" "owned (take_res t r s) = owned s"
  "spin (give_res r s) = spin s" "wc_threads (give_res r s) = wc_threads s" "asleep (give_res r s) = asleep s"
  "stack (give_res r s) = stack s" "owned (give_res r s) = owned s"
  by (cases r; simp)+

lemma continue_sel [simp]:
  "spin (continue t f gs fs s) = spin s" "wc_threads (continue t f gs fs s) = wc_threads s" "sem_count (continue t f gs fs s) = sem_count s"
  "lk_val (continue t f gs fs s) = lk_val s" "holder (continue t f gs fs s) = holder s" "asleep (continue t f gs fs s) = asleep s"
  "stack (continue t f gs fs s) = (stack s)(t := gs @ fs)"
  "owned (continue t f gs fs s) = (if gs = [] \<and> fs = [] then (owned s)(t := owned s t \<union> gains f) else owned s)"
  by (simp_all add: continue_def ret_def)

section \<open>Stacks and spinlocks\<close>

text \<open>The spinlocks that a frame holds, and which function calls which.\<close>

fun held_frame :: "frame \<Rightarrow> slock set" where
  "held_frame (Enter r p) = (if p \<in> {E_test, E_wlock, E_unlock, E_release} then {Inner r} else {}) \<union>
    (if p \<in> {E_unlock, E_sleep} then {Wc (Of r)} else {})"
| "held_frame (Exit r p) = (if p = X_acquire then {} else {Inner r})"
| "held_frame (Wakeone w p) = (case p of W_remhead \<Rightarrow> {Wc w} | W_release _ \<Rightarrow> {Wc w} | _ \<Rightarrow> {})"
| "held_frame (Wakeall w p) = (case p of A_move _ \<Rightarrow> {Wc w} | _ \<Rightarrow> {})"
| "held_frame (Cv_wait c l p) = (if p = C_sleep then {Wc (Cv c)} else {})"
| "held_frame _ = {}"

fun held :: "frame list \<Rightarrow> slock set" where
  "held [] = {}"
| "held (f # fs) = held_frame f \<union> held fs"

fun calls :: "frame \<Rightarrow> frame \<Rightarrow> bool" where
  "calls (Exit r X_release) (Wakeone w _) = (w = Of r)"
| "calls (Cv_wait c l C_sleep) (Exit r _) = (r = Lock l)"
| "calls (Cv_wait c l C_done) (Enter r _) = (r = Lock l)"
| "calls (Cv_signal c l S_done) (Wakeone w _) = (w = Cv c)"
| "calls (Cv_broadcast c l S_done) (Wakeall w _) = (w = Cv c)"
| "calls _ _ = False"

fun outermost :: "frame \<Rightarrow> bool" where
  "outermost (Wakeone _ _) = False"
| "outermost (Wakeall _ _) = False"
| "outermost _ = True"

fun wf_stack :: "frame list \<Rightarrow> bool" where
  "wf_stack [] = True"
| "wf_stack [f] = outermost f"
| "wf_stack (f # g # fs) = (calls g f \<and> wf_stack (g # fs))"

definition spin_ok :: "sys \<Rightarrow> bool" where
  "spin_ok s \<longleftrightarrow> (\<forall>t. wf_stack (stack s t)) \<and> (\<forall>x. lk_lock (spin s x) = (lk_holder (spin s x) \<noteq> None)) \<and>
    (\<forall>x t. lk_holder (spin s x) = Some t \<longleftrightarrow> x \<in> held (stack s t))"

lemma calls_cases: "calls g f \<Longrightarrow> (\<exists>r p. g = Exit r X_release \<and> f = Wakeone (Of r) p) \<or> (\<exists>c l p. g = Cv_wait c l C_sleep \<and> f = Exit (Lock l) p) \<or>
    (\<exists>c l p. g = Cv_wait c l C_done \<and> f = Enter (Lock l) p) \<or> (\<exists>c l p. g = Cv_signal c l S_done \<and> f = Wakeone (Cv c) p) \<or>
    (\<exists>c l p. g = Cv_broadcast c l S_done \<and> f = Wakeall (Cv c) p)"
  by (cases "(g, f)" rule: calls.cases) auto

text \<open>The shapes of the stacks.\<close>

lemma wf_cases:
  assumes "wf_stack (f # fs)"
  obtains "fs = []" "outermost f"
  | r p where "f = Wakeone (Of r) p" "fs = [Exit r X_release]"
  | l p c where "f = Wakeone (Of (Lock l)) p" "fs = [Exit (Lock l) X_release, Cv_wait c l C_sleep]"
  | c l p where "f = Exit (Lock l) p" "fs = [Cv_wait c l C_sleep]"
  | c l p where "f = Enter (Lock l) p" "fs = [Cv_wait c l C_done]"
  | c l p where "f = Wakeone (Cv c) p" "fs = [Cv_signal c l S_done]"
  | c l p where "f = Wakeall (Cv c) p" "fs = [Cv_broadcast c l S_done]"
proof (cases fs)
  case Nil
  then show ?thesis using assms that(1) by simp
next
  case (Cons g gs)
  then have c: "calls g f" "wf_stack (g # gs)" using assms by auto
  have g: "gs = [] \<or> (\<exists>h hs. gs = h # hs \<and> calls h g \<and> wf_stack (h # hs))" using c(2) by (cases gs) auto
  have none: "\<not> calls h (Cv_wait x1 x2 p)" "\<not> calls h (Cv_signal x1 x2 q)" "\<not> calls h (Cv_broadcast x1 x2 q)" for h x1 x2 p q
    by (auto dest!: calls_cases)
  have last: "hs = []" if "wf_stack (Cv_wait x1 x2 p # hs)" for x1 x2 p hs using that none by (cases hs) auto
  from calls_cases [OF c(1)] show ?thesis
  proof (elim disjE exE conjE)
    fix r p assume h: "g = Exit r X_release" "f = Wakeone (Of r) p"
    show ?thesis
    proof (cases gs)
      case Nil
      then show ?thesis using that(2) [OF h(2)] Cons h by simp
    next
      case (Cons k ks)
      then have "calls k (Exit r X_release)" "wf_stack (k # ks)" using g h by auto
      then obtain c l where "k = Cv_wait c l C_sleep" "r = Lock l" by (auto dest: calls_cases)
      then show ?thesis using that(3) [of l p c] h Cons \<open>fs = g # gs\<close> last \<open>wf_stack (k # ks)\<close> by auto
    qed
  qed (use Cons g none that in \<open>auto\<close>)
qed

lemma acq_stack:
  assumes "acq f = Some (x, gs)" "wf_stack (f # fs)"
  shows "wf_stack (gs @ fs) \<and> held (gs @ fs) = insert x (held (f # fs))"
  using assms(2) by (cases rule: wf_cases) (use assms(1) in \<open>cases f rule: acq.cases; auto\<close>)+

lemma rel_stack:
  assumes "rel f = Some (x, gs)" "wf_stack (f # fs)"
  shows "wf_stack (gs @ fs) \<and> held (gs @ fs) = held (f # fs) - {x}"
  using assms(2) by (cases rule: wf_cases) (use assms(1) in \<open>cases f rule: rel.cases; auto\<close>)+

lemma slp_stack:
  assumes "slp f = Some (w, g)" "wf_stack (f # fs)"
  shows "fs = [] \<or> (\<exists>c l. fs = [Cv_wait c l C_done])" "wf_stack (g # fs) \<and> held (g # fs) = held (f # fs) - {Wc w}"
  using assms(2) by (cases rule: wf_cases; use assms(1) in \<open>cases f rule: slp.cases; auto\<close>)+

lemma move_stack:
  assumes "move t s f = Some gs" "wf_stack (f # fs)"
  shows "wf_stack (gs @ fs) \<and> held (gs @ fs) = held (f # fs)"
  using assms(2) by (cases rule: wf_cases) (use assms(1) in \<open>cases "(t, s, f)" rule: move.cases; auto split: if_splits\<close>)+

lemma returns_stack:
  assumes "returns f" "wf_stack (f # fs)"
  shows "wf_stack fs \<and> held fs = held (f # fs)"
  using assms(2) by (cases rule: wf_cases) (use assms(1) in \<open>cases f rule: returns.cases; auto\<close>)+

lemma spin_acquire:
  assumes "spin_ok s" "\<not> lk_lock (spin s x)" "wf_stack st \<and> held st = insert x (held (stack s t))"
    "spin s' = (spin s)(x := \<lparr>lk_lock = True, lk_holder = Some t\<rparr>)" "stack s' = (stack s)(t := st)"
  shows "spin_ok s'"
proof -
  have "x \<notin> held (stack s u)" for u using assms(1,2) unfolding spin_ok_def by (metis option.distinct(1))
  then show ?thesis using assms unfolding spin_ok_def by auto
qed

lemma spin_release:
  assumes "spin_ok s" "lk_holder (spin s x) = Some t" "wf_stack st \<and> held st = held (stack s t) - {x}"
    "spin s' = (spin s)(x := \<lparr>lk_lock = False, lk_holder = None\<rparr>)" "stack s' = (stack s)(t := st)"
  shows "spin_ok s'"
proof -
  have "x \<in> held (stack s u) \<longleftrightarrow> u = t" for u using assms(1,2) unfolding spin_ok_def by (metis option.inject)
  then show ?thesis using assms unfolding spin_ok_def by auto
qed

lemma spin_keep:
  assumes "spin_ok s" "wf_stack st \<and> held st = held (stack s t)" "spin s' = spin s" "stack s' = (stack s)(t := st)"
  shows "spin_ok s'"
  using assms unfolding spin_ok_def by auto

lemma top_swap: "calls h (Enter r p) \<Longrightarrow> calls h (Enter r p')" "calls h (Exit r q) \<Longrightarrow> calls h (Exit r q')"
    "calls h (Wakeone w u) \<Longrightarrow> calls h (Wakeone w u')" "calls h (Wakeall w v) \<Longrightarrow> calls h (Wakeall w v')"
  by (auto dest!: calls_cases)

lemma wf_swap: "wf_stack (Enter r p # fs) \<Longrightarrow> wf_stack (Enter r p' # fs)" "wf_stack (Exit r q # fs) \<Longrightarrow> wf_stack (Exit r q' # fs)"
    "wf_stack (Wakeone w u # fs) \<Longrightarrow> wf_stack (Wakeone w u' # fs)" "wf_stack (Wakeall w v # fs) \<Longrightarrow> wf_stack (Wakeall w v' # fs)"
  by (cases fs; auto intro: top_swap)+

lemma kstep_spin:
  assumes "spin_ok s" "stack s t = f # fs" "kstep t f fs s s'"
  shows "spin_ok s'"
proof -
  have wf: "wf_stack (f # fs)" using assms(1,2) unfolding spin_ok_def by metis
  note keep = spin_keep [OF assms(1), of _ t]
  from assms(3) show ?thesis
  proof cases
    case (k_acquire x gs)
    show ?thesis by (rule spin_acquire [OF assms(1) k_acquire(3)]) (use acq_stack [OF k_acquire(2) wf] assms(2) k_acquire(1) in auto)
  next
    case (k_release x gs)
    show ?thesis by (rule spin_release [OF assms(1) k_release(3)]) (use rel_stack [OF k_release(2) wf] assms(2) k_release(1) in auto)
  next
    case (k_sleep w g)
    show ?thesis by (rule spin_release [OF assms(1) k_sleep(3)]) (use slp_stack(2) [OF k_sleep(2) wf] assms(2) k_sleep(1) in auto)
  next
    case (k_block r)
    show ?thesis by (rule keep) (use k_block wf assms(2) wf_swap(1) in auto)
  next
    case (k_take r)
    show ?thesis by (rule keep) (use k_take wf assms(2) wf_swap(1) in auto)
  next
    case (k_give r)
    show ?thesis by (rule keep) (use k_give wf assms(2) wf_swap(2) in auto)
  next
    case (k_none w)
    show ?thesis by (rule keep) (use k_none wf assms(2) wf_swap(3) in auto)
  next
    case (k_one w u us)
    show ?thesis by (rule keep) (use k_one wf assms(2) wf_swap(3) in auto)
  next
    case (k_all w vs u us)
    show ?thesis by (rule keep) (use k_all wf assms(2) wf_swap(4) in auto)
  next
    case (k_wakeone w u)
    show ?thesis by (rule keep) (use k_wakeone wf assms(2) in \<open>auto elim: wf_cases\<close>)
  next
    case (k_wakeall w u us)
    show ?thesis by (rule keep) (use k_wakeall wf assms(2) wf_swap(4) in auto)
  next
    case (k_move gs)
    show ?thesis by (rule keep) (use k_move(1) move_stack [OF k_move(2) wf] assms(2) in auto)
  next
    case k_done
    show ?thesis by (rule keep) (use k_done(1) returns_stack [OF k_done(2) wf] assms(2) in auto)
  qed
qed

section \<open>Sleeping threads\<close>

text \<open>The channel a sleeping thread waits on, and the threads a waker has taken off a channel.\<close>

fun waits :: "frame list \<Rightarrow> wchan option" where
  "waits (Enter r E_retry # fs) = Some (Of r)"
| "waits (Cv_wait c l C_acquire # fs) = Some (Cv c)"
| "waits _ = None"

fun transit :: "frame list \<Rightarrow> nat list" where
  "transit (Wakeone w (W_release (Some u)) # fs) = [u]"
| "transit (Wakeone w (W_runnable (Some u)) # fs) = [u]"
| "transit (Wakeall w (A_move us) # fs) = us"
| "transit (Wakeall w (A_runnable us) # fs) = us"
| "transit _ = []"

text \<open>
  A sleeping thread is on the channel it waits on, or in the hands of exactly one waker; the
  threads on channels and in hands are asleep, and none of them is there twice.
\<close>

definition queue_ok :: "nat \<Rightarrow> sys \<Rightarrow> bool" where
  "queue_ok n s \<longleftrightarrow> (\<forall>t \<ge> n. stack s t = []) \<and> (\<forall>w. distinct (wc_threads s w)) \<and> (\<forall>u. distinct (transit (stack s u))) \<and>
    (\<forall>w t. t \<in> set (wc_threads s w) \<longrightarrow> asleep s t \<and> waits (stack s t) = Some w) \<and>
    (\<forall>u t. t \<in> set (transit (stack s u)) \<longrightarrow> asleep s t \<and> (\<forall>w. t \<notin> set (wc_threads s w))) \<and>
    (\<forall>u v. u \<noteq> v \<longrightarrow> set (transit (stack s u)) \<inter> set (transit (stack s v)) = {}) \<and>
    (\<forall>t. asleep s t \<longrightarrow> (\<exists>w. waits (stack s t) = Some w \<and> (t \<in> set (wc_threads s w) \<or> (\<exists>u. t \<in> set (transit (stack s u))))))"

lemma queue_okD:
  assumes "queue_ok n s"
  shows "t \<ge> n \<Longrightarrow> stack s t = []" "distinct (wc_threads s w)" "distinct (transit (stack s u))"
    "t \<in> set (wc_threads s w) \<Longrightarrow> asleep s t" "t \<in> set (wc_threads s w) \<Longrightarrow> waits (stack s t) = Some w"
    "t \<in> set (transit (stack s u)) \<Longrightarrow> asleep s t" "t \<in> set (transit (stack s u)) \<Longrightarrow> t \<notin> set (wc_threads s w)"
    "u \<noteq> v \<Longrightarrow> set (transit (stack s u)) \<inter> set (transit (stack s v)) = {}"
    "asleep s t \<Longrightarrow> \<exists>w. waits (stack s t) = Some w \<and> (t \<in> set (wc_threads s w) \<or> (\<exists>u. t \<in> set (transit (stack s u))))"
  using assms unfolding queue_ok_def by (simp, simp, simp, blast, blast, blast, blast, blast, blast)

lemma queue_keep:
  assumes "queue_ok n s" "\<not> asleep s t" "t < n" "transit st = transit (stack s t)"
    "wc_threads s' = wc_threads s" "asleep s' = asleep s" "stack s' = (stack s)(t := st)"
  shows "queue_ok n s'"
proof -
  have "transit (stack s' u) = transit (stack s u)" for u using assms(4,7) by simp
  moreover have "waits (stack s' u) = waits (stack s u)" if "asleep s u" for u using that assms(2,7) by (cases "u = t") auto
  moreover have "\<forall>u \<ge> n. stack s' u = []" using assms(1,3,7) by (simp add: queue_ok_def)
  ultimately show ?thesis using assms(1,5,6) unfolding queue_ok_def by metis
qed

lemma queue_sleep:
  assumes "queue_ok n s" "\<not> asleep s t" "t < n" "transit st = []" "transit (stack s t) = []" "waits st = Some w"
    "wc_threads s' = (wc_threads s)(w := wc_threads s w @ [t])" "asleep s' = (asleep s)(t := True)" "stack s' = (stack s)(t := st)"
  shows "queue_ok n s'"
proof -
  have tr: "transit (stack s' u) = transit (stack s u)" for u using assms(4,5,9) by simp
  have off: "t \<notin> set (wc_threads s v)" "t \<notin> set (transit (stack s u))" for u v using assms(1,2) unfolding queue_ok_def by blast+
  have w: "waits (stack s' u) = (if u = t then Some w else waits (stack s u))" for u using assms(6,9) by simp
  have m: "u \<in> set (wc_threads s' v) \<longleftrightarrow> u \<in> set (wc_threads s v) \<or> (u = t \<and> v = w)" for u v using assms(7) by auto
  have d: "\<forall>v. distinct (wc_threads s' v)" using assms(1,7) off unfolding queue_ok_def by auto
  have d': "\<forall>v. distinct (transit (stack s' v))" using assms(1) tr unfolding queue_ok_def by simp
  have e: "\<forall>u \<ge> n. stack s' u = []" using assms(1,3,9) by (simp add: queue_ok_def)
  have a: "asleep s' u \<longleftrightarrow> u = t \<or> asleep s u" for u using assms(8) by simp
  have x: "set (transit (stack s' v)) \<inter> set (transit (stack s' x)) = {}" if "v \<noteq> x" for v x
    using that assms(1) unfolding tr queue_ok_def by blast
  show ?thesis unfolding queue_ok_def a
  proof (intro conjI d d' e allI impI x)
    fix v x assume v: "v \<in> set (wc_threads s' x)"
    have q: "v \<in> set (wc_threads s x) \<Longrightarrow> asleep s v \<and> waits (stack s v) = Some x" using assms(1) unfolding queue_ok_def by blast
    show "v = t \<or> asleep s v" using v q unfolding m by blast
    show "waits (stack s' v) = Some x" using v q off(1) unfolding m w by auto
  next
    fix v x assume v: "x \<in> set (transit (stack s' v))"
    then have q: "asleep s x \<and> (\<forall>y. x \<notin> set (wc_threads s y))" "x \<noteq> t" using assms(1) off(2) unfolding tr queue_ok_def by blast+
    then show "x = t \<or> asleep s x" "x \<notin> set (wc_threads s' y)" for y unfolding m by blast+
  next
    fix v assume v: "v = t \<or> asleep s v"
    have q: "asleep s v \<Longrightarrow> \<exists>w. waits (stack s v) = Some w \<and> (v \<in> set (wc_threads s w) \<or> (\<exists>u. v \<in> set (transit (stack s u))))"
      using assms(1) unfolding queue_ok_def by blast
    show "\<exists>y. waits (stack s' v) = Some y \<and> (v \<in> set (wc_threads s' y) \<or> (\<exists>u. v \<in> set (transit (stack s' u))))"
      using v q unfolding w m tr by (cases "v = t") auto
  qed
qed

lemma queue_take:
  assumes "queue_ok n s" "\<not> asleep s t" "t < n" "wc_threads s w = u # us" "transit st = transit (stack s t) @ [u]"
    "wc_threads s' = (wc_threads s)(w := us)" "asleep s' = asleep s" "stack s' = (stack s)(t := st)"
  shows "queue_ok n s'"
proof -
  have u: "asleep s u" "waits (stack s u) = Some w" "u \<notin> set us"
    using queue_okD(2,4,5) [OF assms(1), where w = w] assms(4) by auto
  have only: "u \<in> set (wc_threads s v) \<longleftrightarrow> v = w" for v using queue_okD(5) [OF assms(1), of u v] assms(4) u(2) by auto
  have off: "u \<notin> set (transit (stack s v))" for v using queue_okD(7) [OF assms(1), of u v w] assms(4) by auto
  have m: "v \<in> set (wc_threads s' x) \<longleftrightarrow> v \<in> set (wc_threads s x) \<and> v \<noteq> u" for v x
    using assms(4,6) u(3) only by auto
  have tr: "v \<in> set (transit (stack s' x)) \<longleftrightarrow> v \<in> set (transit (stack s x)) \<or> (x = t \<and> v = u)" for v x using assms(5,8) by auto
  have w: "waits (stack s' v) = waits (stack s v)" if "asleep s v" for v using that assms(2,8) by (cases "v = t") auto
  have d: "\<forall>v. distinct (wc_threads s' v)" using queue_okD(2) [OF assms(1)] queue_okD(2) [OF assms(1), of w] assms(4,6) by auto
  have d': "\<forall>v. distinct (transit (stack s' v))" using queue_okD(3) [OF assms(1)] assms(5,8) off by auto
  have e: "\<forall>u \<ge> n. stack s' u = []" using assms(1,3,8) by (simp add: queue_ok_def)
  have x: "set (transit (stack s' v)) \<inter> set (transit (stack s' x)) = {}" if "v \<noteq> x" for v x
    using queue_okD(8) [OF assms(1) that] off that by (auto simp: tr)
  show ?thesis unfolding queue_ok_def assms(7)
  proof (intro conjI d d' e allI impI x)
    fix v x assume v: "v \<in> set (wc_threads s' x)"
    then show "asleep s v" "waits (stack s' v) = Some x" using queue_okD(4,5) [OF assms(1), of v x] w unfolding m by auto
  next
    fix v x assume v: "x \<in> set (transit (stack s' v))"
    then show "asleep s x" using queue_okD(6) [OF assms(1)] u(1) unfolding tr by blast
    show "x \<notin> set (wc_threads s' y)" for y using queue_okD(7) [OF assms(1)] v unfolding tr m by blast
  next
    fix v assume v: "asleep s v"
    then obtain y where "waits (stack s v) = Some y" "v \<in> set (wc_threads s y) \<or> (\<exists>u. v \<in> set (transit (stack s u)))"
      using queue_okD(9) [OF assms(1)] by blast
    then show "\<exists>y. waits (stack s' v) = Some y \<and> (v \<in> set (wc_threads s' y) \<or> (\<exists>u. v \<in> set (transit (stack s' u))))"
      unfolding w [OF v] m tr by blast
  qed
qed

lemma queue_wake:
  assumes "queue_ok n s" "\<not> asleep s t" "t < n" "transit (stack s t) = u # transit st"
    "wc_threads s' = wc_threads s" "asleep s' = (asleep s)(u := False)" "stack s' = (stack s)(t := st)"
  shows "queue_ok n s'"
proof -
  have u: "u \<in> set (transit (stack s t))" using assms(4) by simp
  have off: "u \<notin> set (wc_threads s v)" for v using queue_okD(7) [OF assms(1) u] .
  have only: "u \<in> set (transit (stack s v)) \<Longrightarrow> v = t" for v using queue_okD(8) [OF assms(1), of v t] u by auto
  have "distinct (u # transit st)" using queue_okD(3) [OF assms(1), of t] assms(4) by simp
  then have nu: "u \<notin> set (transit st)" "distinct (transit st)" by auto
  have tr: "v \<in> set (transit (stack s' x)) \<longleftrightarrow> v \<in> set (transit (stack s x)) \<and> v \<noteq> u" for v x
    using assms(4,7) nu only by (cases "x = t") auto
  have w: "waits (stack s' v) = waits (stack s v)" if "asleep s v" for v using that assms(2,7) by (cases "v = t") auto
  have d: "\<forall>v. distinct (transit (stack s' v))" using assms(1,7) nu unfolding queue_ok_def by auto
  have e: "\<forall>u \<ge> n. stack s' u = []" using assms(1,3,7) by (simp add: queue_ok_def)
  have a: "asleep s' v \<longleftrightarrow> asleep s v \<and> v \<noteq> u" for v using assms(6) by simp
  have q: "\<forall>v. distinct (wc_threads s v)" using assms(1) unfolding queue_ok_def by blast
  have x: "set (transit (stack s' v)) \<inter> set (transit (stack s' x)) = {}" if "v \<noteq> x" for v x
    using queue_okD(8) [OF assms(1) that] by (auto simp: tr)
  show ?thesis unfolding queue_ok_def assms(5) a
  proof (intro conjI q d e allI impI x)
    fix v x assume v: "v \<in> set (wc_threads s x)"
    then show "asleep s v" "waits (stack s' v) = Some x" using queue_okD(4,5) [OF assms(1), of v x] w by auto
    show "v \<noteq> u" using v off by blast
  next
    fix v x assume v: "x \<in> set (transit (stack s' v))"
    then show "asleep s x" "x \<noteq> u" using queue_okD(6) [OF assms(1)] unfolding tr by blast+
    show "x \<notin> set (wc_threads s y)" for y using queue_okD(7) [OF assms(1)] v unfolding tr by blast
  next
    fix v assume v: "asleep s v \<and> v \<noteq> u"
    then obtain y where "waits (stack s v) = Some y" "v \<in> set (wc_threads s y) \<or> (\<exists>u. v \<in> set (transit (stack s u)))"
      using queue_okD(9) [OF assms(1)] by blast
    then show "\<exists>y. waits (stack s' v) = Some y \<and> (v \<in> set (wc_threads s y) \<or> (\<exists>u. v \<in> set (transit (stack s' u))))"
      using v unfolding w [OF conjunct1 [OF v]] tr by blast
  qed
qed

lemma transit_frames:
  "acq f = Some (x, gs) \<Longrightarrow> transit (f # fs) = [] \<and> transit (gs @ fs) = []"
  "rel f = Some (x, gs) \<Longrightarrow> gs \<noteq> [] \<Longrightarrow> transit (gs @ fs) = transit (f # fs)"
  "slp f = Some (w, g) \<Longrightarrow> transit (f # fs) = [] \<and> transit (g # fs) = [] \<and> waits (g # fs) = Some w"
  "move t s f = Some gs \<Longrightarrow> transit (f # fs) = [] \<and> transit (gs @ fs) = []"
proof -
  show "acq f = Some (x, gs) \<Longrightarrow> transit (f # fs) = [] \<and> transit (gs @ fs) = []" by (cases f rule: acq.cases) auto
  show "rel f = Some (x, gs) \<Longrightarrow> gs \<noteq> [] \<Longrightarrow> transit (gs @ fs) = transit (f # fs)"
  proof (cases f rule: rel.cases)
    case (2 w u)
    then show "rel f = Some (x, gs) \<Longrightarrow> gs \<noteq> [] \<Longrightarrow> transit (gs @ fs) = transit (f # fs)" by (cases u) auto
  qed auto
  show "slp f = Some (w, g) \<Longrightarrow> transit (f # fs) = [] \<and> transit (g # fs) = [] \<and> waits (g # fs) = Some w" by (cases f rule: slp.cases) auto
  show "move t s f = Some gs \<Longrightarrow> transit (f # fs) = [] \<and> transit (gs @ fs) = []"
    by (cases "(t, s, f)" rule: move.cases) (auto split: if_splits)
qed

text \<open>A frame below the top carries no threads.\<close>

lemma transit_below: "wf_stack (f # fs) \<Longrightarrow> transit fs = []"
  by (erule wf_cases) auto

lemma transit_returns: "returns f \<Longrightarrow> transit (f # fs) = []" "rel f = Some (x, []) \<Longrightarrow> transit (f # fs) = []"
proof -
  show "returns f \<Longrightarrow> transit (f # fs) = []" by (cases f rule: returns.cases) auto
  show "rel f = Some (x, []) \<Longrightarrow> transit (f # fs) = []" by (cases f rule: rel.cases) auto
qed

lemma kstep_queue:
  assumes "spin_ok s" "queue_ok n s" "stack s t = f # fs" "\<not> asleep s t" "kstep t f fs s s'"
  shows "queue_ok n s'"
proof -
  have wf: "wf_stack (f # fs)" using assms(1,3) unfolding spin_ok_def by metis
  have tn: "t < n" using queue_okD(1) [OF assms(2), of t] assms(3) by (cases "t < n") auto
  note keep = queue_keep [OF assms(2,4) tn] and below = transit_below [OF wf]
  from assms(5) show ?thesis
  proof cases
    case (k_acquire x gs)
    show ?thesis by (rule keep) (use transit_frames(1) [OF k_acquire(2)] assms(3) k_acquire(1) in auto)
  next
    case (k_release x gs)
    have "transit (gs @ fs) = transit (f # fs)"
      using transit_frames(2) [OF k_release(2)] transit_returns(2) [of f x fs] k_release(2) below by (cases "gs = []") auto
    then show ?thesis by (intro keep) (use assms(3) k_release(1) in auto)
  next
    case (k_sleep w g)
    show ?thesis by (rule queue_sleep [OF assms(2,4) tn, of "g # fs" w])
      (use transit_frames(3) [OF k_sleep(2)] assms(3) k_sleep(1) in auto)
  next
    case (k_one w u us)
    show ?thesis by (rule queue_take [OF assms(2,4) tn k_one(3)]) (use assms(3) k_one(1,2) in auto)
  next
    case (k_all w vs u us)
    show ?thesis by (rule queue_take [OF assms(2,4) tn k_all(3)]) (use assms(3) k_all(1,2) in auto)
  next
    case (k_wakeone w u)
    show ?thesis by (rule queue_wake [OF assms(2,4) tn, of u fs]) (use below assms(3) k_wakeone(1,2) in auto)
  next
    case (k_wakeall w u us)
    show ?thesis by (rule queue_wake [OF assms(2,4) tn, of u "Wakeall w (A_runnable us) # fs"]) (use assms(3) k_wakeall(1,2) in auto)
  next
    case (k_move gs)
    show ?thesis by (rule keep) (use k_move(1) transit_frames(4) [OF k_move(2)] assms(3) in auto)
  next
    case k_done
    show ?thesis by (rule keep) (use k_done(1) transit_returns(1) [OF k_done(2)] below assms(3) in auto)
  qed (rule keep; use assms(3) in simp)+
qed

end
