(* ===== verification/Handoff.thy ===== *)
theory Handoff
  imports Synch
begin

text \<open>
  What the synchronisation functions guarantee, for any number of threads calling them in any order and
  interleaving: they never trip an assertion, locks exclude, no wake-up is lost, and
  the spinlocks inside them cannot deadlock.
\<close>

section \<open>Locks and their owners\<close>

text \<open>The locks that the function at the top of a stack has taken, or has yet to give back.\<close>

fun has_frame :: "frame \<Rightarrow> nat set" where
  "has_frame (Enter (Lock l) E_release) = {l}"
| "has_frame (Exit (Lock l) X_acquire) = {l}"
| "has_frame (Exit (Lock l) X_inc) = {l}"
| "has_frame (Cv_wait c l C_lock) = {l}"
| "has_frame (Cv_wait c l C_done) = {l}"
| "has_frame _ = {}"

fun has :: "frame list \<Rightarrow> nat set" where
  "has [] = {}"
| "has (f # fs) = has_frame f"

fun needs :: "frame \<Rightarrow> nat set" where
  "needs (Cv_signal c l p) = {l}"
| "needs (Cv_broadcast c l p) = {l}"
| "needs _ = {}"

definition client_ok :: "frame list \<Rightarrow> nat set \<Rightarrow> bool" where
  "client_ok fs L \<longleftrightarrow> (\<forall>f \<in> set fs. (gains f \<union> loses f) \<inter> L = {} \<and> needs f \<subseteq> L)"

definition lock_ok :: "sys \<Rightarrow> bool" where
  "lock_ok s \<longleftrightarrow> (\<forall>t. client_ok (stack s t) (owned s t)) \<and>
    (\<forall>l. lk_val s l = (if holder s l = None then 1 else 0)) \<and>
    (\<forall>l t. holder s l = Some t \<longleftrightarrow> l \<in> owned s t \<or> l \<in> has (stack s t))"

definition sem_ok :: "sys \<Rightarrow> bool" where
  "sem_ok s \<longleftrightarrow> (\<forall>m. 0 \<le>s sem_count s m)"

fun rlock :: "res \<Rightarrow> nat set" where
  "rlock (Sem n) = {}"
| "rlock (Lock l) = {l}"

lemma frame_locks [simp]:
  "gains (Enter r p) = rlock r" "loses (Exit r q) = rlock r" "gains (Exit r q) = {}" "loses (Enter r p) = {}"
  "has_frame (Enter r p) = (if p = E_release then rlock r else {})"
  "has_frame (Exit r q) = (if q = X_release then {} else rlock r)"
  by (cases r; cases p; cases q; simp)+

lemma has_gains: "has_frame f \<subseteq> gains f \<union> loses f"
  by (cases f rule: has_frame.cases) auto

lemma lock_keep:
  assumes "lock_ok s" "client_ok st L" "L \<union> has st = owned s t \<union> has (stack s t)"
    "lk_val s' = lk_val s" "holder s' = holder s" "owned s' = (owned s)(t := L)" "stack s' = (stack s)(t := st)"
  shows "lock_ok s'"
  using assms unfolding lock_ok_def by auto

lemma lock_change:
  assumes "lock_ok s" "client_ok st (owned s t)" "\<And>l'. l' \<noteq> l \<Longrightarrow> l' \<in> has st \<longleftrightarrow> l' \<in> has (stack s t)"
    "lk_val s' = (lk_val s)(l := if h = None then 1 else 0)" "holder s' = (holder s)(l := h)" "owned s' = owned s" "stack s' = (stack s)(t := st)"
    "\<And>u. h = Some u \<longleftrightarrow> l \<in> owned s u \<or> l \<in> has (stack s' u)"
  shows "lock_ok s'"
  unfolding lock_ok_def
proof (intro conjI allI)
  fix u l'
  show "client_ok (stack s' u) (owned s' u)" using assms(1,2,6,7) unfolding lock_ok_def by auto
  have v: "lk_val s l' = (if holder s l' = None then 1 else 0)" "holder s l' = Some u \<longleftrightarrow> l' \<in> owned s u \<or> l' \<in> has (stack s u)"
    using assms(1) unfolding lock_ok_def by blast+
  show "lk_val s' l' = (if holder s' l' = None then 1 else 0)" using v(1) by (simp add: assms(4,5))
  show "holder s' l' = Some u \<longleftrightarrow> l' \<in> owned s' u \<or> l' \<in> has (stack s' u)"
    using v(2) assms(3) [of l'] assms(8) [of u] by (cases "l' = l"; cases "u = t") (auto simp: assms(5-7))
qed

lemma client_frames:
  "acq f = Some (x, gs) \<Longrightarrow> client_ok (f # fs) L \<Longrightarrow> client_ok (gs @ fs) L \<and> has (gs @ fs) = has (f # fs)"
  "rel f = Some (x, gs) \<Longrightarrow> gs \<noteq> [] \<Longrightarrow> client_ok (f # fs) L \<Longrightarrow> client_ok (gs @ fs) L \<and> has (gs @ fs) = has (f # fs)"
  "slp f = Some (w, g) \<Longrightarrow> client_ok (f # fs) L \<Longrightarrow> client_ok (g # fs) L \<and> has (g # fs) = has (f # fs)"
  "move t s f = Some gs \<Longrightarrow> client_ok (f # fs) L \<Longrightarrow> client_ok (gs @ fs) L \<and> has (gs @ fs) = has (f # fs)"
proof -
  show "acq f = Some (x, gs) \<Longrightarrow> client_ok (f # fs) L \<Longrightarrow> client_ok (gs @ fs) L \<and> has (gs @ fs) = has (f # fs)"
    by (cases f rule: acq.cases) (auto simp: client_ok_def)
  show "rel f = Some (x, gs) \<Longrightarrow> gs \<noteq> [] \<Longrightarrow> client_ok (f # fs) L \<Longrightarrow> client_ok (gs @ fs) L \<and> has (gs @ fs) = has (f # fs)"
    by (cases f rule: rel.cases) (auto simp: client_ok_def)
  show "slp f = Some (w, g) \<Longrightarrow> client_ok (f # fs) L \<Longrightarrow> client_ok (g # fs) L \<and> has (g # fs) = has (f # fs)"
    by (cases f rule: slp.cases) (auto simp: client_ok_def)
  show "move t s f = Some gs \<Longrightarrow> client_ok (f # fs) L \<Longrightarrow> client_ok (gs @ fs) L \<and> has (gs @ fs) = has (f # fs)"
    by (cases "(t, s, f)" rule: move.cases) (auto simp: client_ok_def split: if_splits)
qed

lemma client_return:
  assumes "returns f \<or> rel f = Some (x, []) \<or> f = Wakeone w (W_runnable u)" "wf_stack (f # fs)" "client_ok (f # fs) L"
    "L' = (if fs = [] then L \<union> gains f else L)"
  shows "client_ok fs L' \<and> L' \<union> has fs = L \<union> has (f # fs)"
  using assms(2)
proof (cases rule: wf_cases)
  case 1
  then show ?thesis using assms(1,4) by (cases f rule: returns.cases; cases f rule: rel.cases; auto simp: client_ok_def)
next
  case (4 c l p)
  then show ?thesis using assms(1,3,4) by (cases p) (auto simp: client_ok_def)
next
  case (5 c l p)
  then show ?thesis using assms(1,3,4) by (cases p) (auto simp: client_ok_def)
qed (use assms(3,4) in \<open>auto simp: client_ok_def\<close>)

lemma take_lock:
  assumes "lock_ok s" "stack s t = Enter r E_test # fs" "val s r \<noteq> 0"
  shows "lock_ok (goto t (Enter r E_release # fs) (take_res t r s))"
proof (cases r)
  case (Lock l)
  have h: "holder s l = None" using assms(1,3) Lock by (auto simp: lock_ok_def split: if_splits)
  then have n: "l \<notin> owned s u \<and> l \<notin> has (stack s u)" for u using assms(1) unfolding lock_ok_def by (metis option.distinct(1))
  have "client_ok (Enter r E_test # fs) (owned s t)" using assms(1,2) unfolding lock_ok_def by metis
  then have "client_ok (Enter r E_release # fs) (owned s t)" by (simp add: client_ok_def)
  then show ?thesis by (rule lock_change [OF assms(1), of _ t l _ "Some t"]) (use assms(2) n Lock in \<open>auto split: if_splits\<close>)
next
  case (Sem m)
  show ?thesis by (rule lock_keep [OF assms(1), of _ "owned s t" t]) (use assms(1,2) Sem in \<open>auto simp: lock_ok_def client_ok_def dest: spec [of _ t]\<close>)
qed

lemma give_lock:
  assumes "lock_ok s" "stack s t = Exit r X_inc # fs" "may_give t r s"
  shows "lock_ok (goto t (Wakeone (Of r) W_acquire # Exit r X_release # fs) (give_res r s))"
proof (cases r)
  case (Lock l)
  have h: "holder s l = Some t" using assms(3) Lock by simp
  then have n: "l \<notin> owned s u \<and> l \<notin> has (stack s u)" if "u \<noteq> t" for u using assms(1) that unfolding lock_ok_def by (metis option.inject)
  have c: "client_ok (Exit r X_inc # fs) (owned s t)" using assms(1,2) unfolding lock_ok_def by metis
  then have d: "client_ok (Wakeone (Of r) W_acquire # Exit r X_release # fs) (owned s t)" and l: "l \<notin> owned s t" using Lock by (auto simp: client_ok_def)
  have "lk_val s l = 0" using assms(1) h unfolding lock_ok_def by (metis option.distinct(1))
  then show ?thesis by (intro lock_change [OF assms(1) d, of l _ None]) (use assms(2) n l Lock in \<open>auto split: if_splits\<close>)
next
  case (Sem m)
  show ?thesis by (rule lock_keep [OF assms(1), of _ "owned s t" t]) (use assms(1,2) Sem in \<open>auto simp: lock_ok_def client_ok_def dest: spec [of _ t]\<close>)
qed

lemma kstep_lock:
  assumes "spin_ok s" "lock_ok s" "stack s t = f # fs" "kstep t f fs s s'"
  shows "lock_ok s'"
proof -
  have wf: "wf_stack (f # fs)" using assms(1,3) unfolding spin_ok_def by metis
  have c: "client_ok (f # fs) (owned s t)" using assms(2,3) unfolding lock_ok_def by metis
  note keep = lock_keep [OF assms(2), of _ "owned s t" t]
  note rtn = client_return [OF _ wf c refl]
  from assms(4) show ?thesis
  proof cases
    case (k_acquire x gs)
    show ?thesis by (rule keep) (use client_frames(1) [OF k_acquire(2) c] assms(3) k_acquire(1) in auto)
  next
    case (k_release x gs)
    show ?thesis
    proof (cases "gs = []")
      case True
      show ?thesis by (rule lock_keep [OF assms(2), of fs "if fs = [] then owned s t \<union> gains f else owned s t" t])
        (use rtn [of x] k_release(1,2) True assms(3) in auto)
    next
      case False
      show ?thesis by (rule keep) (use client_frames(2) [OF k_release(2) False c] assms(3) False k_release(1) in auto)
    qed
  next
    case (k_sleep w g)
    show ?thesis by (rule keep) (use client_frames(3) [OF k_sleep(2) c] assms(3) k_sleep(1) in auto)
  next
    case (k_take r)
    then show ?thesis using take_lock [OF assms(2)] assms(3) by simp
  next
    case (k_give r)
    then show ?thesis using give_lock [OF assms(2)] assms(3) by simp
  next
    case (k_wakeone w u)
    show ?thesis by (rule lock_keep [OF assms(2), of fs "if fs = [] then owned s t \<union> gains f else owned s t" t])
        (use rtn [of undefined w "Some u"] k_wakeone assms(3) in auto)
  next
    case (k_move gs)
    show ?thesis by (rule keep) (use client_frames(4) [OF k_move(2) c] assms(3) k_move(1) in auto)
  next
    case k_done
    show ?thesis by (rule lock_keep [OF assms(2), of fs "if fs = [] then owned s t \<union> gains f else owned s t" t])
        (use rtn k_done assms(3) in auto)
  qed (rule keep; use c assms(3) in \<open>simp add: client_ok_def\<close>)+
qed

section \<open>Counts\<close>

lemma sle_unat: "0 \<le>s (c :: 32 word) \<longleftrightarrow> unat c < 2 ^ 31"
proof -
  obtain k where k: "uint c = int k" "unat c = k" using uint_nat [of c] by blast
  then have "k < 2 ^ 32" using unsigned_less [of c, where 'a = int] by simp
  then show ?thesis unfolding word_sle_eq sint32 k by simp
qed

lemma sless_unat: "0 <s (c :: 32 word) \<longleftrightarrow> 0 < unat c \<and> unat c < 2 ^ 31"
proof -
  obtain k where k: "uint c = int k" "unat c = k" using uint_nat [of c] by blast
  then have "k < 2 ^ 32" using unsigned_less [of c, where 'a = int] by simp
  then show ?thesis unfolding word_sless_alt sint32 k by simp
qed

lemma unat_inc: "0 <s (c :: 32 word) + 1 \<Longrightarrow> unat (c + 1) = unat c + 1"
proof -
  assume "0 <s c + 1"
  then have "1 + c \<noteq> 0" using sless_unat [of "c + 1"] unat_gt_0 [of "c + 1"] by (simp add: add.commute)
  then show ?thesis using unatSuc [of c] by (simp add: add.commute)
qed

lemma unat_dec: "(c :: 32 word) \<noteq> 0 \<Longrightarrow> unat (c - 1) = unat c - 1"
  by (simp add: unat_minus_one)

lemma kstep_sem:
  assumes "sem_ok s" "kstep t f fs s s'"
  shows "sem_ok s'"
  using assms(2)
proof cases
  case (k_take r)
  then show ?thesis using assms(1) by (cases r) (auto simp: sem_ok_def sle_unat unat_dec unat_gt_0 intro: le_less_trans [OF diff_le_self])
next
  case (k_give r)
  then show ?thesis using assms(1) by (cases r) (auto simp: sem_ok_def sle_unat sless_unat)
qed (use assms(1) in \<open>auto simp: sem_ok_def\<close>)

section \<open>Wake-ups\<close>

text \<open>
  A thread is pending on a semaphore or lock if it is about to test it, has been taken off
  its channel to try again, or is about to take a thread off its channel.
\<close>

fun pend :: "frame list \<Rightarrow> res \<Rightarrow> bool \<Rightarrow> bool" where
  "pend (Enter r' p # fs) r queued = (r' = r \<and> (p = E_test \<or> p = E_retry \<and> \<not> queued))"
| "pend (Wakeone w p # fs) r queued = (w = Of r \<and> (p = W_acquire \<or> p = W_remhead))"
| "pend _ r queued = False"

definition pends :: "sys \<Rightarrow> res \<Rightarrow> nat \<Rightarrow> bool" where
  "pends s r t = pend (stack s t) r (t \<in> set (wc_threads s (Of r)))"

definition pending :: "nat \<Rightarrow> sys \<Rightarrow> res \<Rightarrow> nat" where
  "pending n s r = (\<Sum>t<n. of_bool (pends s r t))"

text \<open>A thread is going to sleep on a semaphore or lock once it has found nothing to take.\<close>

fun going :: "frame list \<Rightarrow> res \<Rightarrow> bool" where
  "going (Enter r' p # fs) r = (r' = r \<and> (p = E_wlock \<or> p = E_unlock \<or> p = E_sleep))"
| "going _ r = False"

definition wake_ok :: "nat \<Rightarrow> sys \<Rightarrow> bool" where
  "wake_ok n s \<longleftrightarrow> (\<forall>r. wc_threads s (Of r) \<noteq> [] \<or> (\<exists>t. going (stack s t) r) \<longrightarrow> val s r \<le> pending n s r)"

lemma sum_change:
  fixes g :: "nat \<Rightarrow> nat"
  assumes "t < n" "\<And>u. u \<noteq> t \<Longrightarrow> g' u = g u"
  shows "(\<Sum>u<n. g' u) + g t = (\<Sum>u<n. g u) + g' t"
proof -
  have "(\<Sum>u \<in> {..<n} - {t}. g' u) = (\<Sum>u \<in> {..<n} - {t}. g u)" by (rule sum.cong) (simp_all add: assms(2))
  then show ?thesis using assms(1) sum.remove [of "{..<n}" t g] sum.remove [of "{..<n}" t g'] by simp
qed

lemma pending_change:
  assumes "t < n" "\<And>u. u \<noteq> t \<Longrightarrow> pends s' r u = pends s r u"
  shows "pending n s' r + of_bool (pends s r t) = pending n s r + of_bool (pends s' r t)"
  unfolding pending_def by (rule sum_change [OF assms(1)]) (simp add: assms(2))

lemma pending_same: "(\<And>u. pends s' r u = pends s r u) \<Longrightarrow> pending n s' r = pending n s r"
  by (simp add: pending_def)

lemma pending_change2:
  assumes "t < n" "v < n" "v \<noteq> t" "\<And>u. u \<noteq> t \<Longrightarrow> u \<noteq> v \<Longrightarrow> pends s' r u = pends s r u"
  shows "pending n s' r + of_bool (pends s r t) + of_bool (pends s r v) = pending n s r + of_bool (pends s' r t) + of_bool (pends s' r v)"
proof -
  define g :: "nat \<Rightarrow> nat" where "g u = of_bool (pends s r u)" for u
  define g' :: "nat \<Rightarrow> nat" where "g' u = of_bool (pends s' r u)" for u
  define h where "h = g(t := g' t)"
  have "(\<Sum>u<n. h u) + g t = (\<Sum>u<n. g u) + h t" by (rule sum_change [OF assms(1)]) (simp add: h_def)
  moreover have "(\<Sum>u<n. g' u) + h v = (\<Sum>u<n. h u) + g' v"
  proof (rule sum_change [OF assms(2)])
    show "g' u = h u" if "u \<noteq> v" for u using assms(4) [of u] that by (cases "u = t") (simp_all add: h_def g_def g'_def)
  qed
  moreover have "h t = g' t" "h v = g v" using assms(3) by (simp_all add: h_def)
  ultimately have "(\<Sum>u<n. g' u) + g t + g v = (\<Sum>u<n. g u) + g' t + g' v" by linarith
  then show ?thesis unfolding pending_def g_def g'_def .
qed

lemma wake_mono:
  assumes "wake_ok n s" "t < n" "\<And>r. wc_threads s' (Of r) = wc_threads s (Of r)" "\<And>r. val s' r = val s r"
    "stack s' = (stack s)(t := st)" "\<And>r q. pend (stack s t) r q \<Longrightarrow> pend st r q" "\<And>r. going st r \<Longrightarrow> going (stack s t) r"
  shows "wake_ok n s'"
  unfolding wake_ok_def
proof (intro allI impI)
  fix r assume p: "wc_threads s' (Of r) \<noteq> [] \<or> (\<exists>u. going (stack s' u) r)"
  have "going (stack s' u) r \<Longrightarrow> going (stack s u) r" for u using assms(5,7) by (cases "u = t") auto
  then have "val s r \<le> pending n s r" using p assms(1,3) unfolding wake_ok_def by metis
  moreover have "pending n s' r + of_bool (pends s r t) = pending n s r + of_bool (pends s' r t)"
    by (rule pending_change [OF assms(2)]) (simp add: pends_def assms(3,5))
  moreover have "pends s r t \<Longrightarrow> pends s' r t" using assms(3,5,6) by (simp add: pends_def)
  ultimately show "val s' r \<le> pending n s' r" unfolding assms(4) by (cases "pends s r t"; cases "pends s' r t") simp_all
qed

lemma quiet_below: "wf_stack (f # fs) \<Longrightarrow> \<not> going fs r"
  by (erule wf_cases) auto

lemma acq_quiet:
  assumes "acq f = Some (x, gs)"
  shows "pend (f # fs) r False \<Longrightarrow> pend (gs @ fs) r q" "going (gs @ fs) r \<Longrightarrow> going (f # fs) r"
  using assms by (cases f rule: acq.cases; auto)+

lemma rel_quiet:
  assumes "rel f = Some (x, gs)"
  shows "\<not> pend (f # fs) r q" "gs \<noteq> [] \<Longrightarrow> going (gs @ fs) r \<Longrightarrow> going (f # fs) r"
  using assms by (cases f rule: rel.cases; auto)+

lemma move_quiet: "move t s f = Some gs \<Longrightarrow> \<not> pend (f # fs) r q \<and> \<not> going (gs @ fs) r"
  by (cases "(t, s, f)" rule: move.cases) (auto split: if_splits)

lemma returns_quiet: "returns f \<Longrightarrow> \<not> pend (f # fs) r q"
  by (cases f rule: returns.cases) auto

lemma pend_queued: "pend fs r q \<Longrightarrow> pend fs r False"
  by (cases "(fs, r, True)" rule: pend.cases) auto

lemma going_held: "going fs r \<Longrightarrow> Inner r \<in> held fs \<or> Wc (Of r) \<in> held fs"
  by (cases "(fs, r)" rule: going.cases) auto

lemma pends_same: "stack s' u = stack s u \<Longrightarrow> u \<in> set (wc_threads s' (Of r)) \<longleftrightarrow> u \<in> set (wc_threads s (Of r)) \<Longrightarrow> pends s' r u = pends s r u"
  by (simp add: pends_def)

lemma wake_sleep:
  assumes "wake_ok n s" "queue_ok n s" "\<not> asleep s t" "stack s t = f # fs" "slp f = Some (w, g)"
    "s' = goto t (g # fs) (set_asleep t True (set_spin (Wc w) None (set_queue w (wc_threads s w @ [t]) s)))"
  shows "wake_ok n s'"
  unfolding wake_ok_def
proof (intro allI impI)
  fix r assume p: "wc_threads s' (Of r) \<noteq> [] \<or> (\<exists>u. going (stack s' u) r)"
  have f: "(\<exists>r0. f = Enter r0 E_sleep \<and> w = Of r0 \<and> g = Enter r0 E_retry) \<or> (\<exists>c l. f = Cv_wait c l C_sleep \<and> w = Cv c \<and> g = Cv_wait c l C_acquire)"
    using assms(5) by (cases f rule: slp.cases) auto
  have v: "val s' r = val s r" unfolding assms(6) by (cases r) simp_all
  have "wc_threads s (Of r) \<noteq> [] \<or> (\<exists>u. going (stack s u) r)"
  proof (cases "w = Of r")
    case True
    then show ?thesis using f assms(4) by (metis going.simps(1) wchan.inject(1) wchan.distinct(1))
  next
    case False
    have "\<not> going (g # fs) r" using f by auto
    then show ?thesis using p False unfolding assms(6) by (auto split: if_splits)
  qed
  then have "val s r \<le> pending n s r" using assms(1) unfolding wake_ok_def by blast
  moreover have "pends s' r u = pends s r u" for u
  proof (cases "u = t")
    case True
    then show ?thesis using f assms(4) unfolding pends_def assms(6) by auto
  qed (auto simp: pends_def assms(6))
  ultimately show "val s' r \<le> pending n s' r" using pending_same [of s' r s] v by simp
qed

lemma val_take: "val s r0 \<noteq> 0 \<Longrightarrow> val (take_res t r0 s) r \<le> (if r = r0 then val s r - 1 else val s r)"
  by (cases r0; cases r) (auto simp: unat_dec unat_gt_0)

lemma val_give: "may_give t r0 s \<Longrightarrow> val (give_res r0 s) r = (if r = r0 then val s r + 1 else val s r)"
  by (cases r0; cases r) (auto simp: unat_inc)

lemma wake_take:
  assumes "wake_ok n s" "t < n" "stack s t = Enter r0 E_test # fs" "val s r0 \<noteq> 0"
  shows "wake_ok n (goto t (Enter r0 E_release # fs) (take_res t r0 s))" (is "wake_ok n ?s'")
  unfolding wake_ok_def
proof (intro allI impI)
  fix r assume p: "wc_threads ?s' (Of r) \<noteq> [] \<or> (\<exists>u. going (stack ?s' u) r)"
  then have "val s r \<le> pending n s r" using assms(1) unfolding wake_ok_def by (auto split: if_splits)
  moreover have "pending n ?s' r + of_bool (pends s r t) = pending n s r + of_bool (pends ?s' r t)"
    by (rule pending_change [OF assms(2)]) (simp add: pends_def)
  moreover have "pends s r t \<longleftrightarrow> r = r0" "\<not> pends ?s' r t" using assms(3) by (auto simp: pends_def)
  moreover have "val ?s' r \<le> (if r = r0 then val s r - 1 else val s r)" using val_take [OF assms(4), of t r] by (cases r) simp_all
  ultimately show "val ?s' r \<le> pending n ?s' r" by (auto split: if_splits)
qed

lemma wake_block:
  assumes "wake_ok n s" "t < n" "stack s t = Enter r0 E_test # fs" "val s r0 = 0"
  shows "wake_ok n (goto t (Enter r0 E_wlock # fs) s)" (is "wake_ok n ?s'")
  unfolding wake_ok_def
proof (intro allI impI)
  fix r assume p: "wc_threads ?s' (Of r) \<noteq> [] \<or> (\<exists>u. going (stack ?s' u) r)"
  have v: "val ?s' r = val s r" by (cases r) simp_all
  show "val ?s' r \<le> pending n ?s' r"
  proof (cases "r = r0")
    case False
    then have "val s r \<le> pending n s r" using assms(1) p unfolding wake_ok_def by (auto split: if_splits)
    moreover have "pends ?s' r u = pends s r u" for u using False assms(3) by (auto simp: pends_def)
    ultimately show ?thesis using pending_same [of ?s' r s] v by simp
  qed (use v assms(4) in simp)
qed

lemma wake_give:
  assumes "wake_ok n s" "t < n" "stack s t = Exit r0 X_inc # fs" "may_give t r0 s"
  shows "wake_ok n (goto t (Wakeone (Of r0) W_acquire # Exit r0 X_release # fs) (give_res r0 s))" (is "wake_ok n ?s'")
  unfolding wake_ok_def
proof (intro allI impI)
  fix r assume p: "wc_threads ?s' (Of r) \<noteq> [] \<or> (\<exists>u. going (stack ?s' u) r)"
  then have "val s r \<le> pending n s r" using assms(1) unfolding wake_ok_def by (auto split: if_splits)
  moreover have "pending n ?s' r + of_bool (pends s r t) = pending n s r + of_bool (pends ?s' r t)"
    by (rule pending_change [OF assms(2)]) (simp add: pends_def)
  moreover have "pends ?s' r t \<longleftrightarrow> r = r0" "\<not> pends s r t" using assms(3) by (auto simp: pends_def)
  moreover have "val ?s' r = (if r = r0 then val s r + 1 else val s r)" using val_give [OF assms(4), of r] by (cases r) simp_all
  ultimately show "val ?s' r \<le> pending n ?s' r" by (auto split: if_splits)
qed

text \<open>A waker at the channel of a semaphore or lock holds both spinlocks, so nobody is on the way to sleep.\<close>

lemma waker_alone:
  assumes "spin_ok s" "stack s t = Wakeone (Of r) W_remhead # fs"
  shows "\<not> going (stack s u) r"
proof
  assume g: "going (stack s u) r"
  have "wf_stack (Wakeone (Of r) W_remhead # fs)" using assms unfolding spin_ok_def by metis
  then have "Inner r \<in> held (stack s t)" "Wc (Of r) \<in> held (stack s t)" using assms(2) by (auto elim: wf_cases)
  then have "u = t" using going_held [OF g] assms(1) unfolding spin_ok_def by (metis option.inject)
  then show False using g assms(2) by simp
qed

lemma wake_none:
  assumes "wake_ok n s" "spin_ok s" "stack s t = Wakeone w W_remhead # fs" "wc_threads s w = []"
  shows "wake_ok n (goto t (Wakeone w (W_release None) # fs) s)" (is "wake_ok n ?s'")
  unfolding wake_ok_def
proof (intro allI impI)
  fix r assume p: "wc_threads ?s' (Of r) \<noteq> [] \<or> (\<exists>u. going (stack ?s' u) r)"
  have v: "val ?s' r = val s r" by (cases r) simp_all
  have w: "w \<noteq> Of r"
  proof
    assume "w = Of r"
    then show False using p assms(4) waker_alone [OF assms(2), of t r fs] assms(3) by (auto split: if_splits)
  qed
  have "val s r \<le> pending n s r" using assms(1) p unfolding wake_ok_def by (auto split: if_splits)
  moreover have "pends ?s' r u = pends s r u" for u using w assms(3) by (auto simp: pends_def)
  ultimately show "val ?s' r \<le> pending n ?s' r" using pending_same [of ?s' r s] v by simp
qed

lemma wake_one:
  assumes "wake_ok n s" "queue_ok n s" "\<not> asleep s t" "t < n" "stack s t = Wakeone w W_remhead # fs" "wc_threads s w = u # us"
  shows "wake_ok n (goto t (Wakeone w (W_release (Some u)) # fs) (set_queue w us s))" (is "wake_ok n ?s'")
  unfolding wake_ok_def
proof (intro allI impI)
  fix r assume p: "wc_threads ?s' (Of r) \<noteq> [] \<or> (\<exists>u. going (stack ?s' u) r)"
  have v: "val ?s' r = val s r" by (cases r) simp_all
  have pre: "val s r \<le> pending n s r" using assms(1,6) p unfolding wake_ok_def by (auto split: if_splits)
  show "val ?s' r \<le> pending n ?s' r"
  proof (cases "w = Of r")
    case False
    have "pends ?s' r x = pends s r x" for x using False assms(5) by (auto simp: pends_def)
    then show ?thesis using pending_same [of ?s' r s] pre v by simp
  next
    case True
    have u: "asleep s u" "waits (stack s u) = Some w" "u \<notin> set us"
      using queue_okD(2,4,5) [OF assms(2), where w = w] assms(6) by auto
    have ne: "u \<noteq> t" using u(1) assms(3) by blast
    have un: "u < n" using queue_okD(1) [OF assms(2), of u] u(2) by (cases "u < n") auto
    have e: "\<exists>fs. stack s u = Enter r E_retry # fs" using u(2) True by (cases "stack s u" rule: waits.cases) auto
    have "pending n ?s' r + of_bool (pends s r t) + of_bool (pends s r u) = pending n s r + of_bool (pends ?s' r t) + of_bool (pends ?s' r u)"
      by (rule pending_change2 [OF assms(4) un ne]) (use True assms(6) in \<open>auto simp: pends_def\<close>)
    moreover have "pends s r t" "\<not> pends s r u" "\<not> pends ?s' r t" "pends ?s' r u"
      using True assms(5,6) e ne u(3) by (auto simp: pends_def)
    ultimately show ?thesis using pre v by simp
  qed
qed

lemma kstep_wake:
  assumes "spin_ok s" "queue_ok n s" "wake_ok n s" "stack s t = f # fs" "\<not> asleep s t" "kstep t f fs s s'"
  shows "wake_ok n s'"
proof -
  have wf: "wf_stack (f # fs)" using assms(1,4) unfolding spin_ok_def by metis
  have tn: "t < n" using queue_okD(1) [OF assms(2), of t] assms(4) by (cases "t < n") auto
  have v: "val (goto u gs x) r = val x r" "val (set_spin y h x) r = val x r" "val (set_asleep u b x) r = val x r"
    "val (set_queue w us x) r = val x r" "val (continue u g gs hs x) r = val x r" for u gs x r y h b g hs w us by (cases r; simp)+
  note mono = wake_mono [OF assms(3) tn] and low = quiet_below [OF wf]
  from assms(6) show ?thesis
  proof cases
    case (k_acquire x gs)
    show ?thesis by (rule mono [of _ "gs @ fs"]) (use acq_quiet [OF k_acquire(2)] pend_queued assms(4) k_acquire(1) in \<open>auto simp: v\<close>)
  next
    case (k_release x gs)
    show ?thesis by (rule mono [of _ "gs @ fs"]) (use rel_quiet [OF k_release(2), of fs] low assms(4) k_release(1) in \<open>cases "gs = []"; auto simp: v\<close>)+
  next
    case (k_sleep w g)
    then show ?thesis using wake_sleep [OF assms(3,2,5,4)] by simp
  next
    case (k_block r)
    then show ?thesis using wake_block [OF assms(3) tn] assms(4) by simp
  next
    case (k_take r)
    then show ?thesis using wake_take [OF assms(3) tn] assms(4) by simp
  next
    case (k_give r)
    then show ?thesis using wake_give [OF assms(3) tn] assms(4) by simp
  next
    case (k_none w)
    then show ?thesis using wake_none [OF assms(3,1)] assms(4) by simp
  next
    case (k_one w u us)
    then show ?thesis using wake_one [OF assms(3,2,5) tn] assms(4) by simp
  next
    case (k_all w vs u us)
    have w: "Of r \<noteq> w" for r using wf k_all(2) by (auto elim: wf_cases)
    show ?thesis by (rule mono [of _ "Wakeall w (A_move (vs @ [u])) # fs"]) (use assms(4) k_all(1,2) w in \<open>auto simp: v\<close>)
  next
    case (k_wakeone w u)
    show ?thesis by (rule mono [of _ fs]) (use low assms(4) k_wakeone(1,2) in \<open>auto simp: v\<close>)
  next
    case (k_wakeall w u us)
    show ?thesis by (rule mono [of _ "Wakeall w (A_runnable us) # fs"]) (use assms(4) k_wakeall(1,2) in \<open>auto simp: v\<close>)
  next
    case (k_move gs)
    show ?thesis by (rule mono [of _ "gs @ fs"]) (use move_quiet [OF k_move(2)] assms(4) k_move(1) in \<open>auto simp: v\<close>)
  next
    case k_done
    show ?thesis by (rule mono [of _ fs]) (use returns_quiet [OF k_done(2)] low assms(4) k_done(1) in \<open>auto simp: v\<close>)
  qed
qed

section \<open>Wakers\<close>

text \<open>The threads in the hands of a waker wait on the channel it works at.\<close>

fun at_channel :: "frame list \<Rightarrow> wchan option" where
  "at_channel (Wakeone w p # fs) = Some w"
| "at_channel (Wakeall w p # fs) = Some w"
| "at_channel _ = None"

definition hands_ok :: "sys \<Rightarrow> bool" where
  "hands_ok s \<longleftrightarrow> (\<forall>u t. t \<in> set (transit (stack s u)) \<longrightarrow> waits (stack s t) = at_channel (stack s u))"

lemma hands_keep:
  assumes "queue_ok n s" "hands_ok s" "\<not> asleep s t" "set (transit st) \<subseteq> set (transit (stack s t))"
    "transit st \<noteq> [] \<Longrightarrow> at_channel st = at_channel (stack s t)" "stack s' = (stack s)(t := st)"
  shows "hands_ok s'"
  unfolding hands_ok_def
proof (intro allI impI)
  fix u v assume h: "v \<in> set (transit (stack s' u))"
  then have v: "v \<in> set (transit (stack s u))" using assms(4,6) by (cases "u = t") auto
  then have "v \<noteq> t" using queue_okD(6) [OF assms(1)] assms(3) by blast
  moreover have "waits (stack s v) = at_channel (stack s u)" using assms(2) v unfolding hands_ok_def by blast
  moreover have "transit (stack s' u) \<noteq> []" using h by auto
  ultimately show "waits (stack s' v) = at_channel (stack s' u)" using assms(5,6) by (cases "u = t") simp_all
qed

lemma hands_take:
  assumes "queue_ok n s" "hands_ok s" "\<not> asleep s t" "wc_threads s w = u # us" "transit st = transit (stack s t) @ [u]"
    "at_channel st = Some w" "at_channel (stack s t) = Some w" "stack s' = (stack s)(t := st)"
  shows "hands_ok s'"
  unfolding hands_ok_def
proof (intro allI impI)
  fix x v assume h: "v \<in> set (transit (stack s' x))"
  have u: "asleep s u" "waits (stack s u) = Some w" using queue_okD(4,5) [OF assms(1), of u w] assms(4) by auto
  have v: "v \<in> set (transit (stack s x)) \<or> (v = u \<and> x = t)" using h assms(5,8) by (auto split: if_splits)
  then have "v \<noteq> t" using queue_okD(6) [OF assms(1), of v x] assms(3) u(1) by blast
  moreover have "v \<in> set (transit (stack s x)) \<Longrightarrow> waits (stack s v) = at_channel (stack s x)" using assms(2) unfolding hands_ok_def by blast
  ultimately show "waits (stack s' v) = at_channel (stack s' x)" using v u(2) assms(6-8) by (cases "x = t") auto
qed

lemma kstep_hands:
  assumes "spin_ok s" "queue_ok n s" "hands_ok s" "stack s t = f # fs" "\<not> asleep s t" "kstep t f fs s s'"
  shows "hands_ok s'"
proof -
  have wf: "wf_stack (f # fs)" using assms(1,4) unfolding spin_ok_def by metis
  note keep = hands_keep [OF assms(2,3,5)] and below = transit_below [OF wf]
  from assms(6) show ?thesis
  proof cases
    case (k_acquire x gs)
    show ?thesis by (rule keep [of "gs @ fs"]) (use transit_frames(1) [OF k_acquire(2)] assms(4) k_acquire(1) in auto)
  next
    case (k_release x gs)
    have "transit (gs @ fs) = [] \<or> transit (gs @ fs) = transit (f # fs) \<and> at_channel (gs @ fs) = at_channel (f # fs)"
      using k_release(2) below transit_frames(2) [OF k_release(2), of fs] by (cases f rule: rel.cases) auto
    then show ?thesis by (intro keep [of "gs @ fs"]) (use assms(4) k_release(1) in auto)
  next
    case (k_sleep w g)
    show ?thesis by (rule keep [of "g # fs"]) (use transit_frames(3) [OF k_sleep(2)] assms(4) k_sleep(1) in auto)
  next
    case (k_one w u us)
    show ?thesis by (rule hands_take [OF assms(2,3,5) k_one(3)]) (use assms(4) k_one(1,2) in auto)
  next
    case (k_all w vs u us)
    show ?thesis by (rule hands_take [OF assms(2,3,5) k_all(3)]) (use assms(4) k_all(1,2) in auto)
  next
    case (k_wakeone w u)
    show ?thesis by (rule keep [of fs]) (use below assms(4) k_wakeone(1) in auto)
  next
    case (k_wakeall w u us)
    show ?thesis by (rule keep [of "Wakeall w (A_runnable us) # fs"]) (use assms(4) k_wakeall(1,2) in auto)
  next
    case (k_move gs)
    show ?thesis by (rule keep [of "gs @ fs"]) (use k_move(1) transit_frames(4) [OF k_move(2)] assms(4) in auto)
  next
    case k_done
    show ?thesis by (rule keep [of fs]) (use k_done(1) below assms(4) in auto)
  qed (rule keep; use assms(4) in simp)+
qed

section \<open>The invariant\<close>

definition sys_inv :: "nat \<Rightarrow> sys \<Rightarrow> bool" where
  "sys_inv n s \<longleftrightarrow> spin_ok s \<and> queue_ok n s \<and> hands_ok s \<and> lock_ok s \<and> sem_ok s \<and> wake_ok n s"

lemma step_inv:
  assumes "sys_inv n s" "step t s = Go s'"
  shows "sys_inv n s'"
proof -
  have i: "spin_ok s" "queue_ok n s" "hands_ok s" "lock_ok s" "sem_ok s" "wake_ok n s" using assms(1) by (simp_all add: sys_inv_def)
  obtain f fs where k: "\<not> asleep s t" "stack s t = f # fs" "kstep t f fs s s'" using step_kstep [OF assms(2)] by blast
  show ?thesis unfolding sys_inv_def
    using kstep_spin [OF i(1) k(2,3)] kstep_queue [OF i(1,2) k(2,1,3)] kstep_hands [OF i(1-3) k(2,1,3)]
      kstep_lock [OF i(1,4) k(2,3)] kstep_sem [OF i(5) k(3)] kstep_wake [OF i(1,2,6) k(2,1,3)] by blast
qed

lemma init_inv: "\<forall>m. 0 \<le>s counts m \<Longrightarrow> sys_inv n (sys_init counts)"
  by (simp add: sys_inv_def sys_init_def spin_ok_def queue_ok_def hands_ok_def lock_ok_def sem_ok_def wake_ok_def spinlock_init_def client_ok_def)

lemma may_call_frame:
  assumes "may_call f L"
  shows "outermost f" "held_frame f = {}" "transit [f] = []" "\<not> going [f] r"
    "client_ok [f] (L - loses f) \<and> (L - loses f) \<union> has [f] = L"
proof -
  show "outermost f" "held_frame f = {}" "transit [f] = []" "\<not> going [f] r"
    using assms by (cases "(f, L)" rule: may_call.cases; simp)+
  show "client_ok [f] (L - loses f) \<and> (L - loses f) \<union> has [f] = L"
    using assms by (cases "(f, L)" rule: may_call.cases) (auto simp: client_ok_def)
qed

lemma call_inv:
  assumes "sys_inv n s" "t < n" "stack s t = []" "may_call f (owned s t)"
  shows "sys_inv n (call t f s)"
proof -
  note m = may_call_frame [OF assms(4)]
  have i: "spin_ok s" "queue_ok n s" "lock_ok s" "sem_ok s" "wake_ok n s" "hands_ok s" using assms(1) by (simp_all add: sys_inv_def)
  have a: "\<not> asleep s t" using queue_okD(9) [OF i(2), of t] assms(3) by auto
  have sel: "spin (call t f s) = spin s" "wc_threads (call t f s) = wc_threads s" "sem_count (call t f s) = sem_count s"
    "lk_val (call t f s) = lk_val s" "holder (call t f s) = holder s" "asleep (call t f s) = asleep s"
    "stack (call t f s) = (stack s)(t := [f])" "owned (call t f s) = (owned s)(t := owned s t - loses f)"
    by (simp_all add: call_def)
  have v: "val (call t f s) r = val s r" for r by (cases r) (simp_all add: sel)
  have "spin_ok (call t f s)" by (rule spin_keep [OF i(1), of "[f]" t]) (use m(1,2) assms(3) in \<open>simp_all add: sel\<close>)
  moreover have "queue_ok n (call t f s)" by (rule queue_keep [OF i(2) a assms(2), of "[f]"]) (use m(3) assms(3) in \<open>simp_all add: sel\<close>)
  moreover have "hands_ok (call t f s)" by (rule hands_keep [OF i(2,6) a, of "[f]"]) (use m(3) assms(3) in \<open>simp_all add: sel\<close>)
  moreover have "lock_ok (call t f s)" by (rule lock_keep [OF i(3), of "[f]" "owned s t - loses f" t]) (use m(5) assms(3) in \<open>simp_all add: sel\<close>)
  moreover have "sem_ok (call t f s)" using i(4) by (simp add: sem_ok_def sel)
  moreover have "wake_ok n (call t f s)" by (rule wake_mono [OF i(5) assms(2), of _ "[f]"]) (use m(4) assms(3) in \<open>simp_all add: sel v\<close>)
  ultimately show ?thesis by (simp add: sys_inv_def)
qed

lemma reach_inv: "reach n counts s \<Longrightarrow> \<forall>m. 0 \<le>s counts m \<Longrightarrow> sys_inv n s"
  by (induction rule: reach.induct) (auto intro: init_inv call_inv step_inv)

section \<open>No assertion fails\<close>

lemma obind_Panic: "obind x f = Panic \<longleftrightarrow> x = Panic \<or> (\<exists>z. x = Go z \<and> f z = Panic)"
  by (cases x) auto

lemma acquire_Panic: "acquire t x s = Panic \<longleftrightarrow> lk_holder (spin s x) = Some t"
  by (simp add: acquire_def obind_Panic spinlock_acquire_def)

lemma release_Panic: "release t x s = Panic \<longleftrightarrow> lk_holder (spin s x) \<noteq> Some t"
  by (simp add: release_def obind_Panic spinlock_release_def)

lemma sleep_Panic: "wchan_sleep t w s = Panic \<longleftrightarrow> lk_holder (spin s (Wc w)) \<noteq> Some t"
  by (simp add: wchan_sleep_def wchan_unlock_def obind_Panic release_Panic)

lemmas panic_simps = step_def obind_Panic acquire_Panic release_Panic sleep_Panic wchan_lock_def lock_do_i_hold_def

lemma step_Panic:
  assumes "sys_inv n s" "step t s = Panic"
  shows "\<exists>m fs. stack s t = Exit (Sem m) X_inc # fs \<and> \<not> 0 <s sem_count s m + 1"
proof -
  have i: "spin_ok s" "lock_ok s" "sem_ok s" using assms(1) by (simp_all add: sys_inv_def)
  obtain f fs where f: "stack s t = f # fs" "\<not> asleep s t" using assms(2) by (cases "stack s t") (auto simp: step_def split: if_splits)
  have wf: "wf_stack (f # fs)" using i(1) f(1) unfolding spin_ok_def by metis
  have h: "lk_holder (spin s x) = Some t \<longleftrightarrow> x \<in> held (f # fs)" for x using i(1) f(1) unfolding spin_ok_def by metis
  have c: "client_ok (f # fs) (owned s t)" using i(2) f(1) unfolding lock_ok_def by metis
  have o: "holder s l = Some t \<longleftrightarrow> l \<in> owned s t \<or> l \<in> has_frame f" for l using i(2) f(1) unfolding lock_ok_def by (metis has.simps(2))
  have l: "lk_val s l = (if holder s l = None then 1 else 0)" for l using i(2) unfolding lock_ok_def by blast
  have pos: "sem_count s m \<noteq> 0 \<Longrightarrow> 0 <s sem_count s m" for m
    using i(3) by (simp add: sem_ok_def sle_unat sless_unat unat_gt_0)
  have one: "0 <s (1 :: 32 word)" by (simp add: sless_unat)
  show ?thesis
  proof (cases f)
    case (Enter r q)
    have own: "r = Lock m \<Longrightarrow> m \<notin> owned s t" for m using c Enter by (auto simp: client_ok_def)
    have fs: "held fs = {}" using wf Enter by (auto elim: wf_cases)
    show ?thesis using assms(2) f Enter fs own pos one o h l by (cases r; cases q) (auto simp: panic_simps split: if_splits)
  next
    case (Exit r q)
    then have "Inner r \<notin> held fs" using wf by (auto elim: wf_cases)
    moreover have "r = Lock m \<Longrightarrow> q \<noteq> X_release \<Longrightarrow> holder s m = Some t" for m using o Exit by simp
    ultimately show ?thesis using assms(2) f Exit h l one by (cases r; cases q) (auto simp: panic_simps split: if_splits)
  next
    case (Wakeone w q)
    then have "Wc w \<notin> held fs" using wf by (auto elim: wf_cases)
    then show ?thesis using assms(2) f Wakeone h by (cases q) (auto simp: panic_simps wchan_remhead_def split: option.splits list.splits)
  next
    case (Wakeall w q)
    then have "Wc w \<notin> held fs" using wf by (auto elim: wf_cases)
    then show ?thesis using assms(2) f Wakeall h by (cases q) (auto simp: panic_simps wchan_remhead_def split: option.splits list.splits)
  next
    case (Cv_wait x y q)
    then have "fs = []" using wf by (auto elim: wf_cases)
    then show ?thesis using assms(2) f Cv_wait h by (cases q) (auto simp: panic_simps)
  next
    case (Cv_signal x y q)
    then show ?thesis using assms(2) f c o by (cases q) (auto simp: panic_simps client_ok_def split: if_splits)
  next
    case (Cv_broadcast x y q)
    then show ?thesis using assms(2) f c o by (cases q) (auto simp: panic_simps client_ok_def split: if_splits)
  qed
qed

section \<open>Progress\<close>

lemma obind_Wait: "obind x f = Wait \<longleftrightarrow> x = Wait \<or> (\<exists>z. x = Go z \<and> f z = Wait)"
  by (cases x) auto

lemma acquire_Wait: "acquire t x s = Wait \<Longrightarrow> lk_lock (spin s x)"
  by (auto simp: acquire_def obind_Wait spinlock_acquire_def split: if_splits)

lemma release_Wait: "release t x s \<noteq> Wait" "wchan_sleep t w s \<noteq> Wait"
  by (simp_all add: release_def wchan_sleep_def wchan_unlock_def obind_Wait spinlock_release_def)

lemma step_Wait:
  assumes "step t s = Wait" "stack s t = f # fs" "\<not> asleep s t"
  shows "\<exists>x gs. acq f = Some (x, gs) \<and> lk_lock (spin s x)"
proof -
  note w = step_def obind_Wait release_Wait wchan_lock_def wchan_remhead_def
  show ?thesis
  proof (cases f)
    case (Enter r q)
    then show ?thesis using assms by (cases r; cases q) (auto simp: w dest!: acquire_Wait split: if_splits)
  next
    case (Exit r q)
    then show ?thesis using assms by (cases r; cases q) (auto simp: w dest!: acquire_Wait split: if_splits)
  next
    case (Wakeone x q)
    then show ?thesis using assms by (cases q) (auto simp: w dest!: acquire_Wait split: option.splits list.splits)
  next
    case (Wakeall x q)
    then show ?thesis using assms by (cases q) (auto simp: w dest!: acquire_Wait split: option.splits list.splits)
  next
    case (Cv_wait x y q)
    then show ?thesis using assms by (cases q) (auto simp: w dest!: acquire_Wait)
  next
    case (Cv_signal x y q)
    then show ?thesis using assms by (cases q) (auto simp: w split: if_splits)
  next
    case (Cv_broadcast x y q)
    then show ?thesis using assms by (cases q) (auto simp: w split: if_splits)
  qed
qed

text \<open>Spinlocks are taken in order: of condition variables, of semaphores and locks, of their channels.\<close>

fun rank :: "slock \<Rightarrow> nat" where
  "rank (Wc (Cv c)) = 0"
| "rank (Inner r) = 1"
| "rank (Wc (Of r)) = 2"

lemma rank_order:
  assumes "wf_stack (f # fs)" "acq f = Some (y, gs)" "x \<in> held (f # fs)"
  shows "rank x < rank y"
  using assms(1) by (cases rule: wf_cases) (use assms(2,3) in \<open>cases f rule: acq.cases; auto\<close>)+

lemma sleeper_holds_nothing: "wf_stack fs \<Longrightarrow> waits fs \<noteq> None \<Longrightarrow> held fs = {}"
  by (cases fs rule: waits.cases) (auto elim: wf_cases)

lemma someone_steps:
  assumes "sys_inv n s"
  shows "stack s t \<noteq> [] \<Longrightarrow> \<not> asleep s t \<Longrightarrow> \<exists>u < n. step u s \<noteq> Wait"
proof -
  have i: "spin_ok s" "queue_ok n s" using assms by (simp_all add: sys_inv_def)
  have below: "u < n" if "stack s u \<noteq> []" for u using queue_okD(1) [OF i(2), of u] that by (cases "u < n") auto
  have main: "stack s t = f # fs \<Longrightarrow> acq f = Some (x, gs) \<Longrightarrow> lk_lock (spin s x) \<Longrightarrow> \<exists>u < n. step u s \<noteq> Wait" for t f fs x gs
  proof (induction "3 - rank x" arbitrary: t f fs x gs rule: less_induct)
    case less
    obtain u where u: "x \<in> held (stack s u)" using less.prems(3) i(1) unfolding spin_ok_def by (metis not_None_eq)
    have wf: "wf_stack (stack s u)" using i(1) unfolding spin_ok_def by blast
    have a: "\<not> asleep s u" using queue_okD(9) [OF i(2), of u] sleeper_holds_nothing [OF wf] u by auto
    obtain g hs where g: "stack s u = g # hs" using u by (cases "stack s u") auto
    show ?case
    proof (cases "step u s = Wait")
      case True
      obtain y ks where y: "acq g = Some (y, ks)" "lk_lock (spin s y)" using step_Wait [OF True g a] by blast
      have "rank x < rank y" using rank_order [of g hs y ks x] wf u y(1) g by simp
      moreover have "rank y < 3" by (cases y rule: rank.cases) simp_all
      ultimately have "3 - rank y < 3 - rank x" by linarith
      then show ?thesis using less.hyps g y by blast
    next
      case False
      then show ?thesis using below [of u] g by auto
    qed
  qed
  assume t: "stack s t \<noteq> []" "\<not> asleep s t"
  then obtain f fs where f: "stack s t = f # fs" by (cases "stack s t") auto
  show ?thesis
  proof (cases "step t s = Wait")
    case True
    then show ?thesis using step_Wait [OF True f t(2)] main [OF f] by blast
  next
    case False
    then show ?thesis using below [of t] t(1) by auto
  qed
qed

section \<open>Lost wake-ups\<close>

text \<open>A stack works on a semaphore or lock if one of its functions was called for it.\<close>

definition works_on :: "frame list \<Rightarrow> res \<Rightarrow> bool" where
  "works_on fs r \<longleftrightarrow> (\<exists>p. Enter r p \<in> set fs) \<or> (\<exists>p. Exit r p \<in> set fs)"

lemma awake_frames: "queue_ok n s \<Longrightarrow> waits (stack s u) = None \<Longrightarrow> \<not> asleep s u"
  using queue_okD(9) by fastforce

lemma waker_works:
  assumes "sys_inv n s" "at_channel (stack s u) = Some (Of r)"
  shows "u < n \<and> \<not> asleep s u \<and> works_on (stack s u) r"
proof -
  have i: "spin_ok s" "queue_ok n s" using assms(1) by (simp_all add: sys_inv_def)
  have "stack s u \<noteq> []" using assms(2) by auto
  then have un: "u < n" using queue_okD(1) [OF i(2), of u] by (cases "u < n") auto
  obtain f fs where f: "stack s u = f # fs" using \<open>stack s u \<noteq> []\<close> by (cases "stack s u") auto
  have wf: "wf_stack (f # fs)" using i(1) f unfolding spin_ok_def by metis
  have "waits (stack s u) = None" using assms(2) f by (cases f) auto
  moreover have "works_on (stack s u) r" using wf assms(2) f by (cases rule: wf_cases) (auto simp: works_on_def elim: outermost.elims)
  ultimately show ?thesis using un awake_frames [OF i(2)] by blast
qed

lemma wakeup_under_way:
  assumes "sys_inv n s" "asleep s t" "waits (stack s t) = Some (Of r)" "val s r \<noteq> 0"
  shows "\<exists>u < n. \<not> asleep s u \<and> works_on (stack s u) r"
proof -
  have i: "queue_ok n s" "hands_ok s" "wake_ok n s" using assms(1) by (simp_all add: sys_inv_def)
  have carried: ?thesis if "v \<in> set (transit (stack s u))" "waits (stack s v) = Some (Of r)" for u v
    using that i(2) waker_works [OF assms(1), of u r] unfolding hands_ok_def by metis
  show ?thesis
  proof (cases "t \<in> set (wc_threads s (Of r))")
    case False
    then show ?thesis using queue_okD(9) [OF i(1) assms(2)] assms(3) carried by auto
  next
    case True
    then have "wc_threads s (Of r) \<noteq> []" by auto
    then have "0 < pending n s r" using i(3) assms(4) unfolding wake_ok_def by fastforce
    then obtain u where u: "u < n" "pends s r u" unfolding pending_def by (metis (mono_tags, lifting) of_bool_eq(1) lessThan_iff less_numeral_extra(3) sum.neutral)
    show ?thesis
    proof (cases "asleep s u")
      case False
      have "works_on (stack s u) r \<or> at_channel (stack s u) = Some (Of r)"
        using u(2) unfolding pends_def works_on_def by (cases "(stack s u, r, u \<in> set (wc_threads s (Of r)))" rule: pend.cases) auto
      then show ?thesis using u(1) False waker_works [OF assms(1)] by blast
    next
      case asleep: True
      obtain w where w: "waits (stack s u) = Some w" "u \<in> set (wc_threads s w) \<or> (\<exists>v. u \<in> set (transit (stack s v)))"
        using queue_okD(9) [OF i(1) asleep] by blast
      have "w = Of r \<and> u \<notin> set (wc_threads s (Of r))"
        using u(2) w(1) unfolding pends_def by (cases "stack s u" rule: waits.cases) auto
      then show ?thesis using w carried by blast
    qed
  qed
qed

section \<open>Properties\<close>

text \<open>C5.
  The synchronisation functions are safe.  In every state that any number of threads can
  reach by calling P, V, lock_acquire, lock_release, cv_wait, cv_signal and cv_broadcast in any
  order and interleaving, releasing and waiting only with locks they own, no assertion of
  the functions or of the spinlocks and wait channels below them can fail, except
  that V stops the machine when it counts past the largest integer.  No two threads own
  the same lock at a time, and a thread that owns a lock is its holder.
\<close>

theorem synch_safe:
  assumes "reach n counts s" "\<forall>m. 0 \<le>s counts m"
  shows "(step t s = Panic \<longrightarrow> (\<exists>m fs. stack s t = Exit (Sem m) X_inc # fs \<and> \<not> 0 <s sem_count s m + 1)) \<and>
    (l \<in> owned s t \<longrightarrow> holder s l = Some t) \<and> (l \<in> owned s t \<and> l \<in> owned s u \<longrightarrow> t = u)"
proof -
  have i: "sys_inv n s" by (rule reach_inv [OF assms])
  then have "holder s l = Some v" if "l \<in> owned s v" for v using that by (simp add: sys_inv_def lock_ok_def)
  then show ?thesis using step_Panic [OF i] by (metis option.inject)
qed

text \<open>C4.
  No wake-up is lost.  Whenever a thread sleeps waiting for a semaphore whose count is not zero, or
  for a lock that is free, some thread is awake inside one of the functions on that very
  semaphore or lock: it has yet to wake a sleeper, is carrying one to a run queue, or was woken
  and is about to try again.
\<close>

theorem no_lost_wakeup:
  assumes "reach n counts s" "\<forall>m. 0 \<le>s counts m" "asleep s t" "waits (stack s t) = Some (Of r)" "val s r \<noteq> 0"
  shows "\<exists>u < n. \<not> asleep s u \<and> works_on (stack s u) r"
  by (rule wakeup_under_way [OF reach_inv [OF assms(1,2)] assms(3-5)])

text \<open>C6.
  The spinlocks inside the synchronisation functions cannot deadlock: as long as a thread that is not
  asleep is inside one of them, some thread can take a step.
\<close>

theorem synch_progress:
  assumes "reach n counts s" "\<forall>m. 0 \<le>s counts m" "stack s t \<noteq> []" "\<not> asleep s t"
  shows "\<exists>u < n. step u s \<noteq> Wait"
  by (rule someone_steps [OF reach_inv [OF assms(1,2)] assms(3,4)])

text \<open>
  Destruction goes through exactly when no thread is at work under one of the spinlocks, none
  sleeps on the channel and, for a lock, none holds it.
\<close>

lemma cleanup_iff: "spin_ok s \<Longrightarrow> spinlock_cleanup (spin s x) = Some () \<longleftrightarrow> (\<forall>t. x \<notin> held (stack s t))"
  by (auto simp: spin_ok_def spinlock_cleanup_def KASSERT_def)

lemma wchan_destroy_iff:
  "spin_ok s \<Longrightarrow> wchan_destroy w s = Some () \<longleftrightarrow> (\<forall>t. Wc w \<notin> held (stack s t)) \<and> wc_threads s w = []"
  using cleanup_iff [of s "Wc w"] by (cases "spinlock_cleanup (spin s (Wc w))") (auto simp: wchan_destroy_def KASSERT_def)

lemma sem_destroy_iff:
  "spin_ok s \<Longrightarrow> sem_destroy m s = Some () \<longleftrightarrow>
    (\<forall>t. Inner (Sem m) \<notin> held (stack s t) \<and> Wc (Of (Sem m)) \<notin> held (stack s t)) \<and> wc_threads s (Of (Sem m)) = []"
  using cleanup_iff [of s "Inner (Sem m)"] wchan_destroy_iff [of s "Of (Sem m)"]
  by (cases "spinlock_cleanup (spin s (Inner (Sem m)))") (auto simp: sem_destroy_def)

lemma lock_destroy_iff:
  "spin_ok s \<Longrightarrow> lock_destroy l s = Some () \<longleftrightarrow> holder s l = None \<and>
    (\<forall>t. Inner (Lock l) \<notin> held (stack s t) \<and> Wc (Of (Lock l)) \<notin> held (stack s t)) \<and> wc_threads s (Of (Lock l)) = []"
  using cleanup_iff [of s "Inner (Lock l)"] wchan_destroy_iff [of s "Of (Lock l)"]
  by (cases "spinlock_cleanup (spin s (Inner (Lock l)))") (auto simp: lock_destroy_def KASSERT_def)

text \<open>
  Destroying a lock that is in use stops the machine rather than freeing it: in no reachable state does
  lock_destroy return while a thread owns the lock, holds one of its spinlocks, or waits on its
  channel; and it does return in every other state.  The same holds of semaphores, which have no owner.
\<close>

theorem destroy_in_use:
  assumes "reach n counts s" "\<forall>m. 0 \<le>s counts m"
  shows "(lock_destroy l s = Some () \<longleftrightarrow> holder s l = None \<and>
      (\<forall>t. Inner (Lock l) \<notin> held (stack s t) \<and> Wc (Of (Lock l)) \<notin> held (stack s t)) \<and> wc_threads s (Of (Lock l)) = []) \<and>
    (l \<in> owned s t \<longrightarrow> lock_destroy l s = None) \<and>
    (sem_destroy m s = Some () \<longleftrightarrow>
      (\<forall>t. Inner (Sem m) \<notin> held (stack s t) \<and> Wc (Of (Sem m)) \<notin> held (stack s t)) \<and> wc_threads s (Of (Sem m)) = [])"
proof -
  have i: "spin_ok s" "lock_ok s" using reach_inv [OF assms] by (simp_all add: sys_inv_def)
  have "holder s l = Some t" if "l \<in> owned s t" using i(2) that by (simp add: lock_ok_def)
  then show ?thesis using lock_destroy_iff [OF i(1), of l] sem_destroy_iff [OF i(1), of m] by (auto simp: lock_destroy_def)
qed

text \<open>
  A run of two threads for the witnesses: thread 0 calls P on a semaphore of count 0 and falls asleep; thread 1 calls V
  and has counted up.
\<close>

definition run :: "nat list \<Rightarrow> sys \<Rightarrow> sys outcome" where
  "run ts s = fold (\<lambda>t x. obind x (step t)) ts (Go s)"

lemma run_reach: "reach n counts s \<Longrightarrow> list_all (\<lambda>t. t < n) ts \<Longrightarrow> run ts s = Go s' \<Longrightarrow> reach n counts s'"
proof -
  have f: "fold (\<lambda>t x. obind x (step t)) ts' y \<noteq> Go s'" if "y = Wait \<or> y = Panic" for ts' y
    using that by (induction ts' arbitrary: y) auto
  show "reach n counts s \<Longrightarrow> list_all (\<lambda>t. t < n) ts \<Longrightarrow> run ts s = Go s' \<Longrightarrow> reach n counts s'"
  proof (induction ts arbitrary: s)
    case (Cons t ts)
    obtain s1 where "step t s = Go s1" using Cons.prems(3) f by (cases "step t s") (auto simp: run_def)
    then show ?case using Cons by (auto simp: run_def intro: reach_step)
  qed (simp add: run_def)
qed

fun the_go :: "sys outcome \<Rightarrow> sys" where
  "the_go (Go s) = s"
| "the_go _ = sys_init (\<lambda>_. 0)"

definition demo_asleep :: sys where
  "demo_asleep = the_go (run [0, 0, 0, 0, 0] (call 0 (Enter (Sem 0) E_acquire) (sys_init (\<lambda>_. 0))))"

definition demo_given :: sys where
  "demo_given = the_go (run [1, 1] (call 1 (Exit (Sem 0) X_acquire) demo_asleep))"

definition demo_owner :: sys where
  "demo_owner = the_go (run [1, 1, 1] (call 1 (Enter (Lock 3) E_acquire) (sys_init (\<lambda>_. 0))))"

lemmas demo_simps = run_def step_def call_def acquire_def release_def goto_def ret_def wchan_lock_def wchan_unlock_def wchan_sleep_def
  spinlock_acquire_def spinlock_release_def sys_init_def spinlock_init_def sless_unat

lemma the_go_run: "x = Go s \<Longrightarrow> x = Go (the_go x)"
  by simp

lemma demo_runs:
  "run [0, 0, 0, 0, 0] (call 0 (Enter (Sem 0) E_acquire) (sys_init (\<lambda>_. 0))) = Go demo_asleep"
  "stack demo_asleep 1 = []"
  "run [1, 1] (call 1 (Exit (Sem 0) X_acquire) demo_asleep) = Go demo_given"
  "run [1, 1, 1] (call 1 (Enter (Lock 3) E_acquire) (sys_init (\<lambda>_. 0))) = Go demo_owner"
proof -
  show "run [0, 0, 0, 0, 0] (call 0 (Enter (Sem 0) E_acquire) (sys_init (\<lambda>_. 0))) = Go demo_asleep" "stack demo_asleep 1 = []"
    by (simp_all add: demo_asleep_def demo_simps)
  show "run [1, 1] (call 1 (Exit (Sem 0) X_acquire) demo_asleep) = Go demo_given"
    by (simp add: demo_given_def demo_asleep_def demo_simps)
  show "run [1, 1, 1] (call 1 (Enter (Lock 3) E_acquire) (sys_init (\<lambda>_. 0))) = Go demo_owner"
    by (simp add: demo_owner_def demo_simps)
qed

lemma demo_reach: "reach 2 (\<lambda>_. 0) demo_given" "reach 2 (\<lambda>_. 0) demo_owner"
proof -
  have i: "reach 2 (\<lambda>_. 0) (sys_init (\<lambda>_. 0))" by (rule reach_init)
  have "reach 2 (\<lambda>_. 0) (call 0 (Enter (Sem 0) E_acquire) (sys_init (\<lambda>_. 0)))" by (rule reach_call [OF i]) (simp_all add: sys_init_def)
  then have a: "reach 2 (\<lambda>_. 0) demo_asleep" by (rule run_reach [OF _ _ demo_runs(1)]) simp
  have "reach 2 (\<lambda>_. 0) (call 1 (Exit (Sem 0) X_acquire) demo_asleep)" by (rule reach_call [OF a]) (simp_all add: demo_runs(2) [simplified])
  then show "reach 2 (\<lambda>_. 0) demo_given" by (rule run_reach [OF _ _ demo_runs(3)]) simp
  have "reach 2 (\<lambda>_. 0) (call 1 (Enter (Lock 3) E_acquire) (sys_init (\<lambda>_. 0)))" by (rule reach_call [OF i]) (simp_all add: sys_init_def)
  then show "reach 2 (\<lambda>_. 0) demo_owner" by (rule run_reach [OF _ _ demo_runs(4)]) simp
qed

lemma demo_state: "asleep demo_given 0" "waits (stack demo_given 0) = Some (Of (Sem 0))" "val demo_given (Sem 0) = 1"
    "\<not> asleep demo_given 1" "stack demo_given 1 \<noteq> []" "owned demo_owner 1 = {3}"
  by (simp_all add: demo_given_def demo_asleep_def demo_owner_def demo_simps)

theorem synch_safe_witness: "holder demo_owner 3 = Some 1"
  using synch_safe [OF demo_reach(2), of 1 3] demo_state(6) by (simp add: sle_unat)

theorem destroy_in_use_witness: "lock_destroy 3 demo_owner = None"
  using destroy_in_use [OF demo_reach(2), of 3 1] demo_state(6) by (simp add: sle_unat)

theorem no_lost_wakeup_witness: "\<exists>u < 2. \<not> asleep demo_given u \<and> works_on (stack demo_given u) (Sem 0)"
  by (rule no_lost_wakeup [OF demo_reach(1) _ demo_state(1,2)]) (simp_all add: demo_state(3) [simplified] sle_unat)

theorem synch_progress_witness: "\<exists>u < 2. step u demo_given \<noteq> Wait"
  by (rule synch_progress [OF demo_reach(1) _ demo_state(5,4)]) (simp add: sle_unat)

end
