(* ===== verification/Kmalloc.thy ===== *)
theory Kmalloc
  imports Addrspace
begin

text \<open>
  The kernel's memory allocator, kern/vm/kmalloc.c.  Small blocks are cut from pages of blocks
  of one size.  A page has a pageref record; the free blocks of a page are linked through their
  own first words.  The memory of the kernel is a map from the addresses of words to words;
  addresses are natural numbers, a pageref is given by its index, and NULL is 0 or \<open>None\<close>.  A
  failed assertion, a panic and a list that has no end make the result \<open>None\<close>.

  The allocator gives up its spinlock around the calls of alloc_kpages and free_kpages, so
  other threads may run in between.  The sections between these calls are definitions of their own:
  \<open>subpage_scan\<close>, \<open>subpage_grow\<close> and \<open>subpage_release\<close>.  The page allocator is an argument
  of the functions that call it.
\<close>

section \<open>Page references\<close>

definition sizes :: "nat list" where
  "sizes = [16, 32, 64, 128, 256, 512, 1024, 2048]"

definition NSIZES :: nat where "NSIZES = 8"
definition LARGEST_SUBPAGE_SIZE :: nat where "LARGEST_SUBPAGE_SIZE = 2048"
definition INVALID_OFFSET :: nat where "INVALID_OFFSET = 0xffff"
definition NPAGEREFS :: nat where "NPAGEREFS = 256"
definition INUSE_WORDS :: nat where "INUSE_WORDS = 8"

record pageref =
  next_samesize :: "nat option"
  next_all :: "nat option"
  pageaddr_and_blocktype :: "32 word"
  freelist_offset :: nat
  nfree :: nat

definition PR_PAGEADDR :: "pageref \<Rightarrow> nat" where
  "PR_PAGEADDR pr = unat (pageaddr_and_blocktype pr AND PAGE_FRAME)"

definition PR_BLOCKTYPE :: "pageref \<Rightarrow> nat" where
  "PR_BLOCKTYPE pr = unat (pageaddr_and_blocktype pr AND NOT PAGE_FRAME)"

definition MKPAB :: "nat \<Rightarrow> nat \<Rightarrow> 32 word" where
  "MKPAB pa blk = (word_of_nat pa AND PAGE_FRAME) OR (word_of_nat blk AND NOT PAGE_FRAME)"

record kheap =
  pagerefs :: "nat \<Rightarrow> pageref"
  pagerefs_inuse :: "32 word list"
  sizebases :: "nat \<Rightarrow> nat option"
  allbase :: "nat option"
  mem :: "nat \<Rightarrow> nat"

definition free_bit :: "32 word \<Rightarrow> nat option" where
  "free_bit w = find (\<lambda>j. w AND push_bit j 1 = 0) [0..<32]"

fun allocpageref_from :: "kheap \<Rightarrow> nat list \<Rightarrow> (nat option \<times> kheap) option" where
  "allocpageref_from h [] = Some (None, h)"
| "allocpageref_from h (i # is) =
    (if pagerefs_inuse h ! i = 0xffffffff then allocpageref_from h is
     else do {
       j \<leftarrow> free_bit (pagerefs_inuse h ! i);
       Some (Some (i * 32 + j), h\<lparr>pagerefs_inuse := (pagerefs_inuse h)[i := pagerefs_inuse h ! i OR push_bit j 1]\<rparr>) })"

definition allocpageref :: "kheap \<Rightarrow> (nat option \<times> kheap) option" where
  "allocpageref h = allocpageref_from h [0..<INUSE_WORDS]"

definition freepageref :: "kheap \<Rightarrow> nat \<Rightarrow> kheap option" where
  "freepageref h j = do {
    KASSERT (j < NPAGEREFS);
    let i = j div 32;
    let k = push_bit (j mod 32) 1;
    KASSERT (pagerefs_inuse h ! i AND k \<noteq> 0);
    Some (h\<lparr>pagerefs_inuse := (pagerefs_inuse h)[i := pagerefs_inuse h ! i AND NOT k]\<rparr>) }"

definition set_pr :: "nat \<Rightarrow> pageref \<Rightarrow> kheap \<Rightarrow> kheap" where
  "set_pr x pr h = h\<lparr>pagerefs := (pagerefs h)(x := pr)\<rparr>"

section \<open>Removing a page from the lists\<close>

text \<open>The variable \<open>guy\<close> points to the base of a list or to a link in a pageref.\<close>

datatype guy = Base | Link nat

fun get_same :: "kheap \<Rightarrow> nat \<Rightarrow> guy \<Rightarrow> nat option" where
  "get_same h b Base = sizebases h b"
| "get_same h b (Link x) = next_samesize (pagerefs h x)"

fun set_same :: "kheap \<Rightarrow> nat \<Rightarrow> guy \<Rightarrow> nat option \<Rightarrow> kheap" where
  "set_same h b Base p = h\<lparr>sizebases := (sizebases h)(b := p)\<rparr>"
| "set_same h b (Link x) p = set_pr x (pagerefs h x\<lparr>next_samesize := p\<rparr>) h"

fun get_all :: "kheap \<Rightarrow> guy \<Rightarrow> nat option" where
  "get_all h Base = allbase h"
| "get_all h (Link x) = next_all (pagerefs h x)"

fun set_all :: "kheap \<Rightarrow> guy \<Rightarrow> nat option \<Rightarrow> kheap" where
  "set_all h Base p = h\<lparr>allbase := p\<rparr>"
| "set_all h (Link x) p = set_pr x (pagerefs h x\<lparr>next_all := p\<rparr>) h"

partial_function (option) remove_same :: "kheap \<Rightarrow> nat \<Rightarrow> nat \<Rightarrow> guy \<Rightarrow> kheap option" where
  "remove_same h pr b guy = (case get_same h b guy of
      None \<Rightarrow> Some h
    | Some x \<Rightarrow> if x = pr then Some (set_same h b guy (next_samesize (pagerefs h pr)))
        else remove_same h pr b (Link x))"

partial_function (option) remove_all :: "kheap \<Rightarrow> nat \<Rightarrow> guy \<Rightarrow> kheap option" where
  "remove_all h pr guy = (case get_all h guy of
      None \<Rightarrow> Some h
    | Some x \<Rightarrow> if x = pr then Some (set_all h guy (next_all (pagerefs h pr)))
        else remove_all h pr (Link x))"

definition remove_lists :: "kheap \<Rightarrow> nat \<Rightarrow> nat \<Rightarrow> kheap option" where
  "remove_lists h pr blktype = do {
    KASSERT (blktype < NSIZES);
    h \<leftarrow> remove_same h pr blktype Base;
    remove_all h pr Base }"

section \<open>Allocation\<close>

definition blocktype :: "nat \<Rightarrow> nat option" where
  "blocktype sz = find (\<lambda>i. sz \<le> sizes ! i) [0..<NSIZES]"

text \<open>The part at the label doalloc: take the first free block of a page.\<close>

definition doalloc :: "kheap \<Rightarrow> nat \<Rightarrow> (nat \<times> kheap) option" where
  "doalloc h x = do {
    let pr = pagerefs h x;
    KASSERT (freelist_offset pr < 4096);
    let prpage = PR_PAGEADDR pr;
    let fla = prpage + freelist_offset pr;
    let fl = mem h fla;
    let pr = pr\<lparr>nfree := nfree pr - 1\<rparr>;
    if fl \<noteq> 0 then do {
      KASSERT (nfree pr > 0);
      KASSERT (prpage \<le> fl \<and> fl - prpage < 4096);
      Some (fla, set_pr x (pr\<lparr>freelist_offset := fl - prpage\<rparr>) h) }
    else do {
      KASSERT (nfree pr = 0);
      Some (fla, set_pr x (pr\<lparr>freelist_offset := INVALID_OFFSET\<rparr>) h) } }"

partial_function (option) scan_pages :: "kheap \<Rightarrow> nat \<Rightarrow> nat option \<Rightarrow> (nat option \<times> kheap) option" where
  "scan_pages h b p = (case p of
      None \<Rightarrow> Some (None, h)
    | Some x \<Rightarrow> do {
        KASSERT (PR_BLOCKTYPE (pagerefs h x) = b);
        if nfree (pagerefs h x) > 0 then do { (r, h) \<leftarrow> doalloc h x; Some (Some r, h) }
        else scan_pages h b (next_samesize (pagerefs h x)) })"

definition subpage_scan :: "kheap \<Rightarrow> nat \<Rightarrow> (nat option \<times> kheap) option" where
  "subpage_scan h blktype = scan_pages h blktype (sizebases h blktype)"

text \<open>Linking the blocks of a fresh page, the last one first.\<close>

fun link_blocks :: "nat \<Rightarrow> nat \<Rightarrow> nat list \<Rightarrow> (nat \<Rightarrow> nat) \<Rightarrow> (nat \<Rightarrow> nat) option" where
  "link_blocks fla sz [] m = Some m"
| "link_blocks fla sz (i # is) m = do {
    let m = m(fla + i * sz := fla + (i - 1) * sz);
    KASSERT (fla + i * sz \<noteq> m (fla + i * sz));
    link_blocks fla sz is m }"

definition subpage_grow :: "kheap \<Rightarrow> nat \<Rightarrow> nat \<Rightarrow> (nat option \<times> kheap) option" where
  "subpage_grow h blktype prpage = do {
    (p, h) \<leftarrow> allocpageref h;
    case p of
      None \<Rightarrow> Some (None, h)
    | Some x \<Rightarrow> do {
        let n = 4096 div sizes ! blktype;
        m \<leftarrow> link_blocks prpage (sizes ! blktype) [1..<n] ((mem h)(prpage := 0));
        let fla = prpage + (n - 1) * sizes ! blktype;
        let offset = fla - prpage;
        KASSERT (offset = (n - 1) * sizes ! blktype);
        let pr = \<lparr>next_samesize = sizebases h blktype, next_all = allbase h,
          pageaddr_and_blocktype = MKPAB prpage blktype, freelist_offset = offset, nfree = n\<rparr>;
        (r, h) \<leftarrow> doalloc ((set_pr x pr h)\<lparr>sizebases := (sizebases h)(blktype := Some x), allbase := Some x, mem := m\<rparr>) x;
        Some (Some r, h) } }"

definition subpage_kmalloc :: "('v \<Rightarrow> nat \<Rightarrow> (nat option \<times> 'v) option) \<Rightarrow> ('v \<Rightarrow> nat \<Rightarrow> 'v option) \<Rightarrow>
    kheap \<Rightarrow> 'v \<Rightarrow> nat \<Rightarrow> (nat option \<times> kheap \<times> 'v) option" where
  "subpage_kmalloc alloc_pages free_pages h v sz = do {
    blktype \<leftarrow> blocktype sz;
    (r, h) \<leftarrow> subpage_scan h blktype;
    case r of
      Some p \<Rightarrow> Some (Some p, h, v)
    | None \<Rightarrow> do {
        (pg, v) \<leftarrow> alloc_pages v 1;
        case pg of
          None \<Rightarrow> Some (None, h, v)
        | Some prpage \<Rightarrow> do {
            (r, h) \<leftarrow> subpage_grow h blktype prpage;
            case r of
              Some p \<Rightarrow> Some (Some p, h, v)
            | None \<Rightarrow> do { v \<leftarrow> free_pages v prpage; Some (None, h, v) } } } }"

section \<open>Release\<close>

fun fill_deadbeef :: "nat \<Rightarrow> nat list \<Rightarrow> (nat \<Rightarrow> nat) \<Rightarrow> (nat \<Rightarrow> nat)" where
  "fill_deadbeef ptr [] m = m"
| "fill_deadbeef ptr (i # is) m = fill_deadbeef ptr is (m(ptr + 4 * i := 0xdeadbeef))"

partial_function (option) find_page :: "kheap \<Rightarrow> nat \<Rightarrow> nat option \<Rightarrow> nat option option" where
  "find_page h ptraddr p = (case p of
      None \<Rightarrow> Some None
    | Some x \<Rightarrow> do {
        KASSERT (PR_BLOCKTYPE (pagerefs h x) < NSIZES);
        if PR_PAGEADDR (pagerefs h x) \<le> ptraddr \<and> ptraddr < PR_PAGEADDR (pagerefs h x) + 4096 then Some (Some x)
        else find_page h ptraddr (next_all (pagerefs h x)) })"

text \<open>What is left to do after the section: nothing, give back a page, or treat it as a large block.\<close>

datatype released = Kept | Page_free nat | Not_ours

definition subpage_release :: "kheap \<Rightarrow> nat \<Rightarrow> (released \<times> kheap) option" where
  "subpage_release h ptraddr = do {
    p \<leftarrow> find_page h ptraddr (allbase h);
    case p of
      None \<Rightarrow> Some (Not_ours, h)
    | Some x \<Rightarrow> do {
        let pr = pagerefs h x;
        let prpage = PR_PAGEADDR pr;
        let blktype = PR_BLOCKTYPE pr;
        let offset = ptraddr - prpage;
        KASSERT (\<not> (offset \<ge> 4096 \<or> offset mod sizes ! blktype \<noteq> 0));
        let m = fill_deadbeef ptraddr [0..<sizes ! blktype div 4] (mem h);
        let m = m(prpage + offset := if freelist_offset pr = INVALID_OFFSET then 0 else prpage + freelist_offset pr);
        let pr = pr\<lparr>freelist_offset := offset, nfree := nfree pr + 1\<rparr>;
        let h = set_pr x pr (h\<lparr>mem := m\<rparr>);
        KASSERT (nfree pr \<le> 4096 div sizes ! blktype);
        if nfree pr = 4096 div sizes ! blktype then do {
          h \<leftarrow> remove_lists h x blktype;
          h \<leftarrow> freepageref h x;
          Some (Page_free prpage, h) }
        else Some (Kept, h) } }"

definition subpage_kfree :: "('v \<Rightarrow> nat \<Rightarrow> 'v option) \<Rightarrow> kheap \<Rightarrow> 'v \<Rightarrow> nat \<Rightarrow> (bool \<times> kheap \<times> 'v) option" where
  "subpage_kfree free_pages h v ptr = do {
    (r, h) \<leftarrow> subpage_release h ptr;
    case r of
      Not_ours \<Rightarrow> Some (False, h, v)
    | Page_free prpage \<Rightarrow> do { v \<leftarrow> free_pages v prpage; Some (True, h, v) }
    | Kept \<Rightarrow> Some (True, h, v) }"

section \<open>The interface\<close>

definition kmalloc :: "('v \<Rightarrow> nat \<Rightarrow> (nat option \<times> 'v) option) \<Rightarrow> ('v \<Rightarrow> nat \<Rightarrow> 'v option) \<Rightarrow>
    kheap \<Rightarrow> 'v \<Rightarrow> nat \<Rightarrow> (nat option \<times> kheap \<times> 'v) option" where
  "kmalloc alloc_pages free_pages h v sz =
    (if sz \<ge> LARGEST_SUBPAGE_SIZE then do {
       let npages = (sz + 4096 - 1) mod 2 ^ 32 div 4096;
       (r, v) \<leftarrow> alloc_pages v npages;
       Some (r, h, v) }
     else subpage_kmalloc alloc_pages free_pages h v sz)"

definition kfree :: "('v \<Rightarrow> nat \<Rightarrow> 'v option) \<Rightarrow> kheap \<Rightarrow> 'v \<Rightarrow> nat option \<Rightarrow> (kheap \<times> 'v) option" where
  "kfree free_pages h v ptr = (case ptr of
      None \<Rightarrow> Some (h, v)
    | Some p \<Rightarrow> do {
        (ours, h, v) \<leftarrow> subpage_kfree free_pages h v p;
        if ours then Some (h, v)
        else do {
          KASSERT (p mod 4096 = 0);
          v \<leftarrow> free_pages v p;
          Some (h, v) } })"

text \<open>The allocator as the kernel starts: no page, no block.\<close>

definition kheap_boot :: "(nat \<Rightarrow> pageref) \<Rightarrow> (nat \<Rightarrow> nat) \<Rightarrow> kheap" where
  "kheap_boot prs m = \<lparr>pagerefs = prs, pagerefs_inuse = replicate INUSE_WORDS 0, sizebases = (\<lambda>_. None), allbase = None, mem = m\<rparr>"

section \<open>Sizes, addresses, bits\<close>

lemma sizes_nth: "t < NSIZES \<Longrightarrow> sizes ! t = 2 ^ (t + 4)"
proof -
  assume "t < NSIZES"
  then have "t \<in> {0, 1, 2, 3, 4, 5, 6, 7}" by (auto simp: NSIZES_def)
  then show ?thesis by (auto simp: sizes_def)
qed

lemma size_facts:
  assumes "t < NSIZES"
  shows "16 \<le> sizes ! t" "sizes ! t \<le> 2048" "sizes ! t mod 16 = 0" "sizes ! t * (4096 div sizes ! t) = 4096" "2 \<le> 4096 div sizes ! t"
proof -
  have "t \<in> {0, 1, 2, 3, 4, 5, 6, 7}" using assms by (auto simp: NSIZES_def)
  then show "16 \<le> sizes ! t" "sizes ! t \<le> 2048" "sizes ! t mod 16 = 0" "sizes ! t * (4096 div sizes ! t) = 4096" "2 \<le> 4096 div sizes ! t"
    by (auto simp: sizes_def)
qed

lemma blocktype_eq:
  assumes "sz < LARGEST_SUBPAGE_SIZE"
  obtains t where "blocktype sz = Some t" "t < NSIZES" "sz \<le> sizes ! t"
proof (cases "blocktype sz")
  case None
  then have "\<not> sz \<le> sizes ! 7" by (simp add: blocktype_def find_None_iff NSIZES_def)
  then show ?thesis using assms by (simp add: sizes_def LARGEST_SUBPAGE_SIZE_def)
next
  case (Some t)
  then have "t < NSIZES" "sz \<le> sizes ! t" by (auto simp: blocktype_def find_Some_iff)
  then show ?thesis using that Some by blast
qed

lemma PAGE_FRAME_mask: "PAGE_FRAME = NOT (mask 12)"
  by (simp add: PAGE_FRAME_def mask_eq_exp_minus_1)

lemma low_bits: "p mod 4096 = 0 \<Longrightarrow> k < 12 \<Longrightarrow> \<not> bit (p :: nat) k"
proof -
  assume p: "p mod 4096 = 0" "k < 12"
  have "take_bit 12 p = 0" using p(1) by (simp add: take_bit_eq_mod)
  then show ?thesis using p(2) by (metis bit_0_eq bit_take_bit_iff bot_apply bot_bool_def)
qed

lemma high_bits: "t < 4096 \<Longrightarrow> bit (t :: nat) k \<Longrightarrow> k < 12"
proof (rule ccontr)
  assume t: "t < 4096" "bit t k" "\<not> k < 12"
  have "take_bit 12 t = t" using t(1) by (simp add: take_bit_eq_mod)
  then show False using t(2,3) by (metis bit_take_bit_iff)
qed

lemma MKPAB_parts:
  assumes "p mod 4096 = 0" "p < 2 ^ 32" "t < 4096" "pageaddr_and_blocktype pr = MKPAB p t"
  shows "PR_PAGEADDR pr = p" "PR_BLOCKTYPE pr = t"
proof -
  have "MKPAB p t AND PAGE_FRAME = word_of_nat p"
    unfolding MKPAB_def PAGE_FRAME_mask
    by (rule bit_word_eqI) (use low_bits [OF assms(1)] in \<open>auto simp: bit_simps linorder_not_less [symmetric]\<close>)
  then show "PR_PAGEADDR pr = p" using assms(2) by (simp add: PR_PAGEADDR_def assms(4) unat_of_nat)
  have "MKPAB p t AND NOT PAGE_FRAME = word_of_nat t"
    unfolding MKPAB_def PAGE_FRAME_mask
    by (rule bit_word_eqI) (use high_bits [OF assms(3)] in \<open>auto simp: bit_simps\<close>)
  then show "PR_BLOCKTYPE pr = t" using assms(3) by (simp add: PR_BLOCKTYPE_def assms(4) unat_of_nat)
qed

lemma and_bit: "(w :: 32 word) AND 2 ^ j = 0 \<longleftrightarrow> \<not> bit w j"
  by (rule and_exp_eq_0_iff_not_bit)

lemma free_bit_cases: "free_bit w = Some j \<Longrightarrow> j < 32 \<and> \<not> bit w j" "w \<noteq> 0xffffffff \<Longrightarrow> \<exists>j. free_bit w = Some j"
proof -
  show "free_bit w = Some j \<Longrightarrow> j < 32 \<and> \<not> bit w j" by (auto simp: free_bit_def find_Some_iff and_bit)
  show "\<exists>j. free_bit w = Some j" if "w \<noteq> 0xffffffff"
  proof (rule ccontr)
    assume "\<nexists>j. free_bit w = Some j"
    then have b: "bit w j" if "j < 32" for j using that by (auto simp: free_bit_def find_None_iff and_bit)
    have "w = - 1" by (rule bit_word_eqI) (simp add: b)
    then show False using that by simp
  qed
qed

definition used :: "kheap \<Rightarrow> nat \<Rightarrow> bool" where
  "used h x \<longleftrightarrow> x < NPAGEREFS \<and> bit (pagerefs_inuse h ! (x div 32)) (x mod 32)"

lemma allocpageref_ok:
  assumes "length (pagerefs_inuse h) = INUSE_WORDS"
  shows "allocpageref h = Some (None, h) \<or> (\<exists>x us. allocpageref h = Some (Some x, h\<lparr>pagerefs_inuse := us\<rparr>) \<and> x < NPAGEREFS \<and> \<not> used h x \<and>
    length us = INUSE_WORDS \<and> (\<forall>y. used (h\<lparr>pagerefs_inuse := us\<rparr>) y \<longleftrightarrow> y = x \<or> used h y))"
proof -
  have "allocpageref_from h is = Some (None, h) \<or> (\<exists>x us. allocpageref_from h is = Some (Some x, h\<lparr>pagerefs_inuse := us\<rparr>) \<and> x < NPAGEREFS \<and> \<not> used h x \<and>
    length us = INUSE_WORDS \<and> (\<forall>y. used (h\<lparr>pagerefs_inuse := us\<rparr>) y \<longleftrightarrow> y = x \<or> used h y))" if "set is \<subseteq> {..<INUSE_WORDS}" for "is"
    using that
  proof (induction "is")
    case (Cons i "is")
    show ?case
    proof (cases "pagerefs_inuse h ! i = 0xffffffff")
      case False
      then obtain j where j: "free_bit (pagerefs_inuse h ! i) = Some j" "j < 32" "\<not> bit (pagerefs_inuse h ! i) j"
        using free_bit_cases by blast
      let ?x = "i * 32 + j" and ?us = "(pagerefs_inuse h)[i := pagerefs_inuse h ! i OR push_bit j 1]"
      have i: "i < 8" using Cons.prems by (simp add: INUSE_WORDS_def)
      have x: "?x div 32 = i" "?x mod 32 = j" "?x < NPAGEREFS" using j(2) i by (simp_all add: NPAGEREFS_def)
      have n: "\<not> used h ?x" using x(1,2) j(3) by (simp add: used_def)
      have y: "used (h\<lparr>pagerefs_inuse := ?us\<rparr>) y \<longleftrightarrow> y = ?x \<or> used h y" for y
      proof (cases "y < NPAGEREFS")
        case True
        have y: "y = ?x \<longleftrightarrow> y div 32 = i \<and> y mod 32 = j" using x(1,2) by (metis div_mult_mod_eq)
        show ?thesis
        proof (cases "y div 32 = i")
          case t: True
          then have "pagerefs_inuse (h\<lparr>pagerefs_inuse := ?us\<rparr>) ! (y div 32) = pagerefs_inuse h ! i OR push_bit j 1"
            using assms i by (simp add: INUSE_WORDS_def)
          then show ?thesis using True t y j(2) unfolding used_def by (auto simp: bit_simps)
        next
          case f: False
          then show ?thesis using True y unfolding used_def by simp
        qed
      next
        case False
        then show ?thesis using x(3) by (auto simp: used_def)
      qed
      have "allocpageref_from h (i # is) = Some (Some ?x, h\<lparr>pagerefs_inuse := ?us\<rparr>)" using False j(1) by simp
      then show ?thesis using x(3) n y assms by (metis length_list_update)
    qed (use Cons in simp)
  qed simp
  then show ?thesis unfolding allocpageref_def by (simp add: lessThan_atLeast0)
qed

lemma freepageref_ok:
  assumes "length (pagerefs_inuse h) = INUSE_WORDS" "used h x"
  shows "\<exists>us. freepageref h x = Some (h\<lparr>pagerefs_inuse := us\<rparr>) \<and> length us = INUSE_WORDS \<and>
    (\<forall>y. used (h\<lparr>pagerefs_inuse := us\<rparr>) y \<longleftrightarrow> y \<noteq> x \<and> used h y)"
proof -
  let ?us = "(pagerefs_inuse h)[x div 32 := pagerefs_inuse h ! (x div 32) AND NOT (push_bit (x mod 32) 1)]"
  have x: "x < NPAGEREFS" "bit (pagerefs_inuse h ! (x div 32)) (x mod 32)" using assms(2) by (simp_all add: used_def)
  then have d: "x div 32 < length (pagerefs_inuse h)" using assms(1) by (simp add: NPAGEREFS_def INUSE_WORDS_def)
  have "freepageref h x = Some (h\<lparr>pagerefs_inuse := ?us\<rparr>)" using x by (simp add: freepageref_def Let_def and_bit)
  moreover have "used (h\<lparr>pagerefs_inuse := ?us\<rparr>) y \<longleftrightarrow> y \<noteq> x \<and> used h y" for y
  proof (cases "y div 32 = x div 32")
    case True
    have "y = x \<longleftrightarrow> y mod 32 = x mod 32" using True by (metis div_mult_mod_eq)
    then show ?thesis using True d by (auto simp: used_def bit_simps)
  next
    case False
    then show ?thesis by (auto simp: used_def)
  qed
  ultimately show ?thesis using assms(1) by auto
qed

section \<open>Lists and pages\<close>

fun lst :: "(nat \<Rightarrow> nat option) \<Rightarrow> nat option \<Rightarrow> nat list \<Rightarrow> bool" where
  "lst nx p [] \<longleftrightarrow> p = None"
| "lst nx p (x # xs) \<longleftrightarrow> p = Some x \<and> lst nx (nx x) xs"

lemma lst_cong: "lst nx p xs \<Longrightarrow> (\<And>x. x \<in> set xs \<Longrightarrow> nx' x = nx x) \<Longrightarrow> lst nx' p xs"
  by (induction xs arbitrary: p) auto

lemma lst_unlink:
  "lst nx p (us @ x # ws) \<Longrightarrow> distinct (us @ x # ws) \<Longrightarrow> us \<noteq> [] \<Longrightarrow> lst (nx(last us := nx x)) p (us @ ws)"
proof (induction us arbitrary: p)
  case (Cons u us)
  show ?case
  proof (cases "us = []")
    case True
    have "lst (nx(u := nx x)) (nx x) ws" by (rule lst_cong [of nx]) (use Cons.prems True in auto)
    then show ?thesis using Cons.prems True by (simp add: fun_upd_def)
  next
    case False
    have "lst (nx(last us := nx x)) (nx u) (us @ ws)" by (rule Cons.IH) (use Cons.prems False in auto)
    moreover have "u \<noteq> last us" using Cons.prems(2) False by auto
    ultimately show ?thesis using Cons.prems(1) False by (simp add: fun_upd_def)
  qed
qed simp

text \<open>The free blocks of a page, as offsets, linked through the memory.\<close>

fun flist :: "(nat \<Rightarrow> nat) \<Rightarrow> nat \<Rightarrow> nat list \<Rightarrow> bool" where
  "flist m pg [] = True"
| "flist m pg [x] = (m (pg + x) = 0)"
| "flist m pg (x # y # xs) = (m (pg + x) = pg + y \<and> flist m pg (y # xs))"

lemma flist_cong: "flist m pg xs \<Longrightarrow> (\<And>x. x \<in> set xs \<Longrightarrow> m' (pg + x) = m (pg + x)) \<Longrightarrow> flist m' pg xs"
  by (induction m pg xs rule: flist.induct) auto

definition psize :: "pageref \<Rightarrow> nat" where
  "psize pr = sizes ! PR_BLOCKTYPE pr"

definition addr_ok :: "nat \<Rightarrow> bool" where
  "addr_ok pg \<longleftrightarrow> 0 < pg \<and> 4096 dvd pg \<and> pg + 4096 \<le> 2 ^ 32"

definition page_ok :: "(nat \<Rightarrow> nat) \<Rightarrow> pageref \<Rightarrow> nat list \<Rightarrow> bool" where
  "page_ok m pr os \<longleftrightarrow> PR_BLOCKTYPE pr < NSIZES \<and> addr_ok (PR_PAGEADDR pr) \<and> distinct os \<and>
    (\<forall>x \<in> set os. x < 4096 \<and> psize pr dvd x) \<and> nfree pr = length os \<and>
    freelist_offset pr = (case os of [] \<Rightarrow> INVALID_OFFSET | x # _ \<Rightarrow> x) \<and> flist m (PR_PAGEADDR pr) os"

lemma page_ok_cong:
  assumes "page_ok m pr os" "\<And>x. x < 4096 \<Longrightarrow> m' (PR_PAGEADDR pr + x) = m (PR_PAGEADDR pr + x)"
  shows "page_ok m' pr os"
  using assms flist_cong [of m "PR_PAGEADDR pr" os m'] unfolding page_ok_def by blast

lemma doalloc_eq:
  assumes "page_ok (mem h) (pagerefs h x) (a # os)"
  shows "doalloc h x = Some (PR_PAGEADDR (pagerefs h x) + a, set_pr x (pagerefs h x\<lparr>nfree := length os,
    freelist_offset := (case os of [] \<Rightarrow> INVALID_OFFSET | b # _ \<Rightarrow> b)\<rparr>) h)"
  using assms by (cases os) (auto simp: doalloc_def page_ok_def addr_ok_def Let_def)

lemma page_ok_pop:
  "page_ok m pr (a # os) \<Longrightarrow> page_ok m (pr\<lparr>nfree := length os, freelist_offset := (case os of [] \<Rightarrow> INVALID_OFFSET | b # _ \<Rightarrow> b)\<rparr>) os"
  by (cases os) (auto simp: page_ok_def PR_PAGEADDR_def PR_BLOCKTYPE_def psize_def)

section \<open>The invariant\<close>

text \<open>
  \<open>all\<close> is the list of pagerefs from allbase, \<open>same t\<close> the list from sizebases, \<open>fr x\<close> the free
  offsets of the page of \<open>x\<close>.
\<close>

definition kinv :: "kheap \<Rightarrow> nat list \<Rightarrow> (nat \<Rightarrow> nat list) \<Rightarrow> (nat \<Rightarrow> nat list) \<Rightarrow> bool" where
  "kinv h all same fr \<longleftrightarrow> length (pagerefs_inuse h) = INUSE_WORDS \<and> distinct all \<and> (\<forall>x. used h x \<longleftrightarrow> x \<in> set all) \<and>
    lst (\<lambda>x. next_all (pagerefs h x)) (allbase h) all \<and>
    (\<forall>t < NSIZES. distinct (same t) \<and> lst (\<lambda>x. next_samesize (pagerefs h x)) (sizebases h t) (same t) \<and>
      set (same t) = {x \<in> set all. PR_BLOCKTYPE (pagerefs h x) = t}) \<and>
    (\<forall>x \<in> set all. page_ok (mem h) (pagerefs h x) (fr x) \<and> length (fr x) < 4096 div psize (pagerefs h x)) \<and>
    inj_on (\<lambda>x. PR_PAGEADDR (pagerefs h x)) (set all)"

text \<open>The blocks in use, with their sizes, and the pages.\<close>

definition live :: "kheap \<Rightarrow> nat list \<Rightarrow> (nat \<Rightarrow> nat list) \<Rightarrow> (nat \<times> nat) set" where
  "live h all fr = {(PR_PAGEADDR (pagerefs h x) + a, psize (pagerefs h x)) | x a.
    x \<in> set all \<and> a < 4096 \<and> psize (pagerefs h x) dvd a \<and> a \<notin> set (fr x)}"

definition pages :: "kheap \<Rightarrow> nat list \<Rightarrow> nat set" where
  "pages h all = (\<lambda>x. PR_PAGEADDR (pagerefs h x)) ` set all"

lemma kinvD:
  assumes "kinv h all same fr"
  shows "length (pagerefs_inuse h) = INUSE_WORDS" "distinct all" "used h x \<longleftrightarrow> x \<in> set all"
    "lst (\<lambda>x. next_all (pagerefs h x)) (allbase h) all"
    "t < NSIZES \<Longrightarrow> distinct (same t)" "t < NSIZES \<Longrightarrow> lst (\<lambda>x. next_samesize (pagerefs h x)) (sizebases h t) (same t)"
    "t < NSIZES \<Longrightarrow> set (same t) = {x \<in> set all. PR_BLOCKTYPE (pagerefs h x) = t}"
    "x \<in> set all \<Longrightarrow> page_ok (mem h) (pagerefs h x) (fr x)" "x \<in> set all \<Longrightarrow> length (fr x) < 4096 div psize (pagerefs h x)"
    "inj_on (\<lambda>x. PR_PAGEADDR (pagerefs h x)) (set all)"
  using assms unfolding kinv_def by (simp, simp, simp, simp, simp, simp, simp, simp, simp, simp)

text \<open>Pages do not overlap.\<close>

lemma page_apart:
  fixes p q x y :: nat
  assumes "4096 dvd p" "4096 dvd q" "p \<noteq> q" "x < 4096" "y < 4096"
  shows "p + x \<noteq> q + y"
proof
  assume e: "p + x = q + y"
  obtain i j where ij: "p = 4096 * i" "q = 4096 * j" using assms(1,2) unfolding dvd_def by blast
  have "(4096 * i + x) div 4096 = i" "(4096 * j + y) div 4096 = j" using assms(4,5) by simp_all
  then have "i = j" using e ij by simp
  then show False using ij assms(3) by simp
qed

lemma page_addr: "page_ok m pr os \<Longrightarrow> 4096 dvd PR_PAGEADDR pr" "page_ok m pr os \<Longrightarrow> PR_BLOCKTYPE pr < NSIZES"
  by (simp_all add: page_ok_def addr_ok_def)

lemma set_pr_sel [simp]: "pagerefs (set_pr x pr h) = (pagerefs h)(x := pr)" "pagerefs_inuse (set_pr x pr h) = pagerefs_inuse h"
    "sizebases (set_pr x pr h) = sizebases h" "allbase (set_pr x pr h) = allbase h" "mem (set_pr x pr h) = mem h"
  by (simp_all add: set_pr_def)

text \<open>A change to one page: its free list and the memory inside it.\<close>

lemma kinv_page:
  assumes "kinv h all same fr" "x \<in> set all" "next_all pr = next_all (pagerefs h x)" "next_samesize pr = next_samesize (pagerefs h x)"
    "pageaddr_and_blocktype pr = pageaddr_and_blocktype (pagerefs h x)" "page_ok m pr os" "length os < 4096 div psize pr"
    "\<And>a. (\<And>y. y < 4096 \<Longrightarrow> a \<noteq> PR_PAGEADDR pr + y) \<Longrightarrow> m a = mem h a"
    "pagerefs h' = (pagerefs h)(x := pr)" "pagerefs_inuse h' = pagerefs_inuse h" "sizebases h' = sizebases h" "allbase h' = allbase h" "mem h' = m"
  shows "kinv h' all same (fr(x := os))"
proof -
  have u: "used h' y \<longleftrightarrow> used h y" for y by (simp add: used_def assms(10))
  have n: "next_all (pagerefs h' y) = next_all (pagerefs h y)" "next_samesize (pagerefs h' y) = next_samesize (pagerefs h y)"
    "PR_PAGEADDR (pagerefs h' y) = PR_PAGEADDR (pagerefs h y)" "PR_BLOCKTYPE (pagerefs h' y) = PR_BLOCKTYPE (pagerefs h y)" for y
    using assms(3-5) by (simp_all add: assms(9) PR_PAGEADDR_def PR_BLOCKTYPE_def)
  have ok: "page_ok (mem h') (pagerefs h' y) ((fr(x := os)) y) \<and> length ((fr(x := os)) y) < 4096 div psize (pagerefs h' y)" if y: "y \<in> set all" for y
  proof (cases "y = x")
    case True
    then show ?thesis using assms(6,7) by (simp add: assms(9,13))
  next
    case False
    have p: "page_ok (mem h) (pagerefs h y) (fr y)" "page_ok (mem h) (pagerefs h x) (fr x)" using kinvD(8) [OF assms(1)] y assms(2) by blast+
    have ne: "PR_PAGEADDR (pagerefs h y) \<noteq> PR_PAGEADDR (pagerefs h x)" using kinvD(10) [OF assms(1)] False y assms(2) by (auto dest: inj_onD)
    have e: "PR_PAGEADDR pr = PR_PAGEADDR (pagerefs h x)" using assms(5) by (simp add: PR_PAGEADDR_def)
    have "page_ok m (pagerefs h y) (fr y)"
      by (rule page_ok_cong [OF p(1)], rule assms(8), unfold e, rule page_apart) (use page_addr(1) p ne in auto)
    then show ?thesis using False kinvD(9) [OF assms(1) y] by (simp add: assms(9,13))
  qed
  show ?thesis unfolding kinv_def
    using kinvD(1,2,4,10) [OF assms(1)] kinvD(3,5-7) [OF assms(1)] ok by (simp add: u n assms(10-12))
qed

lemma block_unique:
  assumes "kinv h all same fr" "x \<in> set all" "y \<in> set all" "a < 4096" "b < 4096"
    "PR_PAGEADDR (pagerefs h x) + a = PR_PAGEADDR (pagerefs h y) + b"
  shows "x = y \<and> a = b"
proof -
  have "PR_PAGEADDR (pagerefs h x) = PR_PAGEADDR (pagerefs h y)"
    using page_apart [of "PR_PAGEADDR (pagerefs h x)" "PR_PAGEADDR (pagerefs h y)" a b] page_addr(1) [OF kinvD(8) [OF assms(1)]] assms(2-6) by auto
  then show ?thesis using kinvD(10) [OF assms(1)] assms(2,3,6) by (auto dest: inj_onD)
qed

lemma live_member: "(p, n) \<in> live h all fr \<longleftrightarrow> (\<exists>x a. p = PR_PAGEADDR (pagerefs h x) + a \<and> n = psize (pagerefs h x) \<and>
    x \<in> set all \<and> a < 4096 \<and> psize (pagerefs h x) dvd a \<and> a \<notin> set (fr x))"
  by (auto simp: live_def)

definition blocks :: "pageref \<Rightarrow> nat list \<Rightarrow> (nat \<times> nat) set" where
  "blocks pr os = (\<lambda>a. (PR_PAGEADDR pr + a, psize pr)) ` {a. a < 4096 \<and> psize pr dvd a \<and> a \<notin> set os}"

lemma live_alt: "live h all fr = (\<Union>x \<in> set all. blocks (pagerefs h x) (fr x))"
  by (auto simp: live_def blocks_def)

lemma live_pop:
  assumes "x \<in> set all" "fr x = a # os" "page_ok (mem h) (pagerefs h x) (fr x)"
    "\<And>y. PR_PAGEADDR (pagerefs h' y) = PR_PAGEADDR (pagerefs h y) \<and> PR_BLOCKTYPE (pagerefs h' y) = PR_BLOCKTYPE (pagerefs h y)"
  shows "live h' all (fr(x := os)) = insert (PR_PAGEADDR (pagerefs h x) + a, psize (pagerefs h x)) (live h all fr)"
proof (intro set_eqI)
  fix q :: "nat \<times> nat"
  obtain p n where q: "q = (p, n)" by fastforce
  have a: "a < 4096" "psize (pagerefs h x) dvd a" "a \<notin> set os" using assms(2,3) by (auto simp: page_ok_def)
  have ps: "psize (pagerefs h' y) = psize (pagerefs h y)" for y using assms(4) by (simp add: psize_def)
  have m: "b \<notin> set ((fr(x := os)) y) \<longleftrightarrow> b \<notin> set (fr y) \<or> (y = x \<and> b = a)" for b y using assms(2) a(3) by auto
  have "(p, n) \<in> live h' all (fr(x := os)) \<longleftrightarrow> (\<exists>y b. p = PR_PAGEADDR (pagerefs h y) + b \<and> n = psize (pagerefs h y) \<and>
    y \<in> set all \<and> b < 4096 \<and> psize (pagerefs h y) dvd b \<and> (b \<notin> set (fr y) \<or> (y = x \<and> b = a)))"
    unfolding live_member ps m using assms(4) by simp
  also have "\<dots> \<longleftrightarrow> (p, n) = (PR_PAGEADDR (pagerefs h x) + a, psize (pagerefs h x)) \<or> (p, n) \<in> live h all fr"
    unfolding live_member using a assms(1) by auto
  finally show "q \<in> live h' all (fr(x := os)) \<longleftrightarrow> q \<in> insert (PR_PAGEADDR (pagerefs h x) + a, psize (pagerefs h x)) (live h all fr)"
    unfolding q by simp
qed

lemma live_push:
  assumes "kinv h all same fr" "x \<in> set all" "a < 4096"
    "\<And>y. PR_PAGEADDR (pagerefs h' y) = PR_PAGEADDR (pagerefs h y) \<and> PR_BLOCKTYPE (pagerefs h' y) = PR_BLOCKTYPE (pagerefs h y)"
  shows "live h' all (fr(x := a # fr x)) = live h all fr - {(PR_PAGEADDR (pagerefs h x) + a, psize (pagerefs h x))}"
proof (intro set_eqI)
  fix q :: "nat \<times> nat"
  obtain p n where q: "q = (p, n)" by fastforce
  have ps: "psize (pagerefs h' y) = psize (pagerefs h y)" for y using assms(4) by (simp add: psize_def)
  have m: "b \<notin> set ((fr(x := a # fr x)) y) \<longleftrightarrow> b \<notin> set (fr y) \<and> \<not> (y = x \<and> b = a)" for b y by auto
  have "(p, n) \<in> live h' all (fr(x := a # fr x)) \<longleftrightarrow> (\<exists>y b. p = PR_PAGEADDR (pagerefs h y) + b \<and> n = psize (pagerefs h y) \<and>
    y \<in> set all \<and> b < 4096 \<and> psize (pagerefs h y) dvd b \<and> b \<notin> set (fr y) \<and> \<not> (y = x \<and> b = a))"
    unfolding live_member ps m using assms(4) by simp
  also have "\<dots> \<longleftrightarrow> (p, n) \<in> live h all fr \<and> (p, n) \<noteq> (PR_PAGEADDR (pagerefs h x) + a, psize (pagerefs h x))"
    unfolding live_member using block_unique [OF assms(1) _ assms(2) _ assms(3)] by auto
  finally show "q \<in> live h' all (fr(x := a # fr x)) \<longleftrightarrow> q \<in> live h all fr - {(PR_PAGEADDR (pagerefs h x) + a, psize (pagerefs h x))}"
    unfolding q by simp
qed

text \<open>
  What a client sees: \<open>kheap_rep h B P\<close> says that the allocator is consistent, that its blocks in
  use are \<open>B\<close>, and that it has the pages \<open>P\<close>.
\<close>

definition kheap_rep :: "kheap \<Rightarrow> (nat \<times> nat) set \<Rightarrow> nat set \<Rightarrow> bool" where
  "kheap_rep h B P \<longleftrightarrow> (\<exists>all same fr. kinv h all same fr \<and> B = live h all fr \<and> P = pages h all)"

lemma kheap_repI: "kinv h all same fr \<Longrightarrow> kheap_rep h (live h all fr) (pages h all)"
  unfolding kheap_rep_def by blast

text \<open>Blocks in use do not overlap, are aligned, and lie in the pages.\<close>

lemma multiple_apart:
  assumes "n dvd a" "n dvd b" "a < b"
  shows "a + n \<le> (b :: nat)"
proof -
  obtain i j where ij: "a = n * i" "b = n * j" using assms(1,2) unfolding dvd_def by blast
  then have "Suc i \<le> j" using assms(3) by (metis Suc_leI nat_mult_less_cancel1 mult_less_cancel1)
  then have "n * Suc i \<le> n * j" by (rule mult_le_mono2)
  then show ?thesis using ij by simp
qed

lemma block_in_page:
  assumes "t < NSIZES" "a < 4096" "sizes ! t dvd a"
  shows "a + sizes ! t \<le> 4096"
  by (rule multiple_apart [OF assms(3) _ assms(2)]) (use size_facts(4) [OF assms(1)] in \<open>metis dvd_triv_left\<close>)

lemma live_facts:
  assumes "kheap_rep h B P" "(p, n) \<in> B"
  shows "\<exists>pg a. pg \<in> P \<and> p = pg + a \<and> a + n \<le> 4096 \<and> addr_ok pg \<and> n dvd a" "16 \<le> n \<and> p mod 16 = 0"
proof -
  obtain all same fr where k: "kinv h all same fr" "B = live h all fr" "P = pages h all" using assms(1) unfolding kheap_rep_def by blast
  obtain x a where x: "p = PR_PAGEADDR (pagerefs h x) + a" "n = psize (pagerefs h x)" "x \<in> set all" "a < 4096" "n dvd a"
    using assms(2) unfolding k(2) live_member by auto
  have ok: "PR_BLOCKTYPE (pagerefs h x) < NSIZES" "addr_ok (PR_PAGEADDR (pagerefs h x))" using kinvD(8) [OF k(1) x(3)] by (simp_all add: page_ok_def)
  have "a + n \<le> 4096" using block_in_page [OF ok(1) x(4)] x(2,5) by (simp add: psize_def)
  then show "\<exists>pg a. pg \<in> P \<and> p = pg + a \<and> a + n \<le> 4096 \<and> addr_ok pg \<and> n dvd a" using x ok(2) k(3) by (auto simp: pages_def)
  have n: "16 \<le> n" "n mod 16 = 0" using size_facts(1,3) [OF ok(1)] x(2) by (simp_all add: psize_def)
  have "16 dvd n" "n dvd a" "16 dvd PR_PAGEADDR (pagerefs h x)" using n(2) x(5) ok(2)
    by (simp_all add: addr_ok_def mod_eq_0_iff_dvd dvd_trans [of 16 4096])
  then show "16 \<le> n \<and> p mod 16 = 0" using n(1) x(1) by (simp add: mod_eq_0_iff_dvd dvd_trans [of 16 n a])
qed

lemma live_apart:
  assumes "kheap_rep h B P" "(p, n) \<in> B" "(q, k) \<in> B" "(p, n) \<noteq> (q, k)"
  shows "p + n \<le> q \<or> q + k \<le> p"
proof -
  obtain all same fr where i: "kinv h all same fr" "B = live h all fr" using assms(1) unfolding kheap_rep_def by blast
  obtain x a where x: "p = PR_PAGEADDR (pagerefs h x) + a" "n = psize (pagerefs h x)" "x \<in> set all" "a < 4096" "n dvd a"
    using assms(2) unfolding i(2) live_member by auto
  obtain y b where y: "q = PR_PAGEADDR (pagerefs h y) + b" "k = psize (pagerefs h y)" "y \<in> set all" "b < 4096" "k dvd b"
    using assms(3) unfolding i(2) live_member by auto
  have ok: "PR_BLOCKTYPE (pagerefs h z) < NSIZES \<and> 4096 dvd PR_PAGEADDR (pagerefs h z)" if "z \<in> set all" for z
    using kinvD(8) [OF i(1) that] by (simp add: page_ok_def addr_ok_def)
  have le: "a + n \<le> 4096" "b + k \<le> 4096" using block_in_page ok x y by (simp_all add: psize_def)
  show ?thesis
  proof (cases "x = y")
    case True
    then have "a \<noteq> b" using assms(4) x(1,2) y(1,2) by auto
    then show ?thesis using multiple_apart [of n a b] multiple_apart [of n b a] x y True by (cases "a < b") auto
  next
    case False
    then have ne: "PR_PAGEADDR (pagerefs h x) \<noteq> PR_PAGEADDR (pagerefs h y)" using kinvD(10) [OF i(1)] x(3) y(3) by (auto dest: inj_onD)
    then show ?thesis
    proof (cases "PR_PAGEADDR (pagerefs h x) < PR_PAGEADDR (pagerefs h y)")
      case True
      then have "PR_PAGEADDR (pagerefs h x) + 4096 \<le> PR_PAGEADDR (pagerefs h y)" using multiple_apart ok x(3) y(3) by blast
      then show ?thesis using x(1) y(1) le by linarith
    next
      case False
      then have "PR_PAGEADDR (pagerefs h y) + 4096 \<le> PR_PAGEADDR (pagerefs h x)" using multiple_apart [of 4096] ok x(3) y(3) ne by (metis linorder_neqE_nat)
      then show ?thesis using x(1) y(1) le by linarith
    qed
  qed
qed

section \<open>Allocating from the pages at hand\<close>

lemma scan_pages_ok:
  assumes "kinv h all same fr" "t < NSIZES"
  shows "lst (\<lambda>x. next_samesize (pagerefs h x)) p xs \<Longrightarrow> set xs \<subseteq> set (same t) \<Longrightarrow>
    scan_pages h t p = Some (None, h) \<or> (\<exists>x \<in> set all. PR_BLOCKTYPE (pagerefs h x) = t \<and> fr x \<noteq> [] \<and>
      scan_pages h t p = map_option (\<lambda>(r, h). (Some r, h)) (doalloc h x))"
proof (induction xs arbitrary: p)
  case Nil
  then show ?case by (simp add: scan_pages.simps)
next
  case (Cons x xs)
  then have p: "p = Some x" and x: "x \<in> set all" "PR_BLOCKTYPE (pagerefs h x) = t" using kinvD(7) [OF assms] by auto
  have n: "nfree (pagerefs h x) = length (fr x)" using kinvD(8) [OF assms(1) x(1)] by (simp add: page_ok_def)
  show ?case
  proof (cases "fr x = []")
    case True
    then have "scan_pages h t p = scan_pages h t (next_samesize (pagerefs h x))" using p x n by (subst scan_pages.simps) simp
    then show ?thesis using Cons.IH [of "next_samesize (pagerefs h x)"] Cons.prems by simp
  next
    case False
    then have "scan_pages h t p = map_option (\<lambda>(r, h). (Some r, h)) (doalloc h x)"
      using p x n by (subst scan_pages.simps) (cases "doalloc h x"; auto)
    then show ?thesis using False x by blast
  qed
qed

lemma pop_rep:
  assumes "kinv h all same fr" "x \<in> set all" "fr x = a # os"
  shows "\<exists>h'. doalloc h x = Some (PR_PAGEADDR (pagerefs h x) + a, h') \<and> mem h' = mem h \<and>
    kinv h' all same (fr(x := os)) \<and> live h' all (fr(x := os)) = insert (PR_PAGEADDR (pagerefs h x) + a, psize (pagerefs h x)) (live h all fr) \<and>
    pages h' all = pages h all"
proof -
  let ?pr = "pagerefs h x\<lparr>nfree := length os, freelist_offset := (case os of [] \<Rightarrow> INVALID_OFFSET | b # _ \<Rightarrow> b)\<rparr>"
  let ?h = "set_pr x ?pr h"
  have ok: "page_ok (mem h) (pagerefs h x) (a # os)" using kinvD(8) [OF assms(1,2)] assms(3) by simp
  have e: "PR_PAGEADDR (pagerefs ?h y) = PR_PAGEADDR (pagerefs h y) \<and> PR_BLOCKTYPE (pagerefs ?h y) = PR_BLOCKTYPE (pagerefs h y)" for y
    by (simp add: PR_PAGEADDR_def PR_BLOCKTYPE_def)
  have "length os < 4096 div psize ?pr" using kinvD(9) [OF assms(1,2)] assms(3) by (simp add: psize_def PR_BLOCKTYPE_def)
  then have "kinv ?h all same (fr(x := os))" by (intro kinv_page [OF assms(1,2) _ _ _ page_ok_pop [OF ok]]) simp_all
  moreover have "live ?h all (fr(x := os)) = insert (PR_PAGEADDR (pagerefs h x) + a, psize (pagerefs h x)) (live h all fr)"
    by (rule live_pop [where h = h]) (use assms(2,3) ok e in auto)
  moreover have "pages ?h all = pages h all" using e by (simp add: pages_def)
  ultimately show ?thesis using doalloc_eq [OF ok] by auto
qed

lemma subpage_scan_ok:
  assumes "kheap_rep h B P" "t < NSIZES"
  shows "subpage_scan h t = Some (None, h) \<or> (\<exists>p h'. subpage_scan h t = Some (Some p, h') \<and> mem h' = mem h \<and>
    (p, sizes ! t) \<notin> B \<and> kheap_rep h' (insert (p, sizes ! t) B) P)"
proof -
  obtain all same fr where k: "kinv h all same fr" "B = live h all fr" "P = pages h all" using assms(1) unfolding kheap_rep_def by blast
  from scan_pages_ok [OF k(1) assms(2) kinvD(6) [OF k(1) assms(2)] subset_refl]
  show ?thesis
  proof (elim disjE bexE conjE)
    fix x assume x: "x \<in> set all" "PR_BLOCKTYPE (pagerefs h x) = t" "fr x \<noteq> []"
      "scan_pages h t (sizebases h t) = map_option (\<lambda>(r, h). (Some r, h)) (doalloc h x)"
    obtain a os where f: "fr x = a # os" using x(3) by (cases "fr x") auto
    obtain h' where h': "doalloc h x = Some (PR_PAGEADDR (pagerefs h x) + a, h')" "mem h' = mem h" "kinv h' all same (fr(x := os))"
      "live h' all (fr(x := os)) = insert (PR_PAGEADDR (pagerefs h x) + a, psize (pagerefs h x)) (live h all fr)" "pages h' all = pages h all"
      using pop_rep [OF k(1) x(1) f] by blast
    have a: "a < 4096" using kinvD(8) [OF k(1) x(1)] f by (simp add: page_ok_def)
    have "(PR_PAGEADDR (pagerefs h x) + a, psize (pagerefs h x)) \<notin> live h all fr"
      using block_unique [OF k(1) x(1) _ a] f unfolding live_member by force
    moreover have "kheap_rep h' (insert (PR_PAGEADDR (pagerefs h x) + a, psize (pagerefs h x)) B) P"
      using kheap_repI [OF h'(3)] h'(4,5) k(2,3) by simp
    ultimately show ?thesis using h'(1,2) x(2,4) k(2) unfolding subpage_scan_def by (auto simp: psize_def)
  qed (simp add: subpage_scan_def)
qed

section \<open>A new page\<close>

lemma link_blocks_append: "link_blocks fla sz (xs @ ys) m = Option.bind (link_blocks fla sz xs m) (link_blocks fla sz ys)"
  by (induction xs arbitrary: m) (auto simp: Let_def KASSERT_def)

lemma link_blocks_ok:
  assumes "0 < sz" "0 < n"
  shows "\<exists>m'. link_blocks pg sz [1..<n] (m(pg := 0)) = Some m' \<and> flist m' pg (rev (map (\<lambda>i. i * sz) [0..<n])) \<and>
    (\<forall>a. (\<forall>i < n. a \<noteq> pg + i * sz) \<longrightarrow> m' a = m a)"
  using assms(2)
proof (induction n rule: nat_induct_non_zero)
  case 1
  show ?case by auto
next
  case (Suc n)
  then obtain m' where m': "link_blocks pg sz [1..<n] (m(pg := 0)) = Some m'" "flist m' pg (rev (map (\<lambda>i. i * sz) [0..<n]))"
    "\<And>a. (\<forall>i < n. a \<noteq> pg + i * sz) \<Longrightarrow> m' a = m a" by blast
  let ?m = "m'(pg + n * sz := pg + (n - 1) * sz)"
  have up: "[1..<Suc n] = [1..<n] @ [n]" using Suc.hyps by simp
  have ne: "n * sz \<noteq> (n - 1) * sz" using assms(1) Suc.hyps by simp
  have "link_blocks pg sz [1..<Suc n] (m(pg := 0)) = Some ?m" unfolding up link_blocks_append m'(1) using ne by simp
  moreover have "flist ?m pg (rev (map (\<lambda>i. i * sz) [0..<n]))"
    by (rule flist_cong [OF m'(2)]) (use assms(1) in auto)
  then have "flist ?m pg (rev (map (\<lambda>i. i * sz) [0..<Suc n]))" using Suc.hyps by (cases n) auto
  moreover have "\<forall>a. (\<forall>i < Suc n. a \<noteq> pg + i * sz) \<longrightarrow> ?m a = m a" using m'(3) by auto
  ultimately show ?case by blast
qed

lemma multiples: "0 < sz \<Longrightarrow> sz * n = 4096 \<Longrightarrow> a < 4096 \<and> sz dvd a \<longleftrightarrow> (\<exists>i < n. a = i * (sz :: nat))"
  by (auto simp: dvd_def) (metis mult.commute nat_mult_less_cancel_disj)+

lemma page_ok_fresh:
  assumes "t < NSIZES" "addr_ok pg" "n = 4096 div sizes ! t" "pageaddr_and_blocktype pr = MKPAB pg t"
    "freelist_offset pr = (n - 1) * sizes ! t" "nfree pr = n" "flist m pg (rev (map (\<lambda>i. i * sizes ! t) [0..<n]))"
  shows "page_ok m pr (rev (map (\<lambda>i. i * sizes ! t) [0..<n]))" "PR_PAGEADDR pr = pg" "PR_BLOCKTYPE pr = t"
proof -
  have pg: "PR_PAGEADDR pr = pg" "PR_BLOCKTYPE pr = t"
    using MKPAB_parts [of pg t pr] assms(1,2,4) by (auto simp: addr_ok_def NSIZES_def)
  then show "PR_PAGEADDR pr = pg" "PR_BLOCKTYPE pr = t" .
  have sz: "0 < sizes ! t" "sizes ! t * n = 4096" "2 \<le> n" using size_facts [OF assms(1)] assms(3) by auto
  then obtain k where k: "n = Suc k" by (cases n) auto
  have "\<forall>x \<in> set (rev (map (\<lambda>i. i * sizes ! t) [0..<n])). x < 4096 \<and> x dvd x \<and> sizes ! t dvd x" using multiples [OF sz(1,2)] by auto
  moreover have "distinct (rev (map (\<lambda>i. i * sizes ! t) [0..<n]))" using sz(1) by (auto simp: distinct_map inj_on_def)
  ultimately show "page_ok m pr (rev (map (\<lambda>i. i * sizes ! t) [0..<n]))"
    using assms(1,2,5-7) pg unfolding page_ok_def psize_def by (simp add: k)
qed

lemma kinv_add:
  assumes "kinv h all same fr" "t < NSIZES" "x \<notin> set all" "\<And>y. used h' y \<longleftrightarrow> y = x \<or> used h y" "length (pagerefs_inuse h') = INUSE_WORDS"
    "pagerefs h' = (pagerefs h)(x := pr)" "sizebases h' = (sizebases h)(t := Some x)" "allbase h' = Some x"
    "next_all pr = allbase h" "next_samesize pr = sizebases h t" "PR_BLOCKTYPE pr = t" "page_ok (mem h') pr os" "length os < 4096 div psize pr"
    "PR_PAGEADDR pr \<notin> pages h all" "\<And>a. (\<And>y. y < 4096 \<Longrightarrow> a \<noteq> PR_PAGEADDR pr + y) \<Longrightarrow> mem h' a = mem h a"
  shows "kinv h' (x # all) (same(t := x # same t)) (fr(x := os))"
proof -
  have old: "y \<in> set all \<Longrightarrow> pagerefs h' y = pagerefs h y" for y using assms(3,6) by auto
  have new: "pagerefs h' x = pr" using assms(6) by simp
  have l: "lst (\<lambda>y. next_all (pagerefs h' y)) (allbase h) all"
    by (rule lst_cong [OF kinvD(4) [OF assms(1)]]) (simp add: old)
  have s: "distinct ((same(t := x # same t)) u) \<and> lst (\<lambda>y. next_samesize (pagerefs h' y)) (sizebases h' u) ((same(t := x # same t)) u) \<and>
      set ((same(t := x # same t)) u) = {y \<in> set (x # all). PR_BLOCKTYPE (pagerefs h' y) = u}" if u: "u < NSIZES" for u
  proof -
    have sub: "set (same u) = {y \<in> set all. PR_BLOCKTYPE (pagerefs h' y) = u}" using kinvD(7) [OF assms(1) u] old by auto
    have l: "lst (\<lambda>y. next_samesize (pagerefs h' y)) (sizebases h u) (same u)"
      by (rule lst_cong [OF kinvD(6) [OF assms(1) u]]) (use sub old in auto)
    show ?thesis using l sub kinvD(5) [OF assms(1) u] assms(3,7,10,11) new by auto
  qed
  have pg: "page_ok (mem h') (pagerefs h' y) ((fr(x := os)) y) \<and> length ((fr(x := os)) y) < 4096 div psize (pagerefs h' y)" if y: "y \<in> set (x # all)" for y
  proof (cases "y = x")
    case True
    then show ?thesis using assms(12,13) new by simp
  next
    case False
    then have y: "y \<in> set all" using y by simp
    have p: "page_ok (mem h) (pagerefs h y) (fr y)" using kinvD(8) [OF assms(1) y] .
    have "PR_PAGEADDR (pagerefs h y) \<noteq> PR_PAGEADDR pr" using assms(14) y unfolding pages_def by (metis imageI)
    then have "page_ok (mem h') (pagerefs h y) (fr y)"
      by (intro page_ok_cong [OF p] assms(15) page_apart) (use page_addr(1) p assms(12) in auto)
    then show ?thesis using False kinvD(9) [OF assms(1) y] old [OF y] by simp
  qed
  have i: "inj_on (\<lambda>y. PR_PAGEADDR (pagerefs h' y)) (set (x # all))"
  proof -
    have "inj_on (\<lambda>y. PR_PAGEADDR (pagerefs h' y)) (set all)" using kinvD(10) [OF assms(1)] by (rule inj_on_cong [THEN iffD1, rotated]) (simp add: old)
    moreover have "(\<lambda>y. PR_PAGEADDR (pagerefs h' y)) ` set all = pages h all" unfolding pages_def by (rule image_cong) (simp_all add: old)
    ultimately show ?thesis unfolding list.set inj_on_insert using assms(3,14) new by simp
  qed
  show ?thesis unfolding kinv_def
    using assms(3,4,5,8,9) kinvD(2,3) [OF assms(1)] l s pg i new by simp
qed

lemma live_add:
  assumes "kinv h all same fr" "x \<notin> set all" "pagerefs h' = (pagerefs h)(x := pr)" "PR_PAGEADDR pr = pg" "psize pr = sz"
    "\<And>b. b < 4096 \<and> sz dvd b \<and> b \<notin> set os \<longleftrightarrow> b = a"
  shows "live h' (x # all) (fr(x := os)) = insert (pg + a, sz) (live h all fr)" "pages h' (x # all) = insert pg (pages h all)"
proof -
  have old: "y \<in> set all \<Longrightarrow> pagerefs h' y = pagerefs h y \<and> (fr(x := os)) y = fr y" for y using assms(2,3) by auto
  have new: "pagerefs h' x = pr" using assms(3) by simp
  have 1: "live h' (x # all) (fr(x := os)) = blocks pr os \<union> (\<Union>y \<in> set all. blocks (pagerefs h' y) ((fr(x := os)) y))"
    using new by (simp add: live_alt)
  have 2: "(\<Union>y \<in> set all. blocks (pagerefs h' y) ((fr(x := os)) y)) = live h all fr"
    unfolding live_alt by (rule SUP_cong) (simp_all add: old del: fun_upd_apply)
  have "{b. b < 4096 \<and> sz dvd b \<and> b \<notin> set os} = {a}" using assms(6) by auto
  then have 3: "blocks pr os = {(pg + a, sz)}" unfolding blocks_def assms(4,5) by simp
  show "live h' (x # all) (fr(x := os)) = insert (pg + a, sz) (live h all fr)" unfolding 1 2 3 by simp
  show "pages h' (x # all) = insert pg (pages h all)" using old new assms(4) by (auto simp: pages_def)
qed

lemma subpage_grow_ok:
  assumes "kheap_rep h B P" "t < NSIZES" "addr_ok pg" "pg \<notin> P"
  shows "subpage_grow h t pg = Some (None, h) \<or> (\<exists>p h'. subpage_grow h t pg = Some (Some p, h') \<and>
    (\<forall>a. (\<forall>y < 4096. a \<noteq> pg + y) \<longrightarrow> mem h' a = mem h a) \<and> (p, sizes ! t) \<notin> B \<and> kheap_rep h' (insert (p, sizes ! t) B) (insert pg P))"
proof -
  obtain all same fr where k: "kinv h all same fr" "B = live h all fr" "P = pages h all" using assms(1) unfolding kheap_rep_def by blast
  from allocpageref_ok [OF kinvD(1) [OF k(1)]] show ?thesis
  proof (elim disjE exE conjE)
    assume "allocpageref h = Some (None, h)"
    then show ?thesis by (simp add: subpage_grow_def)
  next
    fix x us
    let ?h1 = "h\<lparr>pagerefs_inuse := us\<rparr>" and ?n = "4096 div sizes ! t" and ?sz = "sizes ! t"
    assume x: "allocpageref h = Some (Some x, ?h1)" "x < NPAGEREFS" "\<not> used h x" "length us = INUSE_WORDS"
      "\<forall>y. used ?h1 y \<longleftrightarrow> y = x \<or> used h y"
    have sz: "0 < ?sz" "?sz * ?n = 4096" "2 \<le> ?n" using size_facts [OF assms(2)] by auto
    obtain m where m: "link_blocks pg ?sz [1..<?n] ((mem h)(pg := 0)) = Some m" "flist m pg (rev (map (\<lambda>i. i * ?sz) [0..<?n]))"
      "\<forall>a. (\<forall>i < ?n. a \<noteq> pg + i * ?sz) \<longrightarrow> m a = mem h a" using link_blocks_ok [of ?sz ?n pg "mem h"] sz by auto
    define pr where "pr = \<lparr>next_samesize = sizebases h t, next_all = allbase h, pageaddr_and_blocktype = MKPAB pg t,
      freelist_offset = (?n - 1) * ?sz, nfree = ?n\<rparr>"
    define h2 where "h2 = (set_pr x pr ?h1)\<lparr>sizebases := (sizebases h)(t := Some x), allbase := Some x, mem := m\<rparr>"
    obtain l where l: "?n = Suc l" using sz(3) by (cases ?n) auto
    define os where "os = rev (map (\<lambda>i. i * ?sz) [0..<l])"
    have F: "rev (map (\<lambda>i. i * ?sz) [0..<?n]) = l * ?sz # os" by (simp add: l os_def)
    note pk = page_ok_fresh [OF assms(2,3) refl, of pr m] m(2)
    have ok: "page_ok m pr (l * ?sz # os)" "PR_PAGEADDR pr = pg" "PR_BLOCKTYPE pr = t" using pk by (simp_all add: pr_def F)
    let ?pr = "pr\<lparr>nfree := length os, freelist_offset := (case os of [] \<Rightarrow> INVALID_OFFSET | b # _ \<Rightarrow> b)\<rparr>"
    define h3 where "h3 = set_pr x ?pr h2"
    have d: "doalloc h2 x = Some (pg + l * ?sz, h3)" using doalloc_eq [of h2 x] ok by (simp add: h2_def h3_def)
    have out: "(\<forall>y < 4096. a \<noteq> pg + y) \<Longrightarrow> m a = mem h a" for a using m(3) multiples [OF sz(1,2)] by blast
    have g: "subpage_grow h t pg = Some (Some (pg + l * ?sz), h3)"
      using x(1) m(1) d unfolding subpage_grow_def by (simp add: h2_def pr_def Let_def)
    have nx: "x \<notin> set all" using x(3) kinvD(3) [OF k(1)] by blast
    have pr': "PR_PAGEADDR ?pr = pg" "PR_BLOCKTYPE ?pr = t" "psize ?pr = ?sz" using ok(2,3) by (simp_all add: PR_PAGEADDR_def PR_BLOCKTYPE_def psize_def)
    have inv: "kinv h3 (x # all) (same(t := x # same t)) (fr(x := os))"
    proof (rule kinv_add [OF k(1) assms(2) nx])
      show "used h3 y \<longleftrightarrow> y = x \<or> used h y" for y using x(5) by (simp add: h3_def h2_def used_def)
      show "length (pagerefs_inuse h3) = INUSE_WORDS" "pagerefs h3 = (pagerefs h)(x := ?pr)" "sizebases h3 = (sizebases h)(t := Some x)"
        "allbase h3 = Some x" using x(4) by (simp_all add: h3_def h2_def)
      show "page_ok (mem h3) ?pr os" using page_ok_pop [OF ok(1)] by (simp add: h3_def h2_def)
      show "length os < 4096 div psize ?pr" using l pr' by (simp add: os_def)
      show "PR_PAGEADDR ?pr \<notin> pages h all" using assms(4) k(3) pr' by simp
      show "mem h3 a = mem h a" if "\<And>y. y < 4096 \<Longrightarrow> a \<noteq> PR_PAGEADDR ?pr + y" for a using out that pr' by (simp add: h3_def h2_def)
      show "next_all ?pr = allbase h" "next_samesize ?pr = sizebases h t" by (simp_all add: pr_def)
      show "PR_BLOCKTYPE ?pr = t" by (rule pr'(2))
    qed
    have only: "b < 4096 \<and> ?sz dvd b \<and> b \<notin> set os \<longleftrightarrow> b = l * ?sz" for b
    proof -
      have "b < 4096 \<and> ?sz dvd b \<longleftrightarrow> (\<exists>i < Suc l. b = i * ?sz)" using multiples [OF sz(1), of "Suc l"] sz(2) l by simp
      moreover have "b \<in> set os \<longleftrightarrow> (\<exists>i < l. b = i * ?sz)" by (auto simp: os_def)
      ultimately show ?thesis using sz(1) by (auto simp: less_Suc_eq)
    qed
    have new: "live h3 (x # all) (fr(x := os)) = insert (pg + l * ?sz, ?sz) B" "pages h3 (x # all) = insert pg P"
      using live_add [OF k(1) nx _ pr'(1,3) only, of h3] k(2,3) by (simp_all add: h3_def h2_def)
    have "(pg + l * ?sz, ?sz) \<notin> B"
    proof
      assume "(pg + l * ?sz, ?sz) \<in> B"
      then obtain pg' a where c: "pg' \<in> P" "pg + l * ?sz = pg' + a" "a + ?sz \<le> 4096" "addr_ok pg'" using live_facts(1) [OF assms(1)] by blast
      have "l * ?sz < 4096" using only by blast
      moreover have "a < 4096" using c(3) sz(1) by linarith
      moreover have "pg \<noteq> pg'" using c(1) assms(4) by blast
      ultimately show False using page_apart [of pg pg' "l * ?sz" a] c(2,4) assms(3) by (simp add: addr_ok_def)
    qed
    then show ?thesis using g out kheap_repI [OF inv] new by (auto simp: h3_def h2_def)
  qed
qed

section \<open>Releasing a block\<close>

lemma find_page_ok:
  assumes "kinv h all same fr"
  shows "lst (\<lambda>x. next_all (pagerefs h x)) p xs \<Longrightarrow> set xs \<subseteq> set all \<Longrightarrow>
    find_page h q p = Some (find (\<lambda>x. PR_PAGEADDR (pagerefs h x) \<le> q \<and> q < PR_PAGEADDR (pagerefs h x) + 4096) xs)"
proof (induction xs arbitrary: p)
  case Nil
  then show ?case by (simp add: find_page.simps)
next
  case (Cons x xs)
  then have "PR_BLOCKTYPE (pagerefs h x) < NSIZES" using page_addr(2) [OF kinvD(8) [OF assms]] by simp
  then show ?case using Cons by (subst find_page.simps) simp
qed

text \<open>Every pageref but its link is as before.\<close>

definition same_page :: "pageref \<Rightarrow> pageref \<Rightarrow> bool" where
  "same_page pr pr' \<longleftrightarrow> pageaddr_and_blocktype pr' = pageaddr_and_blocktype pr \<and> freelist_offset pr' = freelist_offset pr \<and> nfree pr' = nfree pr"

lemma same_page_facts:
  assumes "same_page pr pr'"
  shows "PR_PAGEADDR pr' = PR_PAGEADDR pr" "PR_BLOCKTYPE pr' = PR_BLOCKTYPE pr" "psize pr' = psize pr" "page_ok m pr' os = page_ok m pr os"
proof -
  show e: "PR_PAGEADDR pr' = PR_PAGEADDR pr" "PR_BLOCKTYPE pr' = PR_BLOCKTYPE pr" using assms by (simp_all add: same_page_def PR_PAGEADDR_def PR_BLOCKTYPE_def)
  then show p: "psize pr' = psize pr" by (simp add: psize_def)
  show "page_ok m pr' os = page_ok m pr os" using assms by (simp add: page_ok_def e p same_page_def)
qed

lemma remove_same_eq:
  "lst (\<lambda>y. next_samesize (pagerefs h y)) (get_same h t g) (us @ x # ws) \<Longrightarrow> x \<notin> set us \<Longrightarrow>
    remove_same h x t g = Some (set_same h t (last (g # map Link us)) (next_samesize (pagerefs h x)))"
proof (induction us arbitrary: g)
  case Nil
  then show ?case by (subst remove_same.simps) simp
next
  case (Cons u us)
  then show ?case using Cons.IH [of "Link u"] by (subst remove_same.simps) simp
qed

lemma remove_all_eq:
  "lst (\<lambda>y. next_all (pagerefs h y)) (get_all h g) (us @ x # ws) \<Longrightarrow> x \<notin> set us \<Longrightarrow>
    remove_all h x g = Some (set_all h (last (g # map Link us)) (next_all (pagerefs h x)))"
proof (induction us arbitrary: g)
  case Nil
  then show ?case by (subst remove_all.simps) simp
next
  case (Cons u us)
  then show ?case using Cons.IH [of "Link u"] by (subst remove_all.simps) simp
qed

lemma remove_same_ok:
  assumes "lst (\<lambda>y. next_samesize (pagerefs h y)) (sizebases h t) xs" "distinct xs" "x \<in> set xs"
  shows "\<exists>h'. remove_same h x t Base = Some h' \<and> lst (\<lambda>y. next_samesize (pagerefs h' y)) (sizebases h' t) (remove1 x xs) \<and>
    (\<forall>u. u \<noteq> t \<longrightarrow> sizebases h' u = sizebases h u) \<and> (\<forall>y. y \<notin> set xs \<longrightarrow> pagerefs h' y = pagerefs h y) \<and>
    (\<forall>y. next_all (pagerefs h' y) = next_all (pagerefs h y) \<and> same_page (pagerefs h y) (pagerefs h' y)) \<and>
    allbase h' = allbase h \<and> pagerefs_inuse h' = pagerefs_inuse h \<and> mem h' = mem h"
proof -
  obtain us ws where xs: "xs = us @ x # ws" "x \<notin> set us" using assms(3) by (auto dest: split_list_first)
  have r: "remove1 x xs = us @ ws" using xs assms(2) by (simp add: remove1_append)
  have d: "distinct (us @ x # ws)" using assms(2) xs(1) by simp
  note e = remove_same_eq [of h t Base us x ws]
  show ?thesis
  proof (cases "us = []")
    case True
    then show ?thesis using e assms(1) xs r by (auto simp: same_page_def)
  next
    case False
    let ?h = "set_pr (last us) (pagerefs h (last us)\<lparr>next_samesize := next_samesize (pagerefs h x)\<rparr>) h"
    have "remove_same h x t Base = Some ?h" using e assms(1) xs False by (simp add: last_map)
    moreover have "lst ((\<lambda>y. next_samesize (pagerefs h y))(last us := next_samesize (pagerefs h x))) (sizebases h t) (us @ ws)"
      using lst_unlink [of "\<lambda>y. next_samesize (pagerefs h y)" _ us x ws] assms(1) xs(1) d False by simp
    then have "lst (\<lambda>y. next_samesize (pagerefs ?h y)) (sizebases ?h t) (us @ ws)"
      by (simp add: fun_upd_def if_distrib cong: if_cong)
    moreover have "last us \<in> set xs" using False xs(1) by simp
    then have "\<forall>y. y \<notin> set xs \<longrightarrow> pagerefs ?h y = pagerefs h y" by auto
    ultimately show ?thesis unfolding r by (intro exI [of _ ?h]) (simp add: same_page_def)
  qed
qed

lemma remove_all_ok:
  assumes "lst (\<lambda>y. next_all (pagerefs h y)) (allbase h) xs" "distinct xs" "x \<in> set xs"
  shows "\<exists>h'. remove_all h x Base = Some h' \<and> lst (\<lambda>y. next_all (pagerefs h' y)) (allbase h') (remove1 x xs) \<and>
    (\<forall>y. next_samesize (pagerefs h' y) = next_samesize (pagerefs h y) \<and> same_page (pagerefs h y) (pagerefs h' y)) \<and>
    sizebases h' = sizebases h \<and> pagerefs_inuse h' = pagerefs_inuse h \<and> mem h' = mem h"
proof -
  obtain us ws where xs: "xs = us @ x # ws" "x \<notin> set us" using assms(3) by (auto dest: split_list_first)
  have r: "remove1 x xs = us @ ws" using xs assms(2) by (simp add: remove1_append)
  have d: "distinct (us @ x # ws)" using assms(2) xs(1) by simp
  note e = remove_all_eq [of h Base us x ws]
  show ?thesis
  proof (cases "us = []")
    case True
    then show ?thesis using e assms(1) xs r by (auto simp: same_page_def)
  next
    case False
    let ?h = "set_pr (last us) (pagerefs h (last us)\<lparr>next_all := next_all (pagerefs h x)\<rparr>) h"
    have "remove_all h x Base = Some ?h" using e assms(1) xs False by (simp add: last_map)
    moreover have "lst ((\<lambda>y. next_all (pagerefs h y))(last us := next_all (pagerefs h x))) (allbase h) (us @ ws)"
      using lst_unlink [of "\<lambda>y. next_all (pagerefs h y)" _ us x ws] assms(1) xs(1) d False by simp
    then have "lst (\<lambda>y. next_all (pagerefs ?h y)) (allbase ?h) (us @ ws)"
      by (simp add: fun_upd_def if_distrib cong: if_cong)
    ultimately show ?thesis unfolding r by (intro exI [of _ ?h]) (simp add: same_page_def)
  qed
qed

text \<open>Taking a page out, once its blocks are all free.\<close>

lemma remove_page:
  assumes "kinv h all same fr" "x \<in> set all" "PR_BLOCKTYPE (pagerefs h x) = t"
    "pagerefs h1 = (pagerefs h)(x := pr)" "next_all pr = next_all (pagerefs h x)" "next_samesize pr = next_samesize (pagerefs h x)"
    "pagerefs_inuse h1 = pagerefs_inuse h" "sizebases h1 = sizebases h" "allbase h1 = allbase h"
    "\<And>a. (\<And>y. y < 4096 \<Longrightarrow> a \<noteq> PR_PAGEADDR (pagerefs h x) + y) \<Longrightarrow> mem h1 a = mem h a"
  shows "\<exists>h2 h3. remove_lists h1 x t = Some h2 \<and> freepageref h2 x = Some h3 \<and> mem h3 = mem h1 \<and>
    kinv h3 (remove1 x all) (same(t := remove1 x (same t))) fr \<and>
    live h3 (remove1 x all) fr = live h all fr - blocks (pagerefs h x) (fr x) \<and>
    pages h3 (remove1 x all) = pages h all - {PR_PAGEADDR (pagerefs h x)}"
proof -
  have t: "t < NSIZES" using page_addr(2) [OF kinvD(8) [OF assms(1,2)]] assms(3) by simp
  have n1: "next_all (pagerefs h1 y) = next_all (pagerefs h y)" "next_samesize (pagerefs h1 y) = next_samesize (pagerefs h y)" for y
    using assms(4-6) by simp_all
  have x: "x \<in> set (same t)" using kinvD(7) [OF assms(1) t] assms(2,3) by simp
  obtain ha where a: "remove_same h1 x t Base = Some ha" "lst (\<lambda>y. next_samesize (pagerefs ha y)) (sizebases ha t) (remove1 x (same t))"
    "\<forall>u. u \<noteq> t \<longrightarrow> sizebases ha u = sizebases h1 u" "\<forall>y. y \<notin> set (same t) \<longrightarrow> pagerefs ha y = pagerefs h1 y"
    "\<forall>y. next_all (pagerefs ha y) = next_all (pagerefs h1 y) \<and> same_page (pagerefs h1 y) (pagerefs ha y)"
    "allbase ha = allbase h1" "pagerefs_inuse ha = pagerefs_inuse h1" "mem ha = mem h1"
    using remove_same_ok [of h1 t "same t" x] kinvD(5,6) [OF assms(1) t] x by (auto simp: n1 assms(8))
  obtain hb where b: "remove_all ha x Base = Some hb" "lst (\<lambda>y. next_all (pagerefs hb y)) (allbase hb) (remove1 x all)"
    "\<forall>y. next_samesize (pagerefs hb y) = next_samesize (pagerefs ha y) \<and> same_page (pagerefs ha y) (pagerefs hb y)"
    "sizebases hb = sizebases ha" "pagerefs_inuse hb = pagerefs_inuse ha" "mem hb = mem ha"
    using remove_all_ok [of ha all x] kinvD(2,4) [OF assms(1)] assms(2) by (auto simp: n1 a(5,6) assms(9))
  have r: "remove_lists h1 x t = Some hb" using a(1) b(1) t by (simp add: remove_lists_def)
  have u: "used hb y \<longleftrightarrow> used h y" for y by (simp add: used_def b(5) a(7) assms(7))
  obtain us where c: "freepageref hb x = Some (hb\<lparr>pagerefs_inuse := us\<rparr>)" "length us = INUSE_WORDS"
    "\<forall>y. used (hb\<lparr>pagerefs_inuse := us\<rparr>) y \<longleftrightarrow> y \<noteq> x \<and> used hb y"
    using freepageref_ok [of hb x] u kinvD(1,3) [OF assms(1)] assms(2) by (auto simp: b(5) a(7) assms(7))
  define h3 where "h3 = hb\<lparr>pagerefs_inuse := us\<rparr>"
  have in_all: "set (remove1 x all) = set all - {x}" using kinvD(2) [OF assms(1)] by simp
  have pg: "same_page (pagerefs h y) (pagerefs h3 y)" if "y \<noteq> x" for y
    using a(5) b(3) that assms(4) by (auto simp: same_page_def h3_def)
  note sp = same_page_facts [OF pg]
  have s3: "next_samesize (pagerefs h3 y) = next_samesize (pagerefs h y)" if "y \<notin> set (same t)" for y
    using b(3) a(4) n1 that by (simp add: h3_def)
  have S: "distinct ((same(t := remove1 x (same t))) v) \<and> lst (\<lambda>y. next_samesize (pagerefs h3 y)) (sizebases h3 v) ((same(t := remove1 x (same t))) v) \<and>
      set ((same(t := remove1 x (same t))) v) = {y \<in> set (remove1 x all). PR_BLOCKTYPE (pagerefs h3 y) = v}" if v: "v < NSIZES" for v
  proof (cases "v = t")
    case True
    have "lst (\<lambda>y. next_samesize (pagerefs h3 y)) (sizebases h3 t) (remove1 x (same t))" using a(2) b(3,4) by (simp add: h3_def)
    moreover have "set (remove1 x (same t)) = {y \<in> set (remove1 x all). PR_BLOCKTYPE (pagerefs h3 y) = t}"
      using kinvD(5,7) [OF assms(1) t] sp(2) in_all by auto
    ultimately show ?thesis using True kinvD(5) [OF assms(1) t] by simp
  next
    case False
    have set: "set (same v) = {y \<in> set (remove1 x all). PR_BLOCKTYPE (pagerefs h3 y) = v}"
      using kinvD(7) [OF assms(1) v] sp(2) in_all False assms(3) by auto
    have "y \<notin> set (same t)" if "y \<in> set (same v)" for y using that kinvD(7) [OF assms(1) v] kinvD(7) [OF assms(1) t] False by auto
    then have "lst (\<lambda>y. next_samesize (pagerefs h3 y)) (sizebases h v) (same v)"
      by (intro lst_cong [OF kinvD(6) [OF assms(1) v]]) (simp add: s3)
    then show ?thesis using set False kinvD(5) [OF assms(1) v] a(3) b(4) by (simp add: h3_def assms(8))
  qed
  have P: "page_ok (mem h3) (pagerefs h3 y) (fr y) \<and> length (fr y) < 4096 div psize (pagerefs h3 y)" if y: "y \<in> set (remove1 x all)" for y
  proof -
    have y: "y \<in> set all" "y \<noteq> x" using y in_all by auto
    have p: "page_ok (mem h) (pagerefs h y) (fr y)" "page_ok (mem h) (pagerefs h x) (fr x)" using kinvD(8) [OF assms(1)] y assms(2) by blast+
    have ne: "PR_PAGEADDR (pagerefs h y) \<noteq> PR_PAGEADDR (pagerefs h x)" using kinvD(10) [OF assms(1)] y assms(2) by (auto dest: inj_onD)
    have "page_ok (mem h1) (pagerefs h y) (fr y)"
      by (intro page_ok_cong [OF p(1)] assms(10) page_apart) (use page_addr(1) p ne in auto)
    then show ?thesis using sp(3,4) [OF y(2)] kinvD(9) [OF assms(1) y(1)] by (simp add: h3_def b(6) a(8))
  qed
  have img: "(\<lambda>y. PR_PAGEADDR (pagerefs h3 y)) ` (set all - {x}) = (\<lambda>y. PR_PAGEADDR (pagerefs h y)) ` (set all - {x})"
    by (rule image_cong) (simp_all add: sp(1))
  have I: "inj_on (\<lambda>y. PR_PAGEADDR (pagerefs h3 y)) (set all - {x})"
    using inj_on_subset [OF kinvD(10) [OF assms(1)], of "set all - {x}"] sp(1) by (auto simp: inj_on_def)
  have inv: "kinv h3 (remove1 x all) (same(t := remove1 x (same t))) fr"
    unfolding kinv_def using S P I b(2) c(2,3) u kinvD(2,3) [OF assms(1)] unfolding h3_def in_all by auto
  have L: "live h3 (remove1 x all) fr = live h all fr - blocks (pagerefs h x) (fr x)"
  proof -
    have "live h3 (remove1 x all) fr = (\<Union>y \<in> set all - {x}. blocks (pagerefs h y) (fr y))"
      unfolding live_alt in_all by (rule SUP_cong) (simp_all add: blocks_def sp)
    moreover have "blocks (pagerefs h y) (fr y) \<inter> blocks (pagerefs h x) (fr x) = {}" if "y \<in> set all - {x}" for y
      using block_unique [OF assms(1) _ assms(2), of y] that by (force simp: blocks_def)
    ultimately show ?thesis unfolding live_alt using assms(2) by auto
  qed
  have "pages h3 (remove1 x all) = pages h all - {PR_PAGEADDR (pagerefs h x)}"
    unfolding pages_def in_all img using kinvD(10) [OF assms(1)] assms(2) by (auto dest: inj_onD)
  then show ?thesis using r c(1) inv L b(6) a(8) unfolding h3_def by auto
qed

lemma fill_outside: "(\<And>i. i \<in> set is \<Longrightarrow> a \<noteq> ptr + 4 * i) \<Longrightarrow> fill_deadbeef ptr is m a = m a"
  by (induction "is" arbitrary: m) auto

lemma free_count:
  assumes "t < NSIZES" "distinct os" "\<forall>x \<in> set os. x < 4096 \<and> sizes ! t dvd x"
  shows "length os \<le> 4096 div sizes ! t"
proof -
  have sz: "0 < sizes ! t" "sizes ! t * (4096 div sizes ! t) = 4096" using size_facts [OF assms(1)] by auto
  have "set os \<subseteq> (\<lambda>i. i * sizes ! t) ` {..<4096 div sizes ! t}" using assms(3) multiples [OF sz] by auto
  then have "card (set os) \<le> card ((\<lambda>i. i * sizes ! t) ` {..<4096 div sizes ! t})" by (intro card_mono) auto
  also have "\<dots> \<le> 4096 div sizes ! t" using card_image_le [of "{..<4096 div sizes ! t}"] by simp
  finally show ?thesis using distinct_card [OF assms(2)] by simp
qed

lemma push_page:
  assumes "page_ok (mem h) pr os" "a < 4096" "psize pr dvd a" "a \<notin> set os"
    "m = (fill_deadbeef (PR_PAGEADDR pr + a) [0..<psize pr div 4] (mem h))(PR_PAGEADDR pr + a :=
      if freelist_offset pr = INVALID_OFFSET then 0 else PR_PAGEADDR pr + freelist_offset pr)"
  shows "page_ok m (pr\<lparr>freelist_offset := a, nfree := nfree pr + 1\<rparr>) (a # os)"
    "length (a # os) \<le> 4096 div psize pr"
    "\<And>b. b < PR_PAGEADDR pr + a \<or> PR_PAGEADDR pr + a + psize pr \<le> b \<Longrightarrow> m b = mem h b"
proof -
  have t: "PR_BLOCKTYPE pr < NSIZES" and os: "distinct os" "\<forall>x \<in> set os. x < 4096 \<and> psize pr dvd x" using assms(1) by (simp_all add: page_ok_def)
  have sz: "16 \<le> psize pr" using size_facts(1) [OF t] by (simp add: psize_def)
  show "length (a # os) \<le> 4096 div psize pr" using free_count [OF t, of "a # os"] os assms(2-4) by (simp add: psize_def)
  show out: "m b = mem h b" if b: "b < PR_PAGEADDR pr + a \<or> PR_PAGEADDR pr + a + psize pr \<le> b" for b
  proof -
    have "fill_deadbeef (PR_PAGEADDR pr + a) [0..<psize pr div 4] (mem h) b = mem h b" by (rule fill_outside) (use b in auto)
    then show ?thesis using b sz unfolding assms(5) by auto
  qed
  have "flist m (PR_PAGEADDR pr) os"
  proof (rule flist_cong [of "mem h"])
    show "flist (mem h) (PR_PAGEADDR pr) os" using assms(1) by (simp add: page_ok_def)
    fix x assume x: "x \<in> set os"
    then have "x < a \<or> a < x" using assms(4) by (metis linorder_neqE_nat)
    then have "x < a \<or> a + psize pr \<le> x" using multiple_apart [of "psize pr" a x] os(2) x assms(3) by blast
    then show "m (PR_PAGEADDR pr + x) = mem h (PR_PAGEADDR pr + x)" by (intro out) auto
  qed
  moreover have "m (PR_PAGEADDR pr + a) = (case os of [] \<Rightarrow> 0 | y # _ \<Rightarrow> PR_PAGEADDR pr + y)"
    using assms(1) unfolding assms(5) by (cases os) (auto simp: page_ok_def INVALID_OFFSET_def)
  ultimately have "flist m (PR_PAGEADDR pr) (a # os)" by (cases os) auto
  then show "page_ok m (pr\<lparr>freelist_offset := a, nfree := nfree pr + 1\<rparr>) (a # os)"
    using assms(1-4) by (simp add: page_ok_def psize_def PR_PAGEADDR_def PR_BLOCKTYPE_def)
qed

text \<open>
  Releasing a block in use: the block is no longer in use, the memory outside it is as before, and
  the page is given back if this was its last block.
\<close>

lemma subpage_release_ok:
  assumes "kheap_rep h B P" "(p, n) \<in> B"
  shows "\<exists>r h'. subpage_release h p = Some (r, h') \<and> (\<forall>b. b < p \<or> p + n \<le> b \<longrightarrow> mem h' b = mem h b) \<and>
    (r = Kept \<and> kheap_rep h' (B - {(p, n)}) P \<or> (\<exists>pg \<in> P. r = Page_free pg \<and> kheap_rep h' (B - {(p, n)}) (P - {pg})))"
proof -
  obtain all same fr where k: "kinv h all same fr" "B = live h all fr" "P = pages h all" using assms(1) unfolding kheap_rep_def by blast
  obtain x a where x: "p = PR_PAGEADDR (pagerefs h x) + a" "n = psize (pagerefs h x)" "x \<in> set all" "a < 4096" "psize (pagerefs h x) dvd a" "a \<notin> set (fr x)"
    using assms(2) unfolding k(2) live_member by auto
  define pr where "pr = pagerefs h x"
  define t where "t = PR_BLOCKTYPE pr"
  have ok: "page_ok (mem h) pr (fr x)" using kinvD(8) [OF k(1) x(3)] by (simp add: pr_def)
  have t: "t < NSIZES" using ok by (simp add: page_ok_def t_def)
  let ?in = "\<lambda>y. PR_PAGEADDR (pagerefs h y) \<le> p \<and> p < PR_PAGEADDR (pagerefs h y) + 4096"
  have "find ?in all = Some x"
  proof (cases "find ?in all")
    case None
    then have "\<not> ?in x" using x(3) unfolding find_None_iff by blast
    then show ?thesis using x(1,4) by simp
  next
    case (Some y)
    then have y: "y \<in> set all" "?in y" by (auto simp: find_Some_iff)
    define b where "b = p - PR_PAGEADDR (pagerefs h y)"
    have b: "PR_PAGEADDR (pagerefs h y) + b = PR_PAGEADDR (pagerefs h x) + a" "b < 4096" using y(2) x(1) unfolding b_def by linarith+
    have "y = x" using block_unique [OF k(1) y(1) x(3) b(2) x(4) b(1)] by blast
    then show ?thesis using Some by blast
  qed
  then have f: "find_page h p (allbase h) = Some (Some x)" using find_page_ok [OF k(1) kinvD(4) [OF k(1)]] by simp
  define m where "m = (fill_deadbeef p [0..<sizes ! t div 4] (mem h))(PR_PAGEADDR pr + a :=
      if freelist_offset pr = INVALID_OFFSET then 0 else PR_PAGEADDR pr + freelist_offset pr)"
  define pr' where "pr' = pr\<lparr>freelist_offset := a, nfree := nfree pr + 1\<rparr>"
  have pp: "p = PR_PAGEADDR pr + a" "n = psize pr" "sizes ! t = psize pr" using x(1,2) by (simp_all add: pr_def t_def psize_def)
  note push = push_page [OF ok x(4) x(5) [folded pr_def] x(6), of m]
  have push: "page_ok m pr' (a # fr x)" "length (a # fr x) \<le> 4096 div psize pr" "\<And>b. b < p \<or> p + n \<le> b \<Longrightarrow> m b = mem h b"
    using push unfolding pr'_def pp(1,2) by (simp_all add: m_def pp)
  define h1 where "h1 = set_pr x pr' (h\<lparr>mem := m\<rparr>)"
  have nf: "nfree pr' = length (a # fr x)" using push(1) by (simp add: page_ok_def)
  have e: "PR_PAGEADDR (pagerefs h1 y) = PR_PAGEADDR (pagerefs h y) \<and> PR_BLOCKTYPE (pagerefs h1 y) = PR_BLOCKTYPE (pagerefs h y)" for y
    by (simp add: h1_def pr'_def pr_def PR_PAGEADDR_def PR_BLOCKTYPE_def)
  have le: "a + n \<le> 4096" using block_in_page [OF t x(4)] x(5) pp by (simp add: pr_def)
  have far: "m b = mem h b" if "\<And>y. y < 4096 \<Longrightarrow> b \<noteq> PR_PAGEADDR pr + y" for b
  proof -
    have "b < p \<or> p + n \<le> b"
    proof (rule ccontr)
      assume "\<not> (b < p \<or> p + n \<le> b)"
      then have "b = PR_PAGEADDR pr + (b - PR_PAGEADDR pr)" "b - PR_PAGEADDR pr < 4096" using pp(1) le by linarith+
      then show False using that by blast
    qed
    then show ?thesis by (rule push(3))
  qed
  have off: "a mod sizes ! t = 0" using x(5) pp(3) by (simp add: pr_def)
  have sub: "p - PR_PAGEADDR pr = a" using pp(1) by simp
  have cnt: "nfree pr + 1 \<le> 4096 div sizes ! t" using push(2) nf pp(3) by (simp add: pr'_def)
  have run: "subpage_release h p = (if nfree pr' = 4096 div sizes ! t then do {
      h \<leftarrow> remove_lists h1 x t; h \<leftarrow> freepageref h x; Some (Page_free (PR_PAGEADDR pr), h) } else Some (Kept, h1))"
    unfolding subpage_release_def h1_def m_def pr'_def using f x(4) off cnt sub
    by (simp add: Let_def pr_def [symmetric] t_def [symmetric])
  show ?thesis
  proof (cases "nfree pr' = 4096 div sizes ! t")
    case False
    then have lt: "length (a # fr x) < 4096 div psize pr'" using push(2) nf pp(3) by (simp add: pr'_def psize_def PR_BLOCKTYPE_def)
    have "kinv h1 all same (fr(x := a # fr x))"
      by (rule kinv_page [OF k(1) x(3) _ _ _ push(1) lt]) (use far in \<open>simp_all add: h1_def pr'_def pr_def PR_PAGEADDR_def\<close>)
    from kheap_repI [OF this] have "kheap_rep h1 (B - {(p, n)}) P"
      using live_push [OF k(1) x(3,4) e] k(2,3) e pp by (simp add: pages_def pr_def)
    moreover have "mem h1 = m" by (simp add: h1_def)
    ultimately show ?thesis using run False push(3) by auto
  next
    case True
    obtain h2 h3 where r: "remove_lists h1 x t = Some h2" "freepageref h2 x = Some h3" "mem h3 = mem h1"
      "kinv h3 (remove1 x all) (same(t := remove1 x (same t))) fr" "live h3 (remove1 x all) fr = live h all fr - blocks (pagerefs h x) (fr x)"
      "pages h3 (remove1 x all) = pages h all - {PR_PAGEADDR (pagerefs h x)}"
      using remove_page [OF k(1) x(3), of t h1 pr'] far by (auto simp: t_def pr_def h1_def pr'_def)
    have "{b. b < 4096 \<and> psize pr dvd b \<and> b \<notin> set (fr x)} = {a}"
    proof -
      have fin: "{b. b < 4096 \<and> psize pr dvd b} = (\<lambda>i. i * psize pr) ` {..<4096 div psize pr}"
        using multiples [of "psize pr" "4096 div psize pr"] size_facts(1,4) [OF t] pp(3) by auto
      have "card {b. b < 4096 \<and> psize pr dvd b} \<le> 4096 div psize pr" unfolding fin using card_image_le [of "{..<4096 div psize pr}"] by simp
      moreover have sub: "set (a # fr x) \<subseteq> {b. b < 4096 \<and> psize pr dvd b}" using ok x(4,5) by (auto simp: page_ok_def pr_def)
      moreover have "card (set (a # fr x)) = 4096 div psize pr" using True nf pp(3) push(1) distinct_card [of "a # fr x"] by (simp add: page_ok_def)
      moreover have "finite {b. b < 4096 \<and> psize pr dvd b}" by simp
      ultimately have "set (a # fr x) = {b. b < 4096 \<and> psize pr dvd b}" by (intro card_seteq) simp_all
      then show ?thesis using x(6) by auto
    qed
    then have "blocks (pagerefs h x) (fr x) = {(p, n)}" unfolding blocks_def pr_def [symmetric] using pp by simp
    then have "kheap_rep h3 (B - {(p, n)}) (P - {PR_PAGEADDR pr})" using kheap_repI [OF r(4)] r(5,6) k(2,3) by (simp add: pr_def)
    moreover have "PR_PAGEADDR pr \<in> P" using k(3) x(3) by (simp add: pages_def pr_def)
    moreover have "subpage_release h p = Some (Page_free (PR_PAGEADDR pr), h3)" using run True r(1,2) by simp
    moreover have "mem h3 = m" using r(3) by (simp add: h1_def)
    ultimately show ?thesis using push(3) by auto
  qed
qed

text \<open>An address outside the pages is not the allocator's.\<close>

lemma subpage_release_foreign:
  assumes "kheap_rep h B P" "p mod 4096 = 0" "p \<notin> P"
  shows "subpage_release h p = Some (Not_ours, h)"
proof -
  obtain all same fr where k: "kinv h all same fr" "P = pages h all" using assms(1) unfolding kheap_rep_def by blast
  have "find (\<lambda>y. PR_PAGEADDR (pagerefs h y) \<le> p \<and> p < PR_PAGEADDR (pagerefs h y) + 4096) all = None"
  proof -
    have "\<not> (PR_PAGEADDR (pagerefs h y) \<le> p \<and> p < PR_PAGEADDR (pagerefs h y) + 4096)" if y: "y \<in> set all" for y
    proof
      assume c: "PR_PAGEADDR (pagerefs h y) \<le> p \<and> p < PR_PAGEADDR (pagerefs h y) + 4096"
      have "PR_PAGEADDR (pagerefs h y) \<noteq> p" using assms(3) k(2) y by (auto simp: pages_def)
      then show False using c multiple_apart [of 4096 "PR_PAGEADDR (pagerefs h y)" p] page_addr(1) [OF kinvD(8) [OF k(1) y]] assms(2)
        by (simp add: mod_eq_0_iff_dvd)
    qed
    then show ?thesis by (auto simp: find_None_iff)
  qed
  then show ?thesis using find_page_ok [OF k(1) kinvD(4) [OF k(1)], of p] by (simp add: subpage_release_def)
qed

end
