(* ===== verification/Kernel_heap.thy ===== *)
theory Kernel_heap
  imports Kmalloc Memory
begin

text \<open>
  The allocator on top of the page allocator.  What it needs of the pages is the locale
  \<open>page_source\<close>; the core map's alloc_kpages and free_kpages provide it.  The blocks handed
  out, small and large, never overlap, and keep their contents until they are freed.
\<close>

section \<open>Pages for the allocator\<close>

text \<open>\<open>valid v H\<close>: the pages \<open>H\<close> have been handed out and not been given back.\<close>

locale page_source =
  fixes valid :: "'v \<Rightarrow> nat set \<Rightarrow> bool"
    and alloc_pages :: "'v \<Rightarrow> nat \<Rightarrow> (nat option \<times> 'v) option"
    and free_pages :: "'v \<Rightarrow> nat \<Rightarrow> 'v option"
  assumes alloc_none: "valid v H \<Longrightarrow> alloc_pages v n = Some (None, v') \<Longrightarrow> valid v' H"
    and alloc_some: "valid v H \<Longrightarrow> alloc_pages v n = Some (Some pg, v') \<Longrightarrow>
      valid v' (insert pg H) \<and> pg \<notin> H \<and> addr_ok pg \<and> n \<le> 1"
    and free_ok: "valid v H \<Longrightarrow> pg \<in> H \<Longrightarrow> \<exists>v'. free_pages v pg = Some v' \<and> valid v' (H - {pg})"

text \<open>The allocator with its pages: \<open>B\<close> are the blocks in use, those of a whole page included.\<close>

definition kmem :: "('v \<Rightarrow> nat set \<Rightarrow> bool) \<Rightarrow> kheap \<Rightarrow> 'v \<Rightarrow> (nat \<times> nat) set \<Rightarrow> bool" where
  "kmem valid h v B \<longleftrightarrow> (\<exists>S L P. kheap_rep h S P \<and> valid v (P \<union> L) \<and> P \<inter> L = {} \<and> (\<forall>p \<in> L. addr_ok p) \<and>
    B = S \<union> (\<lambda>p. (p, 4096)) ` L)"

definition apart :: "nat \<times> nat \<Rightarrow> nat \<times> nat \<Rightarrow> bool" where
  "apart b c \<longleftrightarrow> fst b + snd b \<le> fst c \<or> fst c + snd c \<le> fst b"

text \<open>The blocks of \<open>B\<close> have the same contents in both heaps.\<close>

definition same_contents :: "(nat \<times> nat) set \<Rightarrow> kheap \<Rightarrow> kheap \<Rightarrow> bool" where
  "same_contents B h h' \<longleftrightarrow> (\<forall>(p, n) \<in> B. \<forall>a. p \<le> a \<longrightarrow> a < p + n \<longrightarrow> mem h' a = mem h a)"

lemma same_contentsI: "(\<And>q m b. (q, m) \<in> B \<Longrightarrow> q \<le> b \<Longrightarrow> b < q + m \<Longrightarrow> mem h' b = mem h b) \<Longrightarrow> same_contents B h h'"
  by (auto simp: same_contents_def)

lemma apart_sym: "apart b c = apart c b"
  by (auto simp: apart_def)

lemma block_page:
  assumes "kheap_rep h S P" "(p, n) \<in> S" "addr_ok q" "q \<notin> P"
  shows "apart (p, n) (q, 4096)"
proof -
  obtain pg a where a: "pg \<in> P" "p = pg + a" "a + n \<le> 4096" "addr_ok pg" using live_facts(1) [OF assms(1,2)] by blast
  have "pg < q \<or> q < pg" using a(1) assms(4) by (metis linorder_neqE_nat)
  then have "pg + 4096 \<le> q \<or> q + 4096 \<le> pg" using multiple_apart [of 4096] a(4) assms(3) by (auto simp: addr_ok_def)
  then show ?thesis using a(2,3) by (auto simp: apart_def)
qed

lemma page_page: "addr_ok p \<Longrightarrow> addr_ok q \<Longrightarrow> p \<noteq> q \<Longrightarrow> apart (p, 4096) (q, 4096)"
  using multiple_apart [of 4096 p q] multiple_apart [of 4096 q p] by (auto simp: addr_ok_def apart_def neq_iff)

lemma kmem_apart:
  assumes "kmem valid h v B" "b \<in> B" "c \<in> B" "b \<noteq> c"
  shows "apart b c"
proof -
  obtain S L P where k: "kheap_rep h S P" "P \<inter> L = {}" "\<forall>p \<in> L. addr_ok p" "B = S \<union> (\<lambda>p. (p, 4096)) ` L"
    using assms(1) unfolding kmem_def by blast
  have mixed: "apart x (q, 4096)" if "x \<in> S" "q \<in> L" for x q
    using block_page [OF k(1), of "fst x" "snd x" q] that k(2,3) by auto
  have small: "apart x y" if "x \<in> S" "y \<in> S" "x \<noteq> y" for x y
    using live_apart [OF k(1), of "fst x" "snd x" "fst y" "snd y"] that by (auto simp: apart_def)
  show ?thesis using assms(2-4) unfolding k(4) using mixed small page_page k(3) apart_sym by blast
qed

lemma kmem_sizes:
  assumes "kmem valid h v B" "(p, n) \<in> B"
  shows "16 \<le> n \<and> p mod 16 = 0 \<and> 0 < p \<and> p + n \<le> 2 ^ 32"
proof -
  obtain S L P where k: "kheap_rep h S P" "\<forall>p \<in> L. addr_ok p" "B = S \<union> (\<lambda>p. (p, 4096)) ` L"
    using assms(1) unfolding kmem_def by blast
  show ?thesis
  proof (cases "(p, n) \<in> S")
    case True
    obtain pg a where "p = pg + a" "a + n \<le> 4096" "addr_ok pg" using live_facts(1) [OF k(1) True] by blast
    then show ?thesis using live_facts(2) [OF k(1) True] by (auto simp: addr_ok_def)
  next
    case False
    then have "addr_ok p" "n = 4096" using assms(2) k(2,3) by auto
    moreover from this have "16 dvd p" using dvd_trans [of 16 4096 p] by (simp add: addr_ok_def)
    ultimately show ?thesis by (auto simp: addr_ok_def)
  qed
qed

context page_source
begin

lemma grow_ok:
  assumes "kmem valid h v B" "t < NSIZES" "alloc_pages v 1 = Some (Some pg, v')"
  shows "\<exists>r h'. subpage_grow h t pg = Some (r, h') \<and> same_contents B h h' \<and>
    (case r of None \<Rightarrow> \<exists>v''. free_pages v' pg = Some v'' \<and> kmem valid h' v'' B
     | Some p \<Rightarrow> (p, sizes ! t) \<notin> B \<and> kmem valid h' v' (insert (p, sizes ! t) B))"
proof -
  obtain S L P where k: "kheap_rep h S P" "valid v (P \<union> L)" "P \<inter> L = {}" "\<forall>p \<in> L. addr_ok p" "B = S \<union> (\<lambda>p. (p, 4096)) ` L"
    using assms(1) unfolding kmem_def by blast
  have a: "valid v' (insert pg (P \<union> L))" "pg \<notin> P \<union> L" "addr_ok pg" using alloc_some [OF k(2) assms(3)] by auto
  from subpage_grow_ok [OF k(1) assms(2) a(3)] a(2)
  have "subpage_grow h t pg = Some (None, h) \<or> (\<exists>p h'. subpage_grow h t pg = Some (Some p, h') \<and>
    (\<forall>a. (\<forall>y < 4096. a \<noteq> pg + y) \<longrightarrow> mem h' a = mem h a) \<and> (p, sizes ! t) \<notin> S \<and> kheap_rep h' (insert (p, sizes ! t) S) (insert pg P))" by blast
  then show ?thesis
  proof (elim disjE exE conjE)
    assume g: "subpage_grow h t pg = Some (None, h)"
    obtain v'' where "free_pages v' pg = Some v''" "valid v'' (insert pg (P \<union> L) - {pg})" using free_ok [OF a(1)] by blast
    moreover have "insert pg (P \<union> L) - {pg} = P \<union> L" using a(2) by auto
    ultimately have "free_pages v' pg = Some v'' \<and> kmem valid h v'' B" unfolding kmem_def using k(1,3-5) by metis
    then show ?thesis using g by (auto simp: same_contents_def)
  next
    fix p h'
    assume g: "subpage_grow h t pg = Some (Some p, h')" "\<forall>a. (\<forall>y < 4096. a \<noteq> pg + y) \<longrightarrow> mem h' a = mem h a" "(p, sizes ! t) \<notin> S"
      "kheap_rep h' (insert (p, sizes ! t) S) (insert pg P)"
    have sz: "sizes ! t \<noteq> 4096" using size_facts(2) [OF assms(2)] by simp
    have "valid v' (insert pg P \<union> L)" using a(1) by simp
    moreover have "insert pg P \<inter> L = {}" using k(3) a(2) by auto
    ultimately have "kmem valid h' v' (insert (p, sizes ! t) B)"
      unfolding kmem_def using g(4) k(4,5) by (intro exI [of _ "insert (p, sizes ! t) S"] exI [of _ L] exI [of _ "insert pg P"]) auto
    moreover have "(p, sizes ! t) \<notin> B" using g(3) k(5) sz by auto
    moreover have "same_contents B h h'"
    proof (rule same_contentsI)
      fix q n b assume q: "(q, n) \<in> B" "q \<le> b" "b < q + n"
      have "apart (q, n) (pg, 4096)"
      proof (cases "(q, n) \<in> S")
        case False
        then have "n = 4096" "q \<in> L" using q(1) k(5) by auto
        then show ?thesis using page_page [OF _ a(3), of q] k(4) a(2) by auto
      qed (use block_page [OF k(1) _ a(3)] a(2) in auto)
      then have "\<forall>y < 4096. b \<noteq> pg + y" using q(2,3) by (auto simp: apart_def)
      then show "mem h' b = mem h b" using g(2) by blast
    qed
    ultimately show ?thesis using g(1) by auto
  qed
qed

lemma scan_ok:
  assumes "kmem valid h v B" "t < NSIZES"
  shows "subpage_scan h t = Some (None, h) \<or> (\<exists>p h'. subpage_scan h t = Some (Some p, h') \<and> mem h' = mem h \<and>
    (p, sizes ! t) \<notin> B \<and> kmem valid h' v (insert (p, sizes ! t) B))"
proof -
  obtain S L P where k: "kheap_rep h S P" "valid v (P \<union> L)" "P \<inter> L = {}" "\<forall>p \<in> L. addr_ok p" "B = S \<union> (\<lambda>p. (p, 4096)) ` L"
    using assms(1) unfolding kmem_def by blast
  have sz: "sizes ! t \<noteq> 4096" using size_facts(2) [OF assms(2)] by simp
  from subpage_scan_ok [OF k(1) assms(2)] show ?thesis
  proof (elim disjE exE conjE)
    fix p h' assume g: "subpage_scan h t = Some (Some p, h')" "mem h' = mem h" "(p, sizes ! t) \<notin> S" "kheap_rep h' (insert (p, sizes ! t) S) P"
    have "kmem valid h' v (insert (p, sizes ! t) B)" unfolding kmem_def using g(4) k(2-5)
      by (intro exI [of _ "insert (p, sizes ! t) S"] exI [of _ L] exI [of _ P]) auto
    then show ?thesis using g k(5) sz by auto
  qed blast
qed

text \<open>kmalloc hands out a block that nobody has, and disturbs nobody.\<close>

lemma kmalloc_ok:
  assumes "kmem valid h v B" "kmalloc alloc_pages free_pages h v sz = Some (r, h', v')"
  shows "same_contents B h h' \<and> (case r of None \<Rightarrow> kmem valid h' v' B
    | Some p \<Rightarrow> \<exists>n. (p, n) \<notin> B \<and> kmem valid h' v' (insert (p, n) B) \<and> (sz \<le> 2 ^ 32 - 4096 \<longrightarrow> sz \<le> n))"
proof (cases "sz \<ge> LARGEST_SUBPAGE_SIZE")
  case True
  let ?n = "(sz + 4096 - 1) mod 2 ^ 32 div 4096"
  have a: "alloc_pages v ?n = Some (r, v')" "h' = h"
    using assms(2) True by (auto simp: kmalloc_def Let_def Option.bind_eq_Some_conv)
  obtain S L P where k: "kheap_rep h S P" "valid v (P \<union> L)" "P \<inter> L = {}" "\<forall>p \<in> L. addr_ok p" "B = S \<union> (\<lambda>p. (p, 4096)) ` L"
    using assms(1) unfolding kmem_def by blast
  show ?thesis
  proof (cases r)
    case None
    then have "valid v' (P \<union> L)" using alloc_none [OF k(2)] a(1) by blast
    then have "kmem valid h' v' B" unfolding kmem_def a(2) using k by blast
    then show ?thesis using None a(2) by (simp add: same_contents_def)
  next
    case (Some p)
    then have l: "valid v' (insert p (P \<union> L))" "p \<notin> P \<union> L" "addr_ok p" "?n \<le> 1" using alloc_some [OF k(2)] a(1) by auto
    have "(p, 4096) \<notin> S"
    proof
      assume s: "(p, 4096) \<in> S"
      then show False using block_page [OF k(1) s l(3)] l(2) by (simp add: apart_def)
    qed
    then have "(p, 4096) \<notin> B" using l(2) k(5) by auto
    moreover have "kmem valid h' v' (insert (p, 4096) B)"
      unfolding kmem_def a(2) using k l by (intro exI [of _ S] exI [of _ "insert p L"] exI [of _ P]) auto
    moreover have "sz \<le> 4096" if "sz \<le> 2 ^ 32 - 4096"
    proof -
      have "(sz + 4096 - 1) mod 2 ^ 32 = sz + 4095" using that by simp
      then show ?thesis using l(4) by simp
    qed
    ultimately show ?thesis using Some a(2) by (auto simp: same_contents_def)
  qed
next
  case False
  then obtain t where t: "blocktype sz = Some t" "t < NSIZES" "sz \<le> sizes ! t" using blocktype_eq by (metis not_le)
  have run: "subpage_kmalloc alloc_pages free_pages h v sz = Some (r, h', v')" using assms(2) False by (simp add: kmalloc_def)
  from scan_ok [OF assms(1) t(2)] show ?thesis
  proof (elim disjE exE conjE)
    fix p h1 assume s: "subpage_scan h t = Some (Some p, h1)" "mem h1 = mem h" "(p, sizes ! t) \<notin> B" "kmem valid h1 v (insert (p, sizes ! t) B)"
    then have "r = Some p" "h' = h1" "v' = v" using run t(1) by (simp_all add: subpage_kmalloc_def)
    then show ?thesis using s t(3) by (auto simp: same_contents_def)
  next
    assume s: "subpage_scan h t = Some (None, h)"
    obtain g v1 where a: "alloc_pages v 1 = Some (g, v1)" using run t(1) s by (auto simp: subpage_kmalloc_def Option.bind_eq_Some_conv)
    show ?thesis
    proof (cases g)
      case None
      then have e: "r = None" "h' = h" "v' = v1" using run t(1) s a by (simp_all add: subpage_kmalloc_def)
      have "kmem valid h v1 B" using assms(1) alloc_none [of v _ 1 v1] a None unfolding kmem_def by blast
      then show ?thesis using e by (simp add: same_contents_def)
    next
      case (Some pg)
      obtain q h2 where q: "subpage_grow h t pg = Some (q, h2)" "same_contents B h h2"
        "case q of None \<Rightarrow> \<exists>v''. free_pages v1 pg = Some v'' \<and> kmem valid h2 v'' B | Some p \<Rightarrow> (p, sizes ! t) \<notin> B \<and> kmem valid h2 v1 (insert (p, sizes ! t) B)"
        using grow_ok [OF assms(1) t(2)] a Some by blast
      then show ?thesis using run t s a Some by (cases q) (auto simp: subpage_kmalloc_def)
    qed
  qed
qed

text \<open>It returns whenever the page allocator does.\<close>

lemma kmalloc_returns:
  assumes "kmem valid h v B" "\<And>n. alloc_pages v n \<noteq> None"
  shows "kmalloc alloc_pages free_pages h v sz \<noteq> None"
proof (cases "sz \<ge> LARGEST_SUBPAGE_SIZE")
  case True
  obtain g v1 where "alloc_pages v ((sz + 4096 - 1) mod 2 ^ 32 div 4096) = Some (g, v1)" using assms(2) by fastforce
  then show ?thesis using True by (simp add: kmalloc_def Let_def)
next
  case False
  then obtain t where t: "blocktype sz = Some t" "t < NSIZES" using blocktype_eq by (metis not_le)
  obtain g v1 where a: "alloc_pages v 1 = Some (g, v1)" using assms(2) [of 1] by auto
  have "subpage_kmalloc alloc_pages free_pages h v sz \<noteq> None"
  proof (cases "subpage_scan h t = Some (None, h)")
    case s: True
    show ?thesis
    proof (cases g)
      case (Some pg)
      obtain q h2 where "subpage_grow h t pg = Some (q, h2)" "q = None \<longrightarrow> (\<exists>v''. free_pages v1 pg = Some v'')"
        using grow_ok [OF assms(1) t(2)] a Some by (fastforce split: option.splits)
      then show ?thesis using s t(1) a Some by (cases q) (auto simp: subpage_kmalloc_def)
    qed (use s t(1) a in \<open>simp add: subpage_kmalloc_def\<close>)
  next
    case False
    then obtain p h' where "subpage_scan h t = Some (Some p, h')" using scan_ok [OF assms(1) t(2)] by blast
    then show ?thesis using t(1) by (simp add: subpage_kmalloc_def)
  qed
  then show ?thesis using False by (simp add: kmalloc_def)
qed

text \<open>kfree takes back a block, and disturbs no other.\<close>

lemma kfree_ok:
  assumes "kmem valid h v B" "(p, n) \<in> B"
  shows "\<exists>h' v'. kfree free_pages h v (Some p) = Some (h', v') \<and> kmem valid h' v' (B - {(p, n)}) \<and> same_contents (B - {(p, n)}) h h'"
proof -
  obtain S L P where k: "kheap_rep h S P" "valid v (P \<union> L)" "P \<inter> L = {}" "\<forall>p \<in> L. addr_ok p" "B = S \<union> (\<lambda>p. (p, 4096)) ` L"
    using assms(1) unfolding kmem_def by blast
  show ?thesis
  proof (cases "(p, n) \<in> S")
    case True
    obtain pg a where n: "pg \<in> P" "p = pg + a" "a + n \<le> 4096" using live_facts(1) [OF k(1) True] by blast
    have sm: "(q, 4096) \<notin> {(p, n)}" if "q \<in> L" for q
    proof
      assume "(q, 4096) \<in> {(p, n)}"
      then have "apart (p, n) (p, n)" using block_page [OF k(1) True, of q] that k(3,4) by auto
      then show False using kmem_sizes [OF assms] by (simp add: apart_def)
    qed
    obtain r h' where r: "subpage_release h p = Some (r, h')" "\<forall>b. b < p \<or> p + n \<le> b \<longrightarrow> mem h' b = mem h b"
      "r = Kept \<and> kheap_rep h' (S - {(p, n)}) P \<or> (\<exists>pg \<in> P. r = Page_free pg \<and> kheap_rep h' (S - {(p, n)}) (P - {pg}))"
      using subpage_release_ok [OF k(1) True] by blast
    have B: "B - {(p, n)} = (S - {(p, n)}) \<union> (\<lambda>p. (p, 4096)) ` L" using k(5) sm by auto
    have same: "same_contents (B - {(p, n)}) h h'"
    proof (rule same_contentsI)
      fix q m b assume q: "(q, m) \<in> B - {(p, n)}" "q \<le> b" "b < q + m"
      have "apart (q, m) (p, n)" by (rule kmem_apart [OF assms(1) _ assms(2)]) (use q(1) in auto)
      then show "mem h' b = mem h b" using r(2) q(2,3) by (auto simp: apart_def)
    qed
    from r(3) show ?thesis
    proof (elim disjE conjE bexE)
      assume c: "r = Kept" "kheap_rep h' (S - {(p, n)}) P"
      have "kmem valid h' v (B - {(p, n)})" unfolding kmem_def B using c(2) k(2-4) by blast
      then show ?thesis using r(1) c(1) same by (simp add: kfree_def subpage_kfree_def)
    next
      fix pg assume c: "pg \<in> P" "r = Page_free pg" "kheap_rep h' (S - {(p, n)}) (P - {pg})"
      obtain v' where v': "free_pages v pg = Some v'" "valid v' (P \<union> L - {pg})" using free_ok [OF k(2), of pg] c(1) by blast
      have "P \<union> L - {pg} = (P - {pg}) \<union> L" "(P - {pg}) \<inter> L = {}" using k(3) c(1) by auto
      then have "kmem valid h' v' (B - {(p, n)})" unfolding kmem_def B using c(3) k(4) v'(2) by metis
      then show ?thesis using r(1) c(2) v'(1) same by (simp add: kfree_def subpage_kfree_def)
    qed
  next
    case False
    then have l: "p \<in> L" "n = 4096" using assms(2) k(5) by auto
    have p: "p mod 4096 = 0" "p \<notin> P" using l(1) k(3,4) by (auto simp: addr_ok_def)
    obtain v' where v': "free_pages v p = Some v'" "valid v' (P \<union> L - {p})" using free_ok [OF k(2), of p] l(1) by blast
    have "P \<union> L - {p} = P \<union> (L - {p})" using p(2) by auto
    then have "kmem valid h v' (B - {(p, n)})"
      unfolding kmem_def using k v'(2) False l(2)
      by (intro exI [of _ S] exI [of _ "L - {p}"] exI [of _ P]) auto
    then show ?thesis using subpage_release_foreign [OF k(1) p] p(1) v'(1) by (auto simp: kfree_def subpage_kfree_def same_contents_def)
  qed
qed

end

section \<open>Pages of the core map\<close>

text \<open>Choosing a frame leaves the state of the other frames alone, and never takes one of the kernel's.\<close>

lemma alloc_evict_others:
  assumes "alloc_evict io s as ix = Some s'" "j \<noteq> ix"
  shows "cme_state (coremap s' ! j) = cme_state (coremap s ! j)"
proof -
  obtain v s1 s3 s4 where r: "cme_as (coremap s ! ix) = Some v" "alloc_lock_victim s as v = Some s1"
    "alloc_writeback io (vm_tlbshootdown s1 (COREMAP_TO_PADDR s1 ix)) ix = Some s3"
    "evict_page s3 (COREMAP_TO_PADDR s3 ix) = Some s4" "alloc_unlock_victim s4 (v \<in> pt_held s) ix = Some s'"
    using assms(1) by (auto simp: alloc_evict_def Let_def Option.bind_eq_Some_conv)
  define s2 where "s2 = vm_tlbshootdown s1 (COREMAP_TO_PADDR s1 ix)"
  have 1: "coremap s1 = coremap s" using alloc_lock_victim_eq [OF r(2)] by (simp add: vm.splits(2))
  have 2: "coremap s2 = coremap s1" "base s2 = base s1" unfolding s2_def by (simp_all add: vm_tlbshootdown_def Let_def)
  have 3: "coremap s3 ! j = coremap s2 ! j" using r(3) assms(2) unfolding s2_def [symmetric]
    by (auto simp: alloc_writeback_def swapout_def write_page_def Let_def cme_defs split: if_splits option.splits)
  have 4: "coremap s4 ! j = coremap s3 ! j" using r(4) assms(2)
    by (auto simp: evict_page_def Let_def cme_defs put_as_def Option.bind_eq_Some_conv split: if_splits)
  have 5: "coremap s' = coremap s4" using r(5)
    by (auto simp: alloc_unlock_victim_def pt_lock_release_def split: if_splits option.splits)
  show ?thesis using 1 2 3 4 5 by simp
qed

lemma alloc_select_others:
  assumes inv: "vm_inv T s" and run: "alloc_select io s as = Some (ix, s')" and j: "j < num_cm_entries s"
  shows "cme_state (coremap s ! ix) \<noteq> CME_FIXED \<and> (j \<noteq> ix \<longrightarrow> cme_state (coremap s' ! j) = cme_state (coremap s ! j))"
proof -
  note shape = vm_inv_shape [OF inv]
  have len: "num_cm_entries s = length (coremap s)" using shape by (simp add: inv_shape_def)
  obtain r s1 where find: "(if num_cm_free s > 0 then find_free_page s else (None, s)) = (r, s1)"
    by (cases "if num_cm_free s > 0 then find_free_page s else (None, s)")
  show ?thesis
  proof (cases r)
    case (Some i)
    then have f: "find_free_page s = (Some ix, s')" using find run by (auto simp: alloc_select_def split: if_splits)
    then have "cme_state (coremap s ! ix) = CME_FREE" "s' = cme_set_busy s ix True"
      using shape by (auto simp: find_free_page_def find_free_page_from_spec find_upt_Some inv_shape_def split: option.splits)
    then show ?thesis by (simp add: cme_defs)
  next
    case None
    then have "s1 = s" using find by (auto simp: find_free_page_def find_free_page_from_spec split: if_splits option.splits)
    then obtain s2 where s2: "choose_evict_page s = Some (ix, s2)"
      "(if cme_get_state s2 ix \<noteq> CME_FREE then alloc_evict io s2 as ix else Some s2) = Some s'"
      using run find None by (auto simp: alloc_select_def Option.bind_eq_Some_conv split: if_splits)
    obtain s3 where s3: "clock_rel s s3" "ix = clock_hand s3" "evictable s3 ix" "s2 = advance_clock (cme_set_busy s3 ix True)"
      using choose_evict_page_result [OF s2(1) shape] by (auto simp: clock_result_def)
    have c: "ix < length (coremap s)" using clock_relD(2) [OF s3(1)] s3(2) len by simp
    have e: "cme_state (coremap s3 ! i) = cme_state (coremap s ! i)" if "i < length (coremap s)" for i using clock_rel_entry(1) [OF s3(1) that] .
    have "cme_state (coremap s2 ! i) = cme_state (coremap s ! i)" if "i < length (coremap s)" for i
      using e [OF that] s3(4) clock_relD(1) [OF s3(1)] by (cases "i = ix") (simp_all add: advance_clock_def cme_defs c)
    moreover have "cme_state (coremap s ! ix) \<noteq> CME_FIXED" using s3(3) e [OF c] by (simp add: evictable_def)
    ultimately show ?thesis using s2(2) alloc_evict_others [of io s2 as ix s' j] j len by (auto split: if_splits)
  qed
qed

lemma alloc_kpages_fresh:
  assumes "vm_inv T s" "alloc_kpages io s n = Some (Some kva, s')"
  shows "n \<le> 1" "\<not> kernel_page s kva" "kernel_page s' kva" "kernel_page s q \<Longrightarrow> kernel_page s' q" "addr_ok kva"
proof -
  show n: "n \<le> 1" using assms(2) by (auto simp: alloc_kpages_def split: if_splits)
  then have run: "alloc_kpages io s 1 = Some (Some kva, s')" using assms(2) by (auto simp: alloc_kpages_def)
  obtain pa s1 where pa: "alloc_one_page io s None 0 = Some (pa, s1)" "pa \<noteq> 0" "kva = pa + 0x80000000"
    "s' = cme_set_busy s1 (PADDR_TO_COREMAP s1 pa) False"
    using run by (auto simp: alloc_kpages_def Option.bind_eq_Some_conv split: if_splits)
  obtain ix s0 where a: "alloc_select io s None = Some (ix, s0)" "pa = COREMAP_TO_PADDR s ix"
    "s1 = s0\<lparr>coremap := (coremap s0)[ix := fresh_entry None 0], num_cm_free := num_cm_free s0 - 1, num_cm_kernel := num_cm_kernel s0 + 1\<rparr>"
    using alloc_one_page_eq [OF pa(1) assms(1)] pa(2) by fastforce
  note rd = alloc_select_ready [OF assms(1) a(1), unfolded ready_def]
  have len: "ix < length (coremap s0)" using rd vm_inv_shape [of T s0] by (simp add: inv_shape_def)
  have oth: "cme_state (coremap s ! ix) \<noteq> CME_FIXED" "\<And>j. j < num_cm_entries s \<Longrightarrow> j \<noteq> ix \<Longrightarrow> cme_state (coremap s0 ! j) = cme_state (coremap s ! j)"
    using alloc_select_others [OF assms(1) a(1)] rd by auto
  have inj: "COREMAP_TO_PADDR s i = COREMAP_TO_PADDR s j \<longleftrightarrow> i = j" for i j by (simp add: COREMAP_TO_PADDR_def)
  show "\<not> kernel_page s kva" using oth(1) pa(3) a(2) inj by (auto simp: kernel_page_def)
  show "kernel_page s' kva" using alloc_kpages_kernel(3) [OF assms(1) run] by simp
  have st: "cme_state (coremap s' ! j) = cme_state (coremap s0 ! j)" if "j \<noteq> ix" for j
    using that pa(4) a(2,3) rd by (simp add: cme_defs)
  have eq: "num_cm_entries s' = num_cm_entries s" "base s' = base s" using pa(4) a(3) rd by (simp_all add: cme_defs)
  show "kernel_page s' q" if q: "kernel_page s q"
  proof -
    obtain i where i: "i < num_cm_entries s" "q = COREMAP_TO_PADDR s i + 0x80000000" "cme_state (coremap s ! i) = CME_FIXED"
      using q by (auto simp: kernel_page_def)
    have "i \<noteq> ix" using i(3) oth(1) by blast
    then have "cme_state (coremap s' ! i) = CME_FIXED" using st oth(2) i by simp
    then show ?thesis unfolding kernel_page_def COREMAP_TO_PADDR_def eq using i by (auto simp: COREMAP_TO_PADDR_def)
  qed
  have b: "base s + num_cm_entries s \<le> 524288" "ix < num_cm_entries s" using vm_inv_shape [OF assms(1)] rd by (simp_all add: inv_shape_def)
  have "4096 dvd kva" unfolding pa(3) a(2) COREMAP_TO_PADDR_def by simp
  moreover have "kva + 4096 \<le> 2 ^ 32" unfolding pa(3) a(2) COREMAP_TO_PADDR_def using b by simp
  ultimately show "addr_ok kva" using pa(3) by (simp add: addr_ok_def)
qed

text \<open>The pages \<open>H\<close> are pages of the kernel, in a consistent state of the memory.\<close>

definition vm_valid :: "vm \<Rightarrow> nat set \<Rightarrow> bool" where
  "vm_valid s H \<longleftrightarrow> vm_inv {} s \<and> (\<forall>p \<in> H. kernel_page s p)"

interpretation kp: page_source vm_valid "alloc_kpages io" free_kpages for io
proof
  show "vm_valid v' H" if h: "vm_valid v H" "alloc_kpages io v n = Some (None, v')" for v v' H n
  proof (cases "n \<le> 1")
    case True
    then have r: "alloc_kpages io v 1 = Some (None, v')" using h(2) by (auto simp: alloc_kpages_def)
    then obtain s1 where "alloc_one_page io v None 0 = Some (0, s1)" "v' = s1"
      by (auto simp: alloc_kpages_def Option.bind_eq_Some_conv split: if_splits)
    then have "v' = v" using alloc_one_page_eq [of io v None 0 0 s1 "{}"] h(1) by (auto simp: vm_valid_def)
    then show ?thesis using h(1) by simp
  next
    case False
    then show ?thesis using h by (simp add: alloc_kpages_def)
  qed
  show "vm_valid v' (insert pg H) \<and> pg \<notin> H \<and> addr_ok pg \<and> n \<le> 1"
    if h: "vm_valid v H" "alloc_kpages io v n = Some (Some pg, v')" for v v' H n pg
  proof -
    have i: "vm_inv {} v" using h(1) by (simp add: vm_valid_def)
    have "vm_inv {} v'" using alloc_kpages_keeps [OF i h(2)] by (simp add: vm_keeps_def)
    then show ?thesis using alloc_kpages_fresh [OF i h(2)] h(1) by (auto simp: vm_valid_def)
  qed
  show "\<exists>v'. free_kpages v pg = Some v' \<and> vm_valid v' (H - {pg})" if h: "vm_valid v H" "pg \<in> H" for v H pg
    using free_kpages_keeps [of "{}" v pg] h by (fastforce simp: vm_valid_def)
qed

section \<open>The kernel's allocator\<close>

lemma alloc_kpages_number: "n \<le> 1 \<Longrightarrow> alloc_kpages io v n = alloc_kpages io v 1" "1 < n \<Longrightarrow> alloc_kpages io v n = Some (None, v)"
  by (simp_all add: alloc_kpages_def)

lemma kheap_boot_rep: "kheap_rep (kheap_boot prs m) {} {}"
proof -
  have "\<not> used (kheap_boot prs m) x" for x
    by (simp add: used_def kheap_boot_def NPAGEREFS_def INUSE_WORDS_def nth_Cons')
  then have "kinv (kheap_boot prs m) [] (\<lambda>_. []) (\<lambda>_. [])"
    by (simp add: kinv_def kheap_boot_def)
  then show ?thesis using kheap_repI by (fastforce simp: live_def pages_def)
qed

lemma kmem_boot: "vm_inv {} v \<Longrightarrow> kmem vm_valid (kheap_boot prs m) v {}"
  unfolding kmem_def by (rule exI [of _ "{}"], rule exI [of _ "{}"], rule exI [of _ "{}"]) (simp add: kheap_boot_rep vm_valid_def)

lemma kmalloc_block:
  assumes "kmem vm_valid h v B" "i < num_cm_entries v" "evictable v i" "\<And>k. io True k = None" "sz \<le> 2 ^ 32 - 4096"
  shows "\<exists>r h' v'. kmalloc (alloc_kpages io) free_kpages h v sz = Some (r, h', v') \<and> same_contents B h h' \<and>
    (case r of None \<Rightarrow> kmem vm_valid h' v' B
     | Some p \<Rightarrow> \<exists>n \<ge> sz. p mod 16 = 0 \<and> 0 < p \<and> p + n \<le> 2 ^ 32 \<and> (\<forall>b \<in> B. apart (p, n) b) \<and>
         kmem vm_valid h' v' (insert (p, n) B))"
proof -
  have inv: "vm_inv {} v" using assms(1) by (auto simp: kmem_def vm_valid_def)
  have "alloc_kpages io v 1 \<noteq> None" using alloc_kpages_succeeds [OF inv assms(2,3), of io] assms(4) by auto
  then have "alloc_kpages io v n \<noteq> None" for n using alloc_kpages_number [of n io v] by (cases "n \<le> 1") auto
  then obtain r h' v' where run: "kmalloc (alloc_kpages io) free_kpages h v sz = Some (r, h', v')"
    using kp.kmalloc_returns [OF assms(1), of io sz] by auto
  note ok = kp.kmalloc_ok [OF assms(1) run]
  show ?thesis
  proof (cases r)
    case None
    then show ?thesis using ok run by simp
  next
    case (Some p)
    then obtain n where n: "(p, n) \<notin> B" "kmem vm_valid h' v' (insert (p, n) B)" "sz \<le> n" using ok assms(5) by auto
    have "\<forall>b \<in> B. apart (p, n) b" using kmem_apart [OF n(2), of "(p, n)"] n(1) by blast
    moreover note kmem_sizes [OF n(2), of p n]
    ultimately show ?thesis using run ok Some n(2,3) by auto
  qed
qed

text \<open>C10. kmalloc returns whenever a frame can be evicted and the swap disk works; then the block it
  returns has at least the requested size, is aligned to 16 bytes, overlaps no block in use, and the
  contents of the blocks in use, small ones and whole pages, are unchanged.\<close>

theorem kmalloc_fresh:
  assumes "kmem vm_valid h v B" "i < num_cm_entries v" "evictable v i" "\<And>k. io True k = None" "sz \<le> 2 ^ 32 - 4096"
  shows "\<exists>r h' v'. kmalloc (alloc_kpages io) free_kpages h v sz = Some (r, h', v') \<and> same_contents B h h' \<and>
    (case r of None \<Rightarrow> kmem vm_valid h' v' B
     | Some p \<Rightarrow> \<exists>n \<ge> sz. p mod 16 = 0 \<and> 0 < p \<and> p + n \<le> 2 ^ 32 \<and> (\<forall>b \<in> B. apart (p, n) b) \<and>
         kmem vm_valid h' v' (insert (p, n) B))"
  using assms by (rule kmalloc_block)

theorem kmalloc_fresh_witness:
  "kmem vm_valid (kheap_boot (\<lambda>_. undefined) (\<lambda>_. 0)) demo_vm {} \<and>
   (\<exists>r h' v'. kmalloc (alloc_kpages io_ok) free_kpages (kheap_boot (\<lambda>_. undefined) (\<lambda>_. 0)) demo_vm 100 = Some (r, h', v') \<and>
    (case r of None \<Rightarrow> kmem vm_valid h' v' {} | Some p \<Rightarrow> \<exists>n \<ge> 100. p mod 16 = 0 \<and> kmem vm_valid h' v' {(p, n)}))"
proof -
  note k = kmem_boot [OF demo_inv, of "\<lambda>_. undefined" "\<lambda>_. 0"]
  show ?thesis using k kmalloc_fresh [OF k _ demo_evictable(1), of io_ok 100]
    by (fastforce simp: io_ok_def split: option.splits)
qed

lemma demo_page: "\<exists>q v'. alloc_kpages io_ok demo_vm 1 = Some (Some q, v')"
proof -
  have l: "\<not> reached_kpage_limit demo_vm" by (simp add: reached_kpage_limit_def MIN_USER_CM_PAGES_def demo_vm_def)
  obtain pa s' where r: "alloc_one_page io_ok demo_vm None 0 = Some (pa, s')"
    using alloc_one_page_succeeds [OF demo_inv, of 1 None io_ok 0] demo_evictable(1) by (auto simp: alloc_locks_ok_def io_ok_def)
  then have "pa \<noteq> 0" using alloc_one_page_eq [OF r demo_inv] l by blast
  then show ?thesis using r by (simp add: alloc_kpages_def)
qed

text \<open>C11. kfree accepts every block in use, small or a whole page, takes it back, and neither frees nor
  changes any other block; freeing the null pointer does nothing.\<close>

theorem kfree_releases:
  assumes "kmem vm_valid h v B" "(p, n) \<in> B"
  shows "\<exists>h' v'. kfree free_kpages h v (Some p) = Some (h', v') \<and> kmem vm_valid h' v' (B - {(p, n)}) \<and>
    same_contents (B - {(p, n)}) h h' \<and> kfree free_kpages h v None = Some (h, v)"
  using kp.kfree_ok [OF assms] by (simp add: kfree_def)

theorem kfree_releases_witness:
  "\<exists>h v p n. kmem vm_valid h v {(p, n)} \<and> (\<exists>h' v'. kfree free_kpages h v (Some p) = Some (h', v') \<and> kmem vm_valid h' v' {})"
proof -
  let ?h = "kheap_boot (\<lambda>_. undefined) (\<lambda>_. 0)"
  have k: "kmem vm_valid ?h demo_vm {}" by (rule kmem_boot [OF demo_inv])
  obtain q v' where "alloc_kpages io_ok demo_vm 1 = Some (Some q, v')" using demo_page by blast
  then have run: "kmalloc (alloc_kpages io_ok) free_kpages ?h demo_vm 4096 = Some (Some q, ?h, v')"
    by (simp add: kmalloc_def LARGEST_SUBPAGE_SIZE_def)
  from kp.kmalloc_ok [OF k run] obtain n where n: "kmem vm_valid ?h v' {(q, n)}" by auto
  show ?thesis using n kfree_releases [OF n, of q n] by simp blast
qed

text \<open>C39. Requests for more than a page fail and change nothing, up to the last 4095 sizes below 2^32:
  there rounding up to pages wraps around, and the request is served as one for a single page.\<close>

theorem kmalloc_large:
  assumes "4096 < sz" "sz < 2 ^ 32"
  shows "kmalloc (alloc_kpages io) free_kpages h v sz =
    (if sz \<le> 2 ^ 32 - 4096 then Some (None, h, v) else kmalloc (alloc_kpages io) free_kpages h v 4096)"
proof (cases "sz \<le> 2 ^ 32 - 4096")
  case True
  then have "(sz + 4096 - 1) mod 2 ^ 32 = sz + 4095" by simp
  moreover have "1 < (sz + 4095) div 4096" using assms(1) by simp
  ultimately show ?thesis using True assms(1) alloc_kpages_number(2) [of "(sz + 4095) div 4096" io v]
    by (simp add: kmalloc_def Let_def LARGEST_SUBPAGE_SIZE_def add.commute)
next
  case False
  have "(sz + 4096 - 1) mod 2 ^ 32 div 4096 = 0" using False assms(2) by (simp add: mod_if)
  then show ?thesis using False assms alloc_kpages_number(1) [of 0 io v]
    by (simp add: kmalloc_def Let_def LARGEST_SUBPAGE_SIZE_def)
qed

theorem kmalloc_large_witness:
  "kmalloc (alloc_kpages io_ok) free_kpages (kheap_boot (\<lambda>_. undefined) (\<lambda>_. 0)) demo_vm 8192 =
     Some (None, kheap_boot (\<lambda>_. undefined) (\<lambda>_. 0), demo_vm)"
  using kmalloc_large [of 8192 io_ok "kheap_boot (\<lambda>_. undefined) (\<lambda>_. 0)" demo_vm] by simp

end
