(* ===== verification/Files.thy ===== *)
theory Files
  imports Prelude
begin

text \<open>
  Open files (kern/syscall/io_syscalls.c and the descriptor loops of fork.c and
  waitexit_syscalls.c).  A descriptor is a pointer to a file_table structure that other descriptors, of
  the same or of other processes, may share; the structure counts them.  A system call is one
  step: the mutex of the structure orders the calls on it.  What the calls below (kmalloc, vfs_open,
  VOP_READ, VOP_WRITE, VOP_STAT, VOP_TRYSEEK, copyin) answer is an argument.  None is the use of a
  structure that has been freed.
\<close>

section \<open>State\<close>

definition MAX_FILE_DESCRIPTOR :: nat where "MAX_FILE_DESCRIPTOR = 16"

definition O_RDONLY :: "32 word" where "O_RDONLY = 0"
definition O_WRONLY :: "32 word" where "O_WRONLY = 1"
definition O_RDWR :: "32 word" where "O_RDWR = 2"
definition O_ACCMODE :: "32 word" where "O_ACCMODE = 3"

record file_table =
  status :: "32 word"
  offset :: "64 word"
  refcnt :: int
  update_pos :: bool
  vnode :: nat

text \<open>\<open>files\<close> are the structures in use, \<open>fds t\<close> the descriptors of thread \<open>t\<close>, \<open>closed\<close> the
  vnodes handed to vfs_close, the latest first.\<close>

record open_files =
  files :: "nat \<Rightarrow> file_table option"
  fds :: "nat \<Rightarrow> nat \<Rightarrow> nat option"
  closed :: "nat list"

definition set_fd :: "nat \<Rightarrow> nat \<Rightarrow> nat option \<Rightarrow> open_files \<Rightarrow> open_files" where
  "set_fd t i p s = s\<lparr>fds := (fds s)(t := (fds s t)(i := p))\<rparr>"

definition set_file :: "nat \<Rightarrow> file_table option \<Rightarrow> open_files \<Rightarrow> open_files" where
  "set_file p f s = s\<lparr>files := (files s)(p := f)\<rparr>"

section \<open>System calls\<close>

text \<open>What the calls inside sys_open answer: the new structure, whether the lock, the path buffer and
  the path could be had, and the vnode or error of vfs_open.\<close>

record open_env =
  o_file :: "nat option"
  o_lock :: bool
  o_kbuf :: bool
  o_copyin :: bool
  o_vfs :: "errno + nat"

definition sys_open :: "nat \<Rightarrow> bool \<Rightarrow> 32 word \<Rightarrow> open_env \<Rightarrow> open_files \<Rightarrow> (errno + int) \<times> open_files" where
  "sys_open t null flags env s =
    (let f = flags AND O_ACCMODE in
     if f \<noteq> O_RDONLY \<and> f \<noteq> O_WRONLY \<and> f \<noteq> O_RDWR then (Inl EINVAL, s)
     else if null then (Inl EFAULT, s)
     else (case find (\<lambda>i. fds s t i = None) [0..<MAX_FILE_DESCRIPTOR] of
         None \<Rightarrow> (Inl EMFILE, s)
       | Some i \<Rightarrow> (case o_file env of
             None \<Rightarrow> (Inl ENOMEM, set_fd t i None s)
           | Some p \<Rightarrow>
               let undo = (\<lambda>s. set_fd t i None (set_file p None s)) in
               let s = set_fd t i (Some p) s in
               if \<not> o_lock env then (Inl ENOMEM, undo s)
               else if \<not> o_kbuf env then (Inl ENOMEM, undo s)
               else if \<not> o_copyin env then (Inl EFAULT, undo s)
               else (case o_vfs env of
                   Inl e \<Rightarrow> (Inl e, undo s)
                 | Inr v \<Rightarrow> (Inr (int i), set_file p (Some \<lparr>status = f, offset = 0, refcnt = 1, update_pos = True, vnode = v\<rparr>) s)))))"

definition valid_fd :: "int \<Rightarrow> bool" where
  "valid_fd fd \<longleftrightarrow> \<not> (fd < 0 \<or> fd \<ge> int MAX_FILE_DESCRIPTOR)"

fun clear_refs :: "nat \<Rightarrow> nat \<Rightarrow> nat \<Rightarrow> nat list \<Rightarrow> open_files \<Rightarrow> open_files" where
  "clear_refs t fd tmp [] s = s"
| "clear_refs t fd tmp (i # is) s =
    clear_refs t fd tmp is (if fds s t i = Some tmp then set_fd t fd None s else s)"

definition sys_close :: "nat \<Rightarrow> int \<Rightarrow> open_files \<Rightarrow> (errno option \<times> open_files) option" where
  "sys_close t fd s =
    (if \<not> valid_fd fd then Some (Some EBADF, s)
     else (case fds s t (nat fd) of
         None \<Rightarrow> Some (Some EBADF, s)
       | Some p \<Rightarrow> do {
           f \<leftarrow> files s p;
           let f = f\<lparr>refcnt := refcnt f - 1\<rparr>;
           let s = set_file p (Some f) s;
           let s = (if refcnt f = 0 then s\<lparr>closed := vnode f # closed s\<rparr> else s);
           let s = (if refcnt f = 0
                    then clear_refs t (nat fd) p [0..<MAX_FILE_DESCRIPTOR] (set_file p None s)
                    else s);
           Some (None, set_fd t (nat fd) None s) }))"

text \<open>\<open>vop v off\<close>: the error and the final uio_offset of the read or write of vnode \<open>v\<close> at \<open>off\<close>.\<close>

definition sys_rw :: "(nat \<Rightarrow> 64 word \<Rightarrow> errno option \<times> 64 word) \<Rightarrow> nat \<Rightarrow> int \<Rightarrow> bool \<Rightarrow> 32 word \<Rightarrow> open_files \<Rightarrow>
    ((errno + 32 word) \<times> open_files) option" where
  "sys_rw vop t fd null rw s =
    (if \<not> valid_fd fd then Some (Inl EBADF, s)
     else (case fds s t (nat fd) of
         None \<Rightarrow> Some (Inl EBADF, s)
       | Some p \<Rightarrow>
           if null then Some (Inl EFAULT, s)
           else do {
             f \<leftarrow> files s p;
             if status f \<noteq> rw \<and> status f \<noteq> O_RDWR then Some (Inl EBADF, s)
             else
               let (err, uio_offset) = vop (vnode f) (offset f);
                   diff = ucast (uio_offset - offset f) :: 32 word;
                   s = (if update_pos f then set_file p (Some (f\<lparr>offset := uio_offset\<rparr>)) s else s)
               in Some (case err of None \<Rightarrow> Inr diff | Some e \<Rightarrow> Inl e, s) }))"

definition sys_read :: "(nat \<Rightarrow> 64 word \<Rightarrow> errno option \<times> 64 word) \<Rightarrow> nat \<Rightarrow> int \<Rightarrow> bool \<Rightarrow> open_files \<Rightarrow>
    ((errno + 32 word) \<times> open_files) option" where
  "sys_read vop t fd null s = sys_rw vop t fd null O_RDONLY s"

definition sys_write :: "(nat \<Rightarrow> 64 word \<Rightarrow> errno option \<times> 64 word) \<Rightarrow> nat \<Rightarrow> int \<Rightarrow> bool \<Rightarrow> open_files \<Rightarrow>
    ((errno + 32 word) \<times> open_files) option" where
  "sys_write vop t fd null s = sys_rw vop t fd null O_WRONLY s"

definition sys_dup2 :: "nat \<Rightarrow> int \<Rightarrow> int \<Rightarrow> open_files \<Rightarrow> ((errno + int) \<times> open_files) option" where
  "sys_dup2 t oldfd newfd s =
    (if \<not> valid_fd newfd \<or> \<not> valid_fd oldfd then Some (Inl EBADF, s)
     else if fds s t (nat oldfd) = None then Some (Inl EBADF, s)
     else if oldfd = newfd \<or> fds s t (nat oldfd) = fds s t (nat newfd) then Some (Inr oldfd, s)
     else do {
       (err, s) \<leftarrow> (if fds s t (nat newfd) \<noteq> None then sys_close t newfd s else Some (None, s));
       (case err of
          Some e \<Rightarrow> Some (Inl e, s)
        | None \<Rightarrow> do {
            let s = set_fd t (nat newfd) (fds s t (nat oldfd)) s;
            p \<leftarrow> fds s t (nat newfd);
            f \<leftarrow> files s p;
            Some (Inr newfd, set_file p (Some (f\<lparr>refcnt := refcnt f + 1\<rparr>)) s) }) })"

definition SEEK_SET :: int where "SEEK_SET = 0"
definition SEEK_CUR :: int where "SEEK_CUR = 1"
definition SEEK_END :: int where "SEEK_END = 2"

text \<open>\<open>st_size v\<close> is the size VOP_STAT reports, \<open>tryseek v pos\<close> the answer of VOP_TRYSEEK.\<close>

definition sys_lseek :: "(nat \<Rightarrow> 64 word) \<Rightarrow> (nat \<Rightarrow> 64 word \<Rightarrow> errno option) \<Rightarrow> nat \<Rightarrow> int \<Rightarrow> 64 word \<Rightarrow> int \<Rightarrow> open_files \<Rightarrow>
    ((errno + 64 word) \<times> open_files) option" where
  "sys_lseek st_size tryseek t fd pos whence s =
    (if whence \<noteq> SEEK_SET \<and> whence \<noteq> SEEK_CUR \<and> whence \<noteq> SEEK_END then Some (Inl EINVAL, s)
     else if \<not> valid_fd fd then Some (Inl EBADF, s)
     else (case fds s t (nat fd) of
         None \<Rightarrow> Some (Inl EBADF, s)
       | Some p \<Rightarrow> do {
           f \<leftarrow> files s p;
           if \<not> update_pos f then Some (Inl ESPIPE, s)
           else
             let newpos = (if whence = SEEK_SET then pos
                           else if whence = SEEK_CUR then offset f + pos
                           else st_size (vnode f) + pos)
             in if newpos <s 0 then Some (Inl EINVAL, s)
                else (case tryseek (vnode f) newpos of
                    Some e \<Rightarrow> Some (Inl e, s)
                  | None \<Rightarrow> Some (Inr newpos, set_file p (Some (f\<lparr>offset := newpos\<rparr>)) s)) }))"

section \<open>Starting, forking and exiting\<close>

text \<open>The console on descriptors 0 to 2 of a new program: \<open>p\<close> are the new structures, \<open>v\<close> the vnodes.\<close>

definition stdio_init :: "nat \<Rightarrow> (nat \<Rightarrow> nat) \<Rightarrow> (nat \<Rightarrow> nat) \<Rightarrow> open_files \<Rightarrow> open_files" where
  "stdio_init t p v s =
    (let con = (\<lambda>i. \<lparr>status = (if i = 0 then O_RDONLY else O_WRONLY), offset = 0, refcnt = 1, update_pos = False, vnode = v i\<rparr>)
     in fold (\<lambda>i s. set_fd t i (Some (p i)) (set_file (p i) (Some (con i)) s)) [0, 1, 2] s)"

text \<open>The loop of sys_fork: the child gets the parent's descriptors.\<close>

fun fork_fds :: "nat \<Rightarrow> nat \<Rightarrow> nat list \<Rightarrow> open_files \<Rightarrow> open_files option" where
  "fork_fds parent child [] s = Some s"
| "fork_fds parent child (i # is) s = do {
    s \<leftarrow> (case fds s parent i of
        None \<Rightarrow> Some s
      | Some p \<Rightarrow> do {
          let s = set_fd child i (Some p) s;
          f \<leftarrow> files s p;
          Some (set_file p (Some (f\<lparr>refcnt := refcnt f + 1\<rparr>)) s) });
    fork_fds parent child is s }"

text \<open>The loop of sys__exit.\<close>

fun exit_fds :: "nat \<Rightarrow> nat list \<Rightarrow> open_files \<Rightarrow> open_files option" where
  "exit_fds t [] s = Some s"
| "exit_fds t (i # is) s = do { (r, s) \<leftarrow> sys_close t (int i) s; exit_fds t is s }"

section \<open>Reference counts\<close>

definition refs :: "open_files \<Rightarrow> nat \<Rightarrow> (nat \<times> nat) set" where
  "refs s p = {(t, i). fds s t i = Some p}"

text \<open>Every structure in use counts the descriptors that point to it, of which there is one at least, and
  no descriptor points anywhere else.\<close>

definition files_ok :: "open_files \<Rightarrow> bool" where
  "files_ok s \<longleftrightarrow> (\<forall>t i. MAX_FILE_DESCRIPTOR \<le> i \<longrightarrow> fds s t i = None) \<and>
    (\<forall>p. finite (refs s p) \<and> (case files s p of None \<Rightarrow> refs s p = {} | Some f \<Rightarrow> refcnt f = int (card (refs s p)) \<and> refs s p \<noteq> {}))"

lemma refs_set_fd: "refs (set_fd t i q s) p = (if q = Some p then insert (t, i) (refs s p) else refs s p - {(t, i)})"
  by (auto simp: refs_def set_fd_def split: if_splits)

lemma refs_set_file [simp]: "refs (set_file q f s) p = refs s p" "refs (s\<lparr>closed := c\<rparr>) p = refs s p"
  by (simp_all add: refs_def set_file_def)

lemma set_simps [simp]:
  "files (set_fd t i q s) = files s" "closed (set_fd t i q s) = closed s"
  "fds (set_file p f s) = fds s" "closed (set_file p f s) = closed s"
  "fds (set_fd t i q s) t' j = (if t' = t \<and> j = i then q else fds s t' j)"
  "files (set_file p f s) p' = (if p' = p then f else files s p')"
  by (simp_all add: set_fd_def set_file_def)

lemma files_okD:
  assumes "files_ok s"
  shows "fds s t i = Some p \<Longrightarrow> i < MAX_FILE_DESCRIPTOR" "finite (refs s p)"
    "files s p = None \<Longrightarrow> refs s p = {}"
    "files s p = Some f \<Longrightarrow> refcnt f = int (card (refs s p)) \<and> refs s p \<noteq> {}"
    "fds s t i = Some p \<Longrightarrow> \<exists>f. files s p = Some f"
proof -
  have p: "finite (refs s p)" "case files s p of None \<Rightarrow> refs s p = {} | Some f \<Rightarrow> refcnt f = int (card (refs s p)) \<and> refs s p \<noteq> {}" for p
    using assms by (auto simp: files_ok_def)
  show "finite (refs s p)" "files s p = None \<Longrightarrow> refs s p = {}"
    "files s p = Some f \<Longrightarrow> refcnt f = int (card (refs s p)) \<and> refs s p \<noteq> {}" using p [of p] by simp_all
  show "fds s t i = Some p \<Longrightarrow> i < MAX_FILE_DESCRIPTOR" using assms unfolding files_ok_def by (metis not_le option.distinct(1))
  show "\<exists>f. files s p = Some f" if "fds s t i = Some p"
  proof -
    have "(t, i) \<in> refs s p" using that by (simp add: refs_def)
    then show ?thesis using p(2) [of p] by (cases "files s p") auto
  qed
qed

lemma files_okI:
  assumes "\<And>t i p. fds s t i = Some p \<Longrightarrow> i < MAX_FILE_DESCRIPTOR" "\<And>p. finite (refs s p)"
    "\<And>p. files s p = None \<Longrightarrow> refs s p = {}" "\<And>p f. files s p = Some f \<Longrightarrow> refcnt f = int (card (refs s p)) \<and> refs s p \<noteq> {}"
  shows "files_ok s"
  unfolding files_ok_def using assms(2-) assms(1) by (fastforce split: option.splits simp: not_le)

text \<open>The four changes the calls make: a new structure, one more descriptor, one less, other fields.\<close>

lemma files_ok_new:
  assumes "files_ok s" "files s p = None" "fds s t i = None" "i < MAX_FILE_DESCRIPTOR" "refcnt f = 1"
  shows "files_ok (set_fd t i (Some p) (set_file p (Some f) s))"
proof (rule files_okI)
  fix q
  have e: "refs s p = {}" "(t, i) \<notin> refs s q" using files_okD(3) [OF assms(1,2)] assms(3) by (simp_all add: refs_def)
  then show "finite (refs (set_fd t i (Some p) (set_file p (Some f) s)) q)" using files_okD(2) [OF assms(1)] by (simp add: refs_set_fd)
  show "refs (set_fd t i (Some p) (set_file p (Some f) s)) q = {}" if "files (set_fd t i (Some p) (set_file p (Some f) s)) q = None"
    using that files_okD(3) [OF assms(1), of q] by (simp add: refs_set_fd split: if_splits)
  show "refcnt g = int (card (refs (set_fd t i (Some p) (set_file p (Some f) s)) q)) \<and> refs (set_fd t i (Some p) (set_file p (Some f) s)) q \<noteq> {}"
    if "files (set_fd t i (Some p) (set_file p (Some f) s)) q = Some g" for g
    using that files_okD(4) [OF assms(1), of q g] e assms(5) by (auto simp: refs_set_fd split: if_splits)
qed (use files_okD(1) [OF assms(1)] assms(4) in \<open>auto split: if_splits\<close>)

lemma files_ok_link:
  assumes "files_ok s" "files s p = Some f" "fds s t i = None" "i < MAX_FILE_DESCRIPTOR"
  shows "files_ok (set_file p (Some (f\<lparr>refcnt := refcnt f + 1\<rparr>)) (set_fd t i (Some p) s))"
proof (rule files_okI)
  fix q
  have e: "(t, i) \<notin> refs s q" "finite (refs s q)" using assms(3) files_okD(2) [OF assms(1)] by (simp_all add: refs_def)
  show "finite (refs (set_file p (Some (f\<lparr>refcnt := refcnt f + 1\<rparr>)) (set_fd t i (Some p) s)) q)" using e by (simp add: refs_set_fd)
  show "refs (set_file p (Some (f\<lparr>refcnt := refcnt f + 1\<rparr>)) (set_fd t i (Some p) s)) q = {}"
    if "files (set_file p (Some (f\<lparr>refcnt := refcnt f + 1\<rparr>)) (set_fd t i (Some p) s)) q = None"
    using that files_okD(3) [OF assms(1), of q] by (simp add: refs_set_fd split: if_splits)
  show "refcnt g = int (card (refs (set_file p (Some (f\<lparr>refcnt := refcnt f + 1\<rparr>)) (set_fd t i (Some p) s)) q)) \<and>
      refs (set_file p (Some (f\<lparr>refcnt := refcnt f + 1\<rparr>)) (set_fd t i (Some p) s)) q \<noteq> {}"
    if "files (set_file p (Some (f\<lparr>refcnt := refcnt f + 1\<rparr>)) (set_fd t i (Some p) s)) q = Some g" for g
    using that files_okD(4) [OF assms(1)] assms(2) e by (auto simp: refs_set_fd split: if_splits)
qed (use files_okD(1) [OF assms(1)] assms(4) in \<open>auto split: if_splits\<close>)

lemma files_ok_unlink:
  assumes "files_ok s" "files s p = Some f" "fds s t i = Some p"
  shows "files_ok (set_fd t i None (set_file p (if refs s p = {(t, i)} then None else Some (f\<lparr>refcnt := refcnt f - 1\<rparr>)) s))"
proof (rule files_okI)
  let ?g = "if refs s p = {(t, i)} then None else Some (f\<lparr>refcnt := refcnt f - 1\<rparr>)"
  let ?s = "set_fd t i None (set_file p ?g s)"
  fix q
  have i: "(t, i) \<in> refs s p" "q \<noteq> p \<Longrightarrow> (t, i) \<notin> refs s q" using assms(3) by (auto simp: refs_def)
  note fin = files_okD(2) [OF assms(1)]
  show "finite (refs ?s q)" using fin by (simp add: refs_set_fd)
  show "refs ?s q = {}" if "files ?s q = None"
    using that files_okD(3) [OF assms(1), of q] by (auto simp: refs_set_fd split: if_splits)
  have c: "int (card (refs s p - {(t, i)})) = int (card (refs s p)) - 1"
    using i(1) fin [of p] card_gt_0_iff [of "refs s p"] by (auto simp: card_Diff_singleton of_nat_diff)
  show "refcnt g = int (card (refs ?s q)) \<and> refs ?s q \<noteq> {}" if g: "files ?s q = Some g" for g
  proof (cases "q = p")
    case True
    then have "refs s p \<noteq> {(t, i)}" "g = f\<lparr>refcnt := refcnt f - 1\<rparr>" using g by (auto split: if_splits)
    moreover have "refs s p - {(t, i)} \<noteq> {}" using i(1) calculation(1) by auto
    ultimately show ?thesis using True files_okD(4) [OF assms(1,2)] c by (simp add: refs_set_fd)
  next
    case False
    then show ?thesis using g files_okD(4) [OF assms(1), of q g] i(2) by (simp add: refs_set_fd)
  qed
qed (use files_okD(1) [OF assms(1)] in \<open>auto split: if_splits\<close>)

lemma files_ok_update:
  assumes "files_ok s" "files s p = Some f" "refcnt g = refcnt f"
  shows "files_ok (set_file p (Some g) s)"
proof (rule files_okI)
  fix q
  show "refs (set_file p (Some g) s) q = {}" if "files (set_file p (Some g) s) q = None"
    using that files_okD(3) [OF assms(1), of q] by (simp split: if_splits)
  show "refcnt h = int (card (refs (set_file p (Some g) s) q)) \<and> refs (set_file p (Some g) s) q \<noteq> {}"
    if "files (set_file p (Some g) s) q = Some h" for h
    using that files_okD(4) [OF assms(1)] assms(2,3) by (auto split: if_splits)
qed (use files_okD(1,2) [OF assms(1)] in \<open>auto split: if_splits\<close>)

lemma files_ok_closed [simp]: "files_ok (s\<lparr>closed := c\<rparr>) = files_ok s"
  by (simp add: files_ok_def split: option.split)

section \<open>The calls keep the counts\<close>

lemma set_fd_clear: "set_fd t fd None (clear_refs t fd p is s) = set_fd t fd None s"
  by (induction "is" arbitrary: s) (simp_all add: set_fd_def)

text \<open>sys_close on an open descriptor: the last one closes the file.\<close>

lemma sys_close_eq:
  assumes "files_ok s" "valid_fd fd" "fds s t (nat fd) = Some p" "files s p = Some f"
  shows "sys_close t fd s = Some (None, if refs s p = {(t, nat fd)}
    then set_fd t (nat fd) None (set_file p None (s\<lparr>closed := vnode f # closed s\<rparr>))
    else set_fd t (nat fd) None (set_file p (Some (f\<lparr>refcnt := refcnt f - 1\<rparr>)) s))"
proof -
  have "(t, nat fd) \<in> refs s p" using assms(3) by (simp add: refs_def)
  then have one: "refcnt f = 1 \<longleftrightarrow> refs s p = {(t, nat fd)}"
    using files_okD(4) [OF assms(1,4)] by (auto simp: card_1_singleton_iff)
  have twice: "set_file p None ((set_file p g s)\<lparr>closed := c\<rparr>) = set_file p None (s\<lparr>closed := c\<rparr>)" for g c
    by (simp add: set_file_def)
  show ?thesis
    using assms(2-4) one by (auto simp: sys_close_def Let_def set_fd_clear twice)
qed

lemma set_closed: "set_fd t i q (set_file p f (s\<lparr>closed := c\<rparr>)) = (set_fd t i q (set_file p f s))\<lparr>closed := c\<rparr>"
  by (simp add: set_fd_def set_file_def)

lemma sys_close_ok:
  assumes "files_ok s"
  shows "\<exists>r s'. sys_close t fd s = Some (r, s') \<and> files_ok s' \<and> (valid_fd fd \<longrightarrow> fds s' t (nat fd) = None) \<and>
    (\<forall>t' i. t' \<noteq> t \<or> i \<noteq> nat fd \<longrightarrow> fds s' t' i = fds s t' i) \<and> (r = None \<longleftrightarrow> valid_fd fd \<and> fds s t (nat fd) \<noteq> None)"
proof (cases "valid_fd fd \<and> fds s t (nat fd) \<noteq> None")
  case True
  then obtain p where p: "fds s t (nat fd) = Some p" by blast
  obtain f where f: "files s p = Some f" using files_okD(5) [OF assms p] by blast
  show ?thesis using sys_close_eq [OF assms _ p f] True files_ok_unlink [OF assms f p]
    by (cases "refs s p = {(t, nat fd)}") (auto simp: set_closed)
next
  case False
  then show ?thesis using assms by (auto simp: sys_close_def)
qed

lemma sys_open_ok:
  assumes "files_ok s" "\<And>p. o_file env = Some p \<Longrightarrow> files s p = None"
  shows "files_ok (snd (sys_open t null flags env s))"
proof -
  have undo: "set_fd t i None (set_fd t i (Some p) (set_file p None s)) = s" if "fds s t i = None" "files s p = None" for i p
    using that by (simp add: set_fd_def set_file_def fun_upd_idem)
  have same: "set_fd t i None s = s" if "fds s t i = None" for i using that by (simp add: set_fd_def fun_upd_idem)
  have comm: "set_file p f (set_fd t i q s) = set_fd t i q (set_file p f s)" for p f i q by (simp add: set_fd_def set_file_def)
  show ?thesis
  proof (cases "find (\<lambda>i. fds s t i = None) [0..<MAX_FILE_DESCRIPTOR]")
    case None
    then show ?thesis using assms(1) by (simp add: sys_open_def Let_def)
  next
    case (Some i)
    then have i: "fds s t i = None" "i < MAX_FILE_DESCRIPTOR" by (auto simp: find_Some_iff)
    show ?thesis using assms i Some
      by (auto simp: sys_open_def Let_def undo same comm files_ok_new split: option.splits sum.splits)
  qed
qed

lemma sys_rw_ok:
  assumes "files_ok s"
  shows "\<exists>r s'. sys_rw vop t fd null rw s = Some (r, s') \<and> files_ok s' \<and> fds s' = fds s"
proof (cases "valid_fd fd \<and> fds s t (nat fd) \<noteq> None")
  case True
  then obtain p f where p: "fds s t (nat fd) = Some p" "files s p = Some f" using files_okD(5) [OF assms] by blast
  show ?thesis using True p assms by (auto simp: sys_rw_def Let_def split_beta intro: files_ok_update)
qed (use assms in \<open>auto simp: sys_rw_def\<close>)

lemma sys_lseek_ok:
  assumes "files_ok s"
  shows "\<exists>r s'. sys_lseek sz try t fd pos wh s = Some (r, s') \<and> files_ok s' \<and> fds s' = fds s"
proof (cases "valid_fd fd \<and> fds s t (nat fd) \<noteq> None")
  case True
  then obtain p f where p: "fds s t (nat fd) = Some p" "files s p = Some f" using files_okD(5) [OF assms] by blast
  show ?thesis using True p assms by (auto simp: sys_lseek_def Let_def intro: files_ok_update split: option.splits)
qed (use assms in \<open>auto simp: sys_lseek_def\<close>)

lemma sys_dup2_eq:
  assumes "files_ok s" "valid_fd oldfd" "valid_fd newfd" "fds s t (nat oldfd) = Some p" "fds s t (nat newfd) \<noteq> Some p"
  shows "\<exists>s1 f. (if fds s t (nat newfd) \<noteq> None then sys_close t newfd s else Some (None, s)) = Some (None, s1) \<and>
    files_ok s1 \<and> fds s1 = (fds s)(t := (fds s t)(nat newfd := None)) \<and> files s1 p = Some f \<and>
    sys_dup2 t oldfd newfd s = Some (Inr newfd, set_file p (Some (f\<lparr>refcnt := refcnt f + 1\<rparr>)) (set_fd t (nat newfd) (Some p) s1))"
proof -
  have ne: "oldfd \<noteq> newfd" "nat oldfd \<noteq> nat newfd" using assms(2-5) by (auto simp: valid_fd_def)
  obtain s1 where s1: "(if fds s t (nat newfd) \<noteq> None then sys_close t newfd s else Some (None, s)) = Some (None, s1)"
    "files_ok s1" "fds s1 = (fds s)(t := (fds s t)(nat newfd := None))"
  proof (cases "fds s t (nat newfd) = None")
    case True
    then have "fds s = (fds s)(t := (fds s t)(nat newfd := None))" by (simp add: fun_upd_idem)
    then show ?thesis using that [of s] True assms(1) by simp
  next
    case False
    obtain r s1 where c: "sys_close t newfd s = Some (r, s1)" "files_ok s1" "fds s1 t (nat newfd) = None"
      "\<forall>t' i. t' \<noteq> t \<or> i \<noteq> nat newfd \<longrightarrow> fds s1 t' i = fds s t' i" "r = None"
      using sys_close_ok [OF assms(1), of t newfd] assms(3) False by auto
    have "fds s1 = (fds s)(t := (fds s t)(nat newfd := None))" using c(3,4) by (auto simp: fun_eq_iff)
    then show ?thesis using that [of s1] c False by simp
  qed
  have "fds s1 t (nat oldfd) = Some p" using s1(3) assms(4) ne(2) by simp
  then obtain f where f: "files s1 p = Some f" using files_okD(5) [OF s1(2)] by blast
  have "sys_dup2 t oldfd newfd s = Some (Inr newfd, set_file p (Some (f\<lparr>refcnt := refcnt f + 1\<rparr>)) (set_fd t (nat newfd) (Some p) s1))"
    using assms(2-5) ne s1(1) f \<open>fds s1 t (nat oldfd) = Some p\<close> by (simp add: sys_dup2_def Let_def)
  then show ?thesis using s1 f by blast
qed

lemma sys_dup2_ok:
  assumes "files_ok s"
  shows "\<exists>r s'. sys_dup2 t oldfd newfd s = Some (r, s') \<and> files_ok s'"
proof (cases "valid_fd newfd \<and> valid_fd oldfd \<and> fds s t (nat oldfd) \<noteq> None \<and> fds s t (nat oldfd) \<noteq> fds s t (nat newfd)")
  case True
  then obtain p where p: "fds s t (nat oldfd) = Some p" "fds s t (nat newfd) \<noteq> Some p" by auto
  obtain s1 f where s1: "files_ok s1" "fds s1 = (fds s)(t := (fds s t)(nat newfd := None))" "files s1 p = Some f"
    "sys_dup2 t oldfd newfd s = Some (Inr newfd, set_file p (Some (f\<lparr>refcnt := refcnt f + 1\<rparr>)) (set_fd t (nat newfd) (Some p) s1))"
    using sys_dup2_eq [OF assms _ _ p] True by blast
  have "nat newfd < MAX_FILE_DESCRIPTOR" "fds s1 t (nat newfd) = None" using True s1(2) by (auto simp: valid_fd_def)
  then show ?thesis using s1 files_ok_link [OF s1(1,3)] by blast
qed (use assms in \<open>auto simp: sys_dup2_def\<close>)

lemma fork_fds_ok:
  assumes "files_ok s" "parent \<noteq> child" "\<forall>i \<in> set js. fds s child i = None" "distinct js" "\<forall>i \<in> set js. i < MAX_FILE_DESCRIPTOR"
  shows "\<exists>s'. fork_fds parent child js s = Some s' \<and> files_ok s' \<and> closed s' = closed s \<and>
    (\<forall>t i. fds s' t i = (if t = child \<and> i \<in> set js then fds s parent i else fds s t i))"
  using assms
proof (induction "js" arbitrary: s)
  case (Cons i js)
  show ?case
  proof (cases "fds s parent i")
    case None
    obtain s' where s': "fork_fds parent child js s = Some s'" "files_ok s'" "closed s' = closed s"
      "\<forall>t j. fds s' t j = (if t = child \<and> j \<in> set js then fds s parent j else fds s t j)"
      using Cons.IH [OF Cons.prems(1,2)] Cons.prems(3-5) by auto
    have "fds s' t j = (if t = child \<and> j \<in> set (i # js) then fds s parent j else fds s t j)" for t j
      using s'(4) Cons.prems(3,4) None by auto
    then show ?thesis using None s' by auto
  next
    case (Some p)
    obtain f where f: "files s p = Some f" using files_okD(5) [OF Cons.prems(1) Some] by blast
    let ?s = "set_file p (Some (f\<lparr>refcnt := refcnt f + 1\<rparr>)) (set_fd child i (Some p) s)"
    have ok: "files_ok ?s" using files_ok_link [OF Cons.prems(1) f] Cons.prems(3,5) by simp
    have none: "\<forall>j \<in> set js. fds ?s child j = None" using Cons.prems(3,4) by auto
    obtain s' where s': "fork_fds parent child js ?s = Some s'" "files_ok s'" "closed s' = closed ?s"
      "\<forall>t j. fds s' t j = (if t = child \<and> j \<in> set js then fds ?s parent j else fds ?s t j)"
      using Cons.IH [OF ok Cons.prems(2) none] Cons.prems(4,5) by auto
    have "fork_fds parent child (i # js) s = Some s'" using Some f s'(1) by (simp add: Let_def)
    moreover have "fds s' t j = (if t = child \<and> j \<in> set (i # js) then fds s parent j else fds s t j)" for t j
      using s'(4) Cons.prems(2,4) Some by auto
    ultimately show ?thesis using s'(2,3) by auto
  qed
qed simp

lemma exit_fds_ok:
  assumes "files_ok s" "\<forall>i \<in> set js. i < MAX_FILE_DESCRIPTOR"
  shows "\<exists>s'. exit_fds t js s = Some s' \<and> files_ok s' \<and>
    (\<forall>t' i. fds s' t' i = (if t' = t \<and> i \<in> set js then None else fds s t' i))"
  using assms
proof (induction "js" arbitrary: s)
  case (Cons i js)
  have v: "valid_fd (int i)" using Cons.prems(2) by (simp add: valid_fd_def)
  obtain r s1 where c: "sys_close t (int i) s = Some (r, s1)" "files_ok s1" "fds s1 t i = None"
    "\<forall>t' j. t' \<noteq> t \<or> j \<noteq> i \<longrightarrow> fds s1 t' j = fds s t' j"
    using sys_close_ok [OF Cons.prems(1), of t "int i"] v by auto
  obtain s' where s': "exit_fds t js s1 = Some s'" "files_ok s'" "\<forall>t' j. fds s' t' j = (if t' = t \<and> j \<in> set js then None else fds s1 t' j)"
    using Cons.IH [OF c(2)] Cons.prems(2) by auto
  have "fds s' t' j = (if t' = t \<and> j \<in> set (i # js) then None else fds s t' j)" for t' j
    using s'(3) c(3,4) by (cases "t' = t \<and> j = i") auto
  then show ?case using c(1) s' by auto
qed simp

lemma stdio_init_ok:
  assumes "files_ok s" "\<forall>i < 3. fds s t i = None" "\<forall>i < 3. files s (p i) = None" "p 0 \<noteq> p 1" "p 0 \<noteq> p 2" "p 1 \<noteq> p 2"
  shows "files_ok (stdio_init t p v s)"
proof -
  have m: "(0::nat) < MAX_FILE_DESCRIPTOR" "(1::nat) < MAX_FILE_DESCRIPTOR" "(2::nat) < MAX_FILE_DESCRIPTOR" by (simp_all add: MAX_FILE_DESCRIPTOR_def)
  have d: "fds s t 0 = None" "fds s t 1 = None" "fds s t 2 = None" "files s (p 0) = None" "files s (p 1) = None" "files s (p 2) = None"
    using assms(2,3) by simp_all
  show ?thesis unfolding stdio_init_def Let_def using d assms(4-6) m
    by (simp add: files_ok_new [OF files_ok_new [OF files_ok_new [OF assms(1)]]])
qed

section \<open>Runs\<close>

text \<open>The calls of all threads, in any order; \<open>fcall_ok\<close> is what kmalloc and thread_create provide: new
  structures are not in use, a new thread has no descriptors.\<close>

datatype fcall =
    Open nat bool "32 word" open_env
  | Close nat int
  | Rw "nat \<Rightarrow> 64 word \<Rightarrow> errno option \<times> 64 word" nat int bool "32 word"
  | Dup2 nat int int
  | Lseek "nat \<Rightarrow> 64 word" "nat \<Rightarrow> 64 word \<Rightarrow> errno option" nat int "64 word" int
  | Stdio nat "nat \<Rightarrow> nat" "nat \<Rightarrow> nat"
  | Fork nat nat
  | Exit nat

fun fcall_ok :: "fcall \<Rightarrow> open_files \<Rightarrow> bool" where
  "fcall_ok (Open t null flags env) s \<longleftrightarrow> (case o_file env of None \<Rightarrow> True | Some p \<Rightarrow> files s p = None)"
| "fcall_ok (Stdio t p v) s \<longleftrightarrow> (\<forall>i < 3. fds s t i = None) \<and> (\<forall>i < 3. files s (p i) = None) \<and> p 0 \<noteq> p 1 \<and> p 0 \<noteq> p 2 \<and> p 1 \<noteq> p 2"
| "fcall_ok (Fork t child) s \<longleftrightarrow> t \<noteq> child \<and> (\<forall>i < MAX_FILE_DESCRIPTOR. fds s child i = None)"
| "fcall_ok _ s \<longleftrightarrow> True"

fun fcall_run :: "fcall \<Rightarrow> open_files \<Rightarrow> open_files option" where
  "fcall_run (Open t null flags env) s = Some (snd (sys_open t null flags env s))"
| "fcall_run (Close t fd) s = map_option snd (sys_close t fd s)"
| "fcall_run (Rw vop t fd null rw) s = map_option snd (sys_rw vop t fd null rw s)"
| "fcall_run (Dup2 t oldfd newfd) s = map_option snd (sys_dup2 t oldfd newfd s)"
| "fcall_run (Lseek sz seek t fd pos wh) s = map_option snd (sys_lseek sz seek t fd pos wh s)"
| "fcall_run (Stdio t p v) s = Some (stdio_init t p v s)"
| "fcall_run (Fork t child) s = fork_fds t child [0..<MAX_FILE_DESCRIPTOR] s"
| "fcall_run (Exit t) s = exit_fds t [0..<MAX_FILE_DESCRIPTOR] s"

fun fcalls_ok :: "fcall list \<Rightarrow> open_files \<Rightarrow> bool" where
  "fcalls_ok [] s \<longleftrightarrow> True"
| "fcalls_ok (c # cs) s \<longleftrightarrow> fcall_ok c s \<and> (case fcall_run c s of None \<Rightarrow> True | Some s' \<Rightarrow> fcalls_ok cs s')"

fun fcalls_run :: "fcall list \<Rightarrow> open_files \<Rightarrow> open_files option" where
  "fcalls_run [] s = Some s"
| "fcalls_run (c # cs) s = fcall_run c s \<bind> fcalls_run cs"

lemma fcall_run_ok:
  assumes "files_ok s" "fcall_ok c s"
  shows "\<exists>s'. fcall_run c s = Some s' \<and> files_ok s'"
proof (cases c)
  case (Open t null flags env)
  then show ?thesis using sys_open_ok [OF assms(1), of env] assms(2) by (cases "o_file env") auto
next
  case (Close t fd)
  then show ?thesis using sys_close_ok [OF assms(1), of t fd] by auto
next
  case (Rw vop t fd null rw)
  then show ?thesis using sys_rw_ok [OF assms(1), of vop t fd null rw] by auto
next
  case (Dup2 t oldfd newfd)
  then show ?thesis using sys_dup2_ok [OF assms(1), of t oldfd newfd] by auto
next
  case (Lseek sz seek t fd pos wh)
  then show ?thesis using sys_lseek_ok [OF assms(1), of sz seek t fd pos wh] by auto
next
  case (Stdio t p v)
  then show ?thesis using stdio_init_ok [OF assms(1), of t p v] assms(2) by simp
next
  case (Fork t child)
  then show ?thesis using fork_fds_ok [OF assms(1), of t child "[0..<MAX_FILE_DESCRIPTOR]"] assms(2) by auto
next
  case (Exit t)
  then show ?thesis using exit_fds_ok [OF assms(1), of "[0..<MAX_FILE_DESCRIPTOR]" t] by auto
qed

lemma fcalls_run_ok: "files_ok s \<Longrightarrow> fcalls_ok cs s \<Longrightarrow> \<exists>s'. fcalls_run cs s = Some s' \<and> files_ok s'"
proof (induction cs arbitrary: s)
  case (Cons c cs)
  then obtain s1 where "fcall_run c s = Some s1" "files_ok s1" using fcall_run_ok [of s c] by auto
  then show ?case using Cons by simp
qed simp

definition no_files :: open_files where
  "no_files = \<lparr>files = (\<lambda>_. None), fds = (\<lambda>_ _. None), closed = []\<rparr>"

lemma no_files_ok: "files_ok no_files"
  by (simp add: files_ok_def no_files_def refs_def)

section \<open>What the calls promise\<close>

text \<open>C14. From the start, no sequence of open, close, read, write, dup2, lseek, fork and exit calls of any
  threads uses a freed file structure, and after each sequence every structure in use counts exactly
  the descriptors, of all threads, that point to it, and every descriptor points to a structure in use.\<close>

theorem open_files_counted:
  assumes "fcalls_ok cs no_files"
  shows "\<exists>s. fcalls_run cs no_files = Some s \<and> (\<forall>t i p. fds s t i = Some p \<longrightarrow> (\<exists>f. files s p = Some f)) \<and>
    (\<forall>p f. files s p = Some f \<longrightarrow> refcnt f = int (card {(t, i). fds s t i = Some p}) \<and> 0 < refcnt f)"
proof -
  obtain s where s: "fcalls_run cs no_files = Some s" "files_ok s" using fcalls_run_ok [OF no_files_ok assms] by blast
  have "refcnt f = int (card {(t, i). fds s t i = Some p}) \<and> 0 < refcnt f" if "files s p = Some f" for p f
    using files_okD(4) [OF s(2) that] files_okD(2) [OF s(2), of p] by (simp add: refs_def card_gt_0_iff)
  then show ?thesis using s files_okD(5) [OF s(2)] by blast
qed

theorem open_files_counted_witness:
  "\<exists>s. fcalls_run [Stdio 1 (\<lambda>i. i + 10) (\<lambda>i. i), Dup2 1 1 4, Fork 1 2, Close 1 4, Exit 2] no_files = Some s \<and>
    (\<exists>f. files s 11 = Some f \<and> refcnt f = int (card {(t, i). fds s t i = Some 11}))"
proof -
  let ?cs = "[Stdio 1 (\<lambda>i. i + 10) (\<lambda>i. i), Dup2 1 1 4, Fork 1 2, Close 1 4, Exit 2]"
  have up: "[0..<MAX_FILE_DESCRIPTOR] = [0, 1, 2, 3, 4, 5, 6, 7, 8, 9, 10, 11, 12, 13, 14, 15]"
    by (simp add: MAX_FILE_DESCRIPTOR_def upt_rec)
  have ok: "fcalls_ok ?cs no_files"
    by (simp add: no_files_def stdio_init_def Let_def sys_dup2_def valid_fd_def MAX_FILE_DESCRIPTOR_def split: option.splits)
  have run: "\<exists>s f. fcalls_run ?cs no_files = Some s \<and> files s 11 = Some f"
    by (simp add: no_files_def stdio_init_def Let_def sys_dup2_def sys_close_def valid_fd_def up)
  show ?thesis using open_files_counted [OF ok] run by fastforce
qed

text \<open>Closing an open descriptor succeeds and clears it and no other; the file itself is closed, and
  its structure freed, exactly when no other descriptor of any process refers to it.\<close>

theorem sys_close_last:
  assumes "files_ok s" "valid_fd fd" "fds s t (nat fd) = Some p" "files s p = Some f"
  shows "\<exists>s'. sys_close t fd s = Some (None, s') \<and> files_ok s' \<and> fds s' = (fds s)(t := (fds s t)(nat fd := None)) \<and>
    (\<forall>q. q \<noteq> p \<longrightarrow> files s' q = files s q) \<and>
    (if \<exists>t' i. (t', i) \<noteq> (t, nat fd) \<and> fds s t' i = Some p
     then files s' p = Some (f\<lparr>refcnt := refcnt f - 1\<rparr>) \<and> closed s' = closed s
     else files s' p = None \<and> closed s' = vnode f # closed s)"
proof -
  have r: "(\<exists>t' i. (t', i) \<noteq> (t, nat fd) \<and> fds s t' i = Some p) \<longleftrightarrow> refs s p \<noteq> {(t, nat fd)}"
    using assms(3) by (auto simp: refs_def)
  show ?thesis unfolding r using sys_close_eq [OF assms] files_ok_unlink [OF assms(1,4,3)]
    by (cases "refs s p = {(t, nat fd)}") (auto simp: set_closed fun_eq_iff)
qed

theorem sys_close_last_witness:
  "\<exists>s s'. files_ok s \<and> fds s 1 2 = Some 12 \<and> sys_close 1 2 s = Some (None, s') \<and> files s' 12 = None \<and> closed s' = [7]"
proof -
  let ?s = "stdio_init 1 (\<lambda>i. i + 10) (\<lambda>_. 7) no_files"
  have ok: "files_ok ?s" by (rule stdio_init_ok [OF no_files_ok]) (simp_all add: no_files_def)
  have d: "fds ?s 1 (nat 2) = Some 12" "files ?s 12 = Some \<lparr>status = O_WRONLY, offset = 0, refcnt = 1, update_pos = False, vnode = 7\<rparr>" "closed ?s = []"
    by (simp_all add: stdio_init_def Let_def no_files_def)
  have u: "\<not> (\<exists>t' i. (t', i) \<noteq> (1, nat 2) \<and> fds ?s t' i = Some 12)"
    by (auto simp: stdio_init_def Let_def no_files_def split: if_splits)
  have "valid_fd 2" by (simp add: valid_fd_def MAX_FILE_DESCRIPTOR_def)
  then show ?thesis using sys_close_last [OF ok _ d(1,2)] u ok d by (fastforce split: if_splits)
qed

text \<open>C35. dup2 on two valid numbers, the first one open: the new descriptor refers to the open file of the
  old one, whatever it referred to before is closed, and the result is the new number; except
  that when both already share one open file nothing changes and the result is the old number.\<close>

theorem sys_dup2_clones:
  assumes "files_ok s" "valid_fd oldfd" "valid_fd newfd" "fds s t (nat oldfd) = Some p"
  shows "\<exists>s'. sys_dup2 t oldfd newfd s = Some (Inr (if fds s t (nat newfd) = Some p then oldfd else newfd), s') \<and>
    files_ok s' \<and> fds s' = (fds s)(t := (fds s t)(nat newfd := Some p)) \<and>
    (fds s t (nat newfd) \<noteq> None \<longrightarrow> fds s t (nat newfd) \<noteq> Some p \<longrightarrow> (\<exists>s1. sys_close t newfd s = Some (None, s1) \<and> closed s' = closed s1))"
proof (cases "fds s t (nat newfd) = Some p")
  case True
  have "fds s = (fds s)(t := (fds s t)(nat newfd := Some p))" using True by (simp add: fun_upd_idem)
  then show ?thesis using True assms by (simp add: sys_dup2_def)
next
  case False
  obtain s1 f where s1: "(if fds s t (nat newfd) \<noteq> None then sys_close t newfd s else Some (None, s)) = Some (None, s1)"
    "files_ok s1" "fds s1 = (fds s)(t := (fds s t)(nat newfd := None))" "files s1 p = Some f"
    "sys_dup2 t oldfd newfd s = Some (Inr newfd, set_file p (Some (f\<lparr>refcnt := refcnt f + 1\<rparr>)) (set_fd t (nat newfd) (Some p) s1))"
    using sys_dup2_eq [OF assms False] by blast
  have "nat newfd < MAX_FILE_DESCRIPTOR" "fds s1 t (nat newfd) = None" using assms(3) s1(3) by (auto simp: valid_fd_def)
  then have "files_ok (set_file p (Some (f\<lparr>refcnt := refcnt f + 1\<rparr>)) (set_fd t (nat newfd) (Some p) s1))"
    using files_ok_link [OF s1(2,4)] by blast
  moreover have "fds (set_fd t (nat newfd) (Some p) s1) = (fds s)(t := (fds s t)(nat newfd := Some p))"
    using s1(3) by (simp add: set_fd_def)
  ultimately show ?thesis using s1(1,5) False by auto
qed

theorem sys_dup2_clones_witness:
  "\<exists>s s'. files_ok s \<and> sys_dup2 1 1 4 s = Some (Inr 4, s') \<and> fds s' 1 4 = Some 11 \<and> files_ok s'"
proof -
  let ?s = "stdio_init 1 (\<lambda>i. i + 10) (\<lambda>_. 7) no_files"
  have ok: "files_ok ?s" by (rule stdio_init_ok [OF no_files_ok]) (simp_all add: no_files_def)
  have d: "fds ?s 1 (nat 1) = Some 11" "fds ?s 1 (nat 4) = None"
    by (simp_all add: stdio_init_def Let_def no_files_def)
  have "valid_fd 1" "valid_fd 4" by (simp_all add: valid_fd_def MAX_FILE_DESCRIPTOR_def)
  then show ?thesis using sys_dup2_clones [OF ok _ _ d(1), of 4] ok d(2) by fastforce
qed

end
