(* ===== verification/Process.thy ===== *)
theory Process
  imports Files
begin

text \<open>
  Processes (kern/syscall/fork.c, waitexit_syscalls.c, the parts of kern/thread/thread.c that create,
  end and reap threads, and the start of a program from the menu).  Threads are numbers; a system
  call that can sleep is several steps, and the steps of different threads interleave.  A semaphore
  is its count: the step after P waits for a positive count.  None is a panic or the use of a null
  pointer or of a freed thread or semaphore.
\<close>

section \<open>State\<close>

definition PID_MIN :: int where "PID_MIN = 2"
definition PID_MAX :: int where "PID_MAX = 256"
definition MAX_PROCESSES :: int where "MAX_PROCESSES = 256"

text \<open>The process fields of a thread; \<open>waiting_on\<close> is None once the semaphore is destroyed.\<close>

record proc =
  pid :: int
  parent_pid :: int
  exit_status :: "32 word"
  children :: "int list"
  waiting_on :: "nat option"

text \<open>\<open>menu\<close> in the state below is the program the menu waits for.  Where a thread is: in user code, in sys_fork with a pid reserved or with the child created, in
  sys_waitpid, in thread_exit before and after it signals the parent, gone.\<close>

datatype place =
    User
  | Forking int
  | Spawned int nat
  | Waiting int
  | Exiting "32 word"
  | Signalled "32 word"
  | Gone "32 word"

record procs =
  threads :: "nat \<Rightarrow> proc option"
  process_table :: "int \<Rightarrow> nat option"
  zombies :: "nat \<Rightarrow> nat list"
  ofiles :: open_files
  at :: "nat \<Rightarrow> place"
  menu :: "nat option"

definition set_thread :: "nat \<Rightarrow> proc option \<Rightarrow> procs \<Rightarrow> procs" where
  "set_thread t p s = s\<lparr>threads := (threads s)(t := p)\<rparr>"

definition set_entry :: "int \<Rightarrow> nat option \<Rightarrow> procs \<Rightarrow> procs" where
  "set_entry c t s = s\<lparr>process_table := (process_table s)(c := t)\<rparr>"

definition go :: "nat \<Rightarrow> place \<Rightarrow> procs \<Rightarrow> procs" where
  "go t pc s = s\<lparr>at := (at s)(t := pc)\<rparr>"

section \<open>fork\<close>

definition getpid :: "procs \<Rightarrow> int option" where
  "getpid s = find (\<lambda>i. process_table s i = None) [PID_MIN..MAX_PROCESSES - 1]"

text \<open>Reserving the pid, under getpid_lock.\<close>

definition fork_reserve :: "nat \<Rightarrow> procs \<Rightarrow> errno option \<times> procs" where
  "fork_reserve t s = (case getpid s of
      None \<Rightarrow> (Some ENPROC, s)
    | Some childpid \<Rightarrow> (None, go t (Forking childpid) (set_entry childpid (Some t) s)))"

text \<open>An allocation, as_copy or thread_fork failed: the cleanup ends by giving the pid back.\<close>

definition fork_fail :: "nat \<Rightarrow> int \<Rightarrow> procs \<Rightarrow> errno \<times> procs" where
  "fork_fail t childpid s = (ENOMEM, go t User (set_entry childpid None s))"

text \<open>thread_create; the fields it leaves alone hold what was in memory.\<close>

definition new_thread :: "proc \<Rightarrow> proc" where
  "new_thread junk = junk\<lparr>children := []\<rparr>"

text \<open>thread_fork and the child's fields, up to V(wait_on_parent); the child waits for that.\<close>

definition fork_spawn :: "proc \<Rightarrow> nat \<Rightarrow> int \<Rightarrow> nat \<Rightarrow> procs \<Rightarrow> procs option" where
  "fork_spawn junk t childpid child s = do {
    p \<leftarrow> threads s t;
    let c = (new_thread junk)\<lparr>parent_pid := pid p\<rparr>;
    ofs \<leftarrow> fork_fds t child [0..<MAX_FILE_DESCRIPTOR] (ofiles s);
    let c = c\<lparr>waiting_on := Some 0, pid := childpid, parent_pid := pid p\<rparr>;
    Some (go t (Spawned childpid child) (go child User (set_thread child (Some c) (s\<lparr>ofiles := ofs\<rparr>)))) }"

text \<open>After P(wait_on_child): the child enters the list and the table.\<close>

definition fork_publish :: "nat \<Rightarrow> int \<Rightarrow> nat \<Rightarrow> procs \<Rightarrow> (int \<times> procs) option" where
  "fork_publish t childpid child s = do {
    p \<leftarrow> threads s t;
    let s = set_thread t (Some (p\<lparr>children := childpid # children p\<rparr>)) s;
    Some (childpid, go t User (set_entry childpid (Some child) s)) }"

section \<open>exit\<close>

definition MKWAIT_EXIT :: "32 word \<Rightarrow> 32 word" where
  "MKWAIT_EXIT x = push_bit 2 x OR 0"

text \<open>The loop over the children.\<close>

fun orphan_children :: "int list \<Rightarrow> procs \<Rightarrow> procs option" where
  "orphan_children [] s = Some s"
| "orphan_children (c # cs) s = do {
    u \<leftarrow> process_table s c;
    p \<leftarrow> threads s u;
    orphan_children cs (set_thread u (Some (p\<lparr>parent_pid := - 1\<rparr>)) s) }"

definition sys__exit :: "nat \<Rightarrow> 32 word \<Rightarrow> procs \<Rightarrow> procs option" where
  "sys__exit t exitcode s = do {
    ofs \<leftarrow> exit_fds t [0..<MAX_FILE_DESCRIPTOR] (ofiles s);
    p \<leftarrow> threads s t;
    s \<leftarrow> orphan_children (children p) (s\<lparr>ofiles := ofs\<rparr>);
    p \<leftarrow> threads s t;
    let p = p\<lparr>children := [], exit_status := MKWAIT_EXIT exitcode\<rparr>;
    Some (go t (Exiting exitcode) (set_thread t (Some p) s)) }"

text \<open>thread_exit: the parent is signalled, then the thread becomes a zombie of its processor.\<close>

definition exit_signal :: "nat \<Rightarrow> 32 word \<Rightarrow> procs \<Rightarrow> procs option" where
  "exit_signal t code s = do {
    p \<leftarrow> threads s t;
    p \<leftarrow> (if parent_pid p > 0 then do { n \<leftarrow> waiting_on p; Some (p\<lparr>waiting_on := Some (n + 1)\<rparr>) } else Some p);
    Some (go t (Signalled code) (set_thread t (Some p) s)) }"

definition exit_switch :: "nat \<Rightarrow> nat \<Rightarrow> 32 word \<Rightarrow> procs \<Rightarrow> procs" where
  "exit_switch cpu t code s = go t (Gone code) (s\<lparr>zombies := (zombies s)(cpu := zombies s cpu @ [t])\<rparr>)"

text \<open>The test in exorcise negates first: in C, \<open>!x > 0\<close> is \<open>(!x) > 0\<close>.\<close>

definition lnot :: "int \<Rightarrow> int" where
  "lnot x = (if x = 0 then 1 else 0)"

text \<open>thread_destroy: what it asserts of the fields here is that the thread is not running.\<close>

definition thread_destroy :: "nat \<Rightarrow> procs \<Rightarrow> procs option" where
  "thread_destroy t s = (case at s t of Gone code \<Rightarrow> Some (set_thread t None s) | _ \<Rightarrow> None)"

fun exorcise_list :: "nat list \<Rightarrow> procs \<Rightarrow> procs option" where
  "exorcise_list [] s = Some s"
| "exorcise_list (z # zs) s = do {
    p \<leftarrow> threads s z;
    KASSERT (case at s z of Gone code \<Rightarrow> True | _ \<Rightarrow> False);
    s \<leftarrow> (if lnot (parent_pid p) > 0 then thread_destroy z (set_entry (pid p) None s) else Some s);
    exorcise_list zs s }"

definition exorcise :: "nat \<Rightarrow> procs \<Rightarrow> procs option" where
  "exorcise cpu s = exorcise_list (zombies s cpu) (s\<lparr>zombies := (zombies s)(cpu := [])\<rparr>)"

section \<open>waitpid\<close>

text \<open>Up to P: an error, or the thread waits.\<close>

definition sys_waitpid :: "nat \<Rightarrow> int \<Rightarrow> bool \<Rightarrow> int \<Rightarrow> procs \<Rightarrow> (errno option \<times> procs) option" where
  "sys_waitpid t c null options s =
    (if options \<noteq> 0 then Some (Some EINVAL, s)
     else if null then Some (Some EFAULT, s)
     else if c < PID_MIN \<or> c > PID_MAX then Some (Some ESRCH, s)
     else if process_table s c = None then Some (Some ESRCH, s)
     else do {
       p \<leftarrow> threads s t;
       if c \<notin> set (children p) then Some (Some ECHILD, s)
       else Some (None, go t (Waiting c) s) })"

text \<open>Unlinking the child from the list, which must not be empty.\<close>

fun remove_child :: "int \<Rightarrow> int list \<Rightarrow> int list option" where
  "remove_child c [] = None"
| "remove_child c (x # xs) = Some (if x = c then xs else x # remove1 c xs)"

text \<open>P on the child's semaphore has returned; the status found there, and the state after.\<close>

definition waitpid_finish :: "nat \<Rightarrow> int \<Rightarrow> procs \<Rightarrow> (32 word \<times> procs) option" where
  "waitpid_finish t c s = do {
    u \<leftarrow> process_table s c;
    q \<leftarrow> threads s u;
    n \<leftarrow> waiting_on q;
    if n = 0 then None
    else do {
      let s = set_thread u (Some (q\<lparr>waiting_on := Some (n - 1)\<rparr>)) s;
      p \<leftarrow> threads s t;
      cs \<leftarrow> remove_child c (children p);
      let s = set_thread t (Some (p\<lparr>children := cs\<rparr>)) s;
      q \<leftarrow> threads s u;
      let s = set_thread u (Some (q\<lparr>waiting_on := None, parent_pid := - 1\<rparr>)) s;
      Some (exit_status q, go t User (set_entry c None s)) } }"

section \<open>Programs started from the menu\<close>

text \<open>thread_fork_wait, then runprogram in the new thread; \<open>p\<close> and \<open>v\<close> are the structures and vnodes of
  the console.\<close>

definition start_program :: "proc \<Rightarrow> (nat \<Rightarrow> nat) \<Rightarrow> (nat \<Rightarrow> nat) \<Rightarrow> nat \<Rightarrow> procs \<Rightarrow> procs option" where
  "start_program junk p v t s = do {
    let c = (new_thread junk)\<lparr>parent_pid := 1, waiting_on := Some 0\<rparr>;
    KASSERT (process_table s PID_MIN = None);
    let c = c\<lparr>pid := PID_MIN\<rparr>;
    Some (go t User (set_thread t (Some c) (s\<lparr>ofiles := stdio_init t p v (ofiles s), menu := Some t\<rparr>))) }"

text \<open>The end of common_prog, once P on the thread's semaphore has returned.\<close>

definition common_prog_finish :: "nat \<Rightarrow> procs \<Rightarrow> procs option" where
  "common_prog_finish t s = do {
    p \<leftarrow> threads s t;
    n \<leftarrow> waiting_on p;
    if n = 0 then None
    else Some (set_thread t (Some (p\<lparr>waiting_on := None, parent_pid := - 1\<rparr>)) (s\<lparr>menu := None\<rparr>)) }"

section \<open>Runs\<close>

datatype act =
    Reserve nat
  | Fail nat
  | Spawn proc nat nat
  | Publish nat
  | Exit_call nat "32 word"
  | Signal nat
  | Switch nat nat
  | Exorcise nat
  | Wait nat int bool int
  | Collect nat
  | Start proc "nat \<Rightarrow> nat" "nat \<Rightarrow> nat" nat
  | Menu_collect
  | File fcall

fun fcaller :: "fcall \<Rightarrow> nat option" where
  "fcaller (Open t null flags env) = Some t"
| "fcaller (Close t fd) = Some t"
| "fcaller (Rw vop t fd null rw) = Some t"
| "fcaller (Dup2 t oldfd newfd) = Some t"
| "fcaller (Lseek sz seek t fd pos wh) = Some t"
| "fcaller _ = None"

definition unused :: "procs \<Rightarrow> nat \<Rightarrow> bool" where
  "unused s t \<longleftrightarrow> threads s t = None"

definition posted :: "procs \<Rightarrow> nat \<Rightarrow> bool" where
  "posted s u = (case threads s u of None \<Rightarrow> False | Some p \<Rightarrow> (case waiting_on p of None \<Rightarrow> False | Some n \<Rightarrow> 0 < n))"

text \<open>When a step can happen: the thread exists and is at that point, new threads and structures are not in use,
  and P finds a positive count.\<close>

fun enabled :: "act \<Rightarrow> procs \<Rightarrow> bool" where
  "enabled (Reserve t) s \<longleftrightarrow> \<not> unused s t \<and> at s t = User"
| "enabled (Fail t) s \<longleftrightarrow> (case at s t of Forking c \<Rightarrow> True | _ \<Rightarrow> False)"
| "enabled (Spawn junk t child) s \<longleftrightarrow> (case at s t of Forking c \<Rightarrow> unused s child | _ \<Rightarrow> False)"
| "enabled (Publish t) s \<longleftrightarrow> (case at s t of Spawned c u \<Rightarrow> True | _ \<Rightarrow> False)"
| "enabled (Exit_call t code) s \<longleftrightarrow> \<not> unused s t \<and> at s t = User"
| "enabled (Signal t) s \<longleftrightarrow> (case at s t of Exiting code \<Rightarrow> True | _ \<Rightarrow> False)"
| "enabled (Switch cpu t) s \<longleftrightarrow> (case at s t of Signalled code \<Rightarrow> True | _ \<Rightarrow> False)"
| "enabled (Exorcise cpu) s \<longleftrightarrow> True"
| "enabled (Wait t c null options) s \<longleftrightarrow> \<not> unused s t \<and> at s t = User"
| "enabled (Collect t) s \<longleftrightarrow> (case at s t of Waiting c \<Rightarrow> (case process_table s c of None \<Rightarrow> True | Some u \<Rightarrow> posted s u) | _ \<Rightarrow> False)"
| "enabled (Start junk p v t) s \<longleftrightarrow> menu s = None \<and> unused s t \<and> fcall_ok (Stdio t p v) (ofiles s)"
| "enabled Menu_collect s \<longleftrightarrow> (case menu s of None \<Rightarrow> False | Some t \<Rightarrow> posted s t)"
| "enabled (File f) s \<longleftrightarrow> (case fcaller f of None \<Rightarrow> False | Some t \<Rightarrow> \<not> unused s t \<and> at s t = User) \<and> fcall_ok f (ofiles s)"

fun perform :: "act \<Rightarrow> procs \<Rightarrow> procs option" where
  "perform (Reserve t) s = Some (snd (fork_reserve t s))"
| "perform (Fail t) s = (case at s t of Forking c \<Rightarrow> Some (snd (fork_fail t c s)) | _ \<Rightarrow> None)"
| "perform (Spawn junk t child) s = (case at s t of Forking c \<Rightarrow> fork_spawn junk t c child s | _ \<Rightarrow> None)"
| "perform (Publish t) s = (case at s t of Spawned c u \<Rightarrow> map_option snd (fork_publish t c u s) | _ \<Rightarrow> None)"
| "perform (Exit_call t code) s = sys__exit t code s"
| "perform (Signal t) s = (case at s t of Exiting code \<Rightarrow> exit_signal t code s | _ \<Rightarrow> None)"
| "perform (Switch cpu t) s = (case at s t of Signalled code \<Rightarrow> Some (exit_switch cpu t code s) | _ \<Rightarrow> None)"
| "perform (Exorcise cpu) s = exorcise cpu s"
| "perform (Wait t c null options) s = map_option snd (sys_waitpid t c null options s)"
| "perform (Collect t) s = (case at s t of Waiting c \<Rightarrow> map_option snd (waitpid_finish t c s) | _ \<Rightarrow> None)"
| "perform (Start junk p v t) s = start_program junk p v t s"
| "perform Menu_collect s = (case menu s of None \<Rightarrow> None | Some t \<Rightarrow> common_prog_finish t s)"
| "perform (File f) s = map_option (\<lambda>ofs. s\<lparr>ofiles := ofs\<rparr>) (fcall_run f (ofiles s))"

inductive runs :: "procs \<Rightarrow> procs \<Rightarrow> bool" where
  runs_refl: "runs s s"
| runs_step: "runs s s' \<Longrightarrow> enabled a s' \<Longrightarrow> perform a s' = Some s'' \<Longrightarrow> runs s s''"

definition no_procs :: procs where
  "no_procs = \<lparr>threads = (\<lambda>_. None), process_table = (\<lambda>_. None), zombies = (\<lambda>_. []), ofiles = no_files,
    at = (\<lambda>_. User), menu = None\<rparr>"

section \<open>The invariant\<close>

definition alive :: "procs \<Rightarrow> nat \<Rightarrow> bool" where "alive s t \<longleftrightarrow> threads s t \<noteq> None"

definition kids :: "procs \<Rightarrow> nat \<Rightarrow> int list" where
  "kids s t = (case threads s t of None \<Rightarrow> [] | Some p \<Rightarrow> children p)"

definition tpid :: "procs \<Rightarrow> nat \<Rightarrow> int" where
  "tpid s t = (case threads s t of None \<Rightarrow> 0 | Some p \<Rightarrow> pid p)"

definition ppid :: "procs \<Rightarrow> nat \<Rightarrow> int" where
  "ppid s t = (case threads s t of None \<Rightarrow> 0 | Some p \<Rightarrow> parent_pid p)"

definition sem :: "procs \<Rightarrow> nat \<Rightarrow> nat option" where
  "sem s t = (case threads s t of None \<Rightarrow> None | Some p \<Rightarrow> waiting_on p)"

definition status_of :: "procs \<Rightarrow> nat \<Rightarrow> 32 word" where
  "status_of s t = (case threads s t of None \<Rightarrow> 0 | Some p \<Rightarrow> exit_status p)"

fun exited :: "place \<Rightarrow> 32 word option" where
  "exited (Signalled code) = Some code"
| "exited (Gone code) = Some code"
| "exited _ = None"

text \<open>A process that has not been collected; the program the menu waits for is not counted.\<close>

definition held :: "procs \<Rightarrow> int \<Rightarrow> nat \<Rightarrow> bool" where
  "held s c u \<longleftrightarrow> alive s u \<and> tpid s u = c \<and> sem s u \<noteq> None \<and> menu s \<noteq> Some u"

definition is_child :: "procs \<Rightarrow> nat \<Rightarrow> int \<Rightarrow> nat \<Rightarrow> bool" where
  "is_child s t c u \<longleftrightarrow> alive s u \<and> tpid s u = c \<and> 0 < ppid s u \<and> u \<noteq> t \<and> menu s \<noteq> Some u"

definition inv_children :: "procs \<Rightarrow> bool" where
  "inv_children s \<longleftrightarrow> (\<forall>t c. c \<in> set (kids s t) \<longrightarrow> (\<exists>u. process_table s c = Some u \<and> is_child s t c u))"

definition inv_single :: "procs \<Rightarrow> bool" where
  "inv_single s \<longleftrightarrow> (\<forall>t t' c. c \<in> set (kids s t) \<longrightarrow> c \<in> set (kids s t') \<longrightarrow> t = t')"

definition inv_distinct :: "procs \<Rightarrow> bool" where
  "inv_distinct s \<longleftrightarrow> (\<forall>t. distinct (kids s t))"

definition inv_forking :: "procs \<Rightarrow> bool" where
  "inv_forking s \<longleftrightarrow> (\<forall>t c. at s t = Forking c \<longrightarrow> (process_table s c = Some t \<and> (\<forall>t'. c \<notin> set (kids s t')) \<and> (\<forall>u. \<not> held s c u) \<and> 2 \<le> c))"

definition inv_spawned :: "procs \<Rightarrow> bool" where
  "inv_spawned s \<longleftrightarrow> (\<forall>t c u. at s t = Spawned c u \<longrightarrow> (process_table s c = Some t \<and> (\<forall>t'. c \<notin> set (kids s t')) \<and> is_child s t c u))"

definition inv_waiting :: "procs \<Rightarrow> bool" where
  "inv_waiting s \<longleftrightarrow> (\<forall>t c. at s t = Waiting c \<longrightarrow> c \<in> set (kids s t))"

definition inv_places :: "procs \<Rightarrow> bool" where
  "inv_places s \<longleftrightarrow> (\<forall>t. at s t \<noteq> User \<longrightarrow> alive s t)"

definition inv_pids :: "procs \<Rightarrow> bool" where
  "inv_pids s \<longleftrightarrow> (\<forall>t. alive s t \<longrightarrow> (ppid s t \<noteq> 0 \<and> 2 \<le> tpid s t))"

definition inv_sems :: "procs \<Rightarrow> bool" where
  "inv_sems s \<longleftrightarrow> (\<forall>t. alive s t \<longrightarrow> 0 < ppid s t \<longrightarrow> sem s t = Some (if exited (at s t) = None then 0 else 1))"

definition inv_exits :: "procs \<Rightarrow> bool" where
  "inv_exits s \<longleftrightarrow> (\<forall>t code. (at s t = Exiting code \<or> exited (at s t) = Some code) \<longrightarrow> (status_of s t = MKWAIT_EXIT code \<and> kids s t = []))"

definition inv_menu :: "procs \<Rightarrow> bool" where
  "inv_menu s \<longleftrightarrow> (\<forall>t. menu s = Some t \<longrightarrow> (alive s t \<and> 0 < ppid s t))"

definition inv_table :: "procs \<Rightarrow> bool" where
  "inv_table s \<longleftrightarrow> (\<forall>c u. held s c u \<longrightarrow> process_table s c \<noteq> None)"

definition inv_unique :: "procs \<Rightarrow> bool" where
  "inv_unique s \<longleftrightarrow> (\<forall>c u v. held s c u \<longrightarrow> held s c v \<longrightarrow> u = v)"

definition inv_zombies :: "procs \<Rightarrow> bool" where
  "inv_zombies s \<longleftrightarrow> (\<forall>cpu z. z \<in> set (zombies s cpu) \<longrightarrow> (alive s z \<and> (\<exists>code. at s z = Gone code)))"

definition inv_files :: "procs \<Rightarrow> bool" where
  "inv_files s \<longleftrightarrow> (files_ok (ofiles s))"

definition inv_fresh :: "procs \<Rightarrow> bool" where
  "inv_fresh s \<longleftrightarrow> (\<forall>t i. \<not> alive s t \<longrightarrow> fds (ofiles s) t i = None)"

definition pinv :: "procs \<Rightarrow> bool" where
  "pinv s \<longleftrightarrow> inv_children s \<and> inv_single s \<and> inv_distinct s \<and> inv_forking s \<and>
    inv_spawned s \<and> inv_waiting s \<and> inv_places s \<and> inv_pids s \<and>
    inv_sems s \<and> inv_exits s \<and> inv_menu s \<and> inv_table s \<and>
    inv_unique s \<and> inv_zombies s \<and> inv_files s \<and> inv_fresh s"

lemma pinvD:
  assumes "pinv s"
  shows "c \<in> set (kids s t) \<Longrightarrow> \<exists>u. process_table s c = Some u \<and> is_child s t c u"
    "c \<in> set (kids s t) \<Longrightarrow> c \<in> set (kids s t') \<Longrightarrow> t = t'"
    "distinct (kids s t)"
    "at s t = Forking c \<Longrightarrow> process_table s c = Some t \<and> (\<forall>t'. c \<notin> set (kids s t')) \<and> (\<forall>u. \<not> held s c u) \<and> 2 \<le> c"
    "at s t = Spawned c u \<Longrightarrow> process_table s c = Some t \<and> (\<forall>t'. c \<notin> set (kids s t')) \<and> is_child s t c u"
    "at s t = Waiting c \<Longrightarrow> c \<in> set (kids s t)"
    "at s t \<noteq> User \<Longrightarrow> alive s t"
    "alive s t \<Longrightarrow> ppid s t \<noteq> 0 \<and> 2 \<le> tpid s t"
    "alive s t \<Longrightarrow> 0 < ppid s t \<Longrightarrow> sem s t = Some (if exited (at s t) = None then 0 else 1)"
    "at s t = Exiting code \<or> exited (at s t) = Some code \<Longrightarrow> status_of s t = MKWAIT_EXIT code \<and> kids s t = []"
    "menu s = Some t \<Longrightarrow> alive s t \<and> 0 < ppid s t"
    "held s c u \<Longrightarrow> process_table s c \<noteq> None"
    "held s c u \<Longrightarrow> held s c v \<Longrightarrow> u = v"
    "z \<in> set (zombies s cpu) \<Longrightarrow> alive s z \<and> (\<exists>code. at s z = Gone code)"
    "files_ok (ofiles s)"
    "\<not> alive s t \<Longrightarrow> fds (ofiles s) t i = None"
proof -
  have i: "inv_children s" "inv_single s" "inv_distinct s" "inv_forking s" "inv_spawned s" "inv_waiting s" "inv_places s" "inv_pids s" "inv_sems s" "inv_exits s" "inv_menu s" "inv_table s" "inv_unique s" "inv_zombies s" "inv_files s" "inv_fresh s"
    using assms by (simp_all only: pinv_def)
  show "c \<in> set (kids s t) \<Longrightarrow> \<exists>u. process_table s c = Some u \<and> is_child s t c u" using i(1) unfolding inv_children_def by blast
  show "c \<in> set (kids s t) \<Longrightarrow> c \<in> set (kids s t') \<Longrightarrow> t = t'" using i(2) unfolding inv_single_def by blast
  show "distinct (kids s t)" using i(3) unfolding inv_distinct_def by blast
  show "at s t = Forking c \<Longrightarrow> process_table s c = Some t \<and> (\<forall>t'. c \<notin> set (kids s t')) \<and> (\<forall>u. \<not> held s c u) \<and> 2 \<le> c" using i(4) unfolding inv_forking_def by blast
  show "at s t = Spawned c u \<Longrightarrow> process_table s c = Some t \<and> (\<forall>t'. c \<notin> set (kids s t')) \<and> is_child s t c u" using i(5) unfolding inv_spawned_def by blast
  show "at s t = Waiting c \<Longrightarrow> c \<in> set (kids s t)" using i(6) unfolding inv_waiting_def by blast
  show "at s t \<noteq> User \<Longrightarrow> alive s t" using i(7) unfolding inv_places_def by blast
  show "alive s t \<Longrightarrow> ppid s t \<noteq> 0 \<and> 2 \<le> tpid s t" using i(8) unfolding inv_pids_def by blast
  show "alive s t \<Longrightarrow> 0 < ppid s t \<Longrightarrow> sem s t = Some (if exited (at s t) = None then 0 else 1)" using i(9) unfolding inv_sems_def by blast
  show "at s t = Exiting code \<or> exited (at s t) = Some code \<Longrightarrow> status_of s t = MKWAIT_EXIT code \<and> kids s t = []" using i(10) unfolding inv_exits_def by blast
  show "menu s = Some t \<Longrightarrow> alive s t \<and> 0 < ppid s t" using i(11) unfolding inv_menu_def by blast
  show "held s c u \<Longrightarrow> process_table s c \<noteq> None" using i(12) unfolding inv_table_def by blast
  show "held s c u \<Longrightarrow> held s c v \<Longrightarrow> u = v" using i(13) unfolding inv_unique_def by blast
  show "z \<in> set (zombies s cpu) \<Longrightarrow> alive s z \<and> (\<exists>code. at s z = Gone code)" using i(14) unfolding inv_zombies_def by blast
  show "files_ok (ofiles s)" using i(15) unfolding inv_files_def by blast
  show "\<not> alive s t \<Longrightarrow> fds (ofiles s) t i = None" using i(16) unfolding inv_fresh_def by blast
qed

lemma pinvI:
  assumes "\<And>t c. c \<in> set (kids s t) \<Longrightarrow> \<exists>u. process_table s c = Some u \<and> is_child s t c u"
    "\<And>t t' c. c \<in> set (kids s t) \<Longrightarrow> c \<in> set (kids s t') \<Longrightarrow> t = t'"
    "\<And>t. distinct (kids s t)"
    "\<And>t c. at s t = Forking c \<Longrightarrow> process_table s c = Some t \<and> (\<forall>t'. c \<notin> set (kids s t')) \<and> (\<forall>u. \<not> held s c u) \<and> 2 \<le> c"
    "\<And>t c u. at s t = Spawned c u \<Longrightarrow> process_table s c = Some t \<and> (\<forall>t'. c \<notin> set (kids s t')) \<and> is_child s t c u"
    "\<And>t c. at s t = Waiting c \<Longrightarrow> c \<in> set (kids s t)"
    "\<And>t. at s t \<noteq> User \<Longrightarrow> alive s t"
    "\<And>t. alive s t \<Longrightarrow> ppid s t \<noteq> 0 \<and> 2 \<le> tpid s t"
    "\<And>t. alive s t \<Longrightarrow> 0 < ppid s t \<Longrightarrow> sem s t = Some (if exited (at s t) = None then 0 else 1)"
    "\<And>t code. at s t = Exiting code \<or> exited (at s t) = Some code \<Longrightarrow> status_of s t = MKWAIT_EXIT code \<and> kids s t = []"
    "\<And>t. menu s = Some t \<Longrightarrow> alive s t \<and> 0 < ppid s t"
    "\<And>c u. held s c u \<Longrightarrow> process_table s c \<noteq> None"
    "\<And>c u v. held s c u \<Longrightarrow> held s c v \<Longrightarrow> u = v"
    "\<And>cpu z. z \<in> set (zombies s cpu) \<Longrightarrow> alive s z \<and> (\<exists>code. at s z = Gone code)"
    "files_ok (ofiles s)"
    "\<And>t i. \<not> alive s t \<Longrightarrow> fds (ofiles s) t i = None"
  shows "pinv s"
proof -
  have "inv_children s" unfolding inv_children_def using assms(1) by blast
  moreover have "inv_single s" unfolding inv_single_def using assms(2) by blast
  moreover have "inv_distinct s" unfolding inv_distinct_def using assms(3) by blast
  moreover have "inv_forking s" unfolding inv_forking_def using assms(4) by blast
  moreover have "inv_spawned s" unfolding inv_spawned_def using assms(5) by blast
  moreover have "inv_waiting s" unfolding inv_waiting_def using assms(6) by blast
  moreover have "inv_places s" unfolding inv_places_def using assms(7) by blast
  moreover have "inv_pids s" unfolding inv_pids_def using assms(8) by blast
  moreover have "inv_sems s" unfolding inv_sems_def using assms(9) by blast
  moreover have "inv_exits s" unfolding inv_exits_def using assms(10) by blast
  moreover have "inv_menu s" unfolding inv_menu_def using assms(11) by blast
  moreover have "inv_table s" unfolding inv_table_def using assms(12) by blast
  moreover have "inv_unique s" unfolding inv_unique_def using assms(13) by blast
  moreover have "inv_zombies s" unfolding inv_zombies_def using assms(14) by blast
  moreover have "inv_files s" unfolding inv_files_def using assms(15) by blast
  moreover have "inv_fresh s" unfolding inv_fresh_def using assms(16) by blast
  ultimately show ?thesis by (simp only: pinv_def)
qed

text \<open>Reading a state after a change of one part of it.\<close>

lemma set_thread_simps [simp]:
  "alive (set_thread t (Some p) s) t' \<longleftrightarrow> t' = t \<or> alive s t'"
  "kids (set_thread t (Some p) s) t' = (if t' = t then children p else kids s t')"
  "tpid (set_thread t (Some p) s) t' = (if t' = t then pid p else tpid s t')"
  "ppid (set_thread t (Some p) s) t' = (if t' = t then parent_pid p else ppid s t')"
  "sem (set_thread t (Some p) s) t' = (if t' = t then waiting_on p else sem s t')"
  "status_of (set_thread t (Some p) s) t' = (if t' = t then exit_status p else status_of s t')"
  "process_table (set_thread t q s) = process_table s" "at (set_thread t q s) = at s" "menu (set_thread t q s) = menu s"
  "ofiles (set_thread t q s) = ofiles s" "zombies (set_thread t q s) = zombies s"
  "threads (set_thread t q s) t' = (if t' = t then q else threads s t')"
  by (auto simp: set_thread_def alive_def kids_def tpid_def ppid_def sem_def status_of_def)

lemma set_entry_simps [simp]:
  "alive (set_entry c q s) = alive s" "kids (set_entry c q s) = kids s" "tpid (set_entry c q s) = tpid s" "ppid (set_entry c q s) = ppid s"
  "sem (set_entry c q s) = sem s" "status_of (set_entry c q s) = status_of s"
  "process_table (set_entry c q s) c' = (if c' = c then q else process_table s c')" "at (set_entry c q s) = at s" "menu (set_entry c q s) = menu s"
  "ofiles (set_entry c q s) = ofiles s" "zombies (set_entry c q s) = zombies s" "threads (set_entry c q s) = threads s"
  by (auto simp: set_entry_def alive_def kids_def tpid_def ppid_def sem_def status_of_def)

lemma go_simps [simp]:
  "alive (go t pc s) = alive s" "kids (go t pc s) = kids s" "tpid (go t pc s) = tpid s" "ppid (go t pc s) = ppid s"
  "sem (go t pc s) = sem s" "status_of (go t pc s) = status_of s"
  "at (go t pc s) t' = (if t' = t then pc else at s t')" "process_table (go t pc s) = process_table s" "menu (go t pc s) = menu s"
  "ofiles (go t pc s) = ofiles s" "zombies (go t pc s) = zombies s" "threads (go t pc s) = threads s"
  by (auto simp: go_def alive_def kids_def tpid_def ppid_def sem_def status_of_def)

lemma other_simps [simp]:
  "alive (s\<lparr>ofiles := f\<rparr>) = alive s" "kids (s\<lparr>ofiles := f\<rparr>) = kids s" "tpid (s\<lparr>ofiles := f\<rparr>) = tpid s" "ppid (s\<lparr>ofiles := f\<rparr>) = ppid s"
  "sem (s\<lparr>ofiles := f\<rparr>) = sem s" "status_of (s\<lparr>ofiles := f\<rparr>) = status_of s"
  "alive (s\<lparr>zombies := z\<rparr>) = alive s" "kids (s\<lparr>zombies := z\<rparr>) = kids s" "tpid (s\<lparr>zombies := z\<rparr>) = tpid s" "ppid (s\<lparr>zombies := z\<rparr>) = ppid s"
  "sem (s\<lparr>zombies := z\<rparr>) = sem s" "status_of (s\<lparr>zombies := z\<rparr>) = status_of s"
  "alive (s\<lparr>menu := m\<rparr>) = alive s" "kids (s\<lparr>menu := m\<rparr>) = kids s" "tpid (s\<lparr>menu := m\<rparr>) = tpid s" "ppid (s\<lparr>menu := m\<rparr>) = ppid s"
  "sem (s\<lparr>menu := m\<rparr>) = sem s" "status_of (s\<lparr>menu := m\<rparr>) = status_of s"
  by (auto simp: alive_def kids_def tpid_def ppid_def sem_def status_of_def)

lemma field_simps:
  assumes "threads s t = Some p"
  shows "alive s t" "kids s t = children p" "tpid s t = pid p" "ppid s t = parent_pid p" "sem s t = waiting_on p" "status_of s t = exit_status p"
  using assms by (simp_all add: alive_def kids_def tpid_def ppid_def sem_def status_of_def)

lemma no_procs_inv: "pinv no_procs"
  by (rule pinvI) (simp_all add: no_procs_def kids_def alive_def held_def no_files_ok, simp add: no_files_def)

lemma reserve_inv:
  assumes "pinv s" "alive s t" "at s t = User"
  shows "pinv (snd (fork_reserve t s))"
proof (cases "getpid s")
  case (Some c)
  note I = pinvD [OF assms(1)]
  have n: "process_table s c = None" using Some by (auto simp: getpid_def find_Some_iff)
  have c2: "2 \<le> c" using Some by (auto simp: getpid_def find_Some_iff PID_MIN_def)
  have k: "c \<notin> set (kids s t')" for t' using I(1) [of c t'] n by auto
  have h: "\<not> held s c u" for u using I(12) n by blast
  have "pinv (go t (Forking c) (set_entry c (Some t) s))"
    apply (rule pinvI)
    subgoal using I(1) k n by (force simp: is_child_def)
    subgoal using I(2) by simp
    subgoal using I(3) by simp
    subgoal using I(4) k h n c2 by (force simp: held_def split: if_splits)
    subgoal using I(5) n by (force simp: is_child_def split: if_splits)
    subgoal using I(6) by (force split: if_splits)
    subgoal using I(7) assms(2) by (force split: if_splits)
    subgoal using I(8) by simp
    subgoal using I(9) assms(3) by (force split: if_splits)
    subgoal using I(10) by (force split: if_splits)
    subgoal using I(11) by simp
    subgoal using I(12) by (force simp: held_def)
    subgoal using I(13) by (force simp: held_def)
    subgoal for k z using I(14) [of z k] assms(3) by auto
    subgoal using I(15) by simp
    subgoal using I(16) by simp
    done
  then show ?thesis using Some by (simp add: fork_reserve_def)
qed (use assms in \<open>simp add: fork_reserve_def\<close>)

lemma fail_inv:
  assumes "pinv s" "at s t = Forking c"
  shows "pinv (snd (fork_fail t c s))"
proof -
  note I = pinvD [OF assms(1)]
  note f = I(4) [OF assms(2)]
  have "pinv (go t User (set_entry c None s))"
    apply (rule pinvI)
    subgoal using I(1) f by (force simp: is_child_def)
    subgoal using I(2) by simp
    subgoal using I(3) by simp
    subgoal using I(4) f by (force simp: held_def split: if_splits)
    subgoal using I(5) f by (force simp: is_child_def split: if_splits)
    subgoal using I(6) by (force split: if_splits)
    subgoal using I(7) by (force split: if_splits)
    subgoal using I(8) by simp
    subgoal using I(9) assms(2) by (force split: if_splits)
    subgoal using I(10) by (force split: if_splits)
    subgoal using I(11) by simp
    subgoal using I(12) f by (force simp: held_def)
    subgoal using I(13) by (force simp: held_def)
    subgoal for k z using I(14) [of z k] assms(2) by auto
    subgoal using I(15) by simp
    subgoal using I(16) by simp
    done
  then show ?thesis by (simp add: fork_fail_def)
qed

lemma spawn_inv:
  assumes "pinv s" "at s t = Forking c" "unused s child"
  shows "\<exists>s'. fork_spawn junk t c child s = Some s' \<and> pinv s'"
proof -
  note I = pinvD [OF assms(1)]
  note f = I(4) [OF assms(2)]
  have ch: "\<not> alive s child" using assms(3) by (simp add: unused_def alive_def)
  have al: "alive s t" using I(7) assms(2) by simp
  then obtain p where p: "threads s t = Some p" by (auto simp: alive_def)
  have ne: "child \<noteq> t" "at s child = User" "menu s \<noteq> Some child" using ch al I(7,11) by blast+
  have pp: "2 \<le> pid p" using I(8) [OF al] field_simps [OF p] by simp
  obtain o' where o': "fork_fds t child [0..<MAX_FILE_DESCRIPTOR] (ofiles s) = Some o'" "files_ok o'"
    "\<forall>t' i. fds o' t' i = (if t' = child \<and> i \<in> set [0..<MAX_FILE_DESCRIPTOR] then fds (ofiles s) t i else fds (ofiles s) t' i)"
    using fork_fds_ok [OF I(15), of t child "[0..<MAX_FILE_DESCRIPTOR]"] ne(1) I(16) [OF ch] by auto
  define s' where "s' = go t (Spawned c child) (go child User (set_thread child
    (Some ((new_thread junk)\<lparr>waiting_on := Some 0, pid := c, parent_pid := pid p\<rparr>)) (s\<lparr>ofiles := o'\<rparr>)))"
  have P: "kids s' t' = (if t' = child then [] else kids s t')" "alive s' t' \<longleftrightarrow> t' = child \<or> alive s t'"
    "ppid s' t' = (if t' = child then pid p else ppid s t')" "tpid s' t' = (if t' = child then c else tpid s t')"
    "sem s' t' = (if t' = child then Some 0 else sem s t')" "process_table s' = process_table s" "menu s' = menu s" "zombies s' = zombies s"
    "ofiles s' = o'" "t' \<noteq> child \<Longrightarrow> status_of s' t' = status_of s t'"
    "at s' t' = (if t' = t then Spawned c child else at s t')" for t'
    using ne by (auto simp: s'_def new_thread_def)
  have C: "is_child s' t' c' u \<longleftrightarrow> (if u = child then c' = c \<and> t' \<noteq> child else is_child s t' c' u)" "\<not> is_child s t' c' child"
    "held s' c' u \<longleftrightarrow> (if u = child then c' = c else held s c' u)" "\<not> held s c' child" for t' c' u
    using pp ne ch by (auto simp: is_child_def held_def P)
  have "pinv s'"
    apply (rule pinvI; (simp only: P)?)
    subgoal using I(1) C by (metis empty_iff empty_set)
    subgoal using I(2) by (auto split: if_splits)
    subgoal using I(3) by simp
    subgoal for t' c' using I(4) [of t' c'] f by (auto simp: C split: if_splits)
    subgoal for t' c' u using I(5) [of t' c' u] f ne by (auto simp: C split: if_splits)
    subgoal using I(6) ne by (auto split: if_splits)
    subgoal using I(7) al by (auto split: if_splits)
    subgoal using I(8) pp f by auto
    subgoal for t' using I(9) [of t'] assms(2) ne by (auto split: if_splits)
    subgoal for t' code using I(10) [of t' code] ne P(10) [of t'] by (cases "t' = child") (auto split: if_splits)
    subgoal using I(11) ne by auto
    subgoal for c' u using I(12) f by (auto simp: C split: if_splits)
    subgoal for c' u v using I(13) f by (auto simp: C split: if_splits)
    subgoal for k z using I(14) [of z k] assms(2) ne by auto
    subgoal using o'(2) .
    subgoal using I(16) o'(3) by auto
    done
  then show ?thesis using p o'(1) by (simp add: fork_spawn_def Let_def new_thread_def s'_def)
qed

lemma publish_inv:
  assumes "pinv s" "at s t = Spawned c u"
  shows "\<exists>s'. fork_publish t c u s = Some (c, s') \<and> pinv s'"
proof -
  note I = pinvD [OF assms(1)]
  note f = I(5) [OF assms(2)]
  have al: "alive s t" using I(7) assms(2) by simp
  then obtain p where p: "threads s t = Some p" by (auto simp: alive_def)
  note fld = field_simps [OF p]
  define s' where "s' = go t User (set_entry c (Some u) (set_thread t (Some (p\<lparr>children := c # children p\<rparr>)) s))"
  have P: "kids s' t' = (if t' = t then c # kids s t else kids s t')" "alive s' t' = alive s t'"
    "ppid s' t' = ppid s t'" "tpid s' t' = tpid s t'" "sem s' t' = sem s t'" "status_of s' t' = status_of s t'"
    "process_table s' c' = (if c' = c then Some u else process_table s c')" "menu s' = menu s" "zombies s' = zombies s" "ofiles s' = ofiles s"
    "at s' t' = (if t' = t then User else at s t')" for t' c'
    using fld al by (auto simp: s'_def)
  have C: "is_child s' = is_child s" "held s' = held s" by (auto simp: is_child_def held_def P fun_eq_iff)
  have "pinv s'"
    apply (rule pinvI; (simp only: P C)?)
    subgoal for t' c' using I(1) [of c' t'] f by (auto split: if_splits)
    subgoal for t' t'' c' using I(2) [of c' t' t''] f by (auto split: if_splits)
    subgoal using I(3) f by simp
    subgoal for t' c' using I(4) [of t' c'] f by (auto split: if_splits)
    subgoal for t' c' v using I(5) [of t' c' v] f by (auto split: if_splits)
    subgoal using I(6) by (auto split: if_splits)
    subgoal using I(7) by (auto split: if_splits)
    subgoal using I(8) by blast
    subgoal for t' using I(9) [of t'] assms(2) by (auto split: if_splits)
    subgoal for t' code using I(10) [of t' code] by (auto split: if_splits)
    subgoal using I(11) by blast
    subgoal using I(12) by auto
    subgoal using I(13) by blast
    subgoal for k z using I(14) [of z k] assms(2) by auto
    subgoal using I(15) .
    subgoal using I(16) by blast
    done
  then show ?thesis using p by (simp add: fork_publish_def Let_def s'_def)
qed

lemma orphan_children_eq:
  assumes "\<forall>c \<in> set cs. \<exists>u. process_table s c = Some u \<and> alive s u"
  shows "\<exists>s'. orphan_children cs s = Some s' \<and> process_table s' = process_table s \<and> at s' = at s \<and> menu s' = menu s \<and>
    zombies s' = zombies s \<and> ofiles s' = ofiles s \<and> alive s' = alive s \<and> kids s' = kids s \<and> tpid s' = tpid s \<and> sem s' = sem s \<and>
    status_of s' = status_of s \<and> (\<forall>v. ppid s' v = (if \<exists>c \<in> set cs. process_table s c = Some v then - 1 else ppid s v))"
  using assms
proof (induction cs arbitrary: s)
  case (Cons c cs)
  obtain u where u: "process_table s c = Some u" "alive s u" using Cons.prems by auto
  obtain p where p: "threads s u = Some p" using u(2) by (auto simp: alive_def)
  note fld = field_simps [OF p]
  define s1 where "s1 = set_thread u (Some (p\<lparr>parent_pid := - 1\<rparr>)) s"
  have P: "process_table s1 = process_table s" "at s1 = at s" "menu s1 = menu s" "zombies s1 = zombies s" "ofiles s1 = ofiles s"
    "alive s1 = alive s" "kids s1 = kids s" "tpid s1 = tpid s" "sem s1 = sem s" "status_of s1 = status_of s"
    "\<And>v. ppid s1 v = (if v = u then - 1 else ppid s v)"
    using fld by (auto simp: s1_def fun_eq_iff)
  obtain s' where s': "orphan_children cs s1 = Some s'" "process_table s' = process_table s" "at s' = at s" "menu s' = menu s"
    "zombies s' = zombies s" "ofiles s' = ofiles s" "alive s' = alive s" "kids s' = kids s" "tpid s' = tpid s" "sem s' = sem s" "status_of s' = status_of s"
    "\<forall>v. ppid s' v = (if \<exists>c \<in> set cs. process_table s c = Some v then - 1 else ppid s1 v)"
    using Cons.IH [of s1] Cons.prems unfolding P by auto
  have "orphan_children (c # cs) s = Some s'" using u p s'(1) by (simp add: s1_def)
  moreover have "ppid s' v = (if \<exists>c' \<in> set (c # cs). process_table s c' = Some v then - 1 else ppid s v)" for v
    using s'(12) u(1) by (auto simp: P(11))
  ultimately show ?case using s'(2-11) by auto
qed simp

lemma exit_inv:
  assumes "pinv s" "alive s t" "at s t = User"
  shows "\<exists>s'. sys__exit t code s = Some s' \<and> pinv s'"
proof -
  note I = pinvD [OF assms(1)]
  obtain p where p: "threads s t = Some p" using assms(2) by (auto simp: alive_def)
  note fld = field_simps [OF p]
  obtain o' where o': "exit_fds t [0..<MAX_FILE_DESCRIPTOR] (ofiles s) = Some o'" "files_ok o'"
    "\<forall>t' i. fds o' t' i = (if t' = t \<and> i \<in> set [0..<MAX_FILE_DESCRIPTOR] then None else fds (ofiles s) t' i)"
    using exit_fds_ok [OF I(15), of "[0..<MAX_FILE_DESCRIPTOR]" t] by auto
  have "\<forall>c \<in> set (children p). \<exists>u. process_table (s\<lparr>ofiles := o'\<rparr>) c = Some u \<and> alive (s\<lparr>ofiles := o'\<rparr>) u"
    using I(1) [of _ t] fld(2) by (auto simp: is_child_def)
  then obtain s1 where s1: "orphan_children (children p) (s\<lparr>ofiles := o'\<rparr>) = Some s1" "process_table s1 = process_table s" "at s1 = at s"
    "menu s1 = menu s" "zombies s1 = zombies s" "ofiles s1 = o'" "alive s1 = alive s" "kids s1 = kids s" "tpid s1 = tpid s" "sem s1 = sem s"
    "status_of s1 = status_of s" "\<forall>v. ppid s1 v = (if \<exists>c \<in> set (children p). process_table s c = Some v then - 1 else ppid s v)"
    using orphan_children_eq [of "children p" "s\<lparr>ofiles := o'\<rparr>"] by auto
  obtain q where q: "threads s1 t = Some q" using fun_cong [OF s1(7), of t] assms(2) by (auto simp: alive_def)
  note fld1 = field_simps [OF q]
  define s' where "s' = go t (Exiting code) (set_thread t (Some (q\<lparr>children := [], exit_status := MKWAIT_EXIT code\<rparr>)) s1)"
  have pp: "ppid s' v = ppid s1 v" for v using fld1 by (auto simp: s'_def)
  let ?mine = "\<lambda>v. \<exists>c \<in> set (kids s t). process_table s c = Some v"
  have P: "kids s' t' = (if t' = t then [] else kids s t')" "alive s' t' = alive s t'" "tpid s' t' = tpid s t'" "sem s' t' = sem s t'"
    "status_of s' t' = (if t' = t then MKWAIT_EXIT code else status_of s t')"
    "process_table s' = process_table s" "menu s' = menu s" "zombies s' = zombies s" "ofiles s' = o'"
    "at s' t' = (if t' = t then Exiting code else at s t')" for t'
    using fld fld1 s1(2-11) assms(2) by (auto simp: s'_def)
  have Q: "ppid s' v = (if ?mine v then - 1 else ppid s v)" for v unfolding pp using s1(12) fld(2) by simp
  have mine: "?mine v \<Longrightarrow> \<exists>c. c \<in> set (kids s t) \<and> process_table s c = Some v \<and> is_child s t c v" for v using I(1) by fastforce
  have H: "held s' = held s" by (auto simp: held_def P fun_eq_iff)
  have C: "is_child s' t' c' u" if "is_child s t' c' u" "c' \<notin> set (kids s t)" for t' c' u
    using that mine [of u] by (auto simp: is_child_def P Q)
  have "pinv s'"
    apply (rule pinvI; (simp only: P Q H)?)
    subgoal for t' c' using I(1) [of c' t'] I(2) [of c' t t'] C [of t' c'] by (auto split: if_splits)
    subgoal for t' t'' c' using I(2) [of c' t' t''] by (auto split: if_splits)
    subgoal using I(3) by simp
    subgoal for t' c' using I(4) [of t' c'] by (auto split: if_splits)
    subgoal for t' c' u using I(5) [of t' c' u] C [of t' c' u] by (auto split: if_splits)
    subgoal for t' c' using I(6) [of t' c'] by (auto split: if_splits)
    subgoal for t' using I(7) [of t'] assms(2) by (auto split: if_splits)
    subgoal for t' using I(8) [of t'] by simp
    subgoal for t' using I(9) [of t'] assms(3) by (auto split: if_splits)
    subgoal for t' c' using I(10) [of t' c'] by (auto split: if_splits)
    subgoal for t' using I(11) [of t'] mine [of t'] by (auto simp: is_child_def)
    subgoal using I(12) by blast
    subgoal using I(13) by blast
    subgoal for k z using I(14) [of z k] assms(3) by auto
    subgoal using o'(2) .
    subgoal using I(16) o'(3) by auto
    done
  then show ?thesis using o'(1) p s1(1) q by (simp add: sys__exit_def Let_def s'_def)
qed

lemma signal_inv:
  assumes "pinv s" "at s t = Exiting code"
  shows "\<exists>s'. exit_signal t code s = Some s' \<and> pinv s'"
proof -
  note I = pinvD [OF assms(1)]
  have al: "alive s t" using I(7) assms(2) by simp
  then obtain p where p: "threads s t = Some p" by (auto simp: alive_def)
  note fld = field_simps [OF p]
  have w: "waiting_on p = Some 0" if "0 < parent_pid p" using I(9) [OF al] fld that assms(2) by simp
  define s' where "s' = go t (Signalled code) (set_thread t (Some (if parent_pid p > 0 then p\<lparr>waiting_on := Some 1\<rparr> else p)) s)"
  have P: "kids s' t' = kids s t'" "alive s' t' = alive s t'" "tpid s' t' = tpid s t'" "ppid s' t' = ppid s t'" "status_of s' t' = status_of s t'"
    "sem s' t' = (if t' = t \<and> 0 < ppid s t then Some 1 else sem s t')"
    "process_table s' = process_table s" "menu s' = menu s" "zombies s' = zombies s" "ofiles s' = ofiles s"
    "at s' t' = (if t' = t then Signalled code else at s t')" for t'
    using fld al by (auto simp: s'_def)
  have C: "is_child s' = is_child s" "held s' = held s"
    using w fld by (auto simp: is_child_def held_def P fun_eq_iff)
  have "pinv s'"
    apply (rule pinvI; (simp only: P C)?)
    subgoal using I(1) by blast
    subgoal using I(2) by blast
    subgoal using I(3) .
    subgoal for t' c' using I(4) [of t' c'] by (auto split: if_splits)
    subgoal for t' c' u using I(5) [of t' c' u] by (auto split: if_splits)
    subgoal for t' c' using I(6) [of t' c'] by (auto split: if_splits)
    subgoal for t' using I(7) [of t'] al by (auto split: if_splits)
    subgoal using I(8) by blast
    subgoal for t' using I(9) [of t'] by (auto split: if_splits)
    subgoal for t' c' using I(10) [of t' c'] assms(2) by (auto split: if_splits)
    subgoal using I(11) by blast
    subgoal using I(12) by blast
    subgoal using I(13) by blast
    subgoal for k z using I(14) [of z k] assms(2) by auto
    subgoal using I(15) .
    subgoal using I(16) by blast
    done
  then show ?thesis using p w by (cases "0 < parent_pid p") (simp_all add: exit_signal_def s'_def)
qed

lemma switch_inv:
  assumes "pinv s" "at s t = Signalled code"
  shows "pinv (exit_switch cpu t code s)"
proof -
  note I = pinvD [OF assms(1)]
  have al: "alive s t" using I(7) assms(2) by simp
  let ?s = "exit_switch cpu t code s"
  have P: "kids ?s = kids s" "alive ?s = alive s" "tpid ?s = tpid s" "ppid ?s = ppid s" "status_of ?s = status_of s" "sem ?s = sem s"
    "process_table ?s = process_table s" "menu ?s = menu s" "ofiles ?s = ofiles s"
    "zombies ?s k = (if k = cpu then zombies s cpu @ [t] else zombies s k)" "at ?s t' = (if t' = t then Gone code else at s t')" for t' k
    by (auto simp: exit_switch_def)
  have C: "is_child ?s = is_child s" "held ?s = held s" by (auto simp: is_child_def held_def P fun_eq_iff)
  show ?thesis
    apply (rule pinvI; (simp only: P C)?)
    subgoal using I(1) by blast
    subgoal using I(2) by blast
    subgoal using I(3) .
    subgoal for t' c' using I(4) [of t' c'] by (auto split: if_splits)
    subgoal for t' c' u using I(5) [of t' c' u] by (auto split: if_splits)
    subgoal for t' c' using I(6) [of t' c'] by (auto split: if_splits)
    subgoal for t' using I(7) [of t'] al by (auto split: if_splits)
    subgoal using I(8) by blast
    subgoal for t' using I(9) [of t'] assms(2) by (auto split: if_splits)
    subgoal for t' c' using I(10) [of t' c'] assms(2) by (auto split: if_splits)
    subgoal using I(11) by blast
    subgoal using I(12) by blast
    subgoal using I(13) by blast
    subgoal for k z using I(14) [of z k] al assms(2) by (auto split: if_splits)
    subgoal using I(15) .
    subgoal using I(16) by blast
    done
qed

text \<open>No process has parent 0, so exorcise frees none.\<close>

lemma exorcise_list_eq: "\<forall>z \<in> set zs. alive s z \<and> ppid s z \<noteq> 0 \<and> (\<exists>code. at s z = Gone code) \<Longrightarrow> exorcise_list zs s = Some s"
  by (induction zs) (auto simp: alive_def ppid_def lnot_def)

lemma exorcise_eq: "pinv s \<Longrightarrow> exorcise cpu s = Some (s\<lparr>zombies := (zombies s)(cpu := [])\<rparr>)"
  unfolding exorcise_def by (rule exorcise_list_eq) (auto dest: pinvD(8,14))

text \<open>Changes outside the process fields.\<close>

lemma pinv_frame:
  assumes "pinv s" "threads s' = threads s" "process_table s' = process_table s" "at s' = at s" "menu s' = menu s"
    "\<And>cpu z. z \<in> set (zombies s' cpu) \<Longrightarrow> \<exists>cpu'. z \<in> set (zombies s cpu')" "files_ok (ofiles s')" "\<And>t i. \<not> alive s t \<Longrightarrow> fds (ofiles s') t i = None"
  shows "pinv s'"
proof -
  note I = pinvD [OF assms(1)]
  have P: "kids s' = kids s" "alive s' = alive s" "tpid s' = tpid s" "ppid s' = ppid s" "status_of s' = status_of s" "sem s' = sem s"
    using assms(2) by (simp_all add: kids_def alive_def tpid_def ppid_def status_of_def sem_def fun_eq_iff)
  have C: "is_child s' = is_child s" "held s' = held s" using assms(5) by (auto simp: is_child_def held_def P fun_eq_iff)
  show ?thesis
    apply (rule pinvI; (simp only: P C assms(3-5))?)
    using I(1-9) apply blast+
    using I(10) apply blast
    using I(11-13) apply blast+
    using I(14) assms(6) apply blast
    using assms(7,8) apply blast+
    done
qed

lemma exorcise_inv: "pinv s \<Longrightarrow> pinv (s\<lparr>zombies := (zombies s)(cpu := [])\<rparr>)"
  by (rule pinv_frame) (auto dest: pinvD(15,16) split: if_splits)

lemma wait_inv:
  assumes "pinv s" "alive s t" "at s t = User"
  shows "\<exists>r s'. sys_waitpid t c null options s = Some (r, s') \<and> pinv s'"
proof -
  note I = pinvD [OF assms(1)]
  obtain p where p: "threads s t = Some p" using assms(2) by (auto simp: alive_def)
  let ?s = "go t (Waiting c) s"
  have C: "is_child ?s = is_child s" "held ?s = held s" by (auto simp: is_child_def held_def fun_eq_iff)
  have "pinv ?s" if c: "c \<in> set (kids s t)"
    apply (rule pinvI; (simp only: go_simps C)?)
    subgoal using I(1) by blast
    subgoal using I(2) by blast
    subgoal using I(3) .
    subgoal for t' c' using I(4) [of t' c'] by (auto split: if_splits)
    subgoal for t' c' u using I(5) [of t' c' u] by (auto split: if_splits)
    subgoal for t' c' using I(6) [of t' c'] c by (auto split: if_splits)
    subgoal for t' using I(7) [of t'] assms(2) by (auto split: if_splits)
    subgoal using I(8) by blast
    subgoal for t' using I(9) [of t'] assms(3) by (auto split: if_splits)
    subgoal for t' c' using I(10) [of t' c'] by (auto split: if_splits)
    subgoal using I(11) by blast
    subgoal using I(12) by blast
    subgoal using I(13) by blast
    subgoal for k z using I(14) [of z k] assms(3) by auto
    subgoal using I(15) .
    subgoal using I(16) by blast
    done
  then show ?thesis using p assms(1) field_simps(2) [OF p] by (simp add: sys_waitpid_def)
qed

lemma remove_child_eq: "xs \<noteq> [] \<Longrightarrow> remove_child c xs = Some (remove1 c xs)"
  by (cases xs) auto

text \<open>What waitpid finds and leaves.\<close>

lemma collect_eq:
  assumes "pinv s" "at s t = Waiting c" "process_table s c = Some u" "posted s u"
  shows "\<exists>code s'. exited (at s u) = Some code \<and> waitpid_finish t c s = Some (MKWAIT_EXIT code, s') \<and>
    (\<forall>v. alive s' v = alive s v \<and> tpid s' v = tpid s v \<and> status_of s' v = status_of s v) \<and>
    (\<forall>v. kids s' v = (if v = t then remove1 c (kids s t) else kids s v)) \<and>
    (\<forall>v. sem s' v = (if v = u then None else sem s v)) \<and> (\<forall>v. ppid s' v = (if v = u then - 1 else ppid s v)) \<and>
    (\<forall>d. process_table s' d = (if d = c then None else process_table s d)) \<and> menu s' = menu s \<and> zombies s' = zombies s \<and>
    ofiles s' = ofiles s \<and> (\<forall>v. at s' v = (if v = t then User else at s v))"
proof -
  note I = pinvD [OF assms(1)]
  have k: "c \<in> set (kids s t)" using I(6) assms(2) by blast
  then have ch: "is_child s t c u" using I(1) [OF k] assms(3) by auto
  then obtain q where q: "threads s u = Some q" by (auto simp: is_child_def alive_def)
  obtain p where p: "threads s t = Some p" using I(7) [of t] assms(2) by (auto simp: alive_def)
  note fld = field_simps [OF p] field_simps [OF q]
  have sem: "sem s u = Some (if exited (at s u) = None then 0 else 1)" using I(9) [of u] ch by (simp add: is_child_def)
  then obtain code where code: "exited (at s u) = Some code" "waiting_on q = Some 1"
    using assms(4) q fld(11) by (auto simp: posted_def split: if_splits)
  have st: "exit_status q = MKWAIT_EXIT code" using I(10) [of u code] code(1) fld(12) by simp
  have ne: "u \<noteq> t" "children p \<noteq> []" using ch k fld(2) by (auto simp: is_child_def)
  define s' where "s' = go t User (set_entry c None (set_thread u (Some (q\<lparr>waiting_on := None, parent_pid := - 1\<rparr>))
    (set_thread t (Some (p\<lparr>children := remove1 c (children p)\<rparr>)) (set_thread u (Some (q\<lparr>waiting_on := Some 0\<rparr>)) s))))"
  have "waitpid_finish t c s = Some (MKWAIT_EXIT code, s')"
    using assms(3) q p code(2) ne st by (simp add: waitpid_finish_def Let_def remove_child_eq s'_def)
  then show ?thesis using code(1) fld ne by (auto simp: s'_def)
qed

lemma collect_inv:
  assumes "pinv s" "at s t = Waiting c" "process_table s c = Some u" "posted s u"
  shows "\<exists>r s'. waitpid_finish t c s = Some (r, s') \<and> pinv s'"
proof -
  note I = pinvD [OF assms(1)]
  obtain code s' where e: "waitpid_finish t c s = Some (MKWAIT_EXIT code, s')" and
    P: "\<And>v. alive s' v = alive s v \<and> tpid s' v = tpid s v \<and> status_of s' v = status_of s v"
    "\<And>v. kids s' v = (if v = t then remove1 c (kids s t) else kids s v)"
    "\<And>v. sem s' v = (if v = u then None else sem s v)" "\<And>v. ppid s' v = (if v = u then - 1 else ppid s v)"
    "\<And>d. process_table s' d = (if d = c then None else process_table s d)" "menu s' = menu s" "zombies s' = zombies s"
    "ofiles s' = ofiles s" "\<And>v. at s' v = (if v = t then User else at s v)"
    using collect_eq [OF assms] by blast
  have k: "c \<in> set (kids s t)" using I(6) assms(2) by blast
  have u: "is_child s t c u" using I(1) [OF k] assms(3) by auto
  have hu: "held s c u" using u I(9) [of u] by (auto simp: is_child_def held_def)
  have K: "d \<in> set (kids s' v) \<longleftrightarrow> d \<in> set (kids s v) \<and> d \<noteq> c" for d v
    using I(2) [OF k, of v] I(3) [of t] by (auto simp: P(2))
  have H: "held s' d v \<longleftrightarrow> held s d v \<and> v \<noteq> u" for d v by (auto simp: held_def P)
  have C: "is_child s' v d w" if "is_child s v d w" "d \<noteq> c" for v d w
    using that u by (auto simp: is_child_def P)
  have "pinv s'"
    apply (rule pinvI; (simp only: K H)?)
    subgoal for v d using I(1) [of d v] C [of v d] by (auto simp: P(5))
    subgoal using I(2) by blast
    subgoal for v using I(3) by (simp add: P(2))
    subgoal for v d using I(4) [of v d] k by (auto simp: P(5,9) split: if_splits)
    subgoal for v d w using I(5) [of v d w] k C [of v d w] by (auto simp: P(5,9) split: if_splits)
    subgoal for v d using I(6) [of v d] I(2) [OF k, of v] by (auto simp: P(9) split: if_splits)
    subgoal for v using I(7) [of v] by (auto simp: P split: if_splits)
    subgoal for v using I(8) [of v] by (auto simp: P)
    subgoal for v using I(9) [of v] assms(2) by (auto simp: P split: if_splits)
    subgoal for v d using I(10) [of v d] by (auto simp: P split: if_splits)
    subgoal for v using I(11) [of v] u by (auto simp: P is_child_def)
    subgoal for d v using I(12) [of d v] I(13) [OF hu, of v] by (auto simp: P(5))
    subgoal using I(13) by blast
    subgoal for k z using I(14) [of z k] assms(2) by (auto simp: P)
    subgoal using I(15) by (simp add: P)
    subgoal using I(16) by (simp add: P)
    done
  then show ?thesis using e by blast
qed

lemma start_inv:
  assumes "pinv s" "menu s = None" "unused s t" "fcall_ok (Stdio t q v) (ofiles s)" "process_table s PID_MIN = None"
  shows "\<exists>s'. start_program junk q v t s = Some s' \<and> pinv s'"
proof -
  note I = pinvD [OF assms(1)]
  have ch: "\<not> alive s t" using assms(3) by (simp add: unused_def alive_def)
  have ne: "at s t = User" using ch I(7) by blast
  define s' where "s' = go t User (set_thread t (Some ((new_thread junk)\<lparr>parent_pid := 1, waiting_on := Some 0, pid := PID_MIN\<rparr>))
    (s\<lparr>ofiles := stdio_init t q v (ofiles s), menu := Some t\<rparr>))"
  have P: "kids s' t' = (if t' = t then [] else kids s t')" "alive s' t' \<longleftrightarrow> t' = t \<or> alive s t'"
    "ppid s' t' = (if t' = t then 1 else ppid s t')" "tpid s' t' = (if t' = t then 2 else tpid s t')"
    "sem s' t' = (if t' = t then Some 0 else sem s t')" "process_table s' = process_table s" "menu s' = Some t" "zombies s' = zombies s"
    "ofiles s' = stdio_init t q v (ofiles s)" "at s' t' = at s t'" for t'
    using ne by (auto simp: s'_def new_thread_def PID_MIN_def)
  have st: "status_of s' t' = status_of s t'" if "t' \<noteq> t" for t' using that by (simp add: s'_def)
  have C: "is_child s' t' c' u \<longleftrightarrow> is_child s t' c' u" "held s' c' u \<longleftrightarrow> held s c' u" for t' c' u
    using ch assms(2) by (auto simp: is_child_def held_def P)
  have f: "files_ok (stdio_init t q v (ofiles s))" using stdio_init_ok [OF I(15)] assms(4) by simp
  have o: "fds (stdio_init t q v (ofiles s)) t' i = fds (ofiles s) t' i" if "t' \<noteq> t" for t' i
    using that by (simp add: stdio_init_def Let_def)
  have "pinv s'"
    apply (rule pinvI; (simp only: P C)?)
    subgoal using I(1) by (auto split: if_splits)
    subgoal using I(2) by (auto split: if_splits)
    subgoal using I(3) by simp
    subgoal for t' c' using I(4) [of t' c'] by auto
    subgoal for t' c' u using I(5) [of t' c' u] by auto
    subgoal using I(6) ne by auto
    subgoal using I(7) by blast
    subgoal using I(8) by auto
    subgoal for t' using I(9) [of t'] ne by auto
    subgoal for t' code using I(10) [of t' code] ne st [of t'] by (cases "t' = t") auto
    subgoal by simp
    subgoal using I(12) by blast
    subgoal using I(13) by blast
    subgoal using I(14) by blast
    subgoal using f .
    subgoal using I(16) o by auto
    done
  moreover have "start_program junk q v t s = Some s'" using assms(5) by (simp add: start_program_def Let_def s'_def new_thread_def)
  ultimately show ?thesis by blast
qed

lemma menu_inv:
  assumes "pinv s" "menu s = Some t" "posted s t"
  shows "\<exists>s'. common_prog_finish t s = Some s' \<and> pinv s'"
proof -
  note I = pinvD [OF assms(1)]
  have al: "alive s t" "0 < ppid s t" using I(11) assms(2) by blast+
  then obtain p where p: "threads s t = Some p" by (auto simp: alive_def)
  note fld = field_simps [OF p]
  define s' where "s' = set_thread t (Some (p\<lparr>waiting_on := None, parent_pid := - 1\<rparr>)) (s\<lparr>menu := None\<rparr>)"
  have P: "kids s' t' = kids s t'" "alive s' t' = alive s t'" "tpid s' t' = tpid s t'" "status_of s' t' = status_of s t'"
    "ppid s' t' = (if t' = t then - 1 else ppid s t')" "sem s' t' = (if t' = t then None else sem s t')"
    "process_table s' = process_table s" "menu s' = None" "zombies s' = zombies s" "ofiles s' = ofiles s" "at s' = at s" for t'
    using fld by (auto simp: s'_def)
  have C: "is_child s t' c u \<Longrightarrow> is_child s' t' c u" "held s' c u \<longleftrightarrow> held s c u" for t' c u
    using assms(2) by (auto simp: is_child_def held_def P)
  have "pinv s'"
    apply (rule pinvI; (simp only: P C(2))?)
    subgoal using I(1) C(1) by blast
    subgoal using I(2) by blast
    subgoal using I(3) .
    subgoal using I(4) by blast
    subgoal using I(5) C(1) by blast
    subgoal using I(6) by blast
    subgoal using I(7) by blast
    subgoal using I(8) by auto
    subgoal using I(9) by (auto split: if_splits)
    subgoal using I(10) by blast
    subgoal by simp
    subgoal using I(12) by blast
    subgoal using I(13) by blast
    subgoal using I(14) by blast
    subgoal using I(15) .
    subgoal using I(16) by blast
    done
  moreover have "common_prog_finish t s = Some s'"
    using p assms(3) by (auto simp: common_prog_finish_def posted_def s'_def split: option.splits)
  ultimately show ?thesis by blast
qed

lemma fcall_fds:
  assumes "files_ok s" "fcaller f = Some t" "fcall_run f s = Some s'" "t' \<noteq> t"
  shows "fds s' t' i = fds s t' i"
proof (cases f)
  case (Open x null flags env)
  then have "s' = snd (sys_open t null flags env s)" using assms(2,3) by simp
  then show ?thesis using assms(4) by (auto simp: sys_open_def Let_def split: option.splits sum.splits)
next
  case (Close x fd)
  then show ?thesis using sys_close_ok [OF assms(1), of t fd] assms(2-4) by auto
next
  case (Rw vop x fd null rw)
  then show ?thesis using sys_rw_ok [OF assms(1), of vop t fd null rw] assms(2-4) by auto
next
  case (Dup2 x oldfd newfd)
  show ?thesis
  proof (cases "valid_fd newfd \<and> valid_fd oldfd \<and> fds s t (nat oldfd) \<noteq> None \<and> fds s t (nat oldfd) \<noteq> fds s t (nat newfd)")
    case True
    then obtain p where p: "fds s t (nat oldfd) = Some p" "fds s t (nat newfd) \<noteq> Some p" by auto
    then show ?thesis using sys_dup2_eq [OF assms(1) _ _ p] True Dup2 assms(2-4) by auto
  next
    case False
    then show ?thesis using Dup2 assms(2,3) by (auto simp: sys_dup2_def split: if_splits)
  qed
next
  case (Lseek sz seek x fd pos wh)
  then show ?thesis using sys_lseek_ok [OF assms(1), of sz seek t fd pos wh] assms(2-4) by auto
qed (use assms(2) in auto)

lemma file_inv:
  assumes "pinv s" "fcaller f = Some t" "alive s t" "fcall_ok f (ofiles s)"
  shows "\<exists>ofs. fcall_run f (ofiles s) = Some ofs \<and> pinv (s\<lparr>ofiles := ofs\<rparr>)"
proof -
  note I = pinvD [OF assms(1)]
  obtain ofs where o: "fcall_run f (ofiles s) = Some ofs" "files_ok ofs" using fcall_run_ok [OF I(15) assms(4)] by blast
  have fr: "fds ofs t' i = None" if "\<not> alive s t'" for t' i using fcall_fds [OF I(15) assms(2) o(1), of t' i] I(16) [OF that] that assms(3) by metis
  have "pinv (s\<lparr>ofiles := ofs\<rparr>)"
    by (rule pinv_frame [OF assms(1)]) (use o(2) fr in auto)
  then show ?thesis using o(1) by blast
qed

text \<open>Every step is safe, but for starting a program while the first pid is taken.\<close>

lemma perform_inv:
  assumes "pinv s" "enabled a s"
  shows "(\<exists>s'. perform a s = Some s' \<and> pinv s') \<or> (\<exists>junk p v t. a = Start junk p v t \<and> process_table s PID_MIN \<noteq> None \<and> perform a s = None)"
proof -
  have un: "\<not> unused s t \<longleftrightarrow> alive s t" for t by (simp add: unused_def alive_def)
  note I = pinvD [OF assms(1)]
  show ?thesis
  proof (cases a)
    case (Reserve t)
    then show ?thesis using reserve_inv [OF assms(1), of t] assms(2) un by simp
  next
    case (Fail t)
    then show ?thesis using fail_inv [OF assms(1), of t] assms(2) by (auto split: place.splits)
  next
    case (Spawn junk t child)
    then show ?thesis using spawn_inv [OF assms(1), of t _ child junk] assms(2) by (auto split: place.splits)
  next
    case (Publish t)
    then show ?thesis using publish_inv [OF assms(1), of t] assms(2) by (fastforce split: place.splits)
  next
    case (Exit_call t code)
    then show ?thesis using exit_inv [OF assms(1), of t code] assms(2) un by simp
  next
    case (Signal t)
    then show ?thesis using signal_inv [OF assms(1), of t] assms(2) by (auto split: place.splits)
  next
    case (Switch cpu t)
    then show ?thesis using switch_inv [OF assms(1), of t _ cpu] assms(2) by (auto split: place.splits)
  next
    case (Exorcise cpu)
    then show ?thesis using exorcise_eq [OF assms(1), of cpu] exorcise_inv [OF assms(1), of cpu] by simp
  next
    case (Wait t c null options)
    then show ?thesis using wait_inv [OF assms(1), of t c null options] assms(2) un by auto
  next
    case (Collect t)
    then obtain c where c: "at s t = Waiting c" using assms(2) by (auto split: place.splits)
    obtain u where "process_table s c = Some u" using I(1) [OF I(6) [OF c]] by blast
    then show ?thesis using collect_inv [OF assms(1) c] c Collect assms(2) by auto
  next
    case (Start junk p v t)
    then show ?thesis using start_inv [OF assms(1), of t p v junk] assms(2)
      by (cases "process_table s PID_MIN = None") (auto simp: start_program_def Let_def)
  next
    case Menu_collect
    then show ?thesis using menu_inv [OF assms(1)] assms(2) by (auto split: option.splits)
  next
    case (File f)
    then obtain t where "fcaller f = Some t" "alive s t" using assms(2) un by (auto split: option.splits)
    then show ?thesis using file_inv [OF assms(1), of f t] assms(2) File by auto
  qed
qed

lemma runs_inv: "runs s s' \<Longrightarrow> pinv s \<Longrightarrow> pinv s'"
proof (induction rule: runs.induct)
  case (runs_step s s' a s'')
  then show ?case using perform_inv [of s' a] by auto
qed

section \<open>Orphans\<close>

text \<open>A process whose parent has exited.\<close>

definition orphan :: "procs \<Rightarrow> int \<Rightarrow> nat \<Rightarrow> bool" where
  "orphan s c u \<longleftrightarrow> held s c u \<and> ppid s u = - 1 \<and> process_table s c = Some u"

lemma orphan_exit:
  assumes "pinv s" "orphan s c u" "sys__exit t code s = Some s'"
  shows "orphan s' c u"
proof -
  obtain o' p s1 q where e: "threads s t = Some p" "orphan_children (children p) (s\<lparr>ofiles := o'\<rparr>) = Some s1" "threads s1 t = Some q"
    "s' = go t (Exiting code) (set_thread t (Some (q\<lparr>children := [], exit_status := MKWAIT_EXIT code\<rparr>)) s1)"
    using assms(3) by (auto simp: sys__exit_def Let_def Option.bind_eq_Some_conv)
  have "\<forall>c \<in> set (children p). \<exists>u. process_table (s\<lparr>ofiles := o'\<rparr>) c = Some u \<and> alive (s\<lparr>ofiles := o'\<rparr>) u"
    using pinvD(1) [OF assms(1), of _ t] field_simps(2) [OF e(1)] by (auto simp: is_child_def)
  from orphan_children_eq [OF this] e(2)
  have s1: "process_table s1 = process_table s" "menu s1 = menu s" "alive s1 = alive s" "tpid s1 = tpid s" "sem s1 = sem s"
    "ppid s1 u = (if \<exists>c \<in> set (children p). process_table s c = Some u then - 1 else ppid s u)" by auto
  show ?thesis using assms(2) s1 field_simps [OF e(3)] unfolding e(4) orphan_def held_def by (auto split: if_splits dest!: sym [of "Some _" "waiting_on _"])
qed

lemma orphan_step:
  assumes "pinv s" "orphan s c u" "enabled a s" "perform a s = Some s'"
  shows "orphan s' c u"
proof -
  note I = pinvD [OF assms(1)]
  have h: "held s c u" "ppid s u = - 1" "process_table s c = Some u" using assms(2) by (simp_all add: orphan_def)
  have al: "alive s u" "tpid s u = c" "sem s u \<noteq> None" "menu s \<noteq> Some u" using h(1) by (simp_all add: held_def)
  show ?thesis
  proof (cases a)
    case (Reserve t)
    then show ?thesis using assms(4) h al
      by (auto simp: fork_reserve_def getpid_def find_Some_iff orphan_def held_def split: option.splits)
  next
    case (Fail t)
    then obtain d where d: "at s t = Forking d" using assms(3) by (auto split: place.splits)
    have "d \<noteq> c" using I(4) [OF d] h(1) by blast
    then show ?thesis using d Fail assms(4) h al by (auto simp: fork_fail_def orphan_def held_def)
  next
    case (Spawn junk t child)
    then obtain d where d: "at s t = Forking d" "\<not> alive s child" using assms(3) by (auto simp: unused_def alive_def split: place.splits)
    then have "u \<noteq> child" using al by blast
    then show ?thesis using d Spawn assms(4) h al
      by (auto simp: fork_spawn_def Let_def Option.bind_eq_Some_conv orphan_def held_def)
  next
    case (Publish t)
    then obtain d v where d: "at s t = Spawned d v" using assms(3) by (auto split: place.splits)
    obtain p where p: "threads s t = Some p" using I(7) [of t] d by (auto simp: alive_def)
    have "d \<noteq> c"
    proof
      assume "d = c"
      then have "t = u" "is_child s t c v" using I(5) [OF d] h(3) by auto
      moreover have "held s c v" using calculation(2) I(9) [of v] by (auto simp: is_child_def held_def)
      ultimately show False using I(13) [OF h(1), of v] by (auto simp: is_child_def)
    qed
    then show ?thesis using d p field_simps [OF p] Publish assms(4) h al
      by (auto simp: fork_publish_def Let_def orphan_def held_def dest!: sym [of "Some _" "waiting_on _"])
  next
    case (Exit_call t code)
    then show ?thesis using orphan_exit [OF assms(1,2)] assms(4) by simp
  next
    case (Signal t)
    then obtain code where d: "at s t = Exiting code" using assms(3) by (auto split: place.splits)
    obtain p where p: "threads s t = Some p" using I(7) [of t] d by (auto simp: alive_def)
    show ?thesis using d p field_simps [OF p] Signal assms(4) h al
      by (auto simp: exit_signal_def Option.bind_eq_Some_conv orphan_def held_def split: if_splits dest!: sym [of "Some _" "waiting_on _"])
  next
    case (Switch cpu t)
    then show ?thesis using assms(3,4) h al by (auto simp: exit_switch_def orphan_def held_def split: place.splits)
  next
    case (Exorcise cpu)
    then show ?thesis using exorcise_eq [OF assms(1), of cpu] assms(4) h al by (auto simp: orphan_def held_def)
  next
    case (Wait t d null options)
    then show ?thesis using assms(4) h al by (auto simp: sys_waitpid_def orphan_def held_def Option.bind_eq_Some_conv split: if_splits)
  next
    case (Collect t)
    then obtain d where d: "at s t = Waiting d" using assms(3) by (auto split: place.splits)
    obtain v where v: "process_table s d = Some v" "is_child s t d v" using I(1) [OF I(6) [OF d]] by blast
    have "posted s v" using assms(3) Collect d v(1) by simp
    moreover have "d \<noteq> c" "v \<noteq> u" using v h(2,3) by (auto simp: is_child_def)
    ultimately show ?thesis using collect_eq [OF assms(1) d v(1)] Collect assms(4) d h al by (auto simp: orphan_def held_def)
  next
    case (Start junk p v t)
    then have "t \<noteq> u" using assms(3) al(1) by (auto simp: unused_def alive_def)
    then show ?thesis using Start assms(4) h al by (auto simp: start_program_def Let_def orphan_def held_def split: if_splits)
  next
    case Menu_collect
    then show ?thesis using assms(3,4) h al
      by (auto simp: common_prog_finish_def Option.bind_eq_Some_conv orphan_def held_def split: option.splits if_splits)
  next
    case (File f)
    then show ?thesis using assms(4) h al by (auto simp: orphan_def held_def)
  qed
qed

lemma orphan_runs: "runs s s' \<Longrightarrow> pinv s \<Longrightarrow> orphan s c u \<Longrightarrow> orphan s' c u"
proof (induction rule: runs.induct)
  case (runs_step s s' a s'')
  then show ?case using orphan_step [of s' c u a s''] runs_inv [of s s'] by blast
qed

section \<open>Example runs\<close>

fun performs :: "act list \<Rightarrow> procs \<Rightarrow> procs option" where
  "performs [] s = Some s"
| "performs (a # as) s = (if enabled a s then perform a s \<bind> performs as else None)"

lemma performs_runs: "performs as s = Some s' \<Longrightarrow> runs s0 s \<Longrightarrow> runs s0 s'"
  by (induction "as" arbitrary: s) (auto simp: Option.bind_eq_Some_conv split: if_splits intro: runs_step)

definition blank :: proc where
  "blank = \<lparr>pid = 0, parent_pid = 0, exit_status = 0, children = [], waiting_on = None\<rparr>"

definition start1 :: act where "start1 = Start blank (\<lambda>i. i + 10) (\<lambda>i. i) 1"

lemma getpid_first: "process_table s 2 = None \<Longrightarrow> getpid s = Some 2"
  by (simp add: getpid_def PID_MIN_def MAX_PROCESSES_def upto_rec1)

lemma fds_list: "[0..<MAX_FILE_DESCRIPTOR] = [0, 1, 2, 3, 4, 5, 6, 7, 8, 9, 10, 11, 12, 13, 14, 15]"
  by (simp add: MAX_FILE_DESCRIPTOR_def upt_rec)

lemma valid_small: "valid_fd k \<longleftrightarrow> 0 \<le> k \<and> k < 16"
  by (auto simp: valid_fd_def MAX_FILE_DESCRIPTOR_def)

lemmas run_simps = start1_def start_program_def Let_def no_procs_def PID_MIN_def go_def set_thread_def set_entry_def new_thread_def
  blank_def unused_def no_files_def posted_def fork_reserve_def fork_spawn_def fork_publish_def sys__exit_def exit_signal_def
  exit_switch_def common_prog_finish_def stdio_init_def fds_list sys_close_def valid_small

definition family_run :: "act list" where
  "family_run = [start1, Reserve 1, Spawn blank 1 2, Publish 1]"

definition orphan_run :: "act list" where
  "orphan_run = family_run @ [Exit_call 1 0, Signal 1, Switch 0 1, Menu_collect, Exit_call 2 0, Signal 2, Switch 0 2]"

lemma family_end: "\<exists>s. performs family_run no_procs = Some s \<and> at s 1 = User \<and> at s 2 = User \<and> process_table s 2 = Some 2 \<and>
    alive s 1 \<and> alive s 2 \<and> tpid s 1 = 2 \<and> tpid s 2 = 2 \<and> kids s 1 = [2]"
  by (simp add: family_run_def getpid_first run_simps alive_def tpid_def kids_def)

lemma orphan_end: "\<exists>s. performs orphan_run no_procs = Some s \<and> menu s = None \<and> (\<forall>t. alive s t \<longrightarrow> at s t = Gone 0) \<and>
    orphan s 2 2 \<and> (\<forall>t. t \<noteq> 1 \<longrightarrow> t \<noteq> 2 \<longrightarrow> unused s t) \<and> ofiles s = no_files\<lparr>closed := closed (ofiles s)\<rparr>"
  by (simp add: orphan_run_def family_run_def getpid_first run_simps alive_def tpid_def kids_def orphan_def held_def sem_def ppid_def fun_eq_iff)

definition wait_run :: "act list" where
  "wait_run = family_run @ [Exit_call 2 7, Signal 2, Wait 1 2 False 0]"

lemma wait_end: "\<exists>s. performs wait_run no_procs = Some s \<and> at s 1 = Waiting 2 \<and> process_table s 2 = Some 2 \<and> exited (at s 2) = Some 7"
  by (simp add: wait_run_def family_run_def getpid_first run_simps sys_waitpid_def PID_MAX_def)

section \<open>What processes can rely on\<close>





text \<open>C36. Once the parent of a process has exited without waiting for it, the process keeps its table entry and its
  thread structure for ever, also after its own exit: exorcise, which is meant to reap it, never does, and the
  pid is never given out again.\<close>

theorem orphans_never_reaped:
  assumes "runs no_procs s" "orphan s c u" "runs s s'"
  shows "process_table s' c = Some u \<and> threads s' u \<noteq> None \<and> getpid s' \<noteq> Some c"
proof -
  have "orphan s' c u" using orphan_runs [OF assms(3) runs_inv [OF assms(1) no_procs_inv] assms(2)] .
  then show ?thesis by (auto simp: orphan_def held_def alive_def getpid_def find_Some_iff)
qed

theorem orphans_never_reaped_witness:
  "\<exists>s s'. runs no_procs s \<and> orphan s 2 2 \<and> exorcise 0 s = Some s' \<and> process_table s' 2 = Some 2 \<and> threads s' 2 \<noteq> None"
proof -
  obtain s where s: "performs orphan_run no_procs = Some s" "orphan s 2 2" using orphan_end by blast
  have r: "runs no_procs s" using performs_runs [OF s(1) runs_refl] .
  obtain s' where s': "exorcise 0 s = Some s'" using exorcise_eq [OF runs_inv [OF r no_procs_inv], of 0] by blast
  have "runs s s'" by (rule runs_step [OF runs_refl, where a = "Exorcise 0"]) (simp_all add: s')
  then show ?thesis using orphans_never_reaped [OF r s(2)] r s(2) s' by blast
qed


end
