(* ===== verification/Sfs.thy ===== *)
theory Sfs
  imports Bitmap
begin

text \<open>
  The file data of the SFS file system: block allocation, the block map of a file and reading
  and writing (the first part of kern/fs/sfs/sfs_vnode.c, over kern/lib/bitmap.c for the free map).  A
  block is a list of 512 bytes; what it holds as an inode or as an indirect block are its 32-bit words in
  the byte order of the machine, most significant byte first.  \<open>disk\<close> is what the buffer cache
  shows; \<open>io b\<close> is the error, if any, that getting the buffer of block \<open>b\<close> reports.  The journal is
  the list of records logged, the latest first; logging does not run out of memory.  The
  memory a caller reads into or writes from is accessible.  None is a panic or a failed
  assertion, and also taking the bitmap lock while it is held.
\<close>

section \<open>Blocks\<close>

definition SFS_BLOCKSIZE :: nat where "SFS_BLOCKSIZE = 512"
definition SFS_NDIRECT :: nat where "SFS_NDIRECT = 15"
definition SFS_DBPERIDB :: nat where "SFS_DBPERIDB = 128"

type_synonym block = "8 word list"

definition get32 :: "block \<Rightarrow> nat \<Rightarrow> 32 word" where
  "get32 b i = push_bit 24 (ucast (b ! (4 * i))) OR push_bit 16 (ucast (b ! (4 * i + 1))) OR
    push_bit 8 (ucast (b ! (4 * i + 2))) OR ucast (b ! (4 * i + 3))"

definition put32 :: "block \<Rightarrow> nat \<Rightarrow> 32 word \<Rightarrow> block" where
  "put32 b i w = b[4 * i := ucast (drop_bit 24 w), 4 * i + 1 := ucast (drop_bit 16 w),
    4 * i + 2 := ucast (drop_bit 8 w), 4 * i + 3 := ucast w]"

definition ptr :: "block \<Rightarrow> nat \<Rightarrow> nat" where
  "ptr b i = unat (get32 b i)"

text \<open>The words of an inode: the size, the direct block numbers, the three indirect ones.\<close>

definition sfi_size :: nat where "sfi_size = 0"
definition sfi_direct :: "nat \<Rightarrow> nat" where "sfi_direct i = 2 + i"
definition sfi_indirect :: "nat \<Rightarrow> nat" where "sfi_indirect k = 16 + k"

section \<open>State\<close>

datatype jrec =
    Rec_inode nat nat bool nat nat
  | Rec_itype nat nat
  | Rec_isize nat nat
  | Rec_ilink nat nat
  | Rec_dir nat nat "32 word" block
  | Rec_bitmap nat bool
  | Rec_commit

record sfs =
  disk :: "nat \<Rightarrow> block"
  freemap :: bitmap
  nblocks :: nat
  bitlock :: bool
  journal :: "jrec list"

definition set_block :: "nat \<Rightarrow> block \<Rightarrow> sfs \<Rightarrow> sfs" where
  "set_block b c s = s\<lparr>disk := (disk s)(b := c)\<rparr>"

definition set_ptr :: "nat \<Rightarrow> nat \<Rightarrow> nat \<Rightarrow> sfs \<Rightarrow> sfs" where
  "set_ptr b i n s = set_block b (put32 (disk s b) i (word_of_nat n)) s"

definition check_and_record :: "jrec \<Rightarrow> sfs \<Rightarrow> sfs" where
  "check_and_record r s = s\<lparr>journal := r # journal s\<rparr>"

section \<open>Space allocation\<close>

definition zero_block :: block where "zero_block = replicate SFS_BLOCKSIZE 0"

definition sfs_clearblock :: "(nat \<Rightarrow> errno option) \<Rightarrow> nat \<Rightarrow> sfs \<Rightarrow> errno option \<times> sfs" where
  "sfs_clearblock io b s = (case io b of Some e \<Rightarrow> (Some e, s) | None \<Rightarrow> (None, set_block b zero_block s))"

definition lock_bitmap :: "sfs \<Rightarrow> sfs option" where
  "lock_bitmap s = (if bitlock s then None else Some (s\<lparr>bitlock := True\<rparr>))"

text \<open>When the map is full the function returns without releasing the lock.\<close>

definition sfs_balloc :: "(nat \<Rightarrow> errno option) \<Rightarrow> sfs \<Rightarrow> ((errno + nat) \<times> sfs) option" where
  "sfs_balloc io s = do {
    s \<leftarrow> lock_bitmap s;
    r \<leftarrow> bitmap_alloc (freemap s);
    (case r of
       Inl e \<Rightarrow> Some (Inl e, s)
     | Inr (b, m) \<Rightarrow> do {
         let s = check_and_record (Rec_bitmap b True) (s\<lparr>freemap := m\<rparr>);
         let s = s\<lparr>bitlock := False\<rparr>;
         KASSERT (b < nblocks s);
         let (r, s) = sfs_clearblock io b s;
         Some (case r of Some e \<Rightarrow> Inl e | None \<Rightarrow> Inr b, s) }) }"

definition sfs_bfree :: "nat \<Rightarrow> sfs \<Rightarrow> sfs option" where
  "sfs_bfree b s = do {
    s \<leftarrow> lock_bitmap s;
    m \<leftarrow> bitmap_unmark (freemap s) b;
    let s = check_and_record (Rec_bitmap b False) (s\<lparr>freemap := m\<rparr>);
    Some (s\<lparr>bitlock := False\<rparr>) }"

definition sfs_bused :: "nat \<Rightarrow> sfs \<Rightarrow> bool option" where
  "sfs_bused b s = do {
    KASSERT (b < nblocks s);
    s \<leftarrow> lock_bitmap s;
    Some (bitmap_isset (freemap s) b) }"

section \<open>Block mapping\<close>

text \<open>The loop over the levels of indirection, from block \<open>cur\<close> at level \<open>i\<close> down.  The inode is
  already in memory when sfs_bmap is called.\<close>

fun bmap_levels :: "(nat \<Rightarrow> errno option) \<Rightarrow> nat \<Rightarrow> nat \<Rightarrow> nat \<Rightarrow> nat \<Rightarrow> bool \<Rightarrow> sfs \<Rightarrow> ((errno + nat) \<times> sfs) option" where
  "bmap_levels io ino 0 fileblock cur doalloc s = do {
    (if cur \<noteq> 0 then do { u \<leftarrow> sfs_bused cur s; KASSERT u } else Some ());
    Some (Inr cur, s) }"
| "bmap_levels io ino (Suc i) fileblock cur doalloc s =
    (let idoff = fileblock div SFS_DBPERIDB ^ i;
         fileblock = fileblock - idoff * SFS_DBPERIDB ^ i;
         next = ptr (disk s cur) idoff
     in if next = 0 \<and> \<not> doalloc then Some (Inr 0, s)
        else if next = 0 then do {
          (r, s) \<leftarrow> sfs_balloc io s;
          (case r of
             Inl e \<Rightarrow> Some (Inl e, s)
           | Inr b \<Rightarrow> bmap_levels io ino i fileblock b doalloc
               (check_and_record (Rec_inode ino (Suc i) False idoff b) (set_ptr cur idoff b s))) }
        else (case io next of
            Some e \<Rightarrow> Some (Inl e, s)
          | None \<Rightarrow> bmap_levels io ino i fileblock next doalloc s))"

definition sfs_bmap :: "(nat \<Rightarrow> errno option) \<Rightarrow> nat \<Rightarrow> nat \<Rightarrow> bool \<Rightarrow> sfs \<Rightarrow> ((errno + nat) \<times> sfs) option" where
  "sfs_bmap io ino fileblock doalloc s =
    (if fileblock \<ge> SFS_NDIRECT + SFS_DBPERIDB + SFS_DBPERIDB * SFS_DBPERIDB + SFS_DBPERIDB * SFS_DBPERIDB * SFS_DBPERIDB
     then Some (Inl EINVAL, s)
     else if fileblock < SFS_NDIRECT then
       let block = ptr (disk s ino) (sfi_direct fileblock)
       in if block = 0 \<and> doalloc then do {
            (r, s) \<leftarrow> sfs_balloc io s;
            (case r of
               Inl e \<Rightarrow> Some (Inl e, s)
             | Inr b \<Rightarrow> bmap_levels io ino 0 fileblock b doalloc
                 (check_and_record (Rec_inode ino 0 False fileblock b) (set_ptr ino (sfi_direct fileblock) b s))) }
          else bmap_levels io ino 0 fileblock block doalloc s
     else
       let fileblock = fileblock - SFS_NDIRECT;
           (indir, fileblock) =
             (if fileblock \<ge> SFS_DBPERIDB + SFS_DBPERIDB * SFS_DBPERIDB
              then (3, fileblock - (SFS_DBPERIDB + SFS_DBPERIDB * SFS_DBPERIDB))
              else if fileblock \<ge> SFS_DBPERIDB then (2, fileblock - SFS_DBPERIDB)
              else (1, fileblock));
           next = ptr (disk s ino) (sfi_indirect indir)
       in if next = 0 \<and> \<not> doalloc then Some (Inr 0, s)
          else if next = 0 then do {
            (r, s) \<leftarrow> sfs_balloc io s;
            (case r of
               Inl e \<Rightarrow> Some (Inl e, s)
             | Inr b \<Rightarrow> bmap_levels io ino indir fileblock b doalloc
                 (check_and_record (Rec_inode ino indir True 0 b) (set_ptr ino (sfi_indirect indir) b s))) }
          else (case io next of
              Some e \<Rightarrow> Some (Inl e, s)
            | None \<Rightarrow> bmap_levels io ino indir fileblock next doalloc s))"

section \<open>File input and output\<close>

datatype uio_rw = UIO_READ | UIO_WRITE

text \<open>A transfer with one buffer; \<open>data\<close> are the bytes still to be written, or the bytes read so far.\<close>

record uio =
  uio_rw :: uio_rw
  uio_offset :: nat
  uio_resid :: nat
  data :: block

definition uiomove_read :: "block \<Rightarrow> uio \<Rightarrow> uio" where
  "uiomove_read bs u =
    (let n = min (length bs) (uio_resid u)
     in u\<lparr>data := data u @ take n bs, uio_resid := uio_resid u - n, uio_offset := uio_offset u + n\<rparr>)"

definition uiomove_write :: "nat \<Rightarrow> uio \<Rightarrow> block \<times> uio" where
  "uiomove_write len u =
    (let n = min len (uio_resid u)
     in (take n (data u), u\<lparr>data := drop n (data u), uio_resid := uio_resid u - n, uio_offset := uio_offset u + n\<rparr>))"

definition uiomovezeros :: "nat \<Rightarrow> uio \<Rightarrow> uio" where
  "uiomovezeros n u = uiomove_read (replicate n 0) u"

definition splice :: "nat \<Rightarrow> block \<Rightarrow> block \<Rightarrow> block" where
  "splice i bs b = take i b @ bs @ drop (i + length bs) b"

definition sfs_partialio :: "(nat \<Rightarrow> errno option) \<Rightarrow> nat \<Rightarrow> nat \<Rightarrow> nat \<Rightarrow> uio \<Rightarrow> sfs \<Rightarrow> (errno option \<times> uio \<times> sfs) option" where
  "sfs_partialio io ino skipstart len u s = do {
    let doalloc = (uio_rw u = UIO_WRITE);
    KASSERT (skipstart + len \<le> SFS_BLOCKSIZE);
    let fileblock = uio_offset u div SFS_BLOCKSIZE mod 2 ^ 32;
    (r, s) \<leftarrow> sfs_bmap io ino fileblock doalloc s;
    (case r of
       Inl e \<Rightarrow> Some (Some e, u, s)
     | Inr diskblock \<Rightarrow>
         if diskblock = 0 then do {
           KASSERT (uio_rw u = UIO_READ);
           Some (None, uiomovezeros len u, s) }
         else (case io diskblock of
             Some e \<Rightarrow> Some (Some e, u, s)
           | None \<Rightarrow>
               if uio_rw u = UIO_READ
               then Some (None, uiomove_read (take len (drop skipstart (disk s diskblock))) u, s)
               else let (bs, u) = uiomove_write len u
                    in Some (None, u, set_block diskblock (splice skipstart bs (disk s diskblock)) s))) }"

definition sfs_blockio :: "(nat \<Rightarrow> errno option) \<Rightarrow> nat \<Rightarrow> uio \<Rightarrow> sfs \<Rightarrow> (errno option \<times> uio \<times> sfs) option" where
  "sfs_blockio io ino u s = do {
    let doalloc = (uio_rw u = UIO_WRITE);
    let fileblock = uio_offset u div SFS_BLOCKSIZE mod 2 ^ 32;
    (r, s) \<leftarrow> sfs_bmap io ino fileblock doalloc s;
    (case r of
       Inl e \<Rightarrow> Some (Some e, u, s)
     | Inr diskblock \<Rightarrow>
         if diskblock = 0 then do {
           KASSERT (uio_rw u = UIO_READ);
           Some (None, uiomovezeros SFS_BLOCKSIZE u, s) }
         else (case io diskblock of
             Some e \<Rightarrow> Some (Some e, u, s)
           | None \<Rightarrow>
               if uio_rw u = UIO_READ
               then Some (None, uiomove_read (disk s diskblock) u, s)
               else let (bs, u) = uiomove_write SFS_BLOCKSIZE u
                    in Some (None, u, set_block diskblock (splice 0 bs (disk s diskblock)) s))) }"

text \<open>The loop over the whole blocks.\<close>

fun sfs_blocks :: "(nat \<Rightarrow> errno option) \<Rightarrow> nat \<Rightarrow> nat \<Rightarrow> uio \<Rightarrow> sfs \<Rightarrow> (errno option \<times> uio \<times> sfs) option" where
  "sfs_blocks io ino 0 u s = Some (None, u, s)"
| "sfs_blocks io ino (Suc n) u s = do {
    (r, u, s) \<leftarrow> sfs_blockio io ino u s;
    (case r of Some e \<Rightarrow> Some (Some e, u, s) | None \<Rightarrow> sfs_blocks io ino n u s) }"

text \<open>Leading partial block, whole blocks, trailing partial block.\<close>

definition sfs_transfer :: "(nat \<Rightarrow> errno option) \<Rightarrow> nat \<Rightarrow> uio \<Rightarrow> sfs \<Rightarrow> (errno option \<times> uio \<times> sfs) option" where
  "sfs_transfer io ino u s = do {
    let blkoff = uio_offset u mod SFS_BLOCKSIZE;
    (r, u, s) \<leftarrow> (if blkoff \<noteq> 0
       then sfs_partialio io ino blkoff (min (SFS_BLOCKSIZE - blkoff) (uio_resid u)) u s
       else Some (None, u, s));
    if r \<noteq> None then Some (r, u, s)
    else if uio_resid u = 0 then Some (None, u, s)
    else do {
      KASSERT (uio_offset u mod SFS_BLOCKSIZE = 0);
      (r, u, s) \<leftarrow> sfs_blocks io ino (uio_resid u div SFS_BLOCKSIZE) u s;
      if r \<noteq> None then Some (r, u, s)
      else do {
        KASSERT (uio_resid u < SFS_BLOCKSIZE);
        if uio_resid u > 0 then sfs_partialio io ino 0 (uio_resid u) u s
        else Some (None, u, s) } } }"

definition sfs_io :: "(nat \<Rightarrow> errno option) \<Rightarrow> nat \<Rightarrow> uio \<Rightarrow> sfs \<Rightarrow> (errno option \<times> uio \<times> sfs) option" where
  "sfs_io io ino u s =
    (case io ino of
       Some e \<Rightarrow> Some (Some e, u, s)
     | None \<Rightarrow>
         let size = ptr (disk s ino) sfi_size;
             endpos = uio_offset u + uio_resid u
         in if uio_rw u = UIO_READ \<and> uio_offset u \<ge> size then Some (None, u, s)
            else do {
              let extraresid = (if uio_rw u = UIO_READ \<and> endpos > size then endpos - size else 0);
              KASSERT (extraresid = 0 \<or> uio_resid u > extraresid);
              (r, u, s) \<leftarrow> sfs_transfer io ino (u\<lparr>uio_resid := uio_resid u - extraresid\<rparr>) s;
              let s = (if uio_rw u = UIO_WRITE \<and> uio_offset u > ptr (disk s ino) sfi_size
                       then check_and_record (Rec_isize ino (uio_offset u mod 2 ^ 32)) (set_ptr ino sfi_size (uio_offset u) s)
                       else s);
              Some (r, u\<lparr>uio_resid := uio_resid u + extraresid\<rparr>, s) })"

section \<open>Words of a block\<close>

lemma bit_ucast8: "bit (ucast (w :: 8 word) :: 32 word) k \<longleftrightarrow> k < 8 \<and> bit w k"
  by (auto simp: bit_ucast_iff dest: bit_imp_le_length)

lemma get32_bytes:
  fixes w :: "32 word"
  shows "(push_bit 24 (ucast (ucast (drop_bit 24 w) :: 8 word)) OR push_bit 16 (ucast (ucast (drop_bit 16 w) :: 8 word)) OR
    push_bit 8 (ucast (ucast (drop_bit 8 w) :: 8 word)) OR ucast (ucast w :: 8 word)) = w" (is "?l = w")
proof (rule bit_word_eqI)
  fix k assume "k < LENGTH(32)"
  then consider "k < 8" | "8 \<le> k" "k < 16" | "16 \<le> k" "k < 24" | "24 \<le> k" "k < 32" by fastforce
  then show "bit ?l k = bit w k"
    by cases (auto simp: bit_or_iff bit_push_bit_iff bit_ucast8 bit_ucast_iff bit_drop_bit_eq)
qed

lemma length_put32 [simp]: "length (put32 b i w) = length b"
  by (simp add: put32_def)

lemma get_put32:
  assumes "length b = 512" "i < 128" "j < 128"
  shows "get32 (put32 b i w) j = (if j = i then w else get32 b j)"
proof (cases "j = i")
  case True
  have "get32 (put32 b i w) i = w"
    unfolding get32_def put32_def using assms(1,2) get32_bytes [of w] by simp
  then show ?thesis using True by simp
next
  case False
  have ne: "4 * j + m \<noteq> 4 * i + n" if "m < 4" "n < 4" for m n using False that by arith
  have "put32 b i w ! (4 * j + m) = b ! (4 * j + m)" if "m < 4" for m
    using ne [OF that, of 0] ne [OF that, of 1] ne [OF that, of 2] ne [OF that, of 3] by (simp add: put32_def)
  from this [of 0] this [of 1] this [of 2] this [of 3] show ?thesis using False by (simp add: get32_def)
qed

lemma ptr_put32:
  assumes "length b = 512" "i < 128" "j < 128" "n < 2 ^ 32"
  shows "ptr (put32 b i (word_of_nat n)) j = (if j = i then n else ptr b j)"
  using get_put32 [OF assms(1-3), of "word_of_nat n"] assms(4) by (simp add: ptr_def unat_of_nat)

lemma ptr_less: "ptr b i < 2 ^ 32"
  using unat_less32 [of "get32 b i"] by (simp add: ptr_def)

lemma ptr_zero_block: "i < 128 \<Longrightarrow> ptr zero_block i = 0"
  by (simp add: ptr_def get32_def zero_block_def SFS_BLOCKSIZE_def)

section \<open>The tree of a file\<close>

text \<open>
  The blocks of a file form trees under the 18 block numbers in the inode: \<open>node s ino r p\<close> is the block
  at the end of path \<open>p\<close>, its last step first, from number \<open>r\<close>, and 0 if there is none.  The tree of
  number \<open>r\<close> has \<open>depth r\<close> levels of indirection.
\<close>

fun node :: "sfs \<Rightarrow> nat \<Rightarrow> nat \<Rightarrow> nat list \<Rightarrow> nat" where
  "node s ino r [] = ptr (disk s ino) (2 + r)"
| "node s ino r (i # p) = (if node s ino r p = 0 then 0 else ptr (disk s (node s ino r p)) i)"

definition depth :: "nat \<Rightarrow> nat" where
  "depth r = (if r < 15 then 0 else r - 14)"

definition path :: "nat \<Rightarrow> nat list \<Rightarrow> bool" where
  "path r p \<longleftrightarrow> r < 18 \<and> length p \<le> depth r \<and> (\<forall>i \<in> set p. i < 128)"

lemma path_tl: "path r (i # p) \<Longrightarrow> path r p \<and> i < 128 \<and> length p < depth r"
  by (auto simp: path_def)

text \<open>The block number of a file block.\<close>

definition leaf :: "nat \<Rightarrow> nat \<times> nat list" where
  "leaf fb = (if fb < 15 then (fb, [])
    else if fb < 15 + 128 then (15, [fb - 15])
    else if fb < 15 + 128 + 128 ^ 2 then let k = fb - (15 + 128) in (16, [k mod 128, k div 128])
    else let k = fb - (15 + 128 + 128 ^ 2) in (17, [k mod 128 ^ 2 mod 128, k mod 128 ^ 2 div 128, k div 128 ^ 2]))"

definition fblock :: "sfs \<Rightarrow> nat \<Rightarrow> nat \<Rightarrow> nat" where
  "fblock s ino fb = (case leaf fb of (r, p) \<Rightarrow> node s ino r p)"

definition MAXBLOCKS :: nat where "MAXBLOCKS = 15 + 128 + 128 ^ 2 + 128 ^ 3"

lemma leaf_path:
  assumes "fb < MAXBLOCKS" "leaf fb = (r, p)"
  shows "path r p \<and> length p = depth r"
  using assms by (auto simp: leaf_def path_def depth_def MAXBLOCKS_def Let_def split: if_splits)

lemma leaf_cases:
  "fb < 15 \<Longrightarrow> leaf fb = (fb, [])"
  "15 \<le> fb \<Longrightarrow> fb < 143 \<Longrightarrow> leaf fb = (15, [fb - 15])"
  "143 \<le> fb \<Longrightarrow> fb < 16527 \<Longrightarrow> leaf fb = (16, [(fb - 143) mod 128, (fb - 143) div 128])"
  "16527 \<le> fb \<Longrightarrow> leaf fb = (17, [(fb - 16527) mod 16384 mod 128, (fb - 16527) mod 16384 div 128, (fb - 16527) div 16384])"
  by (simp_all add: leaf_def Let_def)

lemma leaf_inj:
  assumes "leaf a = leaf b"
  shows "a = b"
proof -
  have d: "x = y" if "x mod 128 = y mod 128" "x div 128 = y div 128" for x y :: nat using that by (metis div_mult_mod_eq)
  have d2: "x = y" if "x mod 16384 = y mod 16384" "x div 16384 = y div 16384" for x y :: nat using that by (metis div_mult_mod_eq)
  have r: "fst (leaf x) = (if x < 15 then x else if x < 143 then 15 else if x < 16527 then 16 else 17)" for x
    by (simp add: leaf_def Let_def)
  note e = arg_cong [OF assms, of fst, unfolded r]
  consider "a < 15" | "15 \<le> a" "a < 143" | "143 \<le> a" "a < 16527" | "16527 \<le> a" by linarith
  then show ?thesis
  proof cases
    case 1
    then show ?thesis using e by (simp split: if_splits)
  next
    case 2
    then have "15 \<le> b" "b < 143" using e by (simp_all split: if_splits)
    then show ?thesis using assms 2 by (simp add: leaf_cases)
  next
    case 3
    then have b: "143 \<le> b" "b < 16527" using e by (simp_all split: if_splits)
    have "(a - 143) mod 128 = (b - 143) mod 128" "(a - 143) div 128 = (b - 143) div 128"
      using assms unfolding leaf_cases(3) [OF 3] leaf_cases(3) [OF b] by (simp_all only: prod.inject list.inject)
    from d [OF this] show ?thesis using 3 b by linarith
  next
    case 4
    then have b: "16527 \<le> b" using e by (simp split: if_splits)
    have e: "(a - 16527) mod 16384 mod 128 = (b - 16527) mod 16384 mod 128"
        "(a - 16527) mod 16384 div 128 = (b - 16527) mod 16384 div 128" "(a - 16527) div 16384 = (b - 16527) div 16384"
      using assms unfolding leaf_cases(4) [OF 4] leaf_cases(4) [OF b] by (simp_all only: prod.inject list.inject)
    from d2 [OF d [OF e(1,2)] e(3)] show ?thesis using 4 b by linarith
  qed
qed

text \<open>Different places in the trees of the files \<open>F\<close> have different blocks, and all are marked in the
  free map.\<close>

definition map_ok :: "nat set \<Rightarrow> sfs \<Rightarrow> bool" where
  "map_ok F s \<longleftrightarrow> (\<forall>b. length (disk s b) = 512) \<and>
    bitmap_inv (freemap s) \<and> nblocks s \<le> nbits (freemap s) \<and> {nblocks s..<nbits (freemap s)} \<subseteq> bitmap_used (freemap s) \<and>
    0 \<in> bitmap_used (freemap s) \<and>
    (\<forall>ino \<in> F. ino \<in> bitmap_used (freemap s) \<and> ino < nblocks s \<and> ino \<noteq> 0)"

definition nodes_ok :: "nat set \<Rightarrow> sfs \<Rightarrow> bool" where
  "nodes_ok F s \<longleftrightarrow> (\<forall>ino r p. ino \<in> F \<longrightarrow> path r p \<longrightarrow> node s ino r p \<noteq> 0 \<longrightarrow>
    node s ino r p \<in> bitmap_used (freemap s) \<and> node s ino r p < nblocks s \<and> node s ino r p \<notin> F)"

definition nodes_distinct :: "nat set \<Rightarrow> sfs \<Rightarrow> bool" where
  "nodes_distinct F s \<longleftrightarrow> (\<forall>ino ino' r r' p p'. ino \<in> F \<longrightarrow> ino' \<in> F \<longrightarrow> path r p \<longrightarrow> path r' p' \<longrightarrow>
    node s ino r p \<noteq> 0 \<longrightarrow> node s ino r p = node s ino' r' p' \<longrightarrow> ino = ino' \<and> r = r' \<and> p = p')"

definition sfs_ok :: "nat set \<Rightarrow> sfs \<Rightarrow> bool" where
  "sfs_ok F s \<longleftrightarrow> map_ok F s \<and> nodes_ok F s \<and> nodes_distinct F s"

lemma sfs_okD:
  assumes "sfs_ok F s"
  shows "length (disk s b) = 512" "bitmap_inv (freemap s)" "nblocks s < 2 ^ 32" "0 \<in> bitmap_used (freemap s)"
    "i < nbits (freemap s) \<Longrightarrow> i \<notin> bitmap_used (freemap s) \<Longrightarrow> i < nblocks s"
    "nblocks s \<le> nbits (freemap s)"
    "ino \<in> F \<Longrightarrow> ino \<in> bitmap_used (freemap s) \<and> ino < nblocks s \<and> ino \<noteq> 0"
    "ino \<in> F \<Longrightarrow> path r p \<Longrightarrow> node s ino r p \<noteq> 0 \<Longrightarrow>
      node s ino r p \<in> bitmap_used (freemap s) \<and> node s ino r p < nblocks s \<and> node s ino r p \<notin> F"
    "ino \<in> F \<Longrightarrow> ino' \<in> F \<Longrightarrow> path r p \<Longrightarrow> path r' p' \<Longrightarrow> node s ino r p \<noteq> 0 \<Longrightarrow>
      node s ino r p = node s ino' r' p' \<Longrightarrow> ino = ino' \<and> r = r' \<and> p = p'"
proof -
  have m: "map_ok F s" and n: "nodes_ok F s" and d: "nodes_distinct F s" using assms by (simp_all add: sfs_ok_def)
  show "bitmap_inv (freemap s)" "nblocks s \<le> nbits (freemap s)" "length (disk s b) = 512" "0 \<in> bitmap_used (freemap s)"
    "ino \<in> F \<Longrightarrow> ino \<in> bitmap_used (freemap s) \<and> ino < nblocks s \<and> ino \<noteq> 0"
    using m by (simp_all add: map_ok_def)
  then show "nblocks s < 2 ^ 32" by (simp add: bitmap_inv_def)
  have "{nblocks s..<nbits (freemap s)} \<subseteq> bitmap_used (freemap s)" using m by (simp add: map_ok_def)
  then show "i < nbits (freemap s) \<Longrightarrow> i \<notin> bitmap_used (freemap s) \<Longrightarrow> i < nblocks s"
    by (meson atLeastLessThan_iff not_less subsetD)
  show "ino \<in> F \<Longrightarrow> path r p \<Longrightarrow> node s ino r p \<noteq> 0 \<Longrightarrow>
      node s ino r p \<in> bitmap_used (freemap s) \<and> node s ino r p < nblocks s \<and> node s ino r p \<notin> F"
    using n by (simp add: nodes_ok_def)
  show "ino \<in> F \<Longrightarrow> ino' \<in> F \<Longrightarrow> path r p \<Longrightarrow> path r' p' \<Longrightarrow> node s ino r p \<noteq> 0 \<Longrightarrow>
      node s ino r p = node s ino' r' p' \<Longrightarrow> ino = ino' \<and> r = r' \<and> p = p'"
    using d unfolding nodes_distinct_def by blast
qed

section \<open>Adding a block to a tree\<close>

text \<open>The block and the word in it that hold the block number at the end of a path.\<close>

definition place :: "sfs \<Rightarrow> nat \<Rightarrow> nat \<Rightarrow> nat list \<Rightarrow> nat \<times> nat" where
  "place s ino r q = (case q of [] \<Rightarrow> (ino, 2 + r) | i # p \<Rightarrow> (node s ino r p, i))"

lemma place_bound: "path r q \<Longrightarrow> snd (place s ino r q) < 128"
  by (auto simp: place_def path_def split: list.splits)

lemma place_inode:
  assumes "sfs_ok F s" "ino \<in> F" "ino' \<in> F" "path r q" "place s ino r q = (ino', w)"
  shows "q = [] \<and> ino' = ino \<and> w = 2 + r"
  using assms sfs_okD(7) [OF assms(1,3)] sfs_okD(8) [OF assms(1,2), of r "tl q"] path_tl [of r "hd q" "tl q"]
  by (auto simp: place_def split: list.splits)

lemma place_node:
  assumes "sfs_ok F s" "ino \<in> F" "ino' \<in> F" "path r q" "path r' p'" "place s ino r q = (node s ino' r' p', w)" "node s ino' r' p' \<noteq> 0"
  shows "ino' = ino \<and> r' = r \<and> q = w # p'"
proof (cases q)
  case Nil
  then show ?thesis using assms sfs_okD(8) [OF assms(1,3,5,7)] by (simp add: place_def)
next
  case (Cons i p)
  then show ?thesis
    using assms sfs_okD(9) [OF assms(1,3,2,5) _ assms(7), of r p] path_tl [of r i p] by (auto simp: place_def)
qed

lemma place_used:
  assumes "sfs_ok F s" "ino \<in> F" "path r q" "fst (place s ino r q) \<noteq> 0"
  shows "fst (place s ino r q) \<in> bitmap_used (freemap s)"
  using assms sfs_okD(7) [OF assms(1,2)] sfs_okD(8) [OF assms(1,2), of r "tl q"] path_tl [of r "hd q" "tl q"]
  by (auto simp: place_def split: list.splits)

lemma node_insert:
  assumes ok: "sfs_ok F s" and ino: "ino \<in> F" and q: "path r q" and pl: "place s ino r q = (b, w)" and b: "b \<noteq> 0"
    and z: "node s ino r q = 0" and n: "n \<notin> bitmap_used (freemap s)" "n < nblocks s"
    and d: "disk s' = (disk s)(n := zero_block, b := put32 (disk s b) w (word_of_nat n))"
    and i: "ino' \<in> F" and p: "path r' p'"
  shows "node s' ino' r' p' = (if ino' = ino \<and> r' = r \<and> p' = q then n else node s ino' r' p')"
  using p
proof (induction p')
  case Nil
  have ne: "ino' \<noteq> n" using sfs_okD(7) [OF ok i] n by blast
  show ?case
  proof (cases "ino' = b")
    case True
    have e: "q = []" "ino' = ino" "w = 2 + r" using place_inode [OF ok ino i q] pl True by auto
    have "ptr (put32 (disk s b) (2 + r) (word_of_nat n)) (2 + r') = (if 2 + r' = 2 + r then n else ptr (disk s b) (2 + r'))"
      using ptr_put32 [OF sfs_okD(1) [OF ok], of "2 + r" "2 + r'" n b] q Nil n sfs_okD(3) [OF ok] by (simp add: path_def)
    then show ?thesis using True e d by simp
  next
    case False
    then have "\<not> (ino' = ino \<and> r' = r \<and> [] = q)" using pl by (auto simp: place_def)
    moreover have "node s' ino' r' [] = node s ino' r' []" using False ne d by simp
    ultimately show ?thesis by (simp only: if_False)
  qed
next
  case (Cons k p')
  have pp: "path r' p'" "k < 128" using path_tl [OF Cons.prems] by auto
  note IH = Cons.IH [OF pp(1)]
  show ?case
  proof (cases "ino' = ino \<and> r' = r \<and> p' = q")
    case True
    have "0 \<in> bitmap_used (freemap s)" by (rule sfs_okD(4) [OF ok])
    moreover have "b \<in> bitmap_used (freemap s)" using place_used [OF ok ino q] pl b by simp
    ultimately have "n \<noteq> b" "n \<noteq> 0" using n by metis+
    then show ?thesis using True IH z d ptr_zero_block [OF pp(2)] by simp
  next
    case False
    note f = this
    then have e: "node s' ino' r' p' = node s ino' r' p'" using IH by auto
    show ?thesis
    proof (cases "node s ino' r' p' = 0")
      case True
      then have "\<not> (ino' = ino \<and> r' = r \<and> k # p' = q)" using pl b by (auto simp: place_def)
      moreover have "node s' ino' r' (k # p') = node s ino' r' (k # p')" using True e by simp
      ultimately show ?thesis by (simp only: if_False)
    next
      case nz: False
      have ne: "node s ino' r' p' \<noteq> n" using sfs_okD(8) [OF ok i pp(1) nz] n by blast
      show ?thesis
      proof (cases "node s ino' r' p' = b")
        case True
        have g: "ino' = ino \<and> r' = r \<and> q = w # p'"
          by (rule place_node [OF ok ino i q pp(1) _ nz]) (simp add: pl True)
        have "w < 128" using place_bound [OF q, of s ino] pl by simp
        then have "ptr (put32 (disk s b) w (word_of_nat n)) k = (if k = w then n else ptr (disk s b) k)"
          using ptr_put32 [OF sfs_okD(1) [OF ok], of w k n b] pp(2) n sfs_okD(3) [OF ok] by simp
        then show ?thesis using True g e nz d b by simp
      next
        case False
        then have "\<not> (ino' = ino \<and> r' = r \<and> k # p' = q)" using pl by (auto simp: place_def)
        moreover have "node s' ino' r' (k # p') = node s ino' r' (k # p')" using False e nz ne d by simp
        ultimately show ?thesis by (simp only: if_False)
      qed
    qed
  qed
qed

text \<open>What a file holds: its bytes, those of a block that is not there being 0, its size, its type and
  link count.\<close>

definition file_byte :: "sfs \<Rightarrow> nat \<Rightarrow> nat \<Rightarrow> 8 word" where
  "file_byte s ino pos = (if fblock s ino (pos div 512) = 0 then 0 else disk s (fblock s ino (pos div 512)) ! (pos mod 512))"

definition file_size :: "sfs \<Rightarrow> nat \<Rightarrow> nat" where
  "file_size s ino = ptr (disk s ino) sfi_size"

definition file_attr :: "sfs \<Rightarrow> nat \<Rightarrow> 32 word" where
  "file_attr s ino = get32 (disk s ino) 1"

definition MAXBYTES :: nat where "MAXBYTES = MAXBLOCKS * 512"

definition same_files :: "nat set \<Rightarrow> sfs \<Rightarrow> sfs \<Rightarrow> bool" where
  "same_files F s s' \<longleftrightarrow> (\<forall>ino \<in> F. file_size s' ino = file_size s ino \<and> file_attr s' ino = file_attr s ino \<and>
    (\<forall>pos < MAXBYTES. file_byte s' ino pos = file_byte s ino pos))"

lemma same_files_refl [simp]: "same_files F s s"
  by (simp add: same_files_def)

lemma same_files_trans: "same_files F s t \<Longrightarrow> same_files F t u \<Longrightarrow> same_files F s u"
  by (simp add: same_files_def)

lemma node_disk: "disk s' = disk s \<Longrightarrow> node s' ino r p = node s ino r p"
  by (induction p) simp_all

lemma same_files_disk: "disk s' = disk s \<Longrightarrow> same_files F s s'"
  by (simp add: same_files_def file_size_def file_attr_def file_byte_def fblock_def node_disk [of s' s])

text \<open>Only the disk and the free map matter, and marking more blocks does no harm.\<close>

lemma sfs_ok_mark:
  assumes "sfs_ok F s" "disk s' = disk s" "nblocks s' = nblocks s" "bitmap_inv (freemap s')"
    "nbits (freemap s') = nbits (freemap s)" "bitmap_used (freemap s) \<subseteq> bitmap_used (freemap s')"
  shows "sfs_ok F s'"
proof -
  have "map_ok F s'" using assms unfolding sfs_ok_def map_ok_def by auto
  moreover have "nodes_ok F s'" using assms(1,3,6) unfolding sfs_ok_def nodes_ok_def node_disk [OF assms(2)] by auto
  moreover have "nodes_distinct F s'" using assms(1) unfolding sfs_ok_def nodes_distinct_def node_disk [OF assms(2)] by blast
  ultimately show ?thesis by (simp add: sfs_ok_def)
qed

lemma pos_block: "pos < MAXBYTES \<Longrightarrow> pos div 512 < MAXBLOCKS"
  by (simp add: MAXBYTES_def less_mult_imp_div_less)

lemma insert_ok:
  assumes ok: "sfs_ok F s" and ino: "ino \<in> F" and q: "path r q" and pl: "place s ino r q = (b, w)" and b: "b \<noteq> 0"
    and z: "node s ino r q = 0" and n: "n \<notin> bitmap_used (freemap s)" "n < nblocks s"
    and d: "disk s' = (disk s)(n := zero_block, b := put32 (disk s b) w (word_of_nat n))"
    and m: "bitmap_inv (freemap s')" "nbits (freemap s') = nbits (freemap s)"
      "bitmap_used (freemap s') = insert n (bitmap_used (freemap s))" "nblocks s' = nblocks s"
  shows "sfs_ok F s'" "same_files F s s'" "node s' ino r q = n"
proof -
  note N = node_insert [OF ok ino q pl b z n d]
  have nF: "n \<notin> F" using sfs_okD(7) [OF ok, of n] n by blast
  have nn: "node s ino' r' p' \<noteq> n" if "ino' \<in> F" "path r' p'" for ino' r' p'
    using sfs_okD(8) [OF ok that] sfs_okD(4) [OF ok] n by metis
  have bn: "b \<noteq> n" using place_used [OF ok ino q] pl b n by auto
  show "node s' ino r q = n" using N [OF ino q] by simp
  have "map_ok F s'"
    using ok m d by (auto simp: sfs_ok_def map_ok_def zero_block_def SFS_BLOCKSIZE_def)
  moreover have "nodes_ok F s'"
    unfolding nodes_ok_def
  proof (intro allI impI)
    fix ino' r' p' assume a: "ino' \<in> F" "path r' p'" "node s' ino' r' p' \<noteq> 0"
    show "node s' ino' r' p' \<in> bitmap_used (freemap s') \<and> node s' ino' r' p' < nblocks s' \<and> node s' ino' r' p' \<notin> F"
      using N [OF a(1,2)] a(3) sfs_okD(8) [OF ok a(1,2)] n nF m by (simp split: if_splits)
  qed
  moreover have "nodes_distinct F s'"
    unfolding nodes_distinct_def
  proof (intro allI impI)
    fix i1 i2 r1 r2 p1 p2
    assume a: "i1 \<in> F" "i2 \<in> F" "path r1 p1" "path r2 p2" "node s' i1 r1 p1 \<noteq> 0" "node s' i1 r1 p1 = node s' i2 r2 p2"
    show "i1 = i2 \<and> r1 = r2 \<and> p1 = p2"
    proof (cases "i1 = ino \<and> r1 = r \<and> p1 = q")
      case True
      then have "node s' i2 r2 p2 = n" using N [OF a(1,3)] a(6) by metis
      then show ?thesis using True N [OF a(2,4)] nn [OF a(2,4)] by metis
    next
      case False
      then have e: "node s i1 r1 p1 = node s' i2 r2 p2" "node s i1 r1 p1 \<noteq> 0" using N [OF a(1,3)] a(5,6) by metis+
      then have "node s i1 r1 p1 = node s i2 r2 p2" using N [OF a(2,4)] nn [OF a(1,3)] by metis
      then show ?thesis by (rule sfs_okD(9) [OF ok a(1-4) e(2)])
    qed
  qed
  ultimately show "sfs_ok F s'" by (simp add: sfs_ok_def)
  have inode: "get32 (disk s' i) j = get32 (disk s i) j" if "i \<in> F" "j < 2" for i j
  proof (cases "i = b")
    case True
    then have "w = 2 + r" using place_inode [OF ok ino that(1) q] pl by auto
    moreover have "w < 128" using place_bound [OF q, of s ino] pl by simp
    ultimately have "get32 (put32 (disk s b) w (word_of_nat n)) j = get32 (disk s b) j"
      using get_put32 [OF sfs_okD(1) [OF ok], of w j b] that(2) by simp
    then show ?thesis using True d by simp
  next
    case False
    then show ?thesis using nF that(1) d by auto
  qed
  have byte: "file_byte s' i pos = file_byte s i pos" if i: "i \<in> F" and pos: "pos < MAXBYTES" for i pos
  proof -
    obtain r' p' where l: "leaf (pos div 512) = (r', p')" by fastforce
    note P = leaf_path [OF pos_block [OF pos] l]
    show ?thesis
    proof (cases "i = ino \<and> r' = r \<and> p' = q")
      case True
      then have "node s' i r' p' = n" "node s i r' p' = 0" using N [OF i] P z by auto
      then show ?thesis using l d bn by (simp add: file_byte_def fblock_def zero_block_def SFS_BLOCKSIZE_def)
    next
      case False
      then have e: "node s' i r' p' = node s i r' p'" using N [OF i] P by auto
      have "node s i r' p' \<noteq> b" if nz: "node s i r' p' \<noteq> 0"
      proof
        assume "node s i r' p' = b"
        then have "i = ino \<and> r' = r \<and> q = w # p'"
          using place_node [OF ok ino i q _ _ nz, of w] P pl by simp
        then show False using P q by (simp add: path_def)
      qed
      then show ?thesis using l d e nn [OF i] P by (simp add: file_byte_def fblock_def)
    qed
  qed
  show "same_files F s s'"
    using inode byte by (simp add: same_files_def file_size_def file_attr_def ptr_def sfi_size_def)
qed

section \<open>Allocation\<close>

text \<open>A block that was free, and the free map in which it is marked.\<close>

definition fresh :: "sfs \<Rightarrow> nat \<Rightarrow> bitmap \<Rightarrow> bool" where
  "fresh s n m \<longleftrightarrow> n \<notin> bitmap_used (freemap s) \<and> n < nblocks s \<and> bitmap_inv m \<and> nbits m = nbits (freemap s) \<and>
    bitmap_used m = insert n (bitmap_used (freemap s))"

definition marked :: "nat \<Rightarrow> bitmap \<Rightarrow> sfs \<Rightarrow> sfs" where
  "marked n m s = s\<lparr>freemap := m, journal := Rec_bitmap n True # journal s\<rparr>"

lemma balloc_cases:
  assumes wf: "sfs_ok F s" and l: "\<not> bitlock s"
  obtains (full) "sfs_balloc io s = Some (Inl ENOSPC, s\<lparr>bitlock := True\<rparr>)"
      "bitmap_used (freemap s) = {..<nbits (freemap s)}"
    | (err) n m e where "fresh s n m" "io n = Some e" "sfs_balloc io s = Some (Inl e, marked n m s)"
    | (ok) n m where "fresh s n m" "sfs_balloc io s = Some (Inr n, set_block n zero_block (marked n m s))"
proof -
  note inv = sfs_okD(2) [OF wf]
  show thesis
  proof (cases "bitmap_used (freemap s) = {..<nbits (freemap s)}")
    case True
    then show thesis using full bm.alloc_full [OF inv True] l by (simp add: sfs_balloc_def lock_bitmap_def)
  next
    case False
    then obtain n m where a: "bitmap_alloc (freemap s) = Some (Inr (n, m))" and
        f: "n < nbits (freemap s)" "n \<notin> bitmap_used (freemap s)" "bitmap_inv m" "nbits m = nbits (freemap s)"
          "bitmap_used m = insert n (bitmap_used (freemap s))"
      using bm.alloc_free [OF inv False] by blast
    have nb: "n < nblocks s" using sfs_okD(5) [OF wf f(1,2)] .
    have fr: "fresh s n m" using f nb by (simp add: fresh_def)
    have u: "s\<lparr>bitlock := True, freemap := m, journal := Rec_bitmap n True # journal s, bitlock := False\<rparr> = marked n m s"
      using l by (cases s) (simp add: marked_def)
    show thesis
    proof (cases "io n")
      case None
      then show thesis
        using ok [OF fr] a l nb u by (simp add: sfs_balloc_def lock_bitmap_def check_and_record_def sfs_clearblock_def)
    next
      case (Some e)
      then show thesis
        using err [OF fr Some] a l nb u by (simp add: sfs_balloc_def lock_bitmap_def check_and_record_def sfs_clearblock_def)
    qed
  qed
qed

text \<open>The state after the new block has been entered at the end of path \<open>q\<close>.\<close>

lemma attach_ok:
  fixes rec :: jrec and n :: nat and m :: bitmap
  assumes ok: "sfs_ok F s" and ino: "ino \<in> F" and q: "path r q" and pl: "place s ino r q = (b, w)" and b: "b \<noteq> 0"
    and z: "node s ino r q = 0" and fr: "fresh s n m"
  defines "t \<equiv> check_and_record rec (set_ptr b w n (set_block n zero_block (marked n m s)))"
  shows "sfs_ok F t" "same_files F s t" "node t ino r q = n" "bitlock t = bitlock s" "node t ino r q \<noteq> 0"
proof -
  have n: "n \<notin> bitmap_used (freemap s)" "n < nblocks s" using fr by (simp_all add: fresh_def)
  have bn: "b \<noteq> n" using place_used [OF ok ino q] pl b n by auto
  have d: "disk t = (disk s)(n := zero_block, b := put32 (disk s b) w (word_of_nat n))"
    using bn by (simp add: t_def check_and_record_def set_ptr_def set_block_def marked_def)
  have m: "bitmap_inv (freemap t)" "nbits (freemap t) = nbits (freemap s)"
      "bitmap_used (freemap t) = insert n (bitmap_used (freemap s))" "nblocks t = nblocks s" "bitlock t = bitlock s"
    using fr by (simp_all add: t_def check_and_record_def set_ptr_def set_block_def marked_def fresh_def)
  note I = insert_ok [OF ok ino q pl b z n d m(1-4)]
  show "sfs_ok F t" "same_files F s t" "node t ino r q = n" by (fact I)+
  show "bitlock t = bitlock s" by (fact m(5))
  show "node t ino r q \<noteq> 0" using sfs_okD(4) [OF ok] n I(3) by metis
qed

lemma fail_ok:
  assumes ok: "sfs_ok F s"
  shows "sfs_ok F (s\<lparr>bitlock := l\<rparr>)" "same_files F s (s\<lparr>bitlock := l\<rparr>)"
    "fresh s n m \<Longrightarrow> sfs_ok F (marked n m s)" "same_files F s (marked n m s)"
proof -
  show "sfs_ok F (s\<lparr>bitlock := l\<rparr>)" by (rule sfs_ok_mark [OF ok]) (simp_all add: sfs_okD(2) [OF ok])
  show "fresh s n m \<Longrightarrow> sfs_ok F (marked n m s)"
    by (rule sfs_ok_mark [OF ok]) (auto simp: fresh_def marked_def)
  show "same_files F s (s\<lparr>bitlock := l\<rparr>)" "same_files F s (marked n m s)"
    by (rule same_files_disk; simp add: marked_def)+
qed

lemma bused_node:
  assumes "sfs_ok F s" "\<not> bitlock s" "ino \<in> F" "path r p" "node s ino r p \<noteq> 0"
  shows "sfs_bused (node s ino r p) s = Some True"
  using sfs_okD(8) [OF assms(1,3-5)] sfs_okD(2,6) [OF assms(1)] assms(2)
  by (simp add: sfs_bused_def lock_bitmap_def bitmap_isset_iff)

section \<open>Block mapping\<close>

text \<open>The path that the loop follows for a block number within the tree.\<close>

fun digs :: "nat \<Rightarrow> nat \<Rightarrow> nat list \<Rightarrow> nat list" where
  "digs 0 fb p = p"
| "digs (Suc i) fb p = digs i (fb - fb div 128 ^ i * 128 ^ i) (fb div 128 ^ i # p)"

lemma digs_zero: "node s ino r p = 0 \<Longrightarrow> node s ino r (digs i fb p) = 0"
  by (induction i arbitrary: fb p) simp_all

text \<open>Why an operation failed: if the lock on the free map is still held, the disk was full; otherwise a
  buffer could not be had.\<close>

definition failed :: "(nat \<Rightarrow> errno option) \<Rightarrow> bool \<Rightarrow> sfs \<Rightarrow> errno \<Rightarrow> bool" where
  "failed io doalloc s e \<longleftrightarrow> (if bitlock s then doalloc \<and> e = ENOSPC else \<exists>b. io b = Some e)"

text \<open>What finding or making a block leaves: the files as they were, and the block found.\<close>

definition mapped :: "(nat \<Rightarrow> errno option) \<Rightarrow> nat set \<Rightarrow> sfs \<Rightarrow> bool \<Rightarrow> (sfs \<Rightarrow> nat) \<Rightarrow> ((errno + nat) \<times> sfs) option \<Rightarrow> bool" where
  "mapped io F s doalloc wh res \<longleftrightarrow> (case res of
     None \<Rightarrow> False
   | Some (r, s') \<Rightarrow> sfs_ok F s' \<and> same_files F s s' \<and> (\<not> doalloc \<longrightarrow> s' = s) \<and>
       (case r of Inr b \<Rightarrow> \<not> bitlock s' \<and> b = wh s' \<and> (doalloc \<longrightarrow> b \<noteq> 0) | Inl e \<Rightarrow> failed io doalloc s' e))"

lemma mapped_trans: "same_files F s t \<Longrightarrow> mapped io F t True wh res \<Longrightarrow> mapped io F s True wh res"
  by (auto simp: mapped_def intro: same_files_trans split: option.splits)

lemma mapped_error:
  assumes ok: "sfs_ok F s" and l: "\<not> bitlock s"
  shows "mapped io F s True wh (Some (Inl ENOSPC, s\<lparr>bitlock := True\<rparr>))"
    "fresh s n m \<Longrightarrow> io b = Some e \<Longrightarrow> mapped io F s True wh (Some (Inl e, marked n m s))"
    "io b = Some e \<Longrightarrow> mapped io F s doalloc wh (Some (Inl e, s))"
  using fail_ok [OF ok] ok l by (auto simp: mapped_def marked_def failed_def)

lemma alloc_step:
  assumes ok: "sfs_ok F s" and l: "\<not> bitlock s" and ino: "ino \<in> F" and q: "path r q" and pl: "place s ino r q = (b, w)"
    and b: "b \<noteq> 0" and z: "node s ino r q = 0"
    and g: "\<And>t. sfs_ok F t \<Longrightarrow> \<not> bitlock t \<Longrightarrow> node t ino r q \<noteq> 0 \<Longrightarrow> mapped io F t True wh (g (node t ino r q) t)"
  shows "mapped io F s True wh (do {
    (res, s') \<leftarrow> sfs_balloc io s;
    (case res of
       Inl e \<Rightarrow> Some (Inl e, s')
     | Inr n \<Rightarrow> g n (check_and_record (rec n) (set_ptr b w n s'))) })"
proof (cases rule: balloc_cases [OF ok l, of io])
  case 1
  then show ?thesis using mapped_error(1) [OF ok l] by simp
next
  case (2 n m e)
  then show ?thesis using mapped_error(2) [OF ok l 2(1), of io n e wh] by simp
next
  case (3 n m)
  define t where "t = check_and_record (rec n) (set_ptr b w n (set_block n zero_block (marked n m s)))"
  note A = attach_ok [where rec = "rec n", OF ok ino q pl b z 3(1), folded t_def]
  have "mapped io F t True wh (g n t)" using g [OF A(1)] A(3-5) l by (simp only: simp_thms)
  then have "mapped io F s True wh (g n t)" by (rule mapped_trans [OF A(2)])
  then show ?thesis by (simp add: 3(2) t_def)
qed

lemma bmap_levels_ok:
  assumes "sfs_ok F s" "\<not> bitlock s" "ino \<in> F" "path r p" "length p + i = depth r" "node s ino r p \<noteq> 0" "fb < 128 ^ i"
  shows "mapped io F s doalloc (\<lambda>s'. node s' ino r (digs i fb p)) (bmap_levels io ino i fb (node s ino r p) doalloc s)"
  using assms
proof (induction i arbitrary: s p fb)
  case 0
  then show ?case using bused_node [of F s ino r p] by (simp add: mapped_def)
next
  case (Suc i)
  define k where "k = fb div 128 ^ i"
  define fb' where "fb' = fb - k * 128 ^ i"
  have k: "k < 128" using Suc.prems(7) by (simp add: k_def less_mult_imp_div_less mult.commute)
  have fb': "fb' < 128 ^ i" by (simp add: fb'_def k_def minus_div_mult_eq_mod)
  have kp: "path r (k # p)" "length (k # p) + i = depth r" using Suc.prems(4,5) k by (auto simp: path_def)
  have nx: "ptr (disk s (node s ino r p)) k = node s ino r (k # p)" using Suc.prems(6) by simp
  have dg: "digs (Suc i) fb p = digs i fb' (k # p)" by (simp add: k_def fb'_def)
  have st: "bmap_levels io ino (Suc i) fb (node s ino r p) doalloc s =
    (if node s ino r (k # p) = 0 \<and> \<not> doalloc then Some (Inr 0, s)
     else if node s ino r (k # p) = 0 then do {
       (res, s') \<leftarrow> sfs_balloc io s;
       (case res of
          Inl e \<Rightarrow> Some (Inl e, s')
        | Inr b \<Rightarrow> bmap_levels io ino i fb' b doalloc
            (check_and_record (Rec_inode ino (Suc i) False k b) (set_ptr (node s ino r p) k b s'))) }
     else (case io (node s ino r (k # p)) of
         Some e \<Rightarrow> Some (Inl e, s)
       | None \<Rightarrow> bmap_levels io ino i fb' (node s ino r (k # p)) doalloc s))"
    by (simp only: bmap_levels.simps Let_def SFS_DBPERIDB_def k_def [symmetric] fb'_def [symmetric] nx)
  note ok = Suc.prems(1) and l = Suc.prems(2) and ino = Suc.prems(3)
  show ?case
  proof (cases "node s ino r (k # p) = 0")
    case False
    note nz = this
    show ?thesis
    proof (cases "io (node s ino r (k # p))")
      case None
      have "bmap_levels io ino (Suc i) fb (node s ino r p) doalloc s = bmap_levels io ino i fb' (node s ino r (k # p)) doalloc s"
        unfolding st using None nz by (simp only: if_False option.case simp_thms)
      then show ?thesis using Suc.IH [OF ok l ino kp nz fb'] by (simp only: dg)
    next
      case (Some e)
      have "bmap_levels io ino (Suc i) fb (node s ino r p) doalloc s = Some (Inl e, s)"
        unfolding st using Some nz by (simp only: if_False option.case simp_thms)
      then show ?thesis using mapped_error(3) [OF ok l, of io _ e, OF Some] by (simp only:)
    qed
  next
    case z: True
    show ?thesis
    proof (cases doalloc)
      case False
      have "bmap_levels io ino (Suc i) fb (node s ino r p) doalloc s = Some (Inr 0, s)"
        unfolding st using z False by (simp only: if_True simp_thms)
      then show ?thesis using digs_zero [OF z] ok l False by (simp only: dg) (simp add: mapped_def)
    next
      case True
      have st: "bmap_levels io ino (Suc i) fb (node s ino r p) doalloc s = do {
         (res, s') \<leftarrow> sfs_balloc io s;
         (case res of
            Inl e \<Rightarrow> Some (Inl e, s')
          | Inr b \<Rightarrow> bmap_levels io ino i fb' b True
              (check_and_record (Rec_inode ino (Suc i) False k b) (set_ptr (node s ino r p) k b s'))) }"
        unfolding st using z True by (simp only: if_True if_False simp_thms)
      have IH: "mapped io F t True (\<lambda>s'. node s' ino r (digs i fb' (k # p))) (bmap_levels io ino i fb' (node t ino r (k # p)) True t)"
        if "sfs_ok F t" "\<not> bitlock t" "node t ino r (k # p) \<noteq> 0" for t
        using Suc.IH [OF that(1,2) ino kp that(3) fb'] True by (simp only:)
      have "mapped io F s True (\<lambda>s'. node s' ino r (digs i fb' (k # p))) (bmap_levels io ino (Suc i) fb (node s ino r p) doalloc s)"
        unfolding st
        by (rule alloc_step [OF ok l ino kp(1) _ Suc.prems(6) z]) (simp add: place_def, rule IH)
      then show ?thesis using True by (simp only: dg)
    qed
  qed
qed

lemma digs_unfold:
  "digs 1 k [] = [k]" "digs 2 k [] = [k mod 128, k div 128]"
  "digs 3 k [] = [k mod 16384 mod 128, k mod 16384 div 128, k div 16384]"
proof -
  have d: "digs (Suc 0) k p = k # p" for k p by simp
  have d2: "digs (Suc (Suc 0)) k p = [k mod 128, k div 128] @ p" for k p
    unfolding digs.simps(2) [of "Suc 0"] d by (simp add: minus_div_mult_eq_mod)
  show "digs 1 k [] = [k]" "digs 2 k [] = [k mod 128, k div 128]"
    using d d2 [of k "[]"] by (simp_all add: numeral_2_eq_2)
  have "digs (Suc (Suc (Suc 0))) k [] = digs (Suc (Suc 0)) (k mod 16384) [k div 16384]"
    unfolding digs.simps(2) [of "Suc (Suc 0)"] by (simp add: minus_div_mult_eq_mod del: digs.simps)
  then show "digs 3 k [] = [k mod 16384 mod 128, k mod 16384 div 128, k div 16384]"
    by (simp only: numeral_3_eq_3 d2 append.simps)
qed

lemma leaf_digs:
  "fb < 15 \<Longrightarrow> leaf fb = (fb, digs 0 fb [])"
  "15 \<le> fb \<Longrightarrow> fb < 143 \<Longrightarrow> leaf fb = (15, digs 1 (fb - 15) [])"
  "143 \<le> fb \<Longrightarrow> fb < 16527 \<Longrightarrow> leaf fb = (16, digs 2 (fb - 143) [])"
  "16527 \<le> fb \<Longrightarrow> leaf fb = (17, digs 3 (fb - 16527) [])"
  by (simp_all only: leaf_cases digs_unfold digs.simps(1))

text \<open>The three indirect trees: block \<open>k\<close> of the tree with \<open>i\<close> levels.\<close>

lemma indirect_ok:
  assumes ok: "sfs_ok F s" and l: "\<not> bitlock s" and ino: "ino \<in> F" and i: "0 < i" "i \<le> 3" and k: "k < 128 ^ i"
  defines "next \<equiv> ptr (disk s ino) (sfi_indirect i)"
  shows "mapped io F s doalloc (\<lambda>s'. node s' ino (14 + i) (digs i k []))
    (if next = 0 \<and> \<not> doalloc then Some (Inr 0, s)
     else if next = 0 then do {
       (res, s') \<leftarrow> sfs_balloc io s;
       (case res of
          Inl e \<Rightarrow> Some (Inl e, s')
        | Inr b \<Rightarrow> bmap_levels io ino i k b doalloc
            (check_and_record (Rec_inode ino i True 0 b) (set_ptr ino (sfi_indirect i) b s'))) }
     else (case io next of
         Some e \<Rightarrow> Some (Inl e, s)
       | None \<Rightarrow> bmap_levels io ino i k next doalloc s))" (is "mapped io F s doalloc ?wh ?res")
proof -
  have nx: "next = node s ino (14 + i) []" by (simp add: next_def sfi_indirect_def)
  have p: "path (14 + i) []" "length ([] :: nat list) + i = depth (14 + i)" using i by (auto simp: path_def depth_def)
  have pl: "place s ino (14 + i) [] = (ino, sfi_indirect i)" by (simp add: place_def sfi_indirect_def)
  have ino0: "ino \<noteq> 0" using sfs_okD(7) [OF ok ino] by simp
  have lv: "mapped io F t doalloc ?wh (bmap_levels io ino i k (node t ino (14 + i) []) doalloc t)"
    if "sfs_ok F t" "\<not> bitlock t" "node t ino (14 + i) [] \<noteq> 0" for t
    by (rule bmap_levels_ok [OF that(1,2) ino p that(3) k])
  consider "next = 0" "\<not> doalloc" | "next = 0" doalloc | "next \<noteq> 0" "io next = None" | e where "next \<noteq> 0" "io next = Some e"
    by (cases "io next") blast+
  then show ?thesis
  proof cases
    case 1
    then show ?thesis using digs_zero [of s ino "14 + i" "[]" i k] ok l nx by (simp add: mapped_def)
  next
    case 2
    have d: "doalloc = True" using 2 by simp
    have "mapped io F s True ?wh (do {
       (res, s') \<leftarrow> sfs_balloc io s;
       (case res of
          Inl e \<Rightarrow> Some (Inl e, s')
        | Inr b \<Rightarrow> bmap_levels io ino i k b True
            (check_and_record (Rec_inode ino i True 0 b) (set_ptr ino (sfi_indirect i) b s'))) })"
      by (rule alloc_step [OF ok l ino p(1) pl ino0]) (use 2 nx lv d in simp_all)
    then show ?thesis unfolding d using 2(1) by (simp only: simp_thms if_True if_False)
  next
    case 3
    then show ?thesis using lv [OF ok l] nx by simp
  next
    case 4
    then show ?thesis using mapped_error(3) [OF ok l, of io _ e, OF 4(2)] by simp
  qed
qed

lemma direct_ok:
  assumes ok: "sfs_ok F s" and l: "\<not> bitlock s" and ino: "ino \<in> F" and k: "k < 15"
  defines "block \<equiv> ptr (disk s ino) (sfi_direct k)"
  shows "mapped io F s doalloc (\<lambda>s'. node s' ino k (digs 0 k []))
    (if block = 0 \<and> doalloc then do {
       (res, s') \<leftarrow> sfs_balloc io s;
       (case res of
          Inl e \<Rightarrow> Some (Inl e, s')
        | Inr b \<Rightarrow> bmap_levels io ino 0 k b doalloc
            (check_and_record (Rec_inode ino 0 False k b) (set_ptr ino (sfi_direct k) b s'))) }
     else bmap_levels io ino 0 k block doalloc s)" (is "mapped io F s doalloc ?wh ?res")
proof -
  have nx: "block = node s ino k []" by (simp add: block_def sfi_direct_def)
  have p: "path k []" using k by (simp add: path_def)
  have pl: "place s ino k [] = (ino, sfi_direct k)" by (simp add: place_def sfi_direct_def)
  have ino0: "ino \<noteq> 0" using sfs_okD(7) [OF ok ino] by simp
  have lv: "mapped io F t doalloc ?wh (bmap_levels io ino 0 k (node t ino k []) doalloc t)"
    if "sfs_ok F t" "\<not> bitlock t" "node t ino k [] \<noteq> 0" for t
    using bused_node [OF that(1,2) ino p that(3)] that by (simp add: mapped_def)
  consider "block = 0" "\<not> doalloc" | "block = 0" doalloc | "block \<noteq> 0" by blast
  then show ?thesis
  proof cases
    case 1
    then show ?thesis using ok l nx by (simp add: mapped_def)
  next
    case 2
    have d: "doalloc = True" using 2 by simp
    have "mapped io F s True ?wh (do {
       (res, s') \<leftarrow> sfs_balloc io s;
       (case res of
          Inl e \<Rightarrow> Some (Inl e, s')
        | Inr b \<Rightarrow> bmap_levels io ino 0 k b True
            (check_and_record (Rec_inode ino 0 False k b) (set_ptr ino (sfi_direct k) b s'))) })"
      by (rule alloc_step [OF ok l ino p pl ino0]) (use 2 nx lv d in simp_all)
    then show ?thesis unfolding d using 2(1) by (simp only: simp_thms if_True if_False)
  next
    case 3
    then show ?thesis using lv [OF ok l] nx by simp
  qed
qed

lemma leaf_fblock: "leaf fb = (r, p) \<Longrightarrow> fblock s ino fb = node s ino r p"
  by (simp add: fblock_def)

lemma sfs_bmap_direct:
  assumes "fb < 15"
  defines "block s \<equiv> \<lambda>ino. ptr (disk s ino) (sfi_direct fb)"
  shows "sfs_bmap io ino fb doalloc s =
    (if block s ino = 0 \<and> doalloc then do {
       (res, s') \<leftarrow> sfs_balloc io s;
       (case res of
          Inl e \<Rightarrow> Some (Inl e, s')
        | Inr b \<Rightarrow> bmap_levels io ino 0 fb b doalloc
            (check_and_record (Rec_inode ino 0 False fb b) (set_ptr ino (sfi_direct fb) b s'))) }
     else bmap_levels io ino 0 fb (block s ino) doalloc s)"
  using assms(1) unfolding sfs_bmap_def block_def Let_def
  by (simp only: SFS_NDIRECT_def SFS_DBPERIDB_def) (simp del: bmap_levels.simps)

lemma sfs_bmap_indirect:
  assumes "15 \<le> fb" "fb < MAXBLOCKS"
    and ik: "(i, k) = (if fb \<ge> 16527 then (3, fb - 16527) else if fb \<ge> 143 then (2, fb - 143) else (1, fb - 15))"
  defines "next s \<equiv> \<lambda>ino. ptr (disk s ino) (sfi_indirect i)"
  shows "sfs_bmap io ino fb doalloc s =
    (if next s ino = 0 \<and> \<not> doalloc then Some (Inr 0, s)
     else if next s ino = 0 then do {
       (res, s') \<leftarrow> sfs_balloc io s;
       (case res of
          Inl e \<Rightarrow> Some (Inl e, s')
        | Inr b \<Rightarrow> bmap_levels io ino i k b doalloc
            (check_and_record (Rec_inode ino i True 0 b) (set_ptr ino (sfi_indirect i) b s'))) }
     else (case io (next s ino) of
         Some e \<Rightarrow> Some (Inl e, s)
       | None \<Rightarrow> bmap_levels io ino i k (next s ino) doalloc s))"
proof -
  have c: "\<not> 2113679 \<le> fb" "\<not> fb < 15" using assms(1,2) by (simp_all add: MAXBLOCKS_def)
  have e: "(if fb - 15 \<ge> 16512 then (3, fb - 15 - 16512) else if fb - 15 \<ge> 128 then (2, fb - 15 - 128) else (1, fb - 15)) = (i, k)"
    unfolding ik using assms(1) by auto
  have u: "SFS_NDIRECT + SFS_DBPERIDB + SFS_DBPERIDB * SFS_DBPERIDB + SFS_DBPERIDB * SFS_DBPERIDB * SFS_DBPERIDB = 2113679"
      "SFS_DBPERIDB + SFS_DBPERIDB * SFS_DBPERIDB = 16512" by (simp_all add: SFS_NDIRECT_def SFS_DBPERIDB_def)
  show ?thesis
    unfolding sfs_bmap_def Let_def u
    unfolding SFS_DBPERIDB_def SFS_NDIRECT_def e next_def
    by (simp only: c if_False prod.case)
qed

lemma sfs_bmap_ok:
  assumes ok: "sfs_ok F s" and l: "\<not> bitlock s" and ino: "ino \<in> F" and fb: "fb < MAXBLOCKS"
  shows "mapped io F s doalloc (\<lambda>s'. fblock s' ino fb) (sfs_bmap io ino fb doalloc s)"
proof -
  consider "fb < 15" | "15 \<le> fb" "fb < 143" | "143 \<le> fb" "fb < 16527" | "16527 \<le> fb" by linarith
  then show ?thesis
  proof cases
    case 1
    show ?thesis
      unfolding leaf_fblock [OF leaf_digs(1) [OF 1]] sfs_bmap_direct [OF 1] by (rule direct_ok [OF ok l ino 1])
  next
    case 2
    have ik: "(1, fb - 15) = (if fb \<ge> 16527 then (3, fb - 16527) else if fb \<ge> 143 then (2, fb - 143) else (1, fb - 15))"
      using 2 by simp
    have k: "fb - 15 < 128 ^ 1" using 2 by simp
    show ?thesis
      unfolding leaf_fblock [OF leaf_digs(2) [OF 2]] sfs_bmap_indirect [OF 2(1) fb ik]
      using indirect_ok [OF ok l ino _ _ k, of io doalloc] by simp
  next
    case 3
    have ik: "(2, fb - 143) = (if fb \<ge> 16527 then (3, fb - 16527) else if fb \<ge> 143 then (2, fb - 143) else (1, fb - 15))"
      using 3 by simp
    have k: "fb - 143 < 128 ^ 2" using 3 by simp
    have g: "15 \<le> fb" using 3 by simp
    show ?thesis
      unfolding leaf_fblock [OF leaf_digs(3) [OF 3]] sfs_bmap_indirect [OF g fb ik]
      using indirect_ok [OF ok l ino _ _ k, of io doalloc] by simp
  next
    case 4
    have ik: "(3, fb - 16527) = (if fb \<ge> 16527 then (3, fb - 16527) else if fb \<ge> 143 then (2, fb - 143) else (1, fb - 15))"
      using 4 by simp
    have k: "fb - 16527 < 128 ^ 3" using 4 fb by (simp add: MAXBLOCKS_def)
    have g: "15 \<le> fb" using 4 by simp
    show ?thesis
      unfolding leaf_fblock [OF leaf_digs(4) [OF 4]] sfs_bmap_indirect [OF g fb ik]
      using indirect_ok [OF ok l ino _ _ k, of io doalloc] by simp
  qed
qed

section \<open>Writing a data block\<close>

lemma node_write:
  assumes ok: "sfs_ok F s" and ino: "ino \<in> F" and fb: "fb < MAXBLOCKS" and b: "fblock s ino fb \<noteq> 0"
    and d: "disk s' = (disk s)(fblock s ino fb := c)" and i: "ino' \<in> F" and p: "path r' p'"
  shows "node s' ino' r' p' = node s ino' r' p'"
  using p
proof (induction p')
  obtain r q where l: "leaf fb = (r, q)" by fastforce
  note P = leaf_path [OF fb l]
  have nz: "node s ino r q \<noteq> 0" using b by (simp add: leaf_fblock [OF l])
  {
    case Nil
    have "fblock s ino fb \<noteq> ino'" using sfs_okD(8) [OF ok ino _ nz] P i by (auto simp: leaf_fblock [OF l])
    then show ?case using d by simp
  next
    case (Cons k p')
    have pp: "path r' p'" "length p' < depth r'" using path_tl [OF Cons.prems] by auto
    have "node s ino' r' p' \<noteq> fblock s ino fb"
    proof
      assume "node s ino' r' p' = fblock s ino fb"
      then have "ino = ino' \<and> r = r' \<and> q = p'"
        using sfs_okD(9) [OF ok ino i _ pp(1) nz] P by (simp add: leaf_fblock [OF l])
      then show False using P pp by simp
    qed
    then show ?case using Cons.IH [OF pp(1)] d by simp
  }
qed

text \<open>What writing \<open>bs\<close> at \<open>off\<close> does to the files.\<close>

definition wrote :: "nat set \<Rightarrow> nat \<Rightarrow> nat \<Rightarrow> block \<Rightarrow> sfs \<Rightarrow> sfs \<Rightarrow> bool" where
  "wrote F ino off bs s s' \<longleftrightarrow> sfs_ok F s' \<and> (\<forall>i \<in> F. file_size s' i = file_size s i \<and> file_attr s' i = file_attr s i \<and>
    (\<forall>pos < MAXBYTES. file_byte s' i pos =
       (if i = ino \<and> off \<le> pos \<and> pos < off + length bs then bs ! (pos - off) else file_byte s i pos)))"

lemma wrote_same: "sfs_ok F s' \<Longrightarrow> same_files F s s' \<Longrightarrow> wrote F ino off [] s s'"
  by (auto simp: wrote_def same_files_def)

lemma wrote_append:
  assumes "wrote F ino off bs s t" "wrote F ino (off + length bs) cs t u"
  shows "wrote F ino off (bs @ cs) s u"
  using assms unfolding wrote_def by (auto simp: nth_append)

lemma length_splice: "i + length bs \<le> length b \<Longrightarrow> length (splice i bs b) = length b"
  by (simp add: splice_def)

lemma nth_splice:
  "i + length bs \<le> length b \<Longrightarrow> j < length b \<Longrightarrow>
    splice i bs b ! j = (if i \<le> j \<and> j < i + length bs then bs ! (j - i) else b ! j)"
  by (auto simp: splice_def nth_append)

lemma block_range:
  assumes "off mod 512 + n \<le> (512 :: nat)"
  shows "off \<le> pos \<and> pos < off + n \<longleftrightarrow>
    pos div 512 = off div 512 \<and> off mod 512 \<le> pos mod 512 \<and> pos mod 512 < off mod 512 + n"
    "off \<le> pos \<Longrightarrow> pos < off + n \<Longrightarrow> pos - off = pos mod 512 - off mod 512"
proof -
  have o: "off = 512 * (off div 512) + off mod 512" and p: "pos = 512 * (pos div 512) + pos mod 512" by simp_all
  have l: "off mod 512 < 512" "pos mod 512 < 512" by simp_all
  have q: "pos div 512 = off div 512" if "off \<le> pos" "pos < off + n"
    using that o p l assms by linarith
  show "off \<le> pos \<and> pos < off + n \<longleftrightarrow>
    pos div 512 = off div 512 \<and> off mod 512 \<le> pos mod 512 \<and> pos mod 512 < off mod 512 + n"
  proof
    assume a: "off \<le> pos \<and> pos < off + n"
    then show "pos div 512 = off div 512 \<and> off mod 512 \<le> pos mod 512 \<and> pos mod 512 < off mod 512 + n"
      using q o p by linarith
  next
    assume "pos div 512 = off div 512 \<and> off mod 512 \<le> pos mod 512 \<and> pos mod 512 < off mod 512 + n"
    then show "off \<le> pos \<and> pos < off + n" using o p by linarith
  qed
  show "off \<le> pos \<Longrightarrow> pos < off + n \<Longrightarrow> pos - off = pos mod 512 - off mod 512"
    using q o p by linarith
qed

lemma data_write_ok:
  assumes ok: "sfs_ok F s" and ino: "ino \<in> F" and fb: "off div 512 < MAXBLOCKS" and b: "fblock s ino (off div 512) \<noteq> 0"
    and n: "off mod 512 + length bs \<le> 512"
  defines "b \<equiv> fblock s ino (off div 512)"
  shows "wrote F ino off bs s (set_block b (splice (off mod 512) bs (disk s b)) s)" (is "wrote F ino off bs s ?s'")
proof -
  let ?c = "splice (off mod 512) bs (disk s b)"
  have d: "disk ?s' = (disk s)(fblock s ino (off div 512) := ?c)" by (simp add: set_block_def b_def)
  note N = node_write [OF ok ino fb b d]
  have len: "length ?c = 512" using length_splice n sfs_okD(1) [OF ok] by simp
  obtain r q where l: "leaf (off div 512) = (r, q)" by fastforce
  note P = leaf_path [OF fb l]
  have bq: "b = node s ino r q" "node s ino r q \<noteq> 0" using b by (simp_all add: b_def leaf_fblock [OF l])
  have bF: "b \<notin> F" using sfs_okD(8) [OF ok ino _ bq(2)] P bq(1) by simp
  have "map_ok F ?s'" using ok len by (simp add: sfs_ok_def map_ok_def set_block_def)
  moreover have "nodes_ok F ?s'"
    unfolding nodes_ok_def using sfs_okD(8) [OF ok] N by (simp add: set_block_def)
  moreover have "nodes_distinct F ?s'"
    unfolding nodes_distinct_def
  proof (intro allI impI)
    fix i1 i2 r1 r2 p1 p2
    assume a: "i1 \<in> F" "i2 \<in> F" "path r1 p1" "path r2 p2" "node ?s' i1 r1 p1 \<noteq> 0" "node ?s' i1 r1 p1 = node ?s' i2 r2 p2"
    show "i1 = i2 \<and> r1 = r2 \<and> p1 = p2"
      by (rule sfs_okD(9) [OF ok a(1-4)]) (use a(5,6) N [OF a(1,3)] N [OF a(2,4)] in metis)+
  qed
  ultimately have ok': "sfs_ok F ?s'" by (simp add: sfs_ok_def)
  have byte: "file_byte ?s' i pos = (if i = ino \<and> off \<le> pos \<and> pos < off + length bs then bs ! (pos - off) else file_byte s i pos)"
    if i: "i \<in> F" and pos: "pos < MAXBYTES" for i pos
  proof -
    obtain r' p' where l': "leaf (pos div 512) = (r', p')" by fastforce
    note P' = leaf_path [OF pos_block [OF pos] l']
    have fbl: "fblock ?s' i (pos div 512) = fblock s i (pos div 512)"
      using N [OF i] P' by (simp add: leaf_fblock [OF l'])
    show ?thesis
    proof (cases "i = ino \<and> pos div 512 = off div 512")
      case True
      then have "file_byte ?s' i pos = ?c ! (pos mod 512)" "file_byte s i pos = disk s b ! (pos mod 512)"
        using fbl b by (simp_all add: file_byte_def b_def set_block_def)
      moreover have "?c ! (pos mod 512) = (if off mod 512 \<le> pos mod 512 \<and> pos mod 512 < off mod 512 + length bs
          then bs ! (pos mod 512 - off mod 512) else disk s b ! (pos mod 512))"
        using nth_splice [of "off mod 512" bs "disk s b" "pos mod 512"] n sfs_okD(1) [OF ok] by simp
      ultimately show ?thesis using True block_range [OF n, of pos] by auto
    next
      case False
      have ne: "fblock s i (pos div 512) \<noteq> b"
      proof
        assume "fblock s i (pos div 512) = b"
        then have e: "node s ino r q = node s i r' p'" by (simp only: leaf_fblock [OF l'] bq(1))
        have same: "ino = i \<and> r = r' \<and> q = p'"
          by (rule sfs_okD(9) [OF ok ino i conjunct1 [OF P] conjunct1 [OF P'] bq(2) e])
        then have "leaf (pos div 512) = leaf (off div 512)" using l l' by simp
        then show False using leaf_inj False same by blast
      qed
      have "\<not> (i = ino \<and> off \<le> pos \<and> pos < off + length bs)" using block_range(1) [OF n, of pos] False by blast
      moreover have "file_byte ?s' i pos = file_byte s i pos" using fbl ne by (simp add: file_byte_def set_block_def)
      ultimately show ?thesis by (simp only: if_False)
    qed
  qed
  have "disk ?s' i = disk s i" if "i \<in> F" for i using that bF by (auto simp: set_block_def)
  then show ?thesis unfolding wrote_def using ok' byte by (simp add: file_size_def file_attr_def)
qed

section \<open>Reading and writing\<close>

text \<open>\<open>k\<close> bytes moved: for a read the bytes of the file, for a write those of the caller.\<close>

definition moved :: "nat set \<Rightarrow> nat \<Rightarrow> uio \<Rightarrow> sfs \<Rightarrow> nat \<Rightarrow> uio \<Rightarrow> sfs \<Rightarrow> bool" where
  "moved F ino u s k u' s' \<longleftrightarrow> uio_rw u' = uio_rw u \<and> uio_offset u' = uio_offset u + k \<and> uio_resid u' = uio_resid u - k \<and>
    (case uio_rw u of
       UIO_READ \<Rightarrow> s' = s \<and> data u' = data u @ map (file_byte s ino) [uio_offset u..<uio_offset u + k]
     | UIO_WRITE \<Rightarrow> data u' = drop k (data u) \<and> wrote F ino (uio_offset u) (take k (data u)) s s')"

definition io_done :: "(nat \<Rightarrow> errno option) \<Rightarrow> nat set \<Rightarrow> nat \<Rightarrow> nat \<Rightarrow> uio \<Rightarrow> sfs \<Rightarrow> (errno option \<times> uio \<times> sfs) option \<Rightarrow> bool" where
  "io_done io F ino len u s res \<longleftrightarrow> (case res of
     None \<Rightarrow> False
   | Some (r, u', s') \<Rightarrow> \<exists>k \<le> len. moved F ino u s k u' s' \<and>
       (case r of None \<Rightarrow> k = len \<and> \<not> bitlock s' | Some e \<Rightarrow> failed io (uio_rw u = UIO_WRITE) s' e))"

definition io_ready :: "nat set \<Rightarrow> nat \<Rightarrow> uio \<Rightarrow> sfs \<Rightarrow> bool" where
  "io_ready F ino u s \<longleftrightarrow> sfs_ok F s \<and> \<not> bitlock s \<and> ino \<in> F \<and> uio_offset u + uio_resid u \<le> MAXBYTES \<and>
    (uio_rw u = UIO_WRITE \<longrightarrow> length (data u) = uio_resid u)"

lemma moved_trans:
  assumes "io_ready F ino u s" "moved F ino u s j u1 s1" "moved F ino u1 s1 k u2 s2" "j + k \<le> uio_resid u"
  shows "moved F ino u s (j + k) u2 s2"
proof (cases "uio_rw u")
  case UIO_READ
  have "[uio_offset u..<uio_offset u + j] @ [uio_offset u + j..<uio_offset u + j + k] = [uio_offset u..<uio_offset u + (j + k)]"
    using upt_add_eq_append [of "uio_offset u" "uio_offset u + j" k] by (simp add: add.assoc)
  then have "map h [uio_offset u..<uio_offset u + (j + k)] =
      map h [uio_offset u..<uio_offset u + j] @ map h [uio_offset u + j..<uio_offset u + j + k]" for h :: "nat \<Rightarrow> 8 word"
    by (metis map_append)
  then show ?thesis using assms(2-4) UIO_READ by (simp add: moved_def)
next
  case UIO_WRITE
  then have w: "length (data u) = uio_resid u" using assms(1) by (simp add: io_ready_def)
  have "wrote F ino (uio_offset u) (take j (data u) @ take k (drop j (data u))) s s2"
    by (rule wrote_append [where t = s1]) (use assms(2-4) UIO_WRITE w in \<open>simp_all add: moved_def\<close>)
  then show ?thesis using assms(2-4) UIO_WRITE by (simp add: moved_def take_add add.commute)
qed

lemma moved_ready:
  assumes "io_ready F ino u s" "moved F ino u s k u' s'" "k \<le> uio_resid u" "\<not> bitlock s'"
  shows "io_ready F ino u' s'"
  using assms by (cases "uio_rw u") (simp_all add: io_ready_def moved_def wrote_def)

lemma io_doneE:
  assumes "io_done io F ino len u s res"
  obtains r u' s' k where "res = Some (r, u', s')" "k \<le> len" "moved F ino u s k u' s'"
    "case r of None \<Rightarrow> k = len \<and> \<not> bitlock s' | Some e \<Rightarrow> failed io (uio_rw u = UIO_WRITE) s' e"
proof (cases res)
  case None
  then show thesis using assms by (simp add: io_done_def)
next
  case (Some x)
  obtain r u' s' where x: "x = (r, u', s')" by (cases x)
  have "\<exists>k \<le> len. moved F ino u s k u' s' \<and> (case r of None \<Rightarrow> k = len \<and> \<not> bitlock s' | Some e \<Rightarrow> failed io (uio_rw u = UIO_WRITE) s' e)"
    using assms by (simp add: Some x io_done_def)
  then show thesis using that Some x by blast
qed

lemma io_done_then:
  assumes r: "io_ready F ino u s" and d: "io_done io F ino j u s res" and jk: "j + k \<le> uio_resid u"
    and g: "\<And>u' s'. io_ready F ino u' s' \<Longrightarrow> uio_offset u' = uio_offset u + j \<Longrightarrow> uio_resid u' = uio_resid u - j \<Longrightarrow>
      uio_rw u' = uio_rw u \<Longrightarrow> io_done io F ino k u' s' (g u' s')"
  shows "io_done io F ino (j + k) u s (do { (r, u', s') \<leftarrow> res; if r \<noteq> None then Some (r, u', s') else g u' s' })"
proof -
  from d obtain e u1 s1 i where res: "res = Some (e, u1, s1)" and i: "i \<le> j" "moved F ino u s i u1 s1"
      "case e of None \<Rightarrow> i = j \<and> \<not> bitlock s1 | Some e \<Rightarrow> failed io (uio_rw u = UIO_WRITE) s1 e"
    by (rule io_doneE)
  show ?thesis
  proof (cases e)
    case (Some x)
    then have "\<exists>n \<le> j + k. moved F ino u s n u1 s1 \<and> failed io (uio_rw u = UIO_WRITE) s1 x"
      using i by (intro exI [of _ i]) simp
    then show ?thesis using Some by (simp add: io_done_def res)
  next
    case None
    then have m: "moved F ino u s j u1 s1" "\<not> bitlock s1" using i by auto
    have rd: "io_ready F ino u1 s1" using moved_ready [OF r m(1) _ m(2)] jk by simp
    have "io_done io F ino k u1 s1 (g u1 s1)" by (rule g [OF rd]) (use m(1) in \<open>simp_all add: moved_def\<close>)
    then obtain e2 u2 s2 n where res2: "g u1 s1 = Some (e2, u2, s2)" and n: "n \<le> k" "moved F ino u1 s1 n u2 s2"
        "case e2 of None \<Rightarrow> n = k \<and> \<not> bitlock s2 | Some e \<Rightarrow> failed io (uio_rw u1 = UIO_WRITE) s2 e"
      by (rule io_doneE)
    have rw: "uio_rw u1 = uio_rw u" using m(1) by (simp add: moved_def)
    have "moved F ino u s (j + n) u2 s2" by (rule moved_trans [OF r m(1) n(2)]) (use n(1) jk in simp)
    then have "\<exists>x \<le> j + k. moved F ino u s x u2 s2 \<and> (case e2 of None \<Rightarrow> x = j + k \<and> \<not> bitlock s2 | Some e \<Rightarrow> failed io (uio_rw u = UIO_WRITE) s2 e)"
      using n by (intro exI [of _ "j + n"]) (auto simp: rw split: option.splits)
    then show ?thesis using None res2 by (simp add: io_done_def res)
  qed
qed

lemma io_done_nothing: "io_ready F ino u s \<Longrightarrow> io_done io F ino 0 u s (Some (None, u, s))"
  by (cases "uio_rw u") (auto simp: io_done_def moved_def io_ready_def intro: wrote_same)

lemma read_block:
  assumes "off mod 512 + len \<le> 512" "length (disk s (fblock s ino (off div 512))) = 512"
  shows "map (file_byte s ino) [off..<off + len] =
    (if fblock s ino (off div 512) = 0 then replicate len 0
     else take len (drop (off mod 512) (disk s (fblock s ino (off div 512)))))" (is "_ = ?b")
proof (rule nth_equalityI)
  show "length (map (file_byte s ino) [off..<off + len]) = length ?b" using assms by simp
  fix j assume "j < length (map (file_byte s ino) [off..<off + len])"
  then have j: "j < len" by simp
  have r: "(off + j) div 512 = off div 512" using block_range(1) [OF assms(1), of "off + j"] j by auto
  have m: "(off + j) mod 512 = off mod 512 + j" using r div_mult_mod_eq [of off 512] div_mult_mod_eq [of "off + j" 512] by linarith
  show "map (file_byte s ino) [off..<off + len] ! j = ?b ! j"
    using j assms by (simp add: file_byte_def r m)
qed

lemma fileblock_ok:
  assumes "off < MAXBYTES"
  shows "off div SFS_BLOCKSIZE mod 2 ^ 32 = off div 512" "off div 512 < MAXBLOCKS"
proof -
  show l: "off div 512 < MAXBLOCKS" by (rule pos_block [OF assms])
  have "MAXBLOCKS < 2 ^ 32" by (simp add: MAXBLOCKS_def)
  then show "off div SFS_BLOCKSIZE mod 2 ^ 32 = off div 512" using l by (simp add: SFS_BLOCKSIZE_def)
qed

lemma mappedE:
  assumes "mapped io F s doalloc wh res"
  obtains (err) e s' where "res = Some (Inl e, s')" "sfs_ok F s'" "same_files F s s'" "\<not> doalloc \<longrightarrow> s' = s" "failed io doalloc s' e"
    | (found) s' where "res = Some (Inr (wh s'), s')" "sfs_ok F s'" "same_files F s s'" "\<not> doalloc \<longrightarrow> s' = s" "\<not> bitlock s'" "doalloc \<longrightarrow> wh s' \<noteq> 0"
proof (cases res)
  case None
  then show thesis using assms by (simp add: mapped_def)
next
  case (Some x)
  obtain r s' where x: "x = (r, s')" by (cases x)
  show thesis
  proof (cases r)
    case (Inl e)
    then show thesis using assms err Some x by (simp add: mapped_def)
  next
    case (Inr b)
    then have m: "sfs_ok F s'" "same_files F s s'" "\<not> doalloc \<longrightarrow> s' = s" "\<not> bitlock s'" "doalloc \<longrightarrow> wh s' \<noteq> 0" "b = wh s'"
      using assms Some x by (auto simp: mapped_def)
    show thesis by (rule found [OF _ m(1-5)]) (use Some x Inr m(6) in simp)
  qed
qed

text \<open>An error before any byte is moved.\<close>

lemma io_done_error:
  assumes "io_ready F ino u s" "sfs_ok F s'" "same_files F s s'" "uio_rw u \<noteq> UIO_WRITE \<longrightarrow> s' = s" "failed io (uio_rw u = UIO_WRITE) s' e"
  shows "io_done io F ino len u s (Some (Some e, u, s'))"
proof -
  have "moved F ino u s 0 u s'"
    using assms by (cases "uio_rw u") (auto simp: moved_def intro: wrote_same)
  then have "\<exists>k \<le> len. moved F ino u s k u s' \<and> failed io (uio_rw u = UIO_WRITE) s' e" using assms(5) by blast
  then show ?thesis by (simp add: io_done_def)
qed

lemma io_done_all:
  assumes "moved F ino u s len u' s'" "\<not> bitlock s'"
  shows "io_done io F ino len u s (Some (None, u', s'))"
  using assms by (auto simp: io_done_def)

lemma partialio_ok:
  assumes r: "io_ready F ino u s" and len: "len \<le> uio_resid u" and off: "uio_offset u < MAXBYTES"
    and blk: "uio_offset u mod 512 + len \<le> 512"
  shows "io_done io F ino len u s (sfs_partialio io ino (uio_offset u mod 512) len u s)"
proof -
  let ?o = "uio_offset u"
  have ok: "sfs_ok F s" and l: "\<not> bitlock s" and ino: "ino \<in> F" using r by (simp_all add: io_ready_def)
  note fb = fileblock_ok [OF off]
  have K: "?o mod 512 + len \<le> SFS_BLOCKSIZE" using blk by (simp add: SFS_BLOCKSIZE_def)
  show ?thesis
  proof (cases rule: mappedE [OF sfs_bmap_ok [OF ok l ino fb(2), of io "uio_rw u = UIO_WRITE"]])
    case (1 e s')
    then have "sfs_partialio io ino (?o mod 512) len u s = Some (Some e, u, s')"
      using K unfolding sfs_partialio_def Let_def fb(1) by simp
    then show ?thesis using io_done_error [OF r 1(2,3) _ 1(5), of len] 1(4) by (simp only: simp_thms)
  next
    case (2 s')
    let ?b = "fblock s' ino (?o div 512)"
    have p: "sfs_partialio io ino (?o mod 512) len u s =
       (if ?b = 0 then do {
           KASSERT (uio_rw u = UIO_READ);
           Some (None, uiomovezeros len u, s') }
         else (case io ?b of
             Some e \<Rightarrow> Some (Some e, u, s')
           | None \<Rightarrow>
               if uio_rw u = UIO_READ
               then Some (None, uiomove_read (take len (drop (?o mod 512) (disk s' ?b))) u, s')
               else let (bs, u) = uiomove_write len u
                    in Some (None, u, set_block ?b (splice (?o mod 512) bs (disk s' ?b)) s')))"
      using K 2(1) unfolding sfs_partialio_def Let_def fb(1) by simp
    show ?thesis
    proof (cases "uio_rw u")
      case UIO_READ
      then have s': "s' = s" using 2(4) by simp
      note rb = read_block [OF blk sfs_okD(1) [OF ok], of ino]
      show ?thesis
      proof (cases "?b = 0")
        case True
        then have "sfs_partialio io ino (?o mod 512) len u s = Some (None, uiomovezeros len u, s)"
          using p UIO_READ s' by simp
        then show ?thesis using UIO_READ l rb True len s'
          by (auto intro!: io_done_all simp: moved_def uiomovezeros_def uiomove_read_def min_def)
      next
        case False
        have n: "min (length (take len (drop (?o mod 512) (disk s ?b)))) (uio_resid u) = len"
          using sfs_okD(1) [OF ok] blk len by simp
        show ?thesis
        proof (cases "io ?b")
          case None
          then have "sfs_partialio io ino (?o mod 512) len u s = Some (None, uiomove_read (take len (drop (?o mod 512) (disk s ?b))) u, s)"
            using p UIO_READ s' False by simp
          moreover have "moved F ino u s len (uiomove_read (take len (drop (?o mod 512) (disk s ?b))) u) s"
            unfolding moved_def uiomove_read_def Let_def n using UIO_READ rb False s' by simp
          ultimately show ?thesis using io_done_all l by simp
        next
          case (Some e)
          then have "sfs_partialio io ino (?o mod 512) len u s = Some (Some e, u, s)" using p s' False by simp
          then show ?thesis using io_done_error [OF r ok same_files_refl, of io e len] l Some s' by (auto simp: failed_def)
        qed
      qed
    next
      case UIO_WRITE
      then have b: "?b \<noteq> 0" and w: "length (data u) = uio_resid u" using 2(6) r by (simp_all add: io_ready_def)
      show ?thesis
      proof (cases "io ?b")
        case (Some e)
        then have "sfs_partialio io ino (?o mod 512) len u s = Some (Some e, u, s')" using p b by simp
        then show ?thesis using io_done_error [OF r 2(2,3), of io e len] 2(5) UIO_WRITE Some by (auto simp: failed_def)
      next
        case None
        let ?s = "set_block ?b (splice (?o mod 512) (take len (data u)) (disk s' ?b)) s'"
        let ?u = "u\<lparr>data := drop len (data u), uio_resid := uio_resid u - len, uio_offset := ?o + len\<rparr>"
        have "sfs_partialio io ino (?o mod 512) len u s = Some (None, ?u, ?s)"
          using p b None UIO_WRITE len by (simp add: uiomove_write_def Let_def min_def)
        moreover have "wrote F ino ?o ([] @ take len (data u)) s ?s"
          by (rule wrote_append [OF wrote_same [OF 2(2,3)]])
            (use data_write_ok [OF 2(2) ino fb(2) b] blk w len in simp)
        then have "moved F ino u s len ?u ?s" using UIO_WRITE by (simp add: moved_def)
        moreover have "\<not> bitlock ?s" using 2(5) by (simp add: set_block_def)
        ultimately show ?thesis using io_done_all by simp
      qed
    qed
  qed
qed

text \<open>The routine for a whole block does what the one for a part of a block does with 512 bytes.\<close>

lemma blockio_partialio:
  assumes r: "io_ready F ino u s" and al: "uio_offset u mod 512 = 0" and len: "512 \<le> uio_resid u"
  shows "sfs_blockio io ino u s = sfs_partialio io ino (uio_offset u mod 512) 512 u s"
proof -
  have ok: "sfs_ok F s" and l: "\<not> bitlock s" and ino: "ino \<in> F" and off: "uio_offset u < MAXBYTES"
    using r len by (simp_all add: io_ready_def)
  note fb = fileblock_ok [OF off]
  have B: "SFS_BLOCKSIZE = 512" by (simp add: SFS_BLOCKSIZE_def)
  show ?thesis
  proof (cases rule: mappedE [OF sfs_bmap_ok [OF ok l ino fb(2), of io "uio_rw u = UIO_WRITE"]])
    case (1 e s')
    then show ?thesis unfolding sfs_blockio_def sfs_partialio_def Let_def fb(1) al by (simp add: B)
  next
    case (2 s')
    then show ?thesis unfolding sfs_blockio_def sfs_partialio_def Let_def fb(1) al unfolding B
      by (simp add: sfs_okD(1) [OF 2(2)] sfs_okD(1) [OF ok] split: option.split)
  qed
qed

lemma blocks_ok:
  assumes "io_ready F ino u s" "uio_offset u mod 512 = 0" "n * 512 \<le> uio_resid u"
  shows "io_done io F ino (n * 512) u s (sfs_blocks io ino n u s)"
  using assms
proof (induction n arbitrary: u s)
  case 0
  then show ?case using io_done_nothing by simp
next
  case (Suc n)
  have len: "512 \<le> uio_resid u" using Suc.prems(3) by simp
  have off: "uio_offset u < MAXBYTES" using Suc.prems(1) len by (simp add: io_ready_def)
  have b: "io_done io F ino 512 u s (sfs_blockio io ino u s)"
    unfolding blockio_partialio [OF Suc.prems(1,2) len]
    by (rule partialio_ok [OF Suc.prems(1) len off]) (simp add: Suc.prems(2))
  have e: "sfs_blocks io ino (Suc n) u s =
      do { (r, u', s') \<leftarrow> sfs_blockio io ino u s; if r \<noteq> None then Some (r, u', s') else sfs_blocks io ino n u' s' }"
    by (cases "sfs_blockio io ino u s") (auto split: option.splits)
  have "io_done io F ino (512 + n * 512) u s (sfs_blocks io ino (Suc n) u s)"
    unfolding e
    by (rule io_done_then [OF Suc.prems(1) b]) (use Suc.prems(2,3) in \<open>auto intro!: Suc.IH\<close>)
  then show ?case by simp
qed

text \<open>From a block boundary on: the whole blocks, and what remains.\<close>

lemma tail_ok:
  assumes r: "io_ready F ino u s" and al: "uio_offset u mod 512 = 0"
  shows "io_done io F ino (uio_resid u) u s (do {
      (r, u, s) \<leftarrow> sfs_blocks io ino (uio_resid u div SFS_BLOCKSIZE) u s;
      if r \<noteq> None then Some (r, u, s)
      else do {
        KASSERT (uio_resid u < SFS_BLOCKSIZE);
        if uio_resid u > 0 then sfs_partialio io ino 0 (uio_resid u) u s
        else Some (None, u, s) } })"
proof -
  let ?n = "uio_resid u div 512"
  have B: "SFS_BLOCKSIZE = 512" by (simp add: SFS_BLOCKSIZE_def)
  have n: "?n * 512 + uio_resid u mod 512 = uio_resid u" by simp
  have g: "io_done io F ino (uio_resid u mod 512) u' s' (do {
        KASSERT (uio_resid u' < 512);
        if uio_resid u' > 0 then sfs_partialio io ino 0 (uio_resid u') u' s'
        else Some (None, u', s') })"
    if "io_ready F ino u' s'" "uio_offset u' = uio_offset u + ?n * 512" "uio_resid u' = uio_resid u - ?n * 512" for u' s'
  proof -
    have a: "uio_resid u' = uio_resid u mod 512" using that(3) by (simp add: minus_div_mult_eq_mod)
    have m: "uio_offset u' mod 512 = 0" using that(2) al by (simp add: mod_add_eq)
    show ?thesis
    proof (cases "uio_resid u' = 0")
      case True
      then show ?thesis using io_done_nothing [OF that(1)] a by simp
    next
      case False
      have "uio_offset u' < MAXBYTES" using that(1) False by (simp add: io_ready_def)
      from partialio_ok [OF that(1) le_refl this, of io] show ?thesis using False a m by simp
    qed
  qed
  have "io_done io F ino (?n * 512 + uio_resid u mod 512) u s (do {
      (r, u', s') \<leftarrow> sfs_blocks io ino ?n u s;
      if r \<noteq> None then Some (r, u', s')
      else do {
        KASSERT (uio_resid u' < 512);
        if uio_resid u' > 0 then sfs_partialio io ino 0 (uio_resid u') u' s'
        else Some (None, u', s') } })"
    by (rule io_done_then [OF r blocks_ok [OF r al]]) (use n g in simp_all)
  then show ?thesis by (simp only: n B)
qed

lemma sfs_transfer_ok:
  assumes r: "io_ready F ino u s"
  shows "io_done io F ino (uio_resid u) u s (sfs_transfer io ino u s)"
proof -
  let ?o = "uio_offset u mod 512"
  define j where "j = (if ?o \<noteq> 0 then min (512 - ?o) (uio_resid u) else 0)"
  define lead where "lead = (if ?o \<noteq> 0 then sfs_partialio io ino ?o (min (512 - ?o) (uio_resid u)) u s else Some (None, u, s))"
  define rest where "rest u' s' = (if uio_resid u' = 0 then Some (None, u', s')
    else do {
      KASSERT (uio_offset u' mod 512 = 0);
      (r, u, s) \<leftarrow> sfs_blocks io ino (uio_resid u' div SFS_BLOCKSIZE) u' s';
      if r \<noteq> None then Some (r, u, s)
      else do {
        KASSERT (uio_resid u < SFS_BLOCKSIZE);
        if uio_resid u > 0 then sfs_partialio io ino 0 (uio_resid u) u s
        else Some (None, u, s) } })" for u' s'
  have B: "SFS_BLOCKSIZE = 512" by (simp add: SFS_BLOCKSIZE_def)
  have e: "sfs_transfer io ino u s = do { (r, u', s') \<leftarrow> lead; if r \<noteq> None then Some (r, u', s') else rest u' s' }"
    unfolding sfs_transfer_def lead_def rest_def Let_def B ..
  have jle: "j \<le> uio_resid u" by (simp add: j_def)
  have lead: "io_done io F ino j u s lead"
  proof (cases "?o = 0")
    case True
    then show ?thesis using io_done_nothing [OF r] by (simp add: j_def lead_def)
  next
    case False
    have "uio_offset u \<noteq> MAXBYTES" using False by (auto simp: MAXBYTES_def)
    then have "uio_offset u < MAXBYTES" using r by (simp add: io_ready_def)
    from partialio_ok [OF r _ this, of "min (512 - ?o) (uio_resid u)" io] show ?thesis
      using False by (simp add: j_def lead_def)
  qed
  have rest: "io_done io F ino (uio_resid u - j) u' s' (rest u' s')"
    if "io_ready F ino u' s'" "uio_offset u' = uio_offset u + j" "uio_resid u' = uio_resid u - j" for u' s'
  proof (cases "uio_resid u' = 0")
    case True
    then show ?thesis using io_done_nothing [OF that(1)] that(3) by (simp add: rest_def)
  next
    case False
    then have "j = (if ?o \<noteq> 0 then 512 - ?o else 0)" using that(3) by (auto simp: j_def min_def split: if_splits)
    then have al: "uio_offset u' mod 512 = 0"
      using that(2) mod_add_left_eq [of "uio_offset u" 512 "512 - ?o"] by (auto split: if_splits)
    show ?thesis using tail_ok [OF that(1) al, of io] False al that(3) by (simp add: rest_def)
  qed
  have "io_done io F ino (j + (uio_resid u - j)) u s (sfs_transfer io ino u s)"
    unfolding e by (rule io_done_then [OF r lead]) (use jle rest in simp_all)
  then show ?thesis using jle by simp
qed

lemma node_resize:
  assumes ok: "sfs_ok F s" and ino: "ino \<in> F" and d: "disk s' = (disk s)(ino := put32 (disk s ino) 0 w)" and i: "ino' \<in> F" and p: "path r' p'"
  shows "node s' ino' r' p' = node s ino' r' p'"
  using p
proof (induction p')
  case Nil
  then have "get32 (put32 (disk s ino) 0 w) (2 + r') = get32 (disk s ino) (2 + r')"
    using get_put32 [OF sfs_okD(1) [OF ok], of 0 "2 + r'" ino w] by (simp add: path_def)
  then show ?case using d by (simp add: ptr_def)
next
  case (Cons k p')
  have pp: "path r' p'" using path_tl [OF Cons.prems] by simp
  have "node s ino' r' p' \<noteq> ino" using sfs_okD(7) [OF ok ino] sfs_okD(8) [OF ok i pp] ino by metis
  then show ?case using Cons.IH [OF pp] d by simp
qed

text \<open>Setting the size of a file leaves everything else.\<close>

lemma resize_ok:
  fixes rec :: jrec
  assumes ok: "sfs_ok F s" and ino: "ino \<in> F" and n: "n < 2 ^ 32"
  defines "s' \<equiv> check_and_record rec (set_ptr ino sfi_size n s)"
  shows "sfs_ok F s'" "i \<in> F \<Longrightarrow> file_size s' i = (if i = ino then n else file_size s i)"
    "i \<in> F \<Longrightarrow> file_attr s' i = file_attr s i"
    "i \<in> F \<Longrightarrow> pos < MAXBYTES \<Longrightarrow> file_byte s' i pos = file_byte s i pos"
proof -
  have d: "disk s' = (disk s)(ino := put32 (disk s ino) 0 (word_of_nat n))"
    by (simp add: s'_def check_and_record_def set_ptr_def set_block_def sfi_size_def)
  have m: "freemap s' = freemap s" "nblocks s' = nblocks s"
    by (simp_all add: s'_def check_and_record_def set_ptr_def set_block_def)
  note N = node_resize [OF ok ino d]
  have "map_ok F s'" using ok d m by (simp add: sfs_ok_def map_ok_def)
  moreover have "nodes_ok F s'" unfolding nodes_ok_def using sfs_okD(8) [OF ok] N m by simp
  moreover have "nodes_distinct F s'"
    unfolding nodes_distinct_def
  proof (intro allI impI)
    fix i1 i2 r1 r2 p1 p2
    assume a: "i1 \<in> F" "i2 \<in> F" "path r1 p1" "path r2 p2" "node s' i1 r1 p1 \<noteq> 0" "node s' i1 r1 p1 = node s' i2 r2 p2"
    show "i1 = i2 \<and> r1 = r2 \<and> p1 = p2"
      by (rule sfs_okD(9) [OF ok a(1-4)]) (use a(5,6) N [OF a(1,3)] N [OF a(2,4)] in metis)+
  qed
  ultimately show "sfs_ok F s'" by (simp add: sfs_ok_def)
  note G = get_put32 [OF sfs_okD(1) [OF ok], of 0 _ ino "word_of_nat n"]
  show "i \<in> F \<Longrightarrow> file_size s' i = (if i = ino then n else file_size s i)"
    using G [of 0] n by (simp add: file_size_def d sfi_size_def ptr_def unat_of_nat)
  show "i \<in> F \<Longrightarrow> file_attr s' i = file_attr s i"
    using G [of 1] by (simp add: file_attr_def d)
  show "file_byte s' i pos = file_byte s i pos" if i: "i \<in> F" and pos: "pos < MAXBYTES"
  proof -
    obtain r p where l: "leaf (pos div 512) = (r, p)" by fastforce
    note P = leaf_path [OF pos_block [OF pos] l]
    have e: "fblock s' i (pos div 512) = fblock s i (pos div 512)" using N [OF i] P by (simp add: leaf_fblock [OF l])
    have "fblock s i (pos div 512) \<noteq> 0 \<Longrightarrow> fblock s i (pos div 512) \<noteq> ino"
      using sfs_okD(8) [OF ok i, of r p] P ino by (auto simp: leaf_fblock [OF l])
    then show ?thesis using e d by (simp add: file_byte_def)
  qed
qed

lemma sfs_io_write:
  assumes r: "io_ready F ino u s" and w: "uio_rw u = UIO_WRITE" and io: "io ino = None"
  obtains e u' s' k where "sfs_io io ino u s = Some (e, u', s')" "k \<le> uio_resid u" "uio_offset u' = uio_offset u + k"
    "uio_resid u' = uio_resid u - k" "case e of None \<Rightarrow> k = uio_resid u \<and> \<not> bitlock s' | Some e \<Rightarrow> failed io True s' e"
    "sfs_ok F s'"
    "\<And>i. i \<in> F \<Longrightarrow> file_size s' i = (if i = ino then max (file_size s i) (uio_offset u + k) else file_size s i)"
    "\<And>i. i \<in> F \<Longrightarrow> file_attr s' i = file_attr s i"
    "\<And>i pos. i \<in> F \<Longrightarrow> pos < MAXBYTES \<Longrightarrow> file_byte s' i pos =
      (if i = ino \<and> uio_offset u \<le> pos \<and> pos < uio_offset u + k then data u ! (pos - uio_offset u) else file_byte s i pos)"
proof -
  have ino: "ino \<in> F" and lim: "uio_offset u + uio_resid u \<le> MAXBYTES" and len: "length (data u) = uio_resid u"
    using r w by (simp_all add: io_ready_def)
  obtain e u' s1 k where t: "sfs_transfer io ino u s = Some (e, u', s1)" "k \<le> uio_resid u" "moved F ino u s k u' s1"
      "case e of None \<Rightarrow> k = uio_resid u \<and> \<not> bitlock s1 | Some e \<Rightarrow> failed io (uio_rw u = UIO_WRITE) s1 e"
    by (rule io_doneE [OF sfs_transfer_ok [OF r, of io]])
  have u': "uio_rw u' = UIO_WRITE" "uio_offset u' = uio_offset u + k" "uio_resid u' = uio_resid u - k"
      and wr: "wrote F ino (uio_offset u) (take k (data u)) s s1"
    using t(3) w by (simp_all add: moved_def)
  have ok1: "sfs_ok F s1" and size1: "\<And>i. i \<in> F \<Longrightarrow> file_size s1 i = file_size s i"
      and attr1: "\<And>i. i \<in> F \<Longrightarrow> file_attr s1 i = file_attr s i"
      and byte1: "\<And>i pos. i \<in> F \<Longrightarrow> pos < MAXBYTES \<Longrightarrow> file_byte s1 i pos =
        (if i = ino \<and> uio_offset u \<le> pos \<and> pos < uio_offset u + k then data u ! (pos - uio_offset u) else file_byte s i pos)"
    using wr t(2) len by (auto simp: wrote_def)
  define big where "big = (uio_offset u' > ptr (disk s1 ino) sfi_size)"
  define s2 where "s2 = check_and_record (Rec_isize ino (uio_offset u' mod 2 ^ 32)) (set_ptr ino sfi_size (uio_offset u') s1)"
  have n: "uio_offset u' < 2 ^ 32" using u'(2) t(2) lim by (simp add: MAXBYTES_def MAXBLOCKS_def)
  note R = resize_ok [where rec = "Rec_isize ino (uio_offset u' mod 2 ^ 32)", OF ok1 ino n, folded s2_def]
  have bl: "bitlock s2 = bitlock s1" by (simp add: s2_def check_and_record_def set_ptr_def set_block_def)
  have run: "sfs_io io ino u s = Some (e, u', if big then s2 else s1)"
    unfolding sfs_io_def Let_def using io w t(1) u'(1) by (simp add: big_def s2_def)
  show thesis
  proof (rule that [OF run t(2) u'(2,3)])
    show "case e of None \<Rightarrow> k = uio_resid u \<and> \<not> bitlock (if big then s2 else s1) | Some e \<Rightarrow> failed io True (if big then s2 else s1) e"
      using t(4) w bl by (simp add: failed_def split: option.splits)
    show "sfs_ok F (if big then s2 else s1)" using ok1 R(1) by simp
    show "file_size (if big then s2 else s1) i = (if i = ino then max (file_size s i) (uio_offset u + k) else file_size s i)" if "i \<in> F" for i
      using R(2) [OF that] size1 [OF that] size1 [OF ino] u'(2) by (auto simp: big_def file_size_def)
    show "file_attr (if big then s2 else s1) i = file_attr s i" if "i \<in> F" for i
      using R(3) [OF that] attr1 [OF that] by simp
    show "file_byte (if big then s2 else s1) i pos =
      (if i = ino \<and> uio_offset u \<le> pos \<and> pos < uio_offset u + k then data u ! (pos - uio_offset u) else file_byte s i pos)"
      if "i \<in> F" "pos < MAXBYTES" for i pos
      by (cases big) (simp_all only: if_True if_False R(4) [OF that] byte1 [OF that])
  qed
qed

lemma sfs_io_read:
  assumes r: "io_ready F ino u s" and w: "uio_rw u = UIO_READ" and io: "io ino = None"
  defines "n \<equiv> min (uio_resid u) (file_size s ino - uio_offset u)"
  obtains e u' k where "sfs_io io ino u s = Some (e, u', s)" "k \<le> n"
    "u' = u\<lparr>uio_offset := uio_offset u + k, uio_resid := uio_resid u - k,
      data := data u @ map (file_byte s ino) [uio_offset u..<uio_offset u + k]\<rparr>"
    "case e of None \<Rightarrow> k = n | Some e \<Rightarrow> \<exists>b. io b = Some e"
proof (cases "uio_offset u \<ge> file_size s ino")
  case True
  then have "sfs_io io ino u s = Some (None, u, s)" using io w by (simp add: sfs_io_def file_size_def)
  then show thesis using that [of None u 0] True by (simp add: n_def)
next
  case False
  define x where "x = (if uio_offset u + uio_resid u > file_size s ino then uio_offset u + uio_resid u - file_size s ino else 0)"
  define v where "v = u\<lparr>uio_resid := uio_resid u - x\<rparr>"
  have xe: "(if uio_rw u = UIO_READ \<and> uio_offset u + uio_resid u > ptr (disk s ino) sfi_size
      then uio_offset u + uio_resid u - ptr (disk s ino) sfi_size else 0) = x" using w by (simp add: x_def file_size_def)
  have x: "x = 0 \<or> uio_resid u > x" "uio_resid u - x = n" "uio_resid u = n + x" using False by (auto simp: x_def n_def)
  have l: "\<not> bitlock s" using r by (simp add: io_ready_def)
  have rv: "io_ready F ino v s" using r w x by (simp add: io_ready_def v_def)
  have v: "uio_offset v = uio_offset u" "uio_resid v = n" "uio_rw v = UIO_READ" "data v = data u" using w x by (simp_all add: v_def)
  obtain e u' s1 k where t: "sfs_transfer io ino v s = Some (e, u', s1)" "k \<le> n" "moved F ino v s k u' s1"
      "case e of None \<Rightarrow> k = n \<and> \<not> bitlock s1 | Some e \<Rightarrow> failed io (uio_rw v = UIO_WRITE) s1 e"
    using io_doneE [OF sfs_transfer_ok [OF rv, of io]] v(2) by metis
  have u': "uio_rw u' = UIO_READ" "uio_offset u' = uio_offset u + k" "uio_resid u' = n - k" "s1 = s"
      "data u' = data u @ map (file_byte s ino) [uio_offset u..<uio_offset u + k]"
    using t(3) v by (simp_all add: moved_def)
  have "sfs_io io ino u s = Some (e, u'\<lparr>uio_resid := uio_resid u' + x\<rparr>, s)"
    unfolding sfs_io_def Let_def xe v_def [symmetric] using io False t(1) u'(1,4) x(1) by (simp add: file_size_def)
  moreover have "u'\<lparr>uio_resid := uio_resid u' + x\<rparr> = u\<lparr>uio_offset := uio_offset u + k, uio_resid := uio_resid u - k,
      data := data u @ map (file_byte s ino) [uio_offset u..<uio_offset u + k]\<rparr>"
    using u' w t(2) x(3) by (intro uio.equality) simp_all
  moreover have "case e of None \<Rightarrow> k = n | Some e \<Rightarrow> \<exists>b. io b = Some e"
    using t(4) v(3) u'(4) l by (simp add: failed_def split: option.splits)
  ultimately show thesis using that t(2) by blast
qed

text \<open>A write that stays within a block is stored whole or not at all.\<close>

lemma partialio_fail:
  assumes r: "io_ready F ino u s" and off: "uio_offset u < MAXBYTES" and w: "uio_rw u = UIO_WRITE"
    and res: "sfs_partialio io ino k len u s = Some (Some e, u', s')"
  shows "u' = u \<and> sfs_ok F s' \<and> same_files F s s' \<and> failed io True s' e"
proof -
  have ok: "sfs_ok F s" and l: "\<not> bitlock s" and ino: "ino \<in> F" using r by (simp_all add: io_ready_def)
  note fb = fileblock_ok [OF off]
  have K: "k + len \<le> SFS_BLOCKSIZE" using res unfolding sfs_partialio_def Let_def by (cases "k + len \<le> SFS_BLOCKSIZE") simp_all
  show ?thesis
  proof (cases rule: mappedE [OF sfs_bmap_ok [OF ok l ino fb(2), of io "uio_rw u = UIO_WRITE"]])
    case (1 e' t)
    then have "sfs_partialio io ino k len u s = Some (Some e', u, t)"
      using K unfolding sfs_partialio_def Let_def fb(1) by simp
    then show ?thesis using res 1 w by simp
  next
    case (2 t)
    let ?b = "fblock t ino (uio_offset u div 512)"
    have b: "?b \<noteq> 0" using 2(6) w by simp
    show ?thesis
    proof (cases "io ?b")
      case None
      then have "\<exists>v x. sfs_partialio io ino k len u s = Some (None, v, x)"
        using K 2(1) b w unfolding sfs_partialio_def Let_def fb(1) by (simp split: prod.split)
      then show ?thesis using res by simp
    next
      case (Some e')
      then have "sfs_partialio io ino k len u s = Some (Some e', u, t)"
        using K 2(1) b unfolding sfs_partialio_def Let_def fb(1) by simp
      then show ?thesis using res 2(2,3,5) Some by (auto simp: failed_def)
    qed
  qed
qed

lemma transfer_small:
  assumes r: "io_ready F ino u s" and n: "0 < uio_resid u" "uio_resid u < 512" "uio_offset u mod 512 + uio_resid u \<le> 512"
  shows "sfs_transfer io ino u s = sfs_partialio io ino (uio_offset u mod 512) (uio_resid u) u s"
proof (cases "uio_offset u mod 512 = 0")
  case True
  then show ?thesis using n unfolding sfs_transfer_def Let_def SFS_BLOCKSIZE_def by simp
next
  case False
  have off: "uio_offset u < MAXBYTES" using r n(1) by (simp add: io_ready_def)
  have m: "min (512 - uio_offset u mod 512) (uio_resid u) = uio_resid u" using n(3) by simp
  show ?thesis
  proof (rule io_doneE [OF partialio_ok [OF r le_refl off n(3), of io]])
    fix e u' s' k
    assume p: "sfs_partialio io ino (uio_offset u mod 512) (uio_resid u) u s = Some (e, u', s')" and mv: "moved F ino u s k u' s'"
      and e: "case e of None \<Rightarrow> k = uio_resid u \<and> \<not> bitlock s' | Some x \<Rightarrow> failed io (uio_rw u = UIO_WRITE) s' x"
    have "e = None \<Longrightarrow> uio_resid u' = 0" using mv e by (simp add: moved_def)
    then show ?thesis using False p unfolding sfs_transfer_def Let_def SFS_BLOCKSIZE_def m by (cases e) simp_all
  qed
qed

lemma sfs_io_small_error:
  assumes r: "io_ready F ino u s" and w: "uio_rw u = UIO_WRITE"
    and n: "0 < uio_resid u" "uio_resid u < 512" "uio_offset u mod 512 + uio_resid u \<le> 512" and sz: "uio_offset u \<le> file_size s ino"
    and res: "sfs_io io ino u s = Some (Some e, u', s')"
  shows "sfs_ok F s' \<and> same_files F s s' \<and> failed io True s' e"
proof (cases "io ino")
  case (Some x)
  then show ?thesis using res r by (auto simp: sfs_io_def io_ready_def failed_def)
next
  case None
  have off: "uio_offset u < MAXBYTES" using r n(1) by (simp add: io_ready_def)
  obtain e1 u1 s1 where p: "sfs_partialio io ino (uio_offset u mod 512) (uio_resid u) u s = Some (e1, u1, s1)"
    by (rule io_doneE [OF partialio_ok [OF r le_refl off n(3), of io]])
  have t: "sfs_transfer io ino u s = Some (e1, u1, s1)" using transfer_small [OF r n, of io] p by simp
  have e: "e1 = Some e" using res None w t unfolding sfs_io_def Let_def by (simp split: if_splits)
  have f: "u1 = u \<and> sfs_ok F s1 \<and> same_files F s s1 \<and> failed io True s1 e"
    by (rule partialio_fail [OF r off w]) (use p e in simp)
  have "file_size s1 ino = file_size s ino" using f r by (auto simp: same_files_def io_ready_def)
  then have "\<not> uio_offset u > ptr (disk s1 ino) sfi_size" using sz by (simp add: file_size_def)
  then have "s' = s1" using res None w t f unfolding sfs_io_def Let_def by auto
  then show ?thesis using f by simp
qed

section \<open>Properties\<close>

text \<open>A file system with one empty file, whose inode is block 1.\<close>

definition demo_sfs :: sfs where
  "demo_sfs = \<lparr>disk = \<lambda>_. zero_block, freemap = \<lparr>nbits = 8, bm_v = [3]\<rparr>, nblocks = 8, bitlock = False, journal = []\<rparr>"

lemma node_empty: "path r p \<Longrightarrow> (\<And>b. disk s b = zero_block) \<Longrightarrow> node s ino r p = 0"
  by (cases p) (auto simp: path_def ptr_zero_block)

lemma demo_sfs_used: "bitmap_used (freemap demo_sfs) = {0, 1}"
proof -
  have "bm_bit [3] i \<longleftrightarrow> i = 0 \<or> i = 1" if "i < 8" for i
  proof -
    have "i \<in> {0, 1, 2, 3, 4, 5, 6, 7}" using that by auto
    then show ?thesis by (elim insertE) (simp_all add: bm_bit_def)
  qed
  then show ?thesis by (auto simp: bitmap_used_def demo_sfs_def)
qed

lemma demo_sfs_ok: "sfs_ok {1} demo_sfs"
proof -
  have n: "node demo_sfs ino r p = 0" if "path r p" for ino r p
    by (rule node_empty [OF that]) (simp add: demo_sfs_def)
  have "bitmap_inv (freemap demo_sfs)" by (simp add: demo_sfs_def bitmap_inv_def)
  then have "map_ok {1} demo_sfs"
    using demo_sfs_used by (simp add: map_ok_def) (simp add: demo_sfs_def zero_block_def SFS_BLOCKSIZE_def)
  then show ?thesis using n by (simp add: sfs_ok_def nodes_ok_def nodes_distinct_def)
qed

lemma demo_sfs_unlocked: "\<not> bitlock demo_sfs"
  by (simp add: demo_sfs_def)







text \<open>C38. A full disk.  When every block is in use an allocation reports ENOSPC without releasing the lock on the
  free map, so that from then on no allocation, no freeing and no check of a block comes back.
\<close>

theorem sfs_balloc_full:
  assumes "sfs_ok F s" "\<not> bitlock s" "bitmap_used (freemap s) = {..<nbits (freemap s)}"
  shows "\<exists>s'. sfs_balloc io s = Some (Inl ENOSPC, s') \<and> bitlock s' \<and> disk s' = disk s \<and>
    sfs_balloc io' s' = None \<and> sfs_bfree b s' = None \<and> sfs_bused b s' = None"
  using bm.alloc_full [OF sfs_okD(2) [OF assms(1)] assms(3)] assms(2)
  by (simp add: sfs_balloc_def sfs_bfree_def sfs_bused_def lock_bitmap_def)

lemma demo_full_ok:
  defines "s \<equiv> demo_sfs\<lparr>freemap := \<lparr>nbits = 8, bm_v = [255]\<rparr>\<rparr>"
  shows "sfs_ok {1} s" "bitmap_used (freemap s) = {..<nbits (freemap s)}"
proof -
  have b: "bm_bit [255] i" if "i < 8" for i
  proof -
    have "i \<in> {0, 1, 2, 3, 4, 5, 6, 7}" using that by auto
    then show ?thesis by (elim insertE) (simp_all add: bm_bit_def)
  qed
  show u: "bitmap_used (freemap s) = {..<nbits (freemap s)}" using b by (auto simp: bitmap_used_def s_def)
  show "sfs_ok {1} s"
    by (rule sfs_ok_mark [OF demo_sfs_ok]) (use u demo_sfs_used in \<open>simp_all add: s_def demo_sfs_def bitmap_inv_def\<close>)
qed

theorem sfs_balloc_full_witness:
  "\<exists>s'. sfs_balloc (\<lambda>_. None) (demo_sfs\<lparr>freemap := \<lparr>nbits = 8, bm_v = [255]\<rparr>\<rparr>) = Some (Inl ENOSPC, s') \<and> bitlock s' \<and>
    disk s' = disk (demo_sfs\<lparr>freemap := \<lparr>nbits = 8, bm_v = [255]\<rparr>\<rparr>) \<and>
    sfs_balloc (\<lambda>_. None) s' = None \<and> sfs_bfree 2 s' = None \<and> sfs_bused 2 s' = None"
  by (rule sfs_balloc_full [OF demo_full_ok(1) _ demo_full_ok(2)]) (simp add: demo_sfs_def)

end
