(* ===== verification/Spec2Isabelle.thy ===== *)
theory Spec2Isabelle
  imports Memory Qdivrem Printf Menu Array Threadlist Handoff Kernel_heap Process Sfs
begin

text \<open>
  A verification development for petrel-os, an OS/161 kernel in C (src/kern, with the C library
  parts under src/common that the kernel links).  It models the parts of the kernel that keep
  state of their own, as executable functions that follow the source function by function, and proves
  what the rest of the kernel relies on.

  \<^bold>\<open>Reading the model.\<close>  A routine that can panic, fail a KASSERT, follow a null or freed pointer
  or loop for ever returns an option, with None for that; a routine with an error number returns a
  sum, with Inl for the error.  Structures are records with the names of the source; pointers are
  numbers.  32 and 64 bit integers are words, or natural numbers with the wrap-around written out where a
  bound makes it impossible.  Loops without a bound in the source are partial functions, and that
  they end is proved.  What lies outside (the disk, the processor's choice of a TLB slot,
  whether kmalloc finds memory where only that matters) is an argument.

  \<^bold>\<open>Parts and theories.\<close>
  \<^item> \<open>Prelude\<close>: error numbers, KASSERT, shared facts on lists and words.
  \<^item> \<open>Bitmap\<close>: kern/lib/bitmap.c.  The locale \<open>index_allocator\<close> is what the users of a bitmap rely
    on; the bitmap operations interpret it, and the swap map and the free map of SFS use the facts.
  \<^item> \<open>Addrspace\<close>: page tables, regions and the heap of one address space (kern/vm/addrspace.c,
    kern/syscall/sbrk.c).  \<open>Tlb\<close>: kern/arch/mips/vm/tlb-mips1.S.
  \<^item> \<open>Coremap\<close>: kern/arch/mips/vm/coremap.c, the frames, the clock, swapping.  \<open>Paging\<close> has the
    invariant \<open>vm_inv\<close> that ties core map, page tables and swap map together, and its
    preservation; \<open>Vm\<close> has vm_fault and the creation, copying and destruction of address spaces;
    \<open>Lifecycle\<close>, \<open>Copying\<close> and \<open>Progress\<close> prove boot, release, copying and that faults are served;
    \<open>Memory\<close> states the results: isolation over arbitrary runs, transparency of faults, copies that equal
    their originals, termination of the clock.
  \<^item> \<open>Kmalloc\<close>: kern/vm/kmalloc.c.  \<open>Kernel_heap\<close> puts it on the core map: the locale
    \<open>page_source\<close> is what the allocator needs of a page allocator, alloc_kpages and free_kpages
    interpret it, and blocks in use never overlap and keep their contents.
  \<^item> \<open>Threadlist\<close>: kern/thread/threadlist.c as lists.  \<open>Synch\<close> and \<open>Handoff\<close>: spinlocks,
    wait channels, semaphores, locks and condition variables (kern/thread/spinlock.c, synch.c,
    thread.c) with all interleavings of their steps: no assertion fails, locks exclude, no wake-up is
    lost, no deadlock inside.
  \<^item> \<open>Files\<close>: the descriptor calls of kern/syscall/io_syscalls.c; exact reference counts over all
    sequences of calls of all processes.  \<open>Process\<close>: fork.c, waitexit_syscalls.c and the reaping of
    threads, interleaved; it uses \<open>Files\<close> for what fork and exit do to descriptors.
  \<^item> \<open>Sfs\<close>: the file data of the SFS file system (the first part of kern/fs/sfs/sfs_vnode.c): block
    allocation on \<open>Bitmap\<close>, the block map with its three levels of indirection, reading and writing.  The
    block trees of all files stay disjoint, and writes and reads act on files as on arrays of bytes.
  \<^item> \<open>Millicode\<close>, \<open>Qdivrem\<close>: the 64-bit arithmetic of common/gcc-millicode, equal to the
    arithmetic of words.  \<open>Cstring\<close>, \<open>Printf\<close>: common/libc; the locale \<open>printf_sink\<close> is what the
    formatter asks of its output function.  \<open>Array\<close>: kern/lib/array.c.  \<open>Menu\<close>: the command
    interpreter of kern/startup/menu.c.

  \<^bold>\<open>How the parts meet.\<close>  vm_fault, as_copy and kmalloc all draw frames from the one core map, so
  the memory theorems are about one shared state; kmalloc's theorem speaks of the same state.
  fork is in \<open>Process\<close> for the process table and in \<open>Memory\<close> for the address space; the
  semaphores by which processes wait are those of \<open>Handoff\<close>, here as counts.  The snprintf and atoi
  theorem joins \<open>Printf\<close> and \<open>Cstring\<close>.

  \<^bold>\<open>Bounds.\<close>  The clock, the scans of kmalloc and the string loops have no fuel: they are partial
  functions with termination theorems.  Table sizes are those of the source (1024 page table
  entries, 64 TLB slots, 256 pagerefs, 256 processes, 16 descriptors); the number of frames,
  processors and threads is arbitrary.

  \<^bold>\<open>Not modelled.\<close>  Of SFS, truncation, the names and vnodes, mounting, the journal on disk and the
  recovery from it, and the buffer cache below (in \<open>Sfs\<close> a disk whose buffers may be refused); the virtual file
  system layer above: the calls into it are arguments of \<open>Files\<close>.  The choice of the next thread
  (thread_switch, the feedback queues, migration), interrupt levels and interprocessor interrupts:
  the thread theories allow every order of steps, so they do not depend on it.  exec and the ELF
  loader, trap and system call entry, device drivers and the hardware: they are input and output,
  or code for the machine.  The processes of user/ and the tests of kern/test.
\<close>

end
